(* ===== verification/WbPrelude.thy ===== *)
theory WbPrelude
  imports Main "HOL-Library.AList"
begin

text \<open>
  Shared material of the development: results of a call (a value, an error, a panic, or a call
  that waits for a lock somebody else holds), programs that thread a state, their composition,
  a small Hoare calculus for them, and the facts on association lists and on lists of keys that
  the components share.
\<close>

named_theorems prog_defs \<open>definitions of the elementary programs\<close>
named_theorems prog_intros \<open>introduction rules of the Hoare calculus\<close>

section \<open>Results and programs\<close>

text \<open>
  A call of the source ends with a value (\<open>Ok\<close>), with an error of the data controller's type
  (\<open>Fail\<close>, the \<open>Err\<close> of a Rust \<open>Result\<close>), with a panic (\<open>Panic\<close>, with the start of
  its message), or it does not end because it awaits a lock that is held (\<open>Wait\<close>).
\<close>

datatype ('e, 'a) res = Ok 'a | Fail 'e | Panic string | Wait

type_synonym ('s, 'e, 'a) prog = "'s \<Rightarrow> ('e, 'a) res \<times> 's"

definition ret :: "'a \<Rightarrow> ('s, 'e, 'a) prog" where
  "ret a = (\<lambda>s. (Ok a, s))"

definition throw :: "'e \<Rightarrow> ('s, 'e, 'a) prog" where
  "throw e = (\<lambda>s. (Fail e, s))"

definition panic :: "string \<Rightarrow> ('s, 'e, 'a) prog" where
  "panic msg = (\<lambda>s. (Panic msg, s))"

definition waits :: "('s, 'e, 'a) prog" where
  "waits = (\<lambda>s. (Wait, s))"

definition bnd :: "('s, 'e, 'a) prog \<Rightarrow> ('a \<Rightarrow> ('s, 'e, 'b) prog) \<Rightarrow> ('s, 'e, 'b) prog" where
  "bnd m f = (\<lambda>s. case m s of
       (Ok a, s') \<Rightarrow> f a s'
     | (Fail e, s') \<Rightarrow> (Fail e, s')
     | (Panic msg, s') \<Rightarrow> (Panic msg, s')
     | (Wait, s') \<Rightarrow> (Wait, s'))"

definition gets :: "('s \<Rightarrow> 'a) \<Rightarrow> ('s, 'e, 'a) prog" where
  "gets g = (\<lambda>s. (Ok (g s), s))"

definition modify :: "('s \<Rightarrow> 's) \<Rightarrow> ('s, 'e, unit) prog" where
  "modify g = (\<lambda>s. (Ok (), g s))"

text \<open>Work done when a scope is left on every path: the drop of a guard or of a reference.\<close>

definition on_exit :: "('s, 'e, 'a) prog \<Rightarrow> ('s \<Rightarrow> 's) \<Rightarrow> ('s, 'e, 'a) prog" where
  "on_exit m g = (\<lambda>s. case m s of (r, s') \<Rightarrow> (r, case r of Wait \<Rightarrow> s' | _ \<Rightarrow> g s'))"

text \<open>Work done only when a scope is left by an error or a panic.\<close>

definition on_err :: "('s, 'e, 'a) prog \<Rightarrow> ('s \<Rightarrow> 's) \<Rightarrow> ('s, 'e, 'a) prog" where
  "on_err m g = (\<lambda>s. case m s of (r, s') \<Rightarrow> (r, case r of Fail _ \<Rightarrow> g s' | Panic _ \<Rightarrow> g s' | _ \<Rightarrow> s'))"

text \<open>\<open>Result::unwrap\<close>: an error becomes a panic.\<close>

definition unwrap_res :: "string \<Rightarrow> ('s, 'e, 'a) prog \<Rightarrow> ('s, 'e, 'a) prog" where
  "unwrap_res msg m = (\<lambda>s. case m s of (Fail e, s') \<Rightarrow> (Panic msg, s') | (r, s') \<Rightarrow> (r, s'))"

text \<open>A \<open>for\<close> loop whose body may leave early with \<open>?\<close>.\<close>

fun for_each :: "('x \<Rightarrow> ('s, 'e, unit) prog) \<Rightarrow> 'x list \<Rightarrow> ('s, 'e, unit) prog" where
  "for_each f [] = ret ()"
| "for_each f (x # xs) = bnd (f x) (\<lambda>_. for_each f xs)"

declare ret_def [prog_defs] throw_def [prog_defs] panic_def [prog_defs] waits_def [prog_defs]
  gets_def [prog_defs] modify_def [prog_defs]

subsection \<open>Forward evaluation\<close>

lemma ret_apply [simp]: "ret a s = (Ok a, s)"
  by (simp add: ret_def)

lemma throw_apply [simp]: "throw e s = (Fail e, s)"
  by (simp add: throw_def)

lemma panic_apply [simp]: "panic msg s = (Panic msg, s)"
  by (simp add: panic_def)

lemma waits_apply [simp]: "waits s = (Wait, s)"
  by (simp add: waits_def)

lemma gets_apply [simp]: "gets g s = (Ok (g s), s)"
  by (simp add: gets_def)

lemma modify_apply [simp]: "modify g s = (Ok (), g s)"
  by (simp add: modify_def)

lemma bnd_simps [simp]:
  "m s = (Ok a, s') \<Longrightarrow> bnd m f s = f a s'"
  "m s = (Fail e, s') \<Longrightarrow> bnd m f s = (Fail e, s')"
  "m s = (Panic msg, s') \<Longrightarrow> bnd m f s = (Panic msg, s')"
  "m s = (Wait, s') \<Longrightarrow> bnd m f s = (Wait, s')"
  by (simp_all add: bnd_def)

lemma bnd_unit_simps [simp]:
  "bnd (ret a) f = f a"
  "bnd (throw e) f = throw e"
  "bnd (panic msg) f = panic msg"
  "bnd waits f = waits"
  by (auto simp: bnd_def fun_eq_iff)

lemma bnd_modify [simp]: "bnd (modify g) f s = f () (g s)"
  by (simp add: bnd_def)

lemma bnd_gets [simp]: "bnd (gets g) f s = f (g s) s"
  by (simp add: bnd_def)

lemma bnd_assoc: "bnd (bnd m f) g = bnd m (\<lambda>a. bnd (f a) g)"
  by (auto simp: bnd_def fun_eq_iff split: prod.splits res.splits)

subsection \<open>Inversion\<close>

lemma bnd_Ok_iff:
  "bnd m f s = (Ok b, t) \<longleftrightarrow> (\<exists>a s'. m s = (Ok a, s') \<and> f a s' = (Ok b, t))"
  by (auto simp: bnd_def split: prod.splits res.splits)

lemma bnd_Fail_iff:
  "bnd m f s = (Fail e, t) \<longleftrightarrow>
     m s = (Fail e, t) \<or> (\<exists>a s'. m s = (Ok a, s') \<and> f a s' = (Fail e, t))"
  by (auto simp: bnd_def split: prod.splits res.splits)

lemma bnd_OkE [elim!]:
  assumes "bnd m f s = (Ok b, t)"
  obtains a s' where "m s = (Ok a, s')" and "f a s' = (Ok b, t)"
  using assms by (auto simp: bnd_Ok_iff)

lemma on_exit_simps [simp]:
  "m s = (Ok a, s') \<Longrightarrow> on_exit m g s = (Ok a, g s')"
  "m s = (Fail e, s') \<Longrightarrow> on_exit m g s = (Fail e, g s')"
  "m s = (Panic msg, s') \<Longrightarrow> on_exit m g s = (Panic msg, g s')"
  "m s = (Wait, s') \<Longrightarrow> on_exit m g s = (Wait, s')"
  by (simp_all add: on_exit_def)

lemma on_err_simps [simp]:
  "m s = (Ok a, s') \<Longrightarrow> on_err m g s = (Ok a, s')"
  "m s = (Fail e, s') \<Longrightarrow> on_err m g s = (Fail e, g s')"
  "m s = (Panic msg, s') \<Longrightarrow> on_err m g s = (Panic msg, g s')"
  "m s = (Wait, s') \<Longrightarrow> on_err m g s = (Wait, s')"
  by (simp_all add: on_err_def)

lemma on_exit_Ok_iff:
  "on_exit m g s = (Ok a, t) \<longleftrightarrow> (\<exists>s'. m s = (Ok a, s') \<and> t = g s')"
  by (auto simp: on_exit_def split: prod.splits res.splits)

lemma unwrap_res_Ok_iff: "unwrap_res msg m s = (Ok a, t) \<longleftrightarrow> m s = (Ok a, t)"
  by (auto simp: unwrap_res_def split: prod.splits res.splits)

section \<open>A Hoare calculus\<close>

text \<open>
  \<open>hoare P m Q\<close>: from a state with \<open>P\<close>, the result and the final state of \<open>m\<close> satisfy
  \<open>Q\<close>, whatever the result is. \<open>preserves I m\<close> is the case of an invariant.
\<close>

definition hoare :: "('s \<Rightarrow> bool) \<Rightarrow> ('s, 'e, 'a) prog \<Rightarrow> (('e, 'a) res \<Rightarrow> 's \<Rightarrow> bool) \<Rightarrow> bool" where
  "hoare P m Q \<longleftrightarrow> (\<forall>s. P s \<longrightarrow> Q (fst (m s)) (snd (m s)))"

definition preserves :: "('s \<Rightarrow> bool) \<Rightarrow> ('s, 'e, 'a) prog \<Rightarrow> bool" where
  "preserves I m \<longleftrightarrow> (\<forall>s. I s \<longrightarrow> I (snd (m s)))"

lemma hoareI: "(\<And>s r t. P s \<Longrightarrow> m s = (r, t) \<Longrightarrow> Q r t) \<Longrightarrow> hoare P m Q"
  by (simp add: hoare_def)

lemma hoareD: "hoare P m Q \<Longrightarrow> P s \<Longrightarrow> m s = (r, t) \<Longrightarrow> Q r t"
  by (force simp: hoare_def)

lemma preservesI: "(\<And>s r t. I s \<Longrightarrow> m s = (r, t) \<Longrightarrow> I t) \<Longrightarrow> preserves I m"
  by (metis preserves_def prod.collapse)

lemma preservesD: "preserves I m \<Longrightarrow> I s \<Longrightarrow> m s = (r, t) \<Longrightarrow> I t"
  by (force simp: preserves_def)

lemma preserves_snd: "preserves I m \<Longrightarrow> I s \<Longrightarrow> I (snd (m s))"
  by (simp add: preserves_def)

lemma preserves_unit [prog_intros]:
  "preserves I (ret a)" "preserves I (throw e)" "preserves I (panic msg)" "preserves I waits"
  "preserves I (gets g)"
  by (simp_all add: preserves_def)

lemma preserves_modify [prog_intros]: "(\<And>s. I s \<Longrightarrow> I (g s)) \<Longrightarrow> preserves I (modify g)"
  by (simp add: preserves_def)

lemma preserves_bnd [prog_intros]:
  assumes "preserves I m" and "\<And>a. preserves I (f a)"
  shows "preserves I (bnd m f)"
  using assms by (auto simp: preserves_def bnd_def split: prod.splits res.splits)

lemma preserves_for_each [prog_intros]:
  "(\<And>x. preserves I (f x)) \<Longrightarrow> preserves I (for_each f xs)"
  by (induction xs) (auto intro: preserves_bnd preserves_unit)

lemma preserves_unwrap_res [prog_intros]: "preserves I m \<Longrightarrow> preserves I (unwrap_res msg m)"
  by (auto simp: preserves_def unwrap_res_def split: prod.splits res.splits)

section \<open>Association lists as hash maps\<close>

text \<open>
  A \<open>HashMap\<close> is an association list with distinct keys. Its order stands for nothing: code
  that iterates over the map takes the iteration order as a parameter.
\<close>

definition hm_wf :: "('k \<times> 'x) list \<Rightarrow> bool" where
  "hm_wf al \<longleftrightarrow> distinct (map fst al)"

definition hm_insert :: "'k \<Rightarrow> 'x \<Rightarrow> ('k \<times> 'x) list \<Rightarrow> ('k \<times> 'x) list" where
  "hm_insert k x al = AList.update k x al"

definition hm_remove :: "'k \<Rightarrow> ('k \<times> 'x) list \<Rightarrow> ('k \<times> 'x) list" where
  "hm_remove k al = AList.delete k al"

lemma map_of_hm_insert [simp]: "map_of (hm_insert k x al) = (map_of al)(k \<mapsto> x)"
  by (simp add: hm_insert_def update_conv')

lemma map_of_hm_remove [simp]: "map_of (hm_remove k al) = (map_of al)(k := None)"
  by (simp add: hm_remove_def delete_conv')

lemma hm_wf_insert [simp]: "hm_wf al \<Longrightarrow> hm_wf (hm_insert k x al)"
  by (simp add: hm_wf_def hm_insert_def distinct_update)

lemma hm_wf_remove [simp]: "hm_wf al \<Longrightarrow> hm_wf (hm_remove k al)"
  by (simp add: hm_wf_def hm_remove_def distinct_delete)

lemma hm_wf_Nil [simp]: "hm_wf []"
  by (simp add: hm_wf_def)

lemma set_hm_remove: "set (hm_remove k al) = {(k', x) \<in> set al. k' \<noteq> k}"
  by (auto simp: hm_remove_def AList.delete_eq)

lemma hm_wf_set_map_of: "hm_wf al \<Longrightarrow> (k, x) \<in> set al \<longleftrightarrow> map_of al k = Some x"
  by (auto simp: hm_wf_def dest: map_of_SomeD)

lemma length_hm_insert_new: "map_of al k = None \<Longrightarrow> hm_insert k x al = al @ [(k, x)]"
  by (induction al) (auto simp: hm_insert_def split: if_splits)

end
