(* ===== verification/CacheTypes.thy ===== *)
theory CacheTypes
  imports WbPrelude
begin

text \<open>
  The data of the crate: \<open>src/types.rs\<close>, \<open>src/entry.rs\<close>, the \<open>ValueState\<close> and
  \<open>Cache\<close> types of \<open>src/cache.rs\<close>, the update states of \<open>src/update_state.rs\<close>, the
  iterator of \<open>src/update_iterator.rs\<close>, and the interfaces of \<open>src/traits.rs\<close>. The moka
  cache is third-party code: the record \<open>moka_ops\<close> holds its operations as a parameter, and
  \<open>moka_ok\<close> states what its documentation promises.
\<close>

section \<open>Operations and results\<close>

text \<open>\<open>moka::ops::compute::Op\<close>, which the crate re-exports.\<close>

datatype 'v op = Nop | Put 'v | Remove

text \<open>\<open>ValueState\<close>: the record itself under its primary key, or a reference to it.\<close>

datatype ('k, 'v) value_state = Primary 'v | Secondary 'k

definition into_value :: "('k, 'v) value_state \<Rightarrow> ('s, 'e, 'v) prog" where
  "into_value vs = (case vs of
       Primary v \<Rightarrow> ret v
     | Secondary _ \<Rightarrow> panic ''secondary doesn't have a value'')"

record ('k, 'v) entry =
  entry_key :: 'k
  entry_value :: 'v

definition entry_new :: "'k \<Rightarrow> 'v \<Rightarrow> ('k, 'v) entry" where
  "entry_new k v = \<lparr>entry_key = k, entry_value = v\<rparr>"

datatype ('k, 'v) comp_result =
    Inserted "('k, 'v) entry"
  | ReplacedWith "('k, 'v) entry"
  | Removed "('k, 'v) entry"
  | Unchanged "('k, 'v) entry"
  | StillNone 'k

datatype dc_op = DcNop | DcInsert | DcRevoke | DcDrop

record 'u dc_response =
  resp_op :: dc_op
  resp_update :: "'u option"

definition wbdc_response :: "dc_op \<Rightarrow> 'u option \<Rightarrow> 'u dc_response" where
  "wbdc_response oper upd = \<lparr>resp_op = oper, resp_update = upd\<rparr>"

section \<open>The moka cache\<close>

text \<open>
  \<open>CompResult\<close> of moka, with the key and the value of the entry it carries. The operations:
  what \<open>get\<close>, \<open>contains_key\<close> and the closures of \<open>entry(key).and_*_with\<close> see of a key;
  the last step of \<open>and_try_compute_with\<close>, which applies the closure's \<open>Op\<close> given the entry
  the closure saw; the insertion of \<open>or_try_insert_with\<close>; and \<open>invalidate\<close>.
\<close>

datatype ('k, 'x) moka_result =
    MokaInserted 'k 'x
  | MokaReplacedWith 'k 'x
  | MokaRemoved 'k 'x
  | MokaUnchanged 'k 'x
  | MokaStillNone 'k

record ('m, 'k, 'x) moka_ops =
  mk_lookup :: "'m \<Rightarrow> 'k \<Rightarrow> 'x option"
  mk_apply :: "'k \<Rightarrow> 'x option \<Rightarrow> 'x op \<Rightarrow> 'm \<Rightarrow> ('k, 'x) moka_result \<times> 'm"
  mk_insert :: "'k \<Rightarrow> 'x \<Rightarrow> 'm \<Rightarrow> 'm"
  mk_invalidate :: "'k \<Rightarrow> 'm \<Rightarrow> 'm"

text \<open>
  The documented behaviour the crate relies on. A bounded cache may drop any entry whenever it
  changes, so contents are bounded from above only (\<open>\<subseteq>\<^sub>m\<close>): no operation makes up an entry,
  a removed key is gone, an entry that a computation puts is the one its result carries. Whether
  a removal reports \<open>Removed\<close> is fixed only where the entry was there up to the end.
\<close>

definition moka_ok :: "('m, 'k, 'x) moka_ops \<Rightarrow> bool" where
  "moka_ok M \<longleftrightarrow>
     (\<forall>k e m r m'. mk_apply M k e Nop m = (r, m') \<longrightarrow>
        mk_lookup M m' \<subseteq>\<^sub>m mk_lookup M m \<and>
        r = (case e of None \<Rightarrow> MokaStillNone k | Some x \<Rightarrow> MokaUnchanged k x)) \<and>
     (\<forall>k e x m r m'. mk_apply M k e (Put x) m = (r, m') \<longrightarrow>
        mk_lookup M m' \<subseteq>\<^sub>m (mk_lookup M m)(k \<mapsto> x) \<and>
        r = (case e of None \<Rightarrow> MokaInserted k x | Some _ \<Rightarrow> MokaReplacedWith k x)) \<and>
     (\<forall>k e m r m'. mk_apply M k e Remove m = (r, m') \<longrightarrow>
        mk_lookup M m' \<subseteq>\<^sub>m (mk_lookup M m)(k := None) \<and>
        (case e of None \<Rightarrow> (mk_lookup M m k = None \<longrightarrow> r = MokaStillNone k)
           | Some x \<Rightarrow> (mk_lookup M m k = Some x \<longrightarrow> r = MokaRemoved k x)) \<and>
        (r = MokaStillNone k \<or> (\<exists>x. r = MokaRemoved k x \<and> (e = Some x \<or> mk_lookup M m k = Some x)))) \<and>
     (\<forall>k x m. mk_lookup M (mk_insert M k x m) \<subseteq>\<^sub>m (mk_lookup M m)(k \<mapsto> x)) \<and>
     (\<forall>k m. mk_lookup M (mk_invalidate M k m) \<subseteq>\<^sub>m (mk_lookup M m)(k := None))"

lemma moka_apply_cases:
  assumes "moka_ok M" and "mk_apply M k e oper m = (r, m')"
  shows "mk_lookup M m' \<subseteq>\<^sub>m (case oper of Nop \<Rightarrow> mk_lookup M m
           | Put x \<Rightarrow> (mk_lookup M m)(k \<mapsto> x) | Remove \<Rightarrow> (mk_lookup M m)(k := None))"
  using assms by (cases oper) (auto simp: moka_ok_def)

lemma moka_apply_Nop:
  "moka_ok M \<Longrightarrow> mk_apply M k e Nop m = (r, m') \<Longrightarrow>
     r = (case e of None \<Rightarrow> MokaStillNone k | Some x \<Rightarrow> MokaUnchanged k x)"
  by (auto simp: moka_ok_def)

lemma moka_apply_Put:
  "moka_ok M \<Longrightarrow> mk_apply M k e (Put x) m = (r, m') \<Longrightarrow>
     r = (case e of None \<Rightarrow> MokaInserted k x | Some _ \<Rightarrow> MokaReplacedWith k x)"
  by (auto simp: moka_ok_def)

lemma moka_apply_Remove:
  "moka_ok M \<Longrightarrow> mk_apply M k e Remove m = (r, m') \<Longrightarrow>
     r = MokaStillNone k \<or> (\<exists>x. r = MokaRemoved k x \<and> (e = Some x \<or> mk_lookup M m k = Some x))"
  unfolding moka_ok_def by blast

lemma moka_insert: "moka_ok M \<Longrightarrow> mk_lookup M (mk_insert M k x m) \<subseteq>\<^sub>m (mk_lookup M m)(k \<mapsto> x)"
  by (auto simp: moka_ok_def)

lemma moka_invalidate:
  "moka_ok M \<Longrightarrow> mk_lookup M (mk_invalidate M k m) \<subseteq>\<^sub>m (mk_lookup M m)(k := None)"
  by (auto simp: moka_ok_def)

text \<open>
  The documentation is satisfiable: an unbounded cache, and one that keeps nothing.
\<close>

definition map_moka :: "('k \<rightharpoonup> 'x, 'k, 'x) moka_ops" where
  "map_moka = \<lparr>
     mk_lookup = (\<lambda>m. m),
     mk_apply = (\<lambda>k e oper m. case oper of
         Nop \<Rightarrow> (case e of None \<Rightarrow> MokaStillNone k | Some x \<Rightarrow> MokaUnchanged k x, m)
       | Put x \<Rightarrow> (case e of None \<Rightarrow> MokaInserted k x | Some _ \<Rightarrow> MokaReplacedWith k x, m(k \<mapsto> x))
       | Remove \<Rightarrow> (case m k of None \<Rightarrow> MokaStillNone k | Some x \<Rightarrow> MokaRemoved k x, m(k := None))),
     mk_insert = (\<lambda>k x m. m(k \<mapsto> x)),
     mk_invalidate = (\<lambda>k m. m(k := None))\<rparr>"

definition void_moka :: "(unit, 'k, 'x) moka_ops" where
  "void_moka = \<lparr>
     mk_lookup = (\<lambda>_ _. None),
     mk_apply = (\<lambda>k e oper m. case oper of
         Nop \<Rightarrow> (case e of None \<Rightarrow> MokaStillNone k | Some x \<Rightarrow> MokaUnchanged k x, m)
       | Put x \<Rightarrow> (case e of None \<Rightarrow> MokaInserted k x | Some _ \<Rightarrow> MokaReplacedWith k x, m)
       | Remove \<Rightarrow> (MokaStillNone k, m)),
     mk_insert = (\<lambda>_ _ m. m),
     mk_invalidate = (\<lambda>_ m. m)\<rparr>"

lemma moka_ok_map_moka: "moka_ok map_moka"
  by (auto simp: moka_ok_def map_moka_def map_le_def split: option.splits)

lemma moka_ok_void_moka: "moka_ok void_moka"
  by (auto simp: moka_ok_def void_moka_def map_le_def split: option.splits)

section \<open>The update pool\<close>

text \<open>
  An \<open>UpdateState\<close> object: its pending update behind a lock. Objects are shared by reference
  (\<open>Arc\<close>), so they live in a store and are named by a number; \<open>holders\<close> counts the references
  that running calls hold besides those of the pool.
\<close>

record 'u update_state =
  data :: "'u option"
  locked :: bool
  holders :: nat

record ('k, 'u) pool =
  updates :: "('k \<times> nat) list"
  states :: "nat \<Rightarrow> 'u update_state"
  fresh :: nat

text \<open>
  The iterator handed to \<open>write_back\<close>. An owned write guard is the number of the update state
  whose lock it holds.
\<close>

record 'k update_iterator =
  unprocessed :: "('k \<times> nat option) list"
  next_idx :: nat
  worked :: "('k \<times> nat) list"

text \<open>What a \<open>write_back\<close> can reach: the iterator, through it the pool, and the backend.\<close>

record ('k, 'u, 'd) flush_ctx =
  ctx_pool :: "('k, 'u) pool"
  ctx_iter :: "'k update_iterator"
  ctx_backend :: 'd

section \<open>Data controllers and observers\<close>

text \<open>The trait \<open>DataController\<close>. Its async methods may act on the backend \<open>'d\<close>.\<close>

record ('k, 'v, 'u, 'e, 'd) data_controller =
  dc_get_for_key :: "'k \<Rightarrow> ('d, 'e, 'v option) prog"
  dc_write_back :: "(('k, 'u, 'd) flush_ctx, 'e, unit) prog"
  dc_on_new :: "'k \<Rightarrow> 'v \<Rightarrow> ('d, 'e, 'u dc_response) prog"
  dc_on_delete :: "'k \<Rightarrow> 'u option \<Rightarrow> ('d, 'e, 'u dc_response) prog"
  dc_on_change :: "'k \<Rightarrow> 'v \<Rightarrow> 'v \<Rightarrow> 'u option \<Rightarrow> ('d, 'e, 'u dc_response) prog"
  dc_primary_key_of :: "'v \<Rightarrow> 'k"
  dc_secondary_keys_of :: "'v \<Rightarrow> 'k list"
  dc_get_primary_key_for :: "'k \<Rightarrow> ('d, 'e, 'k option) prog"
  dc_is_primary :: "'k \<Rightarrow> bool"
  dc_on_access :: "'k \<Rightarrow> 'v \<Rightarrow> 'u option \<Rightarrow> ('d, 'e, 'u dc_response) prog"

text \<open>The provided methods of the trait.\<close>

definition default_secondary_keys_of :: "'v \<Rightarrow> 'k list" where
  "default_secondary_keys_of _ = []"

definition default_get_primary_key_for :: "'k \<Rightarrow> ('d, 'e, 'k option) prog" where
  "default_get_primary_key_for k = ret (Some k)"

definition default_is_primary :: "'k \<Rightarrow> bool" where
  "default_is_primary _ = True"

definition default_on_access :: "'k \<Rightarrow> 'v \<Rightarrow> 'u option \<Rightarrow> ('d, 'e, 'u dc_response) prog" where
  "default_on_access _ _ prev_update = ret (wbdc_response DcNop prev_update)"

text \<open>The trait \<open>Observer\<close>: the events that the cache sends.\<close>

record ('k, 'u, 'e, 'd) observer =
  ob_on_flush :: "(('k, 'u, 'd) flush_ctx, 'e, unit) prog"
  ob_on_flush_one :: "'k \<Rightarrow> 'u \<Rightarrow> ('d, 'e, unit) prog"
  ob_on_monitor_error :: "'e \<Rightarrow> ('d, 'e, unit) prog"

definition default_observer :: "('k, 'u, 'e, 'd) observer" where
  "default_observer = \<lparr>ob_on_flush = ret (), ob_on_flush_one = (\<lambda>_ _. ret ()),
     ob_on_monitor_error = (\<lambda>_. ret ())\<rparr>"

section \<open>The cache\<close>

text \<open>
  What a cache object is built with: the data controller, moka, the observers, the thresholds
  and the order in which the standard \<open>HashMap\<close> yields its keys (unspecified, so a parameter).
\<close>

record ('k, 'v, 'u, 'e, 'm, 'd) conf =
  dc :: "('k, 'v, 'u, 'e, 'd) data_controller"
  mk :: "('m, 'k, ('k, 'v) value_state) moka_ops"
  observers :: "('k, 'u, 'e, 'd) observer list"
  max_updates :: nat
  flush_interval :: nat
  hash_order :: "'k list \<Rightarrow> 'k list"

datatype task = Spawned | Waiting | Finished

text \<open>
  The state of a cache object. \<open>clock\<close> is the time \<open>Instant::now()\<close> reads. A monitor task is
  \<open>Spawned\<close> until it first runs, then \<open>Waiting\<close> in its \<open>select!\<close>, holding the write lock of
  \<open>closed\<close> from its first step on, until it is \<open>Finished\<close>; the two notification flags say that
  a waiting monitor has been woken by \<open>notify_waiters\<close>.
\<close>

record ('k, 'u, 'e, 'm, 'd) cache =
  error :: "'e option"
  moka :: 'm
  pool :: "('k, 'u) pool"
  backend :: 'd
  last_flush :: nat
  clock :: nat
  monitor_task :: "task option"
  shutdown :: bool
  closed :: bool
  flush_notified :: bool
  cleanup_notified :: bool

definition hash_order_ok :: "('k, 'v, 'u, 'e, 'm, 'd) conf \<Rightarrow> bool" where
  "hash_order_ok C \<longleftrightarrow> (\<forall>ks. distinct ks \<longrightarrow> distinct (hash_order C ks) \<and> set (hash_order C ks) = set ks)"

definition keys_of_pool :: "('k, 'u) pool \<Rightarrow> 'k list" where
  "keys_of_pool p = map fst (updates p)"

text \<open>A program over the backend, run inside the cache.\<close>

definition on_backend :: "('d, 'e, 'a) prog \<Rightarrow> (('k, 'u, 'e, 'm, 'd) cache, 'e, 'a) prog" where
  "on_backend p = (\<lambda>s. case p (backend s) of (r, d) \<Rightarrow> (r, s\<lparr>backend := d\<rparr>))"

lemma on_backend_simps [simp]:
  "p (backend s) = (r, d) \<Longrightarrow> on_backend p s = (r, s\<lparr>backend := d\<rparr>)"
  by (simp add: on_backend_def)

end
