(* ===== verification/UpdateStates.thy ===== *)
theory UpdateStates
  imports CacheTypes
begin

text \<open>
  The update pool and the update states (\<open>src/update_state.rs\<close>): allocation, locking and
  reference counting of the shared objects, the invariant of the pool, and the four methods that
  consult the data controller while they hold the lock of one update state.
\<close>

named_theorems pool_simps \<open>collapsing sequences of operations on one update state\<close>

section \<open>Shared objects of the pool\<close>

definition upd_state :: "nat \<Rightarrow> ('u update_state \<Rightarrow> 'u update_state) \<Rightarrow> ('k, 'u) pool \<Rightarrow> ('k, 'u) pool" where
  "upd_state i g p = p\<lparr>states := (states p)(i := g (states p i))\<rparr>"

definition lock_state :: "nat \<Rightarrow> ('k, 'u) pool \<Rightarrow> ('k, 'u) pool" where
  "lock_state i = upd_state i (locked_update (\<lambda>_. True))"

definition unlock_state :: "nat \<Rightarrow> ('k, 'u) pool \<Rightarrow> ('k, 'u) pool" where
  "unlock_state i = upd_state i (locked_update (\<lambda>_. False))"

definition set_data :: "nat \<Rightarrow> 'u option \<Rightarrow> ('k, 'u) pool \<Rightarrow> ('k, 'u) pool" where
  "set_data i x = upd_state i (data_update (\<lambda>_. x))"

definition hold_state :: "nat \<Rightarrow> ('k, 'u) pool \<Rightarrow> ('k, 'u) pool" where
  "hold_state i = upd_state i (holders_update Suc)"

definition release_state :: "nat \<Rightarrow> ('k, 'u) pool \<Rightarrow> ('k, 'u) pool" where
  "release_state i = upd_state i (holders_update (\<lambda>n. n - 1))"

text \<open>\<open>child_build!(self, UpdateState<DC>)\<close>: an empty, unlocked object of its own.\<close>

definition alloc_state :: "('k, 'u) pool \<Rightarrow> nat \<times> ('k, 'u) pool" where
  "alloc_state p = (fresh p,
     p\<lparr>states := (states p)(fresh p := \<lparr>data = None, locked = False, holders = 0\<rparr>),
       fresh := Suc (fresh p)\<rparr>)"

definition pool_insert :: "'k \<Rightarrow> nat \<Rightarrow> ('k, 'u) pool \<Rightarrow> ('k, 'u) pool" where
  "pool_insert k i p = p\<lparr>updates := hm_insert k i (updates p)\<rparr>"

definition pool_remove :: "'k \<Rightarrow> ('k, 'u) pool \<Rightarrow> ('k, 'u) pool" where
  "pool_remove k p = p\<lparr>updates := hm_remove k (updates p)\<rparr>"

definition pool_get :: "('k, 'u) pool \<Rightarrow> 'k \<Rightarrow> nat option" where
  "pool_get p k = map_of (updates p) k"

text \<open>\<open>Arc::strong_count\<close>: the references in the pool and those of running calls.\<close>

definition strong_count :: "nat \<Rightarrow> ('k, 'u) pool \<Rightarrow> nat" where
  "strong_count i p = length (filter (\<lambda>(_, j). j = i) (updates p)) + holders (states p i)"

definition empty_pool :: "('k, 'u) pool" where
  "empty_pool = \<lparr>updates = [], states = (\<lambda>_. \<lparr>data = None, locked = False, holders = 0\<rparr>), fresh = 0\<rparr>"

text \<open>The update record that is pending for a key, if any.\<close>

definition pending :: "('k, 'u) pool \<Rightarrow> 'k \<Rightarrow> 'u option" where
  "pending p k = (case pool_get p k of None \<Rightarrow> None | Some i \<Rightarrow> data (states p i))"

subsection \<open>Reading after writing\<close>

lemma upd_state_reads [simp]:
  "updates (upd_state i g p) = updates p"
  "fresh (upd_state i g p) = fresh p"
  "states (upd_state i g p) j = (if j = i then g (states p i) else states p j)"
  by (simp_all add: upd_state_def)

lemma state_op_reads [simp]:
  "updates (lock_state i p) = updates p" "fresh (lock_state i p) = fresh p"
  "updates (unlock_state i p) = updates p" "fresh (unlock_state i p) = fresh p"
  "updates (set_data i x p) = updates p" "fresh (set_data i x p) = fresh p"
  "updates (hold_state i p) = updates p" "fresh (hold_state i p) = fresh p"
  "updates (release_state i p) = updates p" "fresh (release_state i p) = fresh p"
  by (simp_all add: lock_state_def unlock_state_def set_data_def hold_state_def release_state_def)

lemma data_reads [simp]:
  "data (states (lock_state i p) j) = data (states p j)"
  "data (states (unlock_state i p) j) = data (states p j)"
  "data (states (set_data i x p) j) = (if j = i then x else data (states p j))"
  "data (states (hold_state i p) j) = data (states p j)"
  "data (states (release_state i p) j) = data (states p j)"
  by (simp_all add: lock_state_def unlock_state_def set_data_def hold_state_def release_state_def)

lemma locked_reads [simp]:
  "locked (states (lock_state i p) j) = (j = i \<or> locked (states p j))"
  "locked (states (unlock_state i p) j) = (j \<noteq> i \<and> locked (states p j))"
  "locked (states (set_data i x p) j) = locked (states p j)"
  "locked (states (hold_state i p) j) = locked (states p j)"
  "locked (states (release_state i p) j) = locked (states p j)"
  by (simp_all add: lock_state_def unlock_state_def set_data_def hold_state_def release_state_def)

lemma holders_reads [simp]:
  "holders (states (lock_state i p) j) = holders (states p j)"
  "holders (states (unlock_state i p) j) = holders (states p j)"
  "holders (states (set_data i x p) j) = holders (states p j)"
  "holders (states (hold_state i p) j) = (if j = i then Suc (holders (states p i)) else holders (states p j))"
  "holders (states (release_state i p) j) = (if j = i then holders (states p i) - 1 else holders (states p j))"
  by (simp_all add: lock_state_def unlock_state_def set_data_def hold_state_def release_state_def)

lemma pool_ops_reads [simp]:
  "states (pool_insert k i p) = states p" "fresh (pool_insert k i p) = fresh p"
  "states (pool_remove k p) = states p" "fresh (pool_remove k p) = fresh p"
  "updates (pool_insert k i p) = hm_insert k i (updates p)"
  "updates (pool_remove k p) = hm_remove k (updates p)"
  by (simp_all add: pool_insert_def pool_remove_def)

lemma alloc_reads [simp]:
  "fst (alloc_state p) = fresh p"
  "updates (snd (alloc_state p)) = updates p"
  "fresh (snd (alloc_state p)) = Suc (fresh p)"
  "states (snd (alloc_state p)) j = (if j = fresh p then \<lparr>data = None, locked = False, holders = 0\<rparr> else states p j)"
  by (simp_all add: alloc_state_def)

lemma pool_get_reads [simp]:
  "pool_get (upd_state i g p) = pool_get p" "pool_get (lock_state i p) = pool_get p"
  "pool_get (unlock_state i p) = pool_get p" "pool_get (set_data i x p) = pool_get p"
  "pool_get (hold_state i p) = pool_get p" "pool_get (release_state i p) = pool_get p"
  "pool_get (pool_insert k i p) = (pool_get p)(k \<mapsto> i)"
  "pool_get (pool_remove k p) = (pool_get p)(k := None)"
  "pool_get (snd (alloc_state p)) = pool_get p"
  by (simp_all add: pool_get_def fun_eq_iff)

lemma pending_reads [simp]:
  "pending (lock_state i p) = pending p" "pending (unlock_state i p) = pending p"
  "pending (hold_state i p) = pending p" "pending (release_state i p) = pending p"
  "pending (pool_remove k p) = (pending p)(k := None)"
  "pending (pool_insert k i p) = (pending p)(k := data (states p i))"
  by (auto simp: pending_def fun_eq_iff split: option.splits)

lemma pending_empty_pool [simp]: "pending empty_pool = Map.empty"
  by (simp add: pending_def pool_get_def empty_pool_def fun_eq_iff)

subsection \<open>The invariant of the pool\<close>

text \<open>
  Keys are distinct, every entry names an allocated object, and every unallocated number is a
  blank object. \<open>pool_own\<close> adds that no object is shared by two keys, \<open>pool_idle\<close> that no
  call is in progress: no lock is held and no reference is kept outside the pool.
\<close>

definition pool_wf :: "('k, 'u) pool \<Rightarrow> bool" where
  "pool_wf p \<longleftrightarrow> hm_wf (updates p) \<and> (\<forall>k i. pool_get p k = Some i \<longrightarrow> i < fresh p) \<and>
     (\<forall>i \<ge> fresh p. \<not> locked (states p i) \<and> holders (states p i) = 0)"

definition pool_own :: "('k, 'u) pool \<Rightarrow> bool" where
  "pool_own p \<longleftrightarrow> (\<forall>k k' i. pool_get p k = Some i \<longrightarrow> pool_get p k' = Some i \<longrightarrow> k = k')"

definition pool_idle :: "('k, 'u) pool \<Rightarrow> bool" where
  "pool_idle p \<longleftrightarrow> (\<forall>i. \<not> locked (states p i) \<and> holders (states p i) = 0)"

lemma pool_wf_empty: "pool_wf empty_pool"
  by (simp add: pool_wf_def empty_pool_def pool_get_def)

lemma pool_own_empty: "pool_own empty_pool"
  by (simp add: pool_own_def empty_pool_def pool_get_def)

lemma pool_idle_empty: "pool_idle empty_pool"
  by (simp add: pool_idle_def empty_pool_def)

lemma pool_wf_get: "pool_wf p \<Longrightarrow> pool_get p k = Some i \<Longrightarrow> i < fresh p"
  by (simp add: pool_wf_def)

lemma pool_wf_insert [simp]: "pool_wf p \<Longrightarrow> i < fresh p \<Longrightarrow> pool_wf (pool_insert k i p)"
  by (auto simp: pool_wf_def)

lemma pool_wf_remove [simp]: "pool_wf p \<Longrightarrow> pool_wf (pool_remove k p)"
  by (auto simp: pool_wf_def split: if_splits)

lemma pool_wf_state_ops [simp]:
  "pool_wf p \<Longrightarrow> i < fresh p \<Longrightarrow> pool_wf (lock_state i p)"
  "pool_wf p \<Longrightarrow> pool_wf (unlock_state i p)"
  "pool_wf p \<Longrightarrow> pool_wf (set_data i x p)"
  "pool_wf p \<Longrightarrow> i < fresh p \<Longrightarrow> pool_wf (hold_state i p)"
  "pool_wf p \<Longrightarrow> pool_wf (release_state i p)"
  by (auto simp: pool_wf_def)

lemma pool_wf_alloc [simp]: "pool_wf p \<Longrightarrow> pool_wf (snd (alloc_state p))"
  by (auto simp: pool_wf_def less_Suc_eq)

lemma pool_own_state_ops [simp]:
  "pool_own (lock_state i p) = pool_own p" "pool_own (unlock_state i p) = pool_own p"
  "pool_own (set_data i x p) = pool_own p" "pool_own (hold_state i p) = pool_own p"
  "pool_own (release_state i p) = pool_own p" "pool_own (snd (alloc_state p)) = pool_own p"
  by (simp_all add: pool_own_def)

lemma pool_own_remove [simp]: "pool_own p \<Longrightarrow> pool_own (pool_remove k p)"
  by (auto simp: pool_own_def split: if_splits)

lemma pool_own_insert:
  "pool_own p \<Longrightarrow> (\<And>k'. pool_get p k' = Some i \<Longrightarrow> k' = k) \<Longrightarrow> pool_own (pool_insert k i p)"
  by (auto simp: pool_own_def split: if_splits)

lemma pending_set_data:
  assumes "pool_own p" and "pool_get p k = Some i"
  shows "pending (set_data i x p) = (pending p)(k := x)"
  using assms by (auto simp: pending_def pool_own_def fun_eq_iff split: option.splits)

section \<open>The methods of an update state\<close>

text \<open>The pool inside the cache, and the write guard of an update state's data.\<close>

definition on_pool :: "(('k, 'u) pool \<Rightarrow> ('k, 'u) pool) \<Rightarrow> (('k, 'u, 'e, 'm, 'd) cache, 'e, unit) prog" where
  "on_pool g = modify (\<lambda>s. s\<lparr>pool := g (pool s)\<rparr>)"

definition with_write_guard ::
  "nat \<Rightarrow> (('k, 'u, 'e, 'm, 'd) cache, 'e, 'a) prog \<Rightarrow> (('k, 'u, 'e, 'm, 'd) cache, 'e, 'a) prog" where
  "with_write_guard i m = (\<lambda>s.
     if locked (states (pool s) i) then (Wait, s)
     else on_exit m (\<lambda>t. t\<lparr>pool := unlock_state i (pool t)\<rparr>) (s\<lparr>pool := lock_state i (pool s)\<rparr>))"

definition guard_get :: "nat \<Rightarrow> (('k, 'u, 'e, 'm, 'd) cache, 'e, 'u option) prog" where
  "guard_get i = gets (\<lambda>s. data (states (pool s) i))"

definition guard_set :: "nat \<Rightarrow> 'u option \<Rightarrow> (('k, 'u, 'e, 'm, 'd) cache, 'e, unit) prog" where
  "guard_set i x = on_pool (set_data i x)"

text \<open>\<open>guard.take()\<close>: moves the update out and leaves \<open>None\<close> behind.\<close>

definition guard_take :: "nat \<Rightarrow> (('k, 'u, 'e, 'm, 'd) cache, 'e, 'u option) prog" where
  "guard_take i = bnd (guard_get i) (\<lambda>x. bnd (guard_set i None) (\<lambda>_. ret x))"

definition us_on_new ::
  "('k, 'v, 'u, 'e, 'm, 'd) conf \<Rightarrow> nat \<Rightarrow> 'k \<Rightarrow> 'v \<Rightarrow> (('k, 'u, 'e, 'm, 'd) cache, 'e, dc_op) prog" where
  "us_on_new C i key value = with_write_guard i
     (bnd (on_backend (dc_on_new (dc C) key value)) (\<lambda>resp.
      bnd (guard_set i (resp_update resp)) (\<lambda>_.
      ret (resp_op resp))))"

definition us_on_change ::
  "('k, 'v, 'u, 'e, 'm, 'd) conf \<Rightarrow> nat \<Rightarrow> 'k \<Rightarrow> 'v \<Rightarrow> 'v \<Rightarrow> (('k, 'u, 'e, 'm, 'd) cache, 'e, dc_op) prog" where
  "us_on_change C i key value old_value = with_write_guard i
     (bnd (guard_take i) (\<lambda>prev.
      bnd (on_backend (dc_on_change (dc C) key value old_value prev)) (\<lambda>resp.
      bnd (guard_set i (resp_update resp)) (\<lambda>_.
      ret (resp_op resp)))))"

definition us_on_access ::
  "('k, 'v, 'u, 'e, 'm, 'd) conf \<Rightarrow> nat \<Rightarrow> 'k \<Rightarrow> 'v \<Rightarrow> (('k, 'u, 'e, 'm, 'd) cache, 'e, dc_op) prog" where
  "us_on_access C i key value = with_write_guard i
     (bnd (guard_take i) (\<lambda>prev.
      bnd (on_backend (dc_on_access (dc C) key value prev)) (\<lambda>resp.
      bnd (guard_set i (resp_update resp)) (\<lambda>_.
      ret (resp_op resp)))))"

definition us_on_delete ::
  "('k, 'v, 'u, 'e, 'm, 'd) conf \<Rightarrow> nat \<Rightarrow> 'k \<Rightarrow> (('k, 'u, 'e, 'm, 'd) cache, 'e, dc_op) prog" where
  "us_on_delete C i key = with_write_guard i
     (bnd (guard_get i) (\<lambda>upd.
      bnd (on_backend (dc_on_delete (dc C) key upd)) (\<lambda>resp.
      bnd (guard_set i (resp_update resp)) (\<lambda>_.
      ret (resp_op resp)))))"

lemmas us_defs = us_on_new_def us_on_change_def us_on_access_def us_on_delete_def

section \<open>What the methods do\<close>

lemma unlock_set_lock [pool_simps]:
  "\<not> locked (states p i) \<Longrightarrow> unlock_state i (set_data i x (lock_state i p)) = set_data i x p"
  "\<not> locked (states p i) \<Longrightarrow> unlock_state i (lock_state i p) = p"
  "set_data i x (set_data i y p) = set_data i x p"
  "set_data i x (unlock_state j p) = unlock_state j (set_data i x p)"
  by (cases p, cases "states p i",
      force simp: unlock_state_def lock_state_def set_data_def upd_state_def fun_eq_iff)+

lemma lock_state_locked [pool_simps]: "locked (states p i) \<Longrightarrow> lock_state i p = p"
  by (cases p, cases "states p i") (force simp: lock_state_def upd_state_def fun_eq_iff)

lemma set_data_same [pool_simps]: "data (states p i) = x \<Longrightarrow> set_data i x p = p"
  by (cases p, cases "states p i") (force simp: set_data_def upd_state_def fun_eq_iff)

lemma release_hold [pool_simps]: "release_state i (hold_state i p) = p"
  by (cases p, cases "states p i") (force simp: release_state_def hold_state_def upd_state_def fun_eq_iff)

text \<open>
  Each method waits for the lock, and with the lock it leaves the object unlocked with the
  response's update in it. When the data controller fails, \<open>on_new\<close> and \<open>on_delete\<close> leave the
  pending update as it was; \<open>on_change\<close> and \<open>on_access\<close> have moved it out already.
\<close>

lemma us_on_new_locked: "locked (states (pool s) i) \<Longrightarrow> us_on_new C i k v s = (Wait, s)"
  by (simp add: us_on_new_def with_write_guard_def)

lemma us_on_change_locked: "locked (states (pool s) i) \<Longrightarrow> us_on_change C i k v old s = (Wait, s)"
  by (simp add: us_on_change_def with_write_guard_def)

lemma us_on_access_locked: "locked (states (pool s) i) \<Longrightarrow> us_on_access C i k v s = (Wait, s)"
  by (simp add: us_on_access_def with_write_guard_def)

lemma us_on_delete_locked: "locked (states (pool s) i) \<Longrightarrow> us_on_delete C i k s = (Wait, s)"
  by (simp add: us_on_delete_def with_write_guard_def)

lemmas us_locked = us_on_new_locked us_on_change_locked us_on_access_locked us_on_delete_locked

lemma us_on_new_Ok:
  assumes "\<not> locked (states (pool s) i)" and "dc_on_new (dc C) k v (backend s) = (Ok resp, d)"
  shows "us_on_new C i k v s =
    (Ok (resp_op resp), s\<lparr>pool := set_data i (resp_update resp) (pool s), backend := d\<rparr>)"
  using assms by (simp add: us_on_new_def with_write_guard_def guard_set_def on_pool_def pool_simps)

lemma us_on_new_Fail:
  assumes "\<not> locked (states (pool s) i)" and "dc_on_new (dc C) k v (backend s) = (Fail e, d)"
  shows "us_on_new C i k v s = (Fail e, s\<lparr>backend := d\<rparr>)"
  using assms by (simp add: us_on_new_def with_write_guard_def guard_set_def on_pool_def pool_simps)

lemma us_on_change_Ok:
  assumes "\<not> locked (states (pool s) i)"
    and "dc_on_change (dc C) k v old (data (states (pool s) i)) (backend s) = (Ok resp, d)"
  shows "us_on_change C i k v old s =
    (Ok (resp_op resp), s\<lparr>pool := set_data i (resp_update resp) (pool s), backend := d\<rparr>)"
  using assms
  by (simp add: us_on_change_def with_write_guard_def guard_set_def guard_take_def guard_get_def
      on_pool_def pool_simps)

lemma us_on_change_Fail:
  assumes "\<not> locked (states (pool s) i)"
    and "dc_on_change (dc C) k v old (data (states (pool s) i)) (backend s) = (Fail e, d)"
  shows "us_on_change C i k v old s = (Fail e, s\<lparr>pool := set_data i None (pool s), backend := d\<rparr>)"
  using assms
  by (simp add: us_on_change_def with_write_guard_def guard_set_def guard_take_def guard_get_def
      on_pool_def pool_simps)

lemma us_on_access_Ok:
  assumes "\<not> locked (states (pool s) i)"
    and "dc_on_access (dc C) k v (data (states (pool s) i)) (backend s) = (Ok resp, d)"
  shows "us_on_access C i k v s =
    (Ok (resp_op resp), s\<lparr>pool := set_data i (resp_update resp) (pool s), backend := d\<rparr>)"
  using assms
  by (simp add: us_on_access_def with_write_guard_def guard_set_def guard_take_def guard_get_def
      on_pool_def pool_simps)

lemma us_on_access_Fail:
  assumes "\<not> locked (states (pool s) i)"
    and "dc_on_access (dc C) k v (data (states (pool s) i)) (backend s) = (Fail e, d)"
  shows "us_on_access C i k v s = (Fail e, s\<lparr>pool := set_data i None (pool s), backend := d\<rparr>)"
  using assms
  by (simp add: us_on_access_def with_write_guard_def guard_set_def guard_take_def guard_get_def
      on_pool_def pool_simps)

lemma us_on_delete_Ok:
  assumes "\<not> locked (states (pool s) i)"
    and "dc_on_delete (dc C) k (data (states (pool s) i)) (backend s) = (Ok resp, d)"
  shows "us_on_delete C i k s =
    (Ok (resp_op resp), s\<lparr>pool := set_data i (resp_update resp) (pool s), backend := d\<rparr>)"
  using assms
  by (simp add: us_on_delete_def with_write_guard_def guard_set_def guard_get_def on_pool_def pool_simps)

lemma us_on_delete_Fail:
  assumes "\<not> locked (states (pool s) i)"
    and "dc_on_delete (dc C) k (data (states (pool s) i)) (backend s) = (Fail e, d)"
  shows "us_on_delete C i k s = (Fail e, s\<lparr>backend := d\<rparr>)"
  using assms
  by (simp add: us_on_delete_def with_write_guard_def guard_set_def guard_get_def on_pool_def pool_simps)

end
