(* ===== verification/UpdateIterators.thy ===== *)
theory UpdateIterators
  imports UpdateStates
begin

text \<open>
  The update iterator (\<open>src/update_iterator.rs\<close>) and the clean-up of the pool after a flush
  (\<open>_purify_updates\<close> of \<open>src/cache.rs\<close>). An item is the pair of a key and the update state
  whose write lock it owns.
\<close>

section \<open>Operations\<close>

text \<open>The two ways the builder sets an iterator up.\<close>

definition iter_keys :: "'k list \<Rightarrow> 'k update_iterator" where
  "iter_keys ks = \<lparr>unprocessed = map (\<lambda>k. (k, None)) ks, next_idx = 0, worked = []\<rparr>"

definition iter_key_guard :: "'k \<times> nat \<Rightarrow> 'k update_iterator" where
  "iter_key_guard kg = \<lparr>unprocessed = [(fst kg, Some (snd kg))], next_idx = 0, worked = []\<rparr>"

definition iter_len :: "('k, 'u, 'd) flush_ctx \<Rightarrow> nat" where
  "iter_len c = length (unprocessed (ctx_iter c))"

definition iter_is_empty :: "('k, 'u, 'd) flush_ctx \<Rightarrow> bool" where
  "iter_is_empty c \<longleftrightarrow> unprocessed (ctx_iter c) = []"

definition ctx_on_pool ::
  "(('k, 'u) pool \<Rightarrow> ('k, 'u) pool) \<Rightarrow> ('k, 'u, 'd) flush_ctx \<Rightarrow> ('k, 'u, 'd) flush_ctx" where
  "ctx_on_pool g c = c\<lparr>ctx_pool := g (ctx_pool c)\<rparr>"

text \<open>The step to the next index: the guard, if there is one, is taken out of its slot.\<close>

definition iter_advance :: "('k, 'u, 'd) flush_ctx \<Rightarrow> ('k, 'u, 'd) flush_ctx" where
  "iter_advance c = (let it = ctx_iter c; n = next_idx it in
     c\<lparr>ctx_iter := it\<lparr>unprocessed := (unprocessed it)[n := (fst (unprocessed it ! n), None)],
        next_idx := n + 1\<rparr>\<rparr>)"

lemma iter_advance_reads [simp]:
  "ctx_pool (iter_advance c) = ctx_pool c" "ctx_backend (iter_advance c) = ctx_backend c"
  "next_idx (ctx_iter (iter_advance c)) = Suc (next_idx (ctx_iter c))"
  "worked (ctx_iter (iter_advance c)) = worked (ctx_iter c)"
  "length (unprocessed (ctx_iter (iter_advance c))) = length (unprocessed (ctx_iter c))"
  by (simp_all add: iter_advance_def Let_def)

lemma ctx_on_pool_reads [simp]:
  "ctx_pool (ctx_on_pool g c) = g (ctx_pool c)" "ctx_iter (ctx_on_pool g c) = ctx_iter c"
  "ctx_backend (ctx_on_pool g c) = ctx_backend c"
  by (simp_all add: ctx_on_pool_def)

function iter_next :: "('k, 'u, 'd) flush_ctx \<Rightarrow> ('k \<times> nat) option \<times> ('k, 'u, 'd) flush_ctx" where
  "iter_next c = (let it = ctx_iter c; n = next_idx it; c1 = iter_advance c in
     if length (unprocessed it) \<le> n then (None, c)
     else case unprocessed it ! n of (key, guard) \<Rightarrow>
       (case guard of
          Some i \<Rightarrow>
            if data (states (ctx_pool c1) i) \<noteq> None then (Some (key, i), c1)
            else iter_next (ctx_on_pool (unlock_state i) c1)
        | None \<Rightarrow>
            (case pool_get (ctx_pool c1) key of
               None \<Rightarrow> iter_next c1
             | Some i \<Rightarrow>
                 if locked (states (ctx_pool c1) i) then iter_next c1
                 else let c2 = ctx_on_pool (lock_state i) c1 in
                   if data (states (ctx_pool c2) i) \<noteq> None then (Some (key, i), c2)
                   else iter_next (ctx_on_pool (unlock_state i) c2))))"
  by pat_completeness auto
termination
  by (relation "measure (\<lambda>c. length (unprocessed (ctx_iter c)) - next_idx (ctx_iter c))")
    (auto simp: Let_def)

declare iter_next.simps [simp del]

text \<open>\<open>take_back\<close>, run when an item is dropped: an unconfirmed update keeps its lock.\<close>

definition item_drop :: "'k \<times> nat \<Rightarrow> ('k, 'u, 'd) flush_ctx \<Rightarrow> ('k, 'u, 'd) flush_ctx" where
  "item_drop it c = (if data (states (ctx_pool c) (snd it)) \<noteq> None
     then c\<lparr>ctx_iter := (ctx_iter c)\<lparr>worked := worked (ctx_iter c) @ [it]\<rparr>\<rparr>
     else ctx_on_pool (unlock_state (snd it)) c)"

definition items_drop :: "('k \<times> nat) list \<Rightarrow> ('k, 'u, 'd) flush_ctx \<Rightarrow> ('k, 'u, 'd) flush_ctx" where
  "items_drop its c = fold item_drop its c"

definition item_confirm :: "'k \<times> nat \<Rightarrow> ('k, 'u, 'd) flush_ctx \<Rightarrow> ('k, 'u, 'd) flush_ctx" where
  "item_confirm it c = ctx_on_pool (unlock_state (snd it)) (ctx_on_pool (set_data (snd it) None) c)"

definition item_key :: "'k \<times> nat \<Rightarrow> 'k" where
  "item_key it = fst it"

definition item_update :: "'k \<times> nat \<Rightarrow> (('k, 'u, 'd) flush_ctx, 'e, 'u) prog" where
  "item_update it = (\<lambda>c. case data (states (ctx_pool c) (snd it)) of
       None \<Rightarrow> (Panic ''Internal error: update data cannot be None'', c)
     | Some u \<Rightarrow> (Ok u, c))"

definition confirm_all :: "('k, 'u, 'd) flush_ctx \<Rightarrow> ('k, 'u, 'd) flush_ctx" where
  "confirm_all c = ctx_on_pool (fold (\<lambda>it. set_data (snd it) None) (worked (ctx_iter c))) c"

definition unlock_items :: "('k \<times> nat) list \<Rightarrow> ('k, 'u) pool \<Rightarrow> ('k, 'u) pool" where
  "unlock_items its = fold (\<lambda>it. unlock_state (snd it)) its"

definition iter_reset :: "('k, 'u, 'd) flush_ctx \<Rightarrow> ('k, 'u, 'd) flush_ctx" where
  "iter_reset c = (let c1 = ctx_on_pool (unlock_items (worked (ctx_iter c))) c in
     c1\<lparr>ctx_iter := (ctx_iter c1)\<lparr>next_idx := 0, worked := []\<rparr>\<rparr>)"

text \<open>Dropping the iterator: every guard it still owns is released.\<close>

definition own_guards :: "'k update_iterator \<Rightarrow> ('k \<times> nat) list" where
  "own_guards it = worked it @ List.map_filter (\<lambda>(k, g). map_option (Pair k) g) (unprocessed it)"

definition iter_drop :: "('k, 'u, 'd) flush_ctx \<Rightarrow> ('k, 'u, 'd) flush_ctx" where
  "iter_drop c = (let c1 = ctx_on_pool (unlock_items (own_guards (ctx_iter c))) c in
     c1\<lparr>ctx_iter := (ctx_iter c1)\<lparr>unprocessed := [], next_idx := 0, worked := []\<rparr>\<rparr>)"

text \<open>
  \<open>_purify_updates\<close>: written updates leave the pool unless their state is referenced from
  elsewhere. The function's counter is a constant of the source. The iterator is dropped at the
  end, also when the \<open>unwrap\<close> panics.
\<close>

fun purify_worked :: "('k \<times> nat) list \<Rightarrow> (('k, 'u) pool, 'e, unit) prog" where
  "purify_worked [] p = (Ok (), p)"
| "purify_worked ((key, i) # its) p = (case pool_get p key of
       None \<Rightarrow> (Panic ''called Option::unwrap() on a None value'', p)
     | Some j \<Rightarrow>
         if strong_count j p > 1 then purify_worked its p
         else if data (states p i) = None then purify_worked its (pool_remove key p)
         else purify_worked its p)"

definition purify_updates :: "(('k, 'u, 'd) flush_ctx, 'e, nat) prog" where
  "purify_updates = on_exit
     (\<lambda>c. case purify_worked (worked (ctx_iter c)) (ctx_pool c) of (r, p) \<Rightarrow>
        ((case r of Ok _ \<Rightarrow> Ok 0 | Fail e \<Rightarrow> Fail e | Panic msg \<Rightarrow> Panic msg | Wait \<Rightarrow> Wait),
         c\<lparr>ctx_pool := p\<rparr>))
     iter_drop"

section \<open>What next yields\<close>

text \<open>
  The items that successive calls of \<open>next\<close> yield, computed from the keys still to come: a
  queued guard yields its key, a key yields when its update state is free and holds an update.
\<close>

fun remaining :: "('k, 'u) pool \<Rightarrow> ('k \<times> nat option) list \<Rightarrow> ('k \<times> nat) list" where
  "remaining p [] = []"
| "remaining p ((k, Some i) # xs) = (k, i) # remaining p xs"
| "remaining p ((k, None) # xs) = (case pool_get p k of
       None \<Rightarrow> remaining p xs
     | Some i \<Rightarrow>
         if locked (states p i) \<or> data (states p i) = None then remaining p xs
         else (k, i) # remaining (lock_state i p) xs)"

definition todo :: "('k, 'u, 'd) flush_ctx \<Rightarrow> ('k \<times> nat option) list" where
  "todo c = drop (next_idx (ctx_iter c)) (unprocessed (ctx_iter c))"

definition guards_ok :: "('k, 'u) pool \<Rightarrow> ('k \<times> nat option) list \<Rightarrow> bool" where
  "guards_ok p xs \<longleftrightarrow> (\<forall>k i. (k, Some i) \<in> set xs \<longrightarrow> data (states p i) \<noteq> None \<and> locked (states p i))"

definition items_of :: "('k, 'u, 'd) flush_ctx \<Rightarrow> ('k \<times> nat) list" where
  "items_of c = remaining (ctx_pool c) (todo c)"

lemma todo_advance:
  "next_idx (ctx_iter c) < length (unprocessed (ctx_iter c)) \<Longrightarrow>
     todo c = unprocessed (ctx_iter c) ! next_idx (ctx_iter c) # todo (iter_advance c)"
  by (simp add: todo_def iter_advance_def Let_def Cons_nth_drop_Suc)

lemma todo_on_pool [simp]: "todo (ctx_on_pool g c) = todo c"
  by (simp add: todo_def)

lemma todo_Nil: "length (unprocessed (ctx_iter c)) \<le> next_idx (ctx_iter c) \<Longrightarrow> todo c = []"
  by (simp add: todo_def)

lemma guards_ok_lock [simp]: "guards_ok p xs \<Longrightarrow> guards_ok (lock_state i p) xs"
  by (auto simp: guards_ok_def)

lemma ctx_pool_unlock_lock [simp]:
  "\<not> locked (states (ctx_pool c) i) \<Longrightarrow> ctx_on_pool (unlock_state i) (ctx_on_pool (lock_state i) c) = c"
  by (simp add: ctx_on_pool_def pool_simps)

text \<open>One call of \<open>next\<close>: the first remaining item, with its lock taken and no update touched.\<close>

lemma iter_next_spec:
  assumes "iter_next c = (r, c')" and "guards_ok (ctx_pool c) (todo c)"
  shows "ctx_backend c' = ctx_backend c \<and> worked (ctx_iter c') = worked (ctx_iter c) \<and>
    guards_ok (ctx_pool c') (todo c') \<and>
    (case r of
       None \<Rightarrow> items_of c = [] \<and> ctx_pool c' = ctx_pool c \<and> todo c' = []
     | Some it \<Rightarrow> items_of c = it # items_of c' \<and> ctx_pool c' = lock_state (snd it) (ctx_pool c) \<and>
         data (states (ctx_pool c) (snd it)) \<noteq> None \<and> length (todo c') < length (todo c))"
  using assms
proof (induction "length (todo c)" arbitrary: c rule: less_induct)
  case less
  define n where "n = next_idx (ctx_iter c)"
  define c1 where "c1 = iter_advance c"
  show ?case
  proof (cases "length (unprocessed (ctx_iter c)) \<le> n")
    case True
    then show ?thesis using less.prems
      by (subst (asm) iter_next.simps) (auto simp: Let_def n_def todo_Nil items_of_def)
  next
    case False
    obtain key guard where kg: "unprocessed (ctx_iter c) ! n = (key, guard)" by fastforce
    have td: "todo c = (key, guard) # todo c1"
      using False todo_advance[of c] kg by (simp add: n_def c1_def)
    have c1: "ctx_pool c1 = ctx_pool c" "ctx_backend c1 = ctx_backend c"
      "worked (ctx_iter c1) = worked (ctx_iter c)"
      by (simp_all add: c1_def)
    have g1: "guards_ok (ctx_pool c1) (todo c1)"
      using less.prems(2) by (auto simp: td guards_ok_def c1)
    note eq = less.prems(1)[unfolded iter_next.simps[of c], unfolded Let_def, folded n_def c1_def]
    have IH: ?thesis if "iter_next c1 = (r, c')" and "items_of c = items_of c1"
      using less.hyps[OF _ that(1) g1] that(2)
      by (auto simp: td c1 split: option.splits)
    show ?thesis
    proof (cases guard)
      case (Some i)
      then have "data (states (ctx_pool c) i) \<noteq> None" "locked (states (ctx_pool c) i)"
        using less.prems(2) by (auto simp: td guards_ok_def)
      then show ?thesis using eq False kg Some g1 c1
        by (auto simp: td items_of_def pool_simps)
    next
      case None
      show ?thesis
      proof (cases "\<exists>i. pool_get (ctx_pool c) key = Some i \<and> \<not> locked (states (ctx_pool c) i) \<and>
          data (states (ctx_pool c) i) \<noteq> None")
        case True
        then show ?thesis using eq False kg None g1 c1
          by (auto simp: td items_of_def)
      next
        case no: False
        show ?thesis
          by (rule IH) (use no eq False kg None in \<open>auto simp: td items_of_def c1 split: option.splits if_splits\<close>)
      qed
    qed
  qed
qed

text \<open>Without any assumption, \<open>next\<close> only moves forward, so a loop over it ends.\<close>

lemma iter_next_todo:
  "iter_next c = (r, c') \<Longrightarrow> length (todo c') \<le> length (todo c) \<and> (r \<noteq> None \<longrightarrow> length (todo c') < length (todo c))"
proof (induction "length (todo c)" arbitrary: c rule: less_induct)
  case less
  define n where "n = next_idx (ctx_iter c)"
  show ?case
  proof (cases "length (unprocessed (ctx_iter c)) \<le> n")
    case True
    with less.prems show ?thesis
      by (subst (asm) iter_next.simps) (auto simp: Let_def n_def)
  next
    case False
    then have td: "length (todo c) = Suc (length (todo (iter_advance c)))"
      by (simp add: todo_advance n_def)
    note eq = less.prems[unfolded iter_next.simps[of c], unfolded Let_def, folded n_def]
    have IH: "length (todo c') \<le> length (todo (iter_advance c))"
      if "iter_next c1 = (r, c')" and "todo c1 = todo (iter_advance c)" for c1
      using less.hyps[OF _ that(1)] td that(2) by auto
    have "length (todo c') \<le> length (todo (iter_advance c))"
      using eq False by (auto split: prod.splits option.splits if_splits dest: IH)
    with td show ?thesis by simp
  qed
qed

lemma todo_item_drop [simp]: "todo (item_drop it c) = todo c"
  by (simp add: item_drop_def todo_def)

text \<open>
  A loop \<open>while let Some(item) = updates.next()\<close> whose body only reads the item and drops it.
\<close>

function iter_fold ::
  "('k \<times> nat \<Rightarrow> 'u option \<Rightarrow> 'a \<Rightarrow> 'a) \<Rightarrow> 'a \<Rightarrow> ('k, 'u, 'd) flush_ctx \<Rightarrow> 'a \<times> ('k, 'u, 'd) flush_ctx" where
  "iter_fold f a c = (case iter_next c of
       (None, c') \<Rightarrow> (a, c')
     | (Some it, c') \<Rightarrow> iter_fold f (f it (data (states (ctx_pool c') (snd it))) a) (item_drop it c'))"
  by pat_completeness auto
termination
  by (relation "measure (\<lambda>(f, a, c). length (todo c))") (auto dest!: sym[of _ "iter_next _"] iter_next_todo)

declare iter_fold.simps [simp del]

definition lock_items :: "('k \<times> nat) list \<Rightarrow> ('k, 'u) pool \<Rightarrow> ('k, 'u) pool" where
  "lock_items its = fold (\<lambda>it. lock_state (snd it)) its"

lemma lock_items_simps [simp]:
  "lock_items [] p = p" "lock_items (it # its) p = lock_items its (lock_state (snd it) p)"
  by (simp_all add: lock_items_def)

lemma unlock_items_simps [simp]:
  "unlock_items [] p = p" "unlock_items (it # its) p = unlock_items its (unlock_state (snd it) p)"
  by (simp_all add: unlock_items_def)

lemma lock_items_reads [simp]:
  "updates (lock_items its p) = updates p" "fresh (lock_items its p) = fresh p"
  "pool_get (lock_items its p) = pool_get p" "pending (lock_items its p) = pending p"
  "data (states (lock_items its p) j) = data (states p j)"
  "holders (states (lock_items its p) j) = holders (states p j)"
  "locked (states (lock_items its p) j) \<longleftrightarrow> j \<in> snd ` set its \<or> locked (states p j)"
  by (induction its arbitrary: p) auto

lemma unlock_items_reads [simp]:
  "updates (unlock_items its p) = updates p" "fresh (unlock_items its p) = fresh p"
  "pool_get (unlock_items its p) = pool_get p" "pending (unlock_items its p) = pending p"
  "data (states (unlock_items its p) j) = data (states p j)"
  "holders (states (unlock_items its p) j) = holders (states p j)"
  "locked (states (unlock_items its p) j) \<longleftrightarrow> j \<notin> snd ` set its \<and> locked (states p j)"
  by (induction its arbitrary: p) auto

lemma pool_eqI:
  assumes "updates p = updates q" "fresh p = fresh q"
    "\<And>j. data (states p j) = data (states q j)" "\<And>j. locked (states p j) = locked (states q j)"
    "\<And>j. holders (states p j) = holders (states q j)"
  shows "p = (q :: ('k, 'u) pool)"
proof -
  have "states p j = states q j" for j
    using assms(3-5)[of j] by (cases "states p j"; cases "states q j") simp
  then show ?thesis using assms(1,2) by (cases p; cases q) (auto simp: fun_eq_iff)
qed

lemma unlock_lock_items:
  "\<forall>it \<in> set its. \<not> locked (states p (snd it)) \<Longrightarrow> unlock_items its (lock_items its p) = p"
  by (rule pool_eqI) auto

lemma guards_ok_lock_items [simp]: "guards_ok p xs \<Longrightarrow> guards_ok (lock_items its p) xs"
  by (induction its arbitrary: p) auto

text \<open>The whole loop sees every remaining item once, in order, and keeps their locks.\<close>

lemma iter_fold_spec:
  assumes "iter_fold f a c = (a', c')" and "guards_ok (ctx_pool c) (todo c)"
  shows "a' = fold (\<lambda>it. f it (data (states (ctx_pool c) (snd it)))) (items_of c) a \<and>
    ctx_pool c' = lock_items (items_of c) (ctx_pool c) \<and>
    worked (ctx_iter c') = worked (ctx_iter c) @ items_of c \<and> ctx_backend c' = ctx_backend c"
  using assms
proof (induction f a c arbitrary: a' c' rule: iter_fold.induct)
  case (1 f a c)
  obtain r c1 where nx: "iter_next c = (r, c1)" by fastforce
  note spec = iter_next_spec[OF nx "1.prems"(2)]
  show ?case
  proof (cases r)
    case None
    with nx "1.prems"(1) spec show ?thesis by (subst (asm) iter_fold.simps) auto
  next
    case (Some it)
    have drop: "item_drop it c1 = c1\<lparr>ctx_iter := (ctx_iter c1)\<lparr>worked := worked (ctx_iter c1) @ [it]\<rparr>\<rparr>"
      using spec Some by (auto simp: item_drop_def)
    have "iter_fold f (f it (data (states (ctx_pool c1) (snd it))) a) (item_drop it c1) = (a', c')"
      using "1.prems"(1) nx Some by (subst (asm) iter_fold.simps) simp
    moreover have "guards_ok (ctx_pool (item_drop it c1)) (todo (item_drop it c1))"
      using spec by (simp add: drop todo_def)
    moreover have "items_of (item_drop it c1) = items_of c1"
      by (simp add: drop items_of_def todo_def)
    ultimately show ?thesis
      using "1.IH"[OF nx[symmetric] Some, of a' c'] spec Some by (simp add: drop)
  qed
qed

lemma unprocessed_keys_next:
  assumes "iter_next c = (r, c')" and "snd ` set (unprocessed (ctx_iter c)) \<subseteq> {None}"
  shows "unprocessed (ctx_iter c') = unprocessed (ctx_iter c)"
  using assms
proof (induction "length (todo c)" arbitrary: c rule: less_induct)
  case less
  define n where "n = next_idx (ctx_iter c)"
  show ?case
  proof (cases "length (unprocessed (ctx_iter c)) \<le> n")
    case True
    with less.prems show ?thesis
      by (subst (asm) iter_next.simps) (auto simp: Let_def n_def)
  next
    case False
    then have td: "length (todo (iter_advance c)) < length (todo c)"
      by (simp add: todo_advance n_def)
    obtain k g where kg: "unprocessed (ctx_iter c) ! n = (k, g)" by fastforce
    have "(k, g) \<in> set (unprocessed (ctx_iter c))"
      using nth_mem[of n "unprocessed (ctx_iter c)"] False kg by simp
    then have "snd (k, g) \<in> {None}" using less.prems(2) by (meson image_eqI subsetD)
    then have "g = None" by simp
    with kg have un: "unprocessed (ctx_iter (iter_advance c)) = unprocessed (ctx_iter c)"
      by (auto simp: iter_advance_def Let_def n_def) (metis list_update_id)
    note eq = less.prems(1)[unfolded iter_next.simps[of c], unfolded Let_def, folded n_def]
    have IH: ?thesis if "iter_next (iter_advance c) = (r, c')"
      using less.hyps[OF td that] un less.prems(2) by simp
    show ?thesis using eq False kg \<open>g = None\<close> un
      by (auto split: option.splits if_splits dest: IH)
  qed
qed

lemma unprocessed_keys_fold:
  "iter_fold f a c = (a', c') \<Longrightarrow> snd ` set (unprocessed (ctx_iter c)) \<subseteq> {None} \<Longrightarrow>
     unprocessed (ctx_iter c') = unprocessed (ctx_iter c)"
proof (induction f a c arbitrary: a' c' rule: iter_fold.induct)
  case (1 f a c)
  obtain r c1 where nx: "iter_next c = (r, c1)" by fastforce
  have un: "unprocessed (ctx_iter c1) = unprocessed (ctx_iter c)"
    using unprocessed_keys_next[OF nx "1.prems"(2)] .
  have ud: "unprocessed (ctx_iter (item_drop it c1)) = unprocessed (ctx_iter c1)" for it
    by (simp add: item_drop_def)
  show ?case
  proof (cases r)
    case None
    with nx "1.prems" un show ?thesis by (subst (asm) iter_fold.simps) auto
  next
    case (Some it)
    have "iter_fold f (f it (data (states (ctx_pool c1) (snd it))) a) (item_drop it c1) = (a', c')"
      using "1.prems"(1) nx Some by (subst (asm) iter_fold.simps) simp
    with "1.IH"[OF nx[symmetric] Some] "1.prems"(2) un ud show ?thesis by simp
  qed
qed

end
