(* ===== verification/FlushInv.thy ===== *)
theory FlushInv
  imports UpdateIterators "HOL-Library.Multiset"
begin

text \<open>
  The discipline of a flush: what stays true of the pool while \<open>write_back\<close> or an observer
  works on the iterator, shown for every operation of the iterator, and what a clean-up makes of
  it. \<open>flush_inv p0 H c\<close> relates the context \<open>c\<close> of a flush that began with the pool \<open>p0\<close>
  and whose caller holds the items \<open>H\<close>.
\<close>

definition guards :: "('k, 'u, 'd) flush_ctx \<Rightarrow> ('k \<times> nat) list" where
  "guards c = own_guards (ctx_iter c)"

definition flush_inv :: "('k, 'u) pool \<Rightarrow> ('k \<times> nat) list \<Rightarrow> ('k, 'u, 'd) flush_ctx \<Rightarrow> bool" where
  "flush_inv p0 H c \<longleftrightarrow>
     updates (ctx_pool c) = updates p0 \<and> fresh (ctx_pool c) = fresh p0 \<and>
     (\<forall>i. holders (states (ctx_pool c) i) = holders (states p0 i)) \<and>
     (\<forall>i. data (states (ctx_pool c) i) = data (states p0 i) \<or> data (states (ctx_pool c) i) = None) \<and>
     (\<forall>i. locked (states (ctx_pool c) i) \<longleftrightarrow> locked (states p0 i) \<or> i \<in> snd ` set (guards c @ H)) \<and>
     (\<forall>(k, i) \<in> set (guards c @ H). pool_get p0 k = Some i \<and> \<not> locked (states p0 i) \<and>
        data (states p0 i) \<noteq> None) \<and>
     distinct (map snd (guards c @ H))"

lemma flush_invD:
  assumes "flush_inv p0 H c"
  shows "updates (ctx_pool c) = updates p0" "fresh (ctx_pool c) = fresh p0"
    "holders (states (ctx_pool c) i) = holders (states p0 i)"
    "data (states (ctx_pool c) i) = data (states p0 i) \<or> data (states (ctx_pool c) i) = None"
    "locked (states (ctx_pool c) i) \<longleftrightarrow> locked (states p0 i) \<or> i \<in> snd ` set (guards c @ H)"
    "pool_get (ctx_pool c) = pool_get p0"
  using assms by (auto simp: flush_inv_def pool_get_def fun_eq_iff)

lemma flush_inv_guard:
  "flush_inv p0 H c \<Longrightarrow> (k, i) \<in> set (guards c @ H) \<Longrightarrow> pool_get p0 k = Some i \<and> \<not> locked (states p0 i) \<and>
     data (states p0 i) \<noteq> None"
  unfolding flush_inv_def by (elim conjE, drule (1) bspec) simp

lemma guards_simps [simp]:
  "guards (ctx_on_pool g c) = guards c"
  "guards (c\<lparr>ctx_backend := d\<rparr>) = guards c"
  "guards (c\<lparr>ctx_pool := q\<rparr>) = guards c"
  by (simp_all add: guards_def ctx_on_pool_def)

text \<open>The context a flush starts with.\<close>

lemma own_guards_keys [simp]: "own_guards (iter_keys ks) = []"
  by (induction ks) (auto simp: own_guards_def iter_keys_def List.map_filter_def)

lemma own_guards_key_guard [simp]: "own_guards (iter_key_guard kg) = [kg]"
  by (cases kg) (simp add: own_guards_def iter_key_guard_def List.map_filter_def)

lemma flush_inv_keys: "flush_inv p [] \<lparr>ctx_pool = p, ctx_iter = iter_keys ks, ctx_backend = d\<rparr>"
  by (simp add: flush_inv_def guards_def)

lemma flush_inv_key_guard:
  "pool_get p k = Some i \<Longrightarrow> \<not> locked (states p i) \<Longrightarrow> data (states p i) \<noteq> None \<Longrightarrow>
     flush_inv p [] \<lparr>ctx_pool = lock_state i p, ctx_iter = iter_key_guard (k, i), ctx_backend = d\<rparr>"
  by (auto simp: flush_inv_def guards_def)

section \<open>The operations of the iterator keep the discipline\<close>

lemma flush_inv_backend [simp]: "flush_inv p0 H (c\<lparr>ctx_backend := d\<rparr>) = flush_inv p0 H c"
  by (simp add: flush_inv_def)

lemma flush_inv_mset:
  assumes "flush_inv p0 H c" and "mset (guards c' @ H') = mset (guards c @ H)" and "ctx_pool c' = ctx_pool c"
  shows "flush_inv p0 H' c'"
proof -
  have "set (guards c' @ H') = set (guards c @ H)" using assms(2) by (metis set_mset_mset)
  moreover have "distinct (map snd (guards c' @ H')) = distinct (map snd (guards c @ H))"
    using assms(2) by (metis mset_map mset_eq_imp_distinct_iff)
  ultimately show ?thesis using assms(1,3) by (simp add: flush_inv_def del: set_append map_append)
qed

lemma mset_exchange: "A = P + X + Q \<Longrightarrow> B = P + Y + Q \<Longrightarrow> A = B + X - (Y :: 'a multiset)"
  by (simp add: ac_simps)

lemma map_filter_append: "List.map_filter f (xs @ ys) = List.map_filter f xs @ List.map_filter f ys"
  by (simp add: List.map_filter_def)

lemma map_filter_mset_split:
  "mset (List.map_filter f (xs @ y # ys)) =
     mset (List.map_filter f xs) + mset (List.map_filter f [y]) + mset (List.map_filter f ys)"
  using map_filter_append[of f xs "[y] @ ys"] map_filter_append[of f "[y]" ys] by simp

lemma map_filter_mset_update:
  assumes n: "n < length xs"
  shows "mset (List.map_filter f xs) =
     mset (List.map_filter f (xs[n := y])) + mset (List.map_filter f [xs ! n]) - mset (List.map_filter f [y])"
proof (rule mset_exchange)
  show "mset (List.map_filter f xs) = mset (List.map_filter f (take n xs)) +
      mset (List.map_filter f [xs ! n]) + mset (List.map_filter f (drop (Suc n) xs))"
    using map_filter_mset_split[of f "take n xs" "xs ! n" "drop (Suc n) xs"] id_take_nth_drop[OF n] by simp
  show "mset (List.map_filter f (xs[n := y])) = mset (List.map_filter f (take n xs)) +
      mset (List.map_filter f [y]) + mset (List.map_filter f (drop (Suc n) xs))"
    using map_filter_mset_split[of f "take n xs" y "drop (Suc n) xs"] by (simp add: upd_conv_take_nth_drop[OF n])
qed

lemma guards_advance:
  assumes "next_idx (ctx_iter c) < length (unprocessed (ctx_iter c))"
    and "unprocessed (ctx_iter c) ! next_idx (ctx_iter c) = (k, g)"
  shows "mset (guards c) = mset (guards (iter_advance c)) + (case g of None \<Rightarrow> {#} | Some i \<Rightarrow> {#(k, i)#})"
  using map_filter_mset_update[OF assms(1), of "\<lambda>(k, g). map_option (Pair k) g" "(k, None)"] assms(2)
  by (cases g) (auto simp: guards_def own_guards_def iter_advance_def Let_def List.map_filter_def)

text \<open>Changing the lock of one state, which the caller gains or loses.\<close>

lemma flush_inv_Cons:
  "flush_inv p0 ((k, i) # H) c \<longleftrightarrow>
     flush_inv p0 H (ctx_on_pool (unlock_state i) c) \<and> locked (states (ctx_pool c) i) \<and>
     pool_get p0 k = Some i \<and> \<not> locked (states p0 i) \<and> data (states p0 i) \<noteq> None \<and>
     i \<notin> snd ` set (guards c @ H)"
proof (cases "\<not> locked (states p0 i) \<and> i \<notin> snd ` set (guards c @ H)")
  case False
  then show ?thesis by (auto simp: flush_inv_def)
next
  case True
  define S where "S = snd ` set (guards c @ H)"
  have l: "(\<forall>j. locked (states (ctx_pool c) j) \<longleftrightarrow> locked (states p0 j) \<or> j \<in> insert i S) \<longleftrightarrow>
      (\<forall>j. (j \<noteq> i \<and> locked (states (ctx_pool c) j)) \<longleftrightarrow> locked (states p0 j) \<or> j \<in> S) \<and>
      locked (states (ctx_pool c) i)"
    using True unfolding S_def[symmetric] by auto
  have S: "snd ` set (guards c @ (k, i) # H) = insert i S" by (auto simp: S_def)
  have d: "distinct (map snd (guards c @ (k, i) # H)) \<longleftrightarrow> distinct (map snd (guards c @ H))"
    using True by auto
  have g: "(\<forall>(k, i) \<in> set (guards c @ (k, i) # H). pool_get p0 k = Some i \<and> \<not> locked (states p0 i) \<and>
        data (states p0 i) \<noteq> None) \<longleftrightarrow>
      pool_get p0 k = Some i \<and> data (states p0 i) \<noteq> None \<and>
      (\<forall>(k, i) \<in> set (guards c @ H). pool_get p0 k = Some i \<and> \<not> locked (states p0 i) \<and>
        data (states p0 i) \<noteq> None)"
    using True by auto
  show ?thesis
    unfolding flush_inv_def guards_simps ctx_on_pool_reads state_op_reads data_reads holders_reads
      locked_reads S l d g S_def[symmetric]
    using True unfolding S_def[symmetric] by argo
qed

lemma flush_inv_unlock:
  "flush_inv p0 (it # H) c \<Longrightarrow> flush_inv p0 H (ctx_on_pool (unlock_state (snd it)) c)"
  by (cases it) (simp add: flush_inv_Cons)

lemma flush_inv_lock:
  assumes inv: "flush_inv p0 H c" and "pool_get (ctx_pool c) k = Some i" and "\<not> locked (states (ctx_pool c) i)"
    and "data (states (ctx_pool c) i) \<noteq> None"
  shows "flush_inv p0 ((k, i) # H) (ctx_on_pool (lock_state i) c)"
proof -
  have "i \<notin> snd ` set (guards c @ H)" "\<not> locked (states p0 i)" "pool_get p0 k = Some i" "data (states p0 i) \<noteq> None"
    using assms(2-4) flush_invD(4,5)[OF inv, of i] flush_invD(6)[OF inv] by auto
  moreover have "ctx_on_pool (unlock_state i) (ctx_on_pool (lock_state i) c) = c"
    using assms(3) by simp
  ultimately show ?thesis using inv unfolding flush_inv_Cons by simp
qed

lemma iter_next_inv:
  assumes "iter_next c = (r, c')" and "flush_inv p0 H c"
  shows "case r of None \<Rightarrow> flush_inv p0 H c'
    | Some it \<Rightarrow> flush_inv p0 (it # H) c' \<and> data (states (ctx_pool c') (snd it)) \<noteq> None"
  using assms
proof (induction "length (todo c)" arbitrary: c rule: less_induct)
  case less
  define n where "n = next_idx (ctx_iter c)"
  define c1 where "c1 = iter_advance c"
  show ?case
  proof (cases "length (unprocessed (ctx_iter c)) \<le> n")
    case True
    with less.prems show ?thesis by (subst (asm) iter_next.simps) (auto simp: Let_def n_def)
  next
    case False
    obtain key guard where kg: "unprocessed (ctx_iter c) ! n = (key, guard)" by fastforce
    have td: "length (todo c1) < length (todo c)" using False by (simp add: todo_advance n_def c1_def)
    have ms: "mset (guards c) = mset (guards c1) + (case guard of None \<Rightarrow> {#} | Some i \<Rightarrow> {#(key, i)#})"
      using guards_advance[of c key guard] False kg by (simp add: n_def c1_def)
    note eq = less.prems(1)[unfolded iter_next.simps[of c], unfolded Let_def, folded n_def c1_def]
    have IH: ?thesis if "iter_next c2 = (r, c')" "todo c2 = todo c1" "flush_inv p0 H c2" for c2
      using less.hyps[OF _ that(1,3)] td that(2) by simp
    show ?thesis
    proof (cases guard)
      case (Some i)
      have inv: "flush_inv p0 ((key, i) # H) c1"
        by (rule flush_inv_mset[OF less.prems(2)]) (use ms Some in \<open>auto simp: c1_def\<close>)
      show ?thesis
      proof (cases "data (states (ctx_pool c1) i)")
        case None
        with eq False kg Some have "iter_next (ctx_on_pool (unlock_state i) c1) = (r, c')" by simp
        then show ?thesis by (rule IH) (use flush_inv_unlock[OF inv] in simp_all)
      next
        case d: (Some u)
        with eq False kg Some inv show ?thesis by auto
      qed
    next
      case None
      have inv: "flush_inv p0 H c1"
        by (rule flush_inv_mset[OF less.prems(2)]) (use ms None in \<open>auto simp: c1_def\<close>)
      show ?thesis
      proof (cases "\<exists>i. pool_get (ctx_pool c1) key = Some i \<and> \<not> locked (states (ctx_pool c1) i) \<and>
          data (states (ctx_pool c1) i) \<noteq> None")
        case True
        with eq False kg None flush_inv_lock[OF inv] show ?thesis by auto
      next
        case no: False
        have "iter_next c1 = (r, c')"
          using no eq False kg None by (auto split: option.splits if_splits)
        then show ?thesis by (rule IH) (use inv in simp_all)
      qed
    qed
  qed
qed

lemma item_drop_inv:
  assumes "flush_inv p0 (it # H) c"
  shows "flush_inv p0 H (item_drop it c)"
proof (cases "data (states (ctx_pool c) (snd it)) = None")
  case True
  then show ?thesis using flush_inv_unlock[OF assms] by (simp add: item_drop_def)
next
  case False
  show ?thesis
    by (rule flush_inv_mset[OF assms]) (use False in \<open>auto simp: item_drop_def guards_def own_guards_def\<close>)
qed

lemma items_drop_inv: "flush_inv p0 (its @ H) c \<Longrightarrow> flush_inv p0 H (items_drop its c)"
  unfolding items_drop_def by (induction its arbitrary: c) (auto dest: item_drop_inv)

lemma item_confirm_inv: "flush_inv p0 (it # H) c \<Longrightarrow> flush_inv p0 H (item_confirm it c)"
  unfolding item_confirm_def
  by (rule flush_inv_unlock) (auto simp: flush_inv_def)

lemma set_data_None_inv: "flush_inv p0 H c \<Longrightarrow> flush_inv p0 H (ctx_on_pool (set_data i None) c)"
  by (auto simp: flush_inv_def)

lemma confirm_all_inv: "flush_inv p0 H c \<Longrightarrow> flush_inv p0 H (confirm_all c)"
proof -
  have "flush_inv p0 H (ctx_on_pool (fold (\<lambda>it. set_data (snd it) None) its) c)" if "flush_inv p0 H c" for its
    using that
  proof (induction its arbitrary: c)
    case (Cons it its)
    from Cons.IH[OF set_data_None_inv[OF Cons.prems, of "snd it"]] show ?case by (simp add: ctx_on_pool_def)
  qed (simp add: ctx_on_pool_def)
  then show "flush_inv p0 H c \<Longrightarrow> flush_inv p0 H (confirm_all c)" by (simp add: confirm_all_def)
qed

lemma unlock_items_inv:
  "flush_inv p0 (its @ H) c \<Longrightarrow> flush_inv p0 H (ctx_on_pool (unlock_items its) c)"
proof (induction its arbitrary: c)
  case Nil
  then show ?case by (simp add: ctx_on_pool_def)
next
  case (Cons it its)
  have "flush_inv p0 (its @ H) (ctx_on_pool (unlock_state (snd it)) c)"
    by (rule flush_inv_unlock) (use Cons.prems in simp)
  from Cons.IH[OF this] show ?case by (simp add: ctx_on_pool_def)
qed

lemma iter_reset_inv: "flush_inv p0 H c \<Longrightarrow> flush_inv p0 H (iter_reset c)"
proof -
  assume inv: "flush_inv p0 H c"
  define w where "w = worked (ctx_iter c)"
  define c0 where "c0 = c\<lparr>ctx_iter := (ctx_iter c)\<lparr>next_idx := 0, worked := []\<rparr>\<rparr>"
  have "flush_inv p0 (w @ H) c0"
    by (rule flush_inv_mset[OF inv]) (auto simp: c0_def guards_def own_guards_def w_def)
  from unlock_items_inv[OF this] show ?thesis
    by (cases c) (simp add: iter_reset_def c0_def w_def ctx_on_pool_def Let_def)
qed

lemma guards_iter_drop [simp]: "guards (iter_drop c) = []"
  by (simp add: iter_drop_def guards_def own_guards_def Let_def List.map_filter_def)

lemma iter_drop_idem [simp]: "iter_drop (iter_drop c) = iter_drop c"
  by (simp add: iter_drop_def ctx_on_pool_def Let_def own_guards_def List.map_filter_def)

lemma iter_drop_inv:
  assumes inv: "flush_inv p0 H c"
  shows "flush_inv p0 H (iter_drop c)"
proof -
  define g where "g = own_guards (ctx_iter c)"
  define c0 where "c0 = c\<lparr>ctx_iter := (ctx_iter c)\<lparr>unprocessed := [], next_idx := 0, worked := []\<rparr>\<rparr>"
  have "flush_inv p0 (g @ H) c0"
    by (rule flush_inv_mset[OF inv]) (auto simp: c0_def guards_def own_guards_def g_def List.map_filter_def)
  from unlock_items_inv[OF this] show ?thesis
    by (cases c) (simp add: iter_drop_def c0_def g_def ctx_on_pool_def Let_def)
qed

text \<open>With no guard left, only updates may have gone: every lock and reference is as before.\<close>

lemma flush_inv_done:
  assumes "flush_inv p0 [] c" and "guards c = []"
  shows "locked (states (ctx_pool c) i) = locked (states p0 i)"
  using assms by (auto simp: flush_inv_def)

lemma flush_inv_pool_wf: "flush_inv p0 [] c \<Longrightarrow> guards c = [] \<Longrightarrow> pool_wf p0 \<Longrightarrow> pool_wf (ctx_pool c)"
  by (auto simp: pool_wf_def flush_invD flush_inv_done)

lemma flush_inv_pool_own: "flush_inv p0 H c \<Longrightarrow> pool_own p0 \<Longrightarrow> pool_own (ctx_pool c)"
  by (auto simp: pool_own_def flush_invD)

lemma flush_inv_pool_idle: "flush_inv p0 [] c \<Longrightarrow> guards c = [] \<Longrightarrow> pool_idle p0 \<Longrightarrow> pool_idle (ctx_pool c)"
  by (auto simp: pool_idle_def flush_invD flush_inv_done)

lemma flush_inv_pending: "flush_inv p0 H c \<Longrightarrow> pending (ctx_pool c) \<subseteq>\<^sub>m pending p0"
proof -
  assume inv: "flush_inv p0 H c"
  have "pending (ctx_pool c) k = pending p0 k \<or> pending (ctx_pool c) k = None" for k
    using flush_invD(4)[OF inv] flush_invD(6)[OF inv] by (auto simp: pending_def split: option.splits)
  then show "pending (ctx_pool c) \<subseteq>\<^sub>m pending p0" by (force simp: map_le_def)
qed

section \<open>The clean-up after a flush\<close>

lemma strong_count_own:
  assumes "pool_wf p" "pool_own p" "pool_get p k = Some i"
  shows "strong_count i p = Suc (holders (states p i))"
proof -
  define xs where "xs = filter (\<lambda>(_, j). j = i) (updates p)"
  have wf: "hm_wf (updates p)" using assms(1) by (simp add: pool_wf_def)
  then have "distinct (updates p)" by (auto simp: hm_wf_def distinct_map)
  then have "distinct xs" by (simp add: xs_def)
  moreover have "set xs = {(k, i)}"
    using assms(2,3) hm_wf_set_map_of[OF wf] by (auto simp: xs_def pool_get_def pool_own_def)
  ultimately have "length xs = 1" by (simp flip: distinct_card)
  then show ?thesis by (simp add: strong_count_def xs_def)
qed

definition purified :: "('k \<times> nat) list \<Rightarrow> ('k, 'u) pool \<Rightarrow> 'k \<Rightarrow> bool" where
  "purified its p k \<longleftrightarrow> (\<exists>i. (k, i) \<in> set its \<and> data (states p i) = None \<and> holders (states p i) = 0)"

lemma purify_worked_spec:
  assumes "pool_wf p" "pool_own p" and "\<forall>(k, i) \<in> set its. pool_get p k = Some i"
    and "distinct (map fst its)" and "purify_worked its p = (r, p')"
  shows "r = Ok () \<and> states p' = states p \<and> fresh p' = fresh p \<and> pool_wf p' \<and> pool_own p' \<and>
    (\<forall>k. pool_get p' k = (if purified its p k then None else pool_get p k))"
  using assms
proof (induction its arbitrary: p)
  case Nil
  then show ?case by (simp add: purified_def)
next
  case (Cons it its)
  obtain k i where it: "it = (k, i)" by fastforce
  have pk: "pool_get p k = Some i" using Cons.prems(3) by (simp add: it)
  have sc: "strong_count i p > 1 \<longleftrightarrow> holders (states p i) > 0"
    using strong_count_own[OF Cons.prems(1,2) pk] by simp
  have pur: "purified (it # its) p k' \<longleftrightarrow>
      (k' = k \<and> data (states p i) = None \<and> holders (states p i) = 0) \<or> purified its p k'" for k'
    by (auto simp: purified_def it)
  show ?case
  proof (cases "data (states p i) = None \<and> holders (states p i) = 0")
    case True
    have step: "purify_worked its (pool_remove k p) = (r, p')"
      using Cons.prems(5) pk sc True by (simp add: it)
    have all: "\<forall>(k', j) \<in> set its. pool_get (pool_remove k p) k' = Some j"
      using Cons.prems(3,4) by (auto simp: it rev_image_eqI)
    have "purified its (pool_remove k p) = purified its p" by (simp add: purified_def fun_eq_iff)
    with Cons.IH[OF _ _ all _ step] Cons.prems(1,2,4) True pk pur show ?thesis by (simp add: it)
  next
    case False
    have step: "purify_worked its p = (r, p')"
      using Cons.prems(5) pk sc False by (auto simp: it split: if_splits)
    from Cons.IH[OF Cons.prems(1,2) _ _ step] Cons.prems(3,4) False pur show ?thesis by (auto simp: it)
  qed
qed

text \<open>
  What is left of a flush once the iterator has been dropped: no update was invented, every lock
  and reference is as it was, and the pool is still well-formed.
\<close>

definition pool_flushed :: "('k, 'u) pool \<Rightarrow> ('k, 'u) pool \<Rightarrow> bool" where
  "pool_flushed p0 p \<longleftrightarrow> pool_wf p \<and> pool_own p \<and> fresh p = fresh p0 \<and>
     pending p \<subseteq>\<^sub>m pending p0 \<and> pool_get p \<subseteq>\<^sub>m pool_get p0 \<and>
     (\<forall>k i. pool_get p0 k = Some i \<longrightarrow> data (states p0 i) = None \<longrightarrow> pool_get p k = Some i) \<and>
     (\<forall>i. locked (states p i) = locked (states p0 i) \<and> holders (states p i) = holders (states p0 i))"

lemma pool_flushed_idle: "pool_flushed p0 p \<Longrightarrow> pool_idle p0 \<Longrightarrow> pool_idle p"
  by (simp add: pool_flushed_def pool_idle_def)

lemma pool_flushed_drop:
  assumes "pool_wf p0" "pool_own p0" "flush_inv p0 [] c"
  shows "pool_flushed p0 (ctx_pool (iter_drop c))"
proof -
  note inv = iter_drop_inv[OF assms(3)]
  show ?thesis unfolding pool_flushed_def
    using flush_inv_pool_wf[OF inv _ assms(1)] flush_inv_pool_own[OF inv assms(2)] flush_invD[OF inv]
      flush_inv_pending[OF inv] flush_inv_done[OF inv] by simp
qed

lemma flush_inv_worked:
  assumes inv: "flush_inv p0 [] c"
  shows "\<forall>(k, i) \<in> set (worked (ctx_iter c)). pool_get (ctx_pool c) k = Some i"
    and "distinct (map fst (worked (ctx_iter c)))"
proof -
  show all: "\<forall>(k, i) \<in> set (worked (ctx_iter c)). pool_get (ctx_pool c) k = Some i"
    using inv flush_invD(6)[OF inv] by (auto simp: flush_inv_def guards_def own_guards_def)
  have d: "distinct (map snd (worked (ctx_iter c)))"
    using inv by (auto simp: flush_inv_def guards_def own_guards_def)
  then show "distinct (map fst (worked (ctx_iter c)))"
    using all by (auto simp: distinct_map inj_on_def) (metis (mono_tags, lifting) case_prodD option.inject)
qed

lemma flush_inv_worked_data:
  "flush_inv p0 [] c \<Longrightarrow> (k, i) \<in> set (worked (ctx_iter c)) \<Longrightarrow> data (states p0 i) \<noteq> None"
  using flush_inv_guard[of p0 "[]" c k i] by (simp add: guards_def own_guards_def)

lemma pending_states: "pool_get p = pool_get q \<Longrightarrow> (\<And>i. data (states p i) = data (states q i)) \<Longrightarrow> pending p = pending q"
  by (auto simp: pending_def fun_eq_iff split: option.splits)

lemma flush_inv_wf:
  assumes inv: "flush_inv p0 H c" and wf: "pool_wf p0"
  shows "pool_wf (ctx_pool c)"
proof -
  have "j < fresh p0" if "j \<in> snd ` set (guards c @ H)" for j
    using that flush_inv_guard[OF inv] pool_wf_get[OF wf] by fastforce
  then have "\<not> locked (states (ctx_pool c) j)" if "j \<ge> fresh p0" for j
    using that wf flush_invD(5)[OF inv, of j] by (auto simp: pool_wf_def not_le[symmetric] simp del: set_append)
  then show ?thesis
    using wf flush_invD(1,2,6)[OF inv] flush_invD(3)[OF inv] by (simp add: pool_wf_def)
qed

lemma purify_updates_spec:
  fixes c :: "('k, 'u, 'd) flush_ctx" and r :: "('e, nat) res"
  assumes "pool_wf p0" "pool_own p0" "flush_inv p0 [] c" and "purify_updates c = (r, c')"
  shows "r = Ok 0 \<and> pool_flushed p0 (ctx_pool c') \<and> pending (ctx_pool c') = pending (ctx_pool c) \<and>
    ctx_backend c' = ctx_backend c \<and> iter_drop c' = c' \<and>
    (\<forall>k. pool_get (ctx_pool c') k =
      (if purified (worked (ctx_iter c)) (ctx_pool c) k then None else pool_get p0 k))"
proof -
  note inv = assms(3)
  define w where "w = worked (ctx_iter c)"
  define ul where "ul = unlock_items (own_guards (ctx_iter c)) (ctx_pool c)"
  obtain r1 p1 where pw: "purify_worked w (ctx_pool c) = (r1 :: ('e, unit) res, p1)" by fastforce
  have own: "pool_own (ctx_pool c)" by (rule flush_inv_pool_own[OF inv assms(2)])
  have wf: "pool_wf (ctx_pool c)" by (rule flush_inv_wf[OF inv assms(1)])
  note spec = purify_worked_spec[OF wf own flush_inv_worked[OF inv, folded w_def] pw]
  have c': "r = Ok 0" "c' = iter_drop (c\<lparr>ctx_pool := p1\<rparr>)"
    using assms(4) pw spec by (auto simp: purify_updates_def on_exit_def w_def)
  define p' where "p' = ctx_pool c'"
  have p': "p' = unlock_items (own_guards (ctx_iter c)) p1"
    by (simp add: p'_def c' iter_drop_def ctx_on_pool_def Let_def)
  have get: "pool_get p' k = (if purified w (ctx_pool c) k then None else pool_get p0 k)" for k
    using spec flush_invD(6)[OF inv] by (simp add: p')
  have dat: "data (states p' i) = data (states (ctx_pool c) i)" for i using spec by (simp add: p')
  have pen: "pending p' k = pending (ctx_pool c) k" for k
    using get[of k] dat flush_invD(6)[OF inv] flush_inv_worked(1)[OF inv]
    by (auto simp: pending_def purified_def w_def split: option.splits)
  have lk: "locked (states p' i) = locked (states p0 i)" for i
    using spec flush_invD(5)[OF inv, of i] flush_inv_guard[OF inv] by (force simp: p' guards_def)
  have hd: "holders (states p' i) = holders (states p0 i)" for i
    using spec flush_invD(3)[OF inv, of i] by (simp add: p')
  have fr: "fresh p' = fresh p0" using spec flush_invD(2)[OF inv] by (simp add: p')
  have up: "hm_wf (updates p')" using spec by (simp add: p' pool_wf_def)
  have wf': "pool_wf p'"
    using assms(1) up lk hd fr get by (auto simp: pool_wf_def split: if_splits)
  have own': "pool_own p'" using spec by (simp add: p' pool_own_def)
  have "pending p' \<subseteq>\<^sub>m pending p0"
    using flush_inv_pending[OF inv] pen by (simp add: map_le_def dom_def)
  moreover have "pool_get p' \<subseteq>\<^sub>m pool_get p0" using get by (auto simp: map_le_def)
  moreover have "pool_get p' k = Some i" if ki: "pool_get p0 k = Some i" "data (states p0 i) = None" for k i
  proof -
    have "\<not> purified w (ctx_pool c) k"
    proof
      assume "purified w (ctx_pool c) k"
      then obtain j where j: "(k, j) \<in> set (worked (ctx_iter c))" by (auto simp: purified_def w_def)
      then have "j = i" using flush_inv_worked(1)[OF inv] flush_invD(6)[OF inv] ki(1) by auto
      with flush_inv_worked_data[OF inv j] ki(2) show False by simp
    qed
    then show ?thesis using get ki(1) by simp
  qed
  ultimately have "pool_flushed p0 p'" using wf' own' lk hd fr by (simp add: pool_flushed_def)
  moreover have "iter_drop c' = c'" by (simp add: c')
  moreover have "ctx_backend c' = ctx_backend c" by (simp add: c' iter_drop_def ctx_on_pool_def Let_def)
  moreover have "pending p' = pending (ctx_pool c)" using pen by (simp add: fun_eq_iff)
  ultimately show ?thesis using c'(1) get by (simp add: p'_def w_def)
qed

section \<open>Where a write-back starts\<close>

text \<open>
  A fresh or reset iterator: no item is out, nothing has been written, queued guards hold updates.
\<close>

definition wb_start :: "('k, 'u) pool \<Rightarrow> ('k, 'u, 'd) flush_ctx \<Rightarrow> bool" where
  "wb_start p0 c \<longleftrightarrow> flush_inv p0 [] c \<and> (\<forall>i. data (states (ctx_pool c) i) = data (states p0 i)) \<and>
     guards_ok (ctx_pool c) (todo c) \<and> worked (ctx_iter c) = []"

lemma items_of_distinct:
  assumes "flush_inv p0 H c" "guards_ok (ctx_pool c) (todo c)"
  shows "distinct (map snd (H @ items_of c)) \<and> (\<forall>(k, i) \<in> set (items_of c). pool_get p0 k = Some i)"
  using assms
proof (induction "length (todo c)" arbitrary: c H rule: less_induct)
  case less
  obtain r c1 where nx: "iter_next c = (r, c1)" by fastforce
  note spec = iter_next_spec[OF nx less.prems(2)] and inv = iter_next_inv[OF nx less.prems(1)]
  show ?case
  proof (cases r)
    case None
    then show ?thesis using spec less.prems(1) by (auto simp: flush_inv_def)
  next
    case (Some it)
    have inv1: "flush_inv p0 (it # H) c1" and g: "guards_ok (ctx_pool c1) (todo c1)"
      and lt: "length (todo c1) < length (todo c)" and io: "items_of c = it # items_of c1"
      using spec inv Some by auto
    have "pool_get p0 (fst it) = Some (snd it)" using flush_inv_guard[OF inv1, of "fst it" "snd it"] by simp
    with less.hyps[OF lt inv1 g] io show ?thesis by auto
  qed
qed

lemma items_of_keys_distinct:
  assumes "flush_inv p0 [] c" "guards_ok (ctx_pool c) (todo c)"
  shows "distinct (map fst (items_of c))"
proof -
  have d: "distinct (map snd (items_of c))" and g: "\<forall>(k, i) \<in> set (items_of c). pool_get p0 k = Some i"
    using items_of_distinct[OF assms] by simp_all
  have "inj_on fst (set (items_of c))"
  proof (rule inj_onI)
    fix x y assume xy: "x \<in> set (items_of c)" "y \<in> set (items_of c)" "fst x = fst y"
    then have "pool_get p0 (fst x) = Some (snd x)" "pool_get p0 (fst y) = Some (snd y)"
      using g xy(1,2) unfolding split_beta by blast+
    then have "snd x = snd y" using xy(3) by simp
    with xy(3) show "x = y" by (simp add: prod_eq_iff)
  qed
  moreover have "distinct (items_of c)" using d by (simp add: distinct_map)
  ultimately show ?thesis by (simp add: distinct_map)
qed

lemma confirm_fold_data:
  "data (states (fold (\<lambda>it. set_data (snd it) None) its p) j) =
     (if j \<in> snd ` set its then None else data (states p j))"
  by (induction its arbitrary: p) auto

lemma confirm_all_reads:
  "data (states (ctx_pool (confirm_all c)) j) =
     (if j \<in> snd ` set (worked (ctx_iter c)) then None else data (states (ctx_pool c) j))"
  "ctx_backend (confirm_all c) = ctx_backend c"
  by (simp_all add: confirm_all_def confirm_fold_data)

lemma pool_get_confirm_all [simp]: "pool_get (ctx_pool (confirm_all c)) = pool_get (ctx_pool c)"
proof -
  have "pool_get (fold (\<lambda>it. set_data (snd it) None) its p) = pool_get p" for its and p :: "('a, 'b) pool"
    by (induction its arbitrary: p) auto
  then show ?thesis by (simp add: confirm_all_def)
qed

text \<open>Every pending update of the requested keys is yielded when nothing is locked.\<close>

lemma remaining_keys:
  assumes "pool_own p" "distinct ks" "\<forall>k \<in> set ks. \<forall>i. pool_get p k = Some i \<longrightarrow> \<not> locked (states p i)"
  shows "remaining p (map (\<lambda>k. (k, None)) ks) =
    map (\<lambda>k. (k, the (pool_get p k))) (filter (\<lambda>k. pending p k \<noteq> None) ks)"
  using assms
proof (induction ks arbitrary: p)
  case (Cons k ks)
  show ?case
  proof (cases "pool_get p k")
    case None
    then show ?thesis using Cons.IH[of p] Cons.prems by (simp add: pending_def)
  next
    case (Some i)
    then have i: "\<not> locked (states p i)" using Cons.prems(3) by simp
    have other: "\<forall>k' \<in> set ks. \<forall>j. pool_get p k' = Some j \<longrightarrow> j \<noteq> i"
      using Cons.prems(1,2) Some by (auto simp: pool_own_def)
    have "remaining (lock_state i p) (map (\<lambda>k. (k, None)) ks) =
        map (\<lambda>k. (k, the (pool_get p k))) (filter (\<lambda>k. pending p k \<noteq> None) ks)"
      using Cons.IH[of "lock_state i p"] Cons.prems other by simp
    then show ?thesis using Cons.IH[of p] Cons.prems Some i by (simp add: pending_def)
  qed
qed simp

lemma wb_start_keys:
  assumes "worked (ctx_iter c) = []" "next_idx (ctx_iter c) = 0" "unprocessed (ctx_iter c) = map (\<lambda>k. (k, None)) ks"
  shows "wb_start (ctx_pool c) c"
proof -
  have "own_guards (ctx_iter c) = []"
    using assms(1,3) by (simp add: own_guards_def List.map_filter_def)
  then show ?thesis
    using assms by (auto simp: wb_start_def flush_inv_def guards_def guards_ok_def todo_def)
qed

end
