(* ===== verification/CacheCore.thy ===== *)
theory CacheCore
  imports FlushInv
begin

text \<open>
  The core of \<open>src/cache.rs\<close>: the error slot, the start of the monitor task, the update pool's
  part of every change (\<open>get_update_state_and_compute\<close> and \<open>_on_dc_op\<close>), the events that go
  to the observers, and the flush operations. Calls run one at a time here; a lock held by an
  unfinished call shows up as the result \<open>Wait\<close>.
\<close>

section \<open>Operations\<close>

definition clear_error :: "(('k, 'u, 'e, 'm, 'd) cache, 'e, 'e option) prog" where
  "clear_error = (\<lambda>s. (Ok (error s), s\<lparr>error := None\<rparr>))"

text \<open>The macro \<open>check_error!\<close>.\<close>

definition check_error :: "(('k, 'u, 'e, 'm, 'd) cache, 'e, unit) prog" where
  "check_error = bnd clear_error (\<lambda>err. case err of Some e \<Rightarrow> throw e | None \<Rightarrow> ret ())"

definition moka_get ::
  "('k, 'v, 'u, 'e, 'm, 'd) conf \<Rightarrow> 'k \<Rightarrow> (('k, 'u, 'e, 'm, 'd) cache, 'e, ('k, 'v) value_state option) prog" where
  "moka_get C key = gets (\<lambda>s. mk_lookup (mk C) (moka s) key)"

definition get_primary_key_from ::
  "('k, 'v, 'u, 'e, 'm, 'd) conf \<Rightarrow> 'k \<Rightarrow> (('k, 'u, 'e, 'm, 'd) cache, 'e, 'k option) prog" where
  "get_primary_key_from C key = bnd (moka_get C key) (\<lambda>v. case v of
       Some vs \<Rightarrow> ret (Some (case vs of Primary _ \<Rightarrow> key | Secondary k \<Rightarrow> k))
     | None \<Rightarrow> on_backend (dc_get_primary_key_for (dc C) key))"

text \<open>A new monitor is spawned when there is none or the last one has ended.\<close>

definition spawn :: "task option \<Rightarrow> task option" where
  "spawn t = (if t = None \<or> t = Some Finished then Some Spawned else t)"

definition check_task :: "(('k, 'u, 'e, 'm, 'd) cache, 'e, unit) prog" where
  "check_task = modify (\<lambda>s. s\<lparr>monitor_task := spawn (monitor_task s)\<rparr>)"

text \<open>
  The update state for a key: looked up under the primary key of the value when there is one,
  but a new one is put under the key of the call.
\<close>

definition fetch_state ::
  "('k, 'v, 'u, 'e, 'm, 'd) conf \<Rightarrow> 'k \<Rightarrow> 'v option \<Rightarrow> (('k, 'u, 'e, 'm, 'd) cache, 'e, nat) prog" where
  "fetch_state C key value = (\<lambda>s.
     let update_key = (case value of Some v \<Rightarrow> dc_primary_key_of (dc C) v | None \<Rightarrow> key) in
     case pool_get (pool s) update_key of
       None \<Rightarrow> (case alloc_state (pool s) of (i, p) \<Rightarrow> (Ok i, s\<lparr>pool := pool_insert key i p\<rparr>))
     | Some i \<Rightarrow> (Ok i, s))"

text \<open>\<open>_on_dc_op\<close>: what the data controller's answer means for moka and for the pool.\<close>

definition on_dc_op ::
  "dc_op \<Rightarrow> 'k \<Rightarrow> 'v option \<Rightarrow> (('k, 'u, 'e, 'm, 'd) cache, 'e, ('k, 'v) value_state op) prog" where
  "on_dc_op oper key value = (case oper of
       DcNop \<Rightarrow> ret Nop
     | DcInsert \<Rightarrow> ret (case value of Some v \<Rightarrow> Put (Primary v) | None \<Rightarrow> Nop)
     | DcRevoke \<Rightarrow> ret Remove
     | DcDrop \<Rightarrow> bnd (on_pool (pool_remove key)) (\<lambda>_. ret Remove))"

definition get_update_state_and_compute ::
  "('k, 'v, 'u, 'e, 'm, 'd) conf \<Rightarrow> 'k \<Rightarrow> 'v option \<Rightarrow> (nat \<Rightarrow> (('k, 'u, 'e, 'm, 'd) cache, 'e, dc_op) prog) \<Rightarrow>
     (('k, 'u, 'e, 'm, 'd) cache, 'e, ('k, 'v) value_state op) prog" where
  "get_update_state_and_compute C key value f =
     bnd check_task (\<lambda>_.
     bnd (fetch_state C key value) (\<lambda>i.
     bnd (on_pool (hold_state i)) (\<lambda>_.
     on_exit
       (bnd (f i) (\<lambda>oper.
        bnd (on_pool (pool_insert key i)) (\<lambda>_.
        on_dc_op oper key value)))
       (\<lambda>s. s\<lparr>pool := release_state i (pool s)\<rparr>))))"

definition on_new where
  "on_new C key value = get_update_state_and_compute C key (Some value) (\<lambda>i. us_on_new C i key value)"

definition on_change where
  "on_change C key value old_val =
     get_update_state_and_compute C key (Some value) (\<lambda>i. us_on_change C i key value old_val)"

definition on_access where
  "on_access C key value = bnd
     (get_update_state_and_compute C key (Some value) (\<lambda>i. us_on_access C i key value)) (\<lambda>_. ret ())"

definition on_delete where
  "on_delete C key value = get_update_state_and_compute C key value (\<lambda>i. us_on_delete C i key)"

subsection \<open>Flushing\<close>

text \<open>Running a program over the context of a flush inside the cache.\<close>

definition with_ctx ::
  "'k update_iterator \<Rightarrow> (('k, 'u, 'd) flush_ctx, 'e, 'a) prog \<Rightarrow> (('k, 'u, 'e, 'm, 'd) cache, 'e, 'a) prog" where
  "with_ctx it m = (\<lambda>s. case m \<lparr>ctx_pool = pool s, ctx_iter = it, ctx_backend = backend s\<rparr> of
     (r, c) \<Rightarrow> (r, s\<lparr>pool := ctx_pool c, backend := ctx_backend c\<rparr>))"

text \<open>The macro \<open>wbc_event!\<close> for the events of a flush.\<close>

definition event_on_flush ::
  "('k, 'v, 'u, 'e, 'm, 'd) conf \<Rightarrow> (('k, 'u, 'd) flush_ctx, 'e, unit) prog" where
  "event_on_flush C = for_each ob_on_flush (observers C)"

definition event_on_flush_one ::
  "('k, 'v, 'u, 'e, 'm, 'd) conf \<Rightarrow> 'k \<Rightarrow> 'u \<Rightarrow> (('k, 'u, 'e, 'm, 'd) cache, 'e, unit) prog" where
  "event_on_flush_one C key upd = on_backend (for_each (\<lambda>ob. ob_on_flush_one ob key upd) (observers C))"

definition event_on_monitor_error ::
  "('k, 'v, 'u, 'e, 'm, 'd) conf \<Rightarrow> 'e \<Rightarrow> (('k, 'u, 'e, 'm, 'd) cache, 'e, unit) prog" where
  "event_on_monitor_error C err = on_backend (for_each (\<lambda>ob. ob_on_monitor_error ob err) (observers C))"

definition flush_many_body :: "('k, 'v, 'u, 'e, 'm, 'd) conf \<Rightarrow> (('k, 'u, 'd) flush_ctx, 'e, nat) prog" where
  "flush_many_body C =
     bnd (event_on_flush C) (\<lambda>_.
     bnd (modify iter_reset) (\<lambda>_.
     bnd (dc_write_back (dc C)) (\<lambda>_.
     purify_updates)))"

definition flush_many_raw ::
  "('k, 'v, 'u, 'e, 'm, 'd) conf \<Rightarrow> 'k list \<Rightarrow> (('k, 'u, 'e, 'm, 'd) cache, 'e, nat) prog" where
  "flush_many_raw C keys =
     bnd (with_ctx (iter_keys keys) (on_exit (flush_many_body C) iter_drop)) (\<lambda>updates_count.
     bnd (modify (\<lambda>s. s\<lparr>last_flush := clock s\<rparr>)) (\<lambda>_.
     ret updates_count))"

definition flush_raw :: "('k, 'v, 'u, 'e, 'm, 'd) conf \<Rightarrow> (('k, 'u, 'e, 'm, 'd) cache, 'e, nat) prog" where
  "flush_raw C = bnd (gets (\<lambda>s. hash_order C (keys_of_pool (pool s)))) (flush_many_raw C)"

definition flush :: "('k, 'v, 'u, 'e, 'm, 'd) conf \<Rightarrow> (('k, 'u, 'e, 'm, 'd) cache, 'e, nat) prog" where
  "flush C = bnd check_error (\<lambda>_. flush_raw C)"

text \<open>\<open>notify_waiters\<close> wakes a monitor that waits in its \<open>select!\<close>; nothing is stored when none waits.\<close>

definition soft_flush :: "(('k, 'u, 'e, 'm, 'd) cache, 'e, unit) prog" where
  "soft_flush = bnd check_error (\<lambda>_. modify (\<lambda>s.
     if monitor_task s = Some Waiting then s\<lparr>flush_notified := True\<rparr> else s))"

text \<open>
  \<open>flush_one\<close>: the reference to the update state is kept until the call ends; the write guard
  moves into the iterator, or is dropped when the state is empty or an observer fails.
\<close>

definition flush_one ::
  "('k, 'v, 'u, 'e, 'm, 'd) conf \<Rightarrow> 'k \<Rightarrow> (('k, 'u, 'e, 'm, 'd) cache, 'e, nat) prog" where
  "flush_one C key =
     bnd check_error (\<lambda>_.
     bnd (gets (\<lambda>s. pool_get (pool s) key)) (\<lambda>upd. case upd of
       None \<Rightarrow> ret 0
     | Some i \<Rightarrow>
         bnd (on_pool (hold_state i)) (\<lambda>_.
         on_exit
           (bnd (gets (\<lambda>s. locked (states (pool s) i))) (\<lambda>busy.
            if busy then waits
            else
              bnd (on_pool (lock_state i)) (\<lambda>_.
              bnd (guard_get i) (\<lambda>g. case g of
                None \<Rightarrow> bnd (on_pool (unlock_state i)) (\<lambda>_. ret 0)
              | Some update_data \<Rightarrow>
                  bnd (on_err (event_on_flush_one C key update_data)
                         (\<lambda>s. s\<lparr>pool := unlock_state i (pool s)\<rparr>)) (\<lambda>_.
                  with_ctx (iter_key_guard (key, i))
                    (on_exit (bnd (dc_write_back (dc C)) (\<lambda>_. purify_updates)) iter_drop))))))
           (\<lambda>s. s\<lparr>pool := release_state i (pool s)\<rparr>))))"

definition maybe_flush_one ::
  "('k, 'v, 'u, 'e, 'm, 'd) conf \<Rightarrow> 'k \<Rightarrow> (('k, 'u, 'e, 'm, 'd) cache, 'e, nat) prog" where
  "maybe_flush_one C key = bnd (moka_get C key) (\<lambda>v. if v \<noteq> None then ret 0 else flush_one C key)"

section \<open>The effect of a change on the pool\<close>

lemma check_error_None [simp]: "error s = None \<Longrightarrow> check_error s = (Ok (), s)"
  by (simp add: check_error_def clear_error_def bnd_def)

lemma check_error_Some [simp]: "error s = Some e \<Longrightarrow> check_error s = (Fail e, s\<lparr>error := None\<rparr>)"
  by (simp add: check_error_def clear_error_def bnd_def)

definition pool_quiet :: "('k, 'u) pool \<Rightarrow> bool" where
  "pool_quiet p \<longleftrightarrow> pool_wf p \<and> pool_own p \<and> pool_idle p"

lemma pool_quiet_empty [simp]: "pool_quiet empty_pool"
  by (simp add: pool_quiet_def pool_wf_empty pool_own_empty pool_idle_empty)

lemma pending_alloc [simp]: "pool_wf p \<Longrightarrow> pending (snd (alloc_state p)) = pending p"
  by (auto simp: pending_def fun_eq_iff split: option.splits dest: pool_wf_get)

lemma check_task_simp [simp]: "check_task s = (Ok (), s\<lparr>monitor_task := spawn (monitor_task s)\<rparr>)"
  by (simp add: check_task_def)

lemma pool_own_alloc_insert:
  assumes "pool_wf p" "pool_own p"
  shows "pool_own (pool_insert k (fresh p) (snd (alloc_state p)))"
  using assms by (intro pool_own_insert) (auto dest: pool_wf_get)

text \<open>The key of the call is the primary key of its value.\<close>

definition aligned :: "('k, 'v, 'u, 'e, 'm, 'd) conf \<Rightarrow> 'k \<Rightarrow> 'v option \<Rightarrow> bool" where
  "aligned C key value \<longleftrightarrow> (\<forall>v. value = Some v \<longrightarrow> dc_primary_key_of (dc C) v = key)"

lemma fetch_state_spec:
  assumes "pool_quiet (pool s)" "aligned C key value"
  shows "\<exists>i p. fetch_state C key value s = (Ok i, s\<lparr>pool := p\<rparr>) \<and> pool_quiet p \<and> i < fresh p \<and>
    pool_get p key = Some i \<and> data (states p i) = pending (pool s) key \<and> pending p = pending (pool s)"
proof -
  have key: "(case value of Some v \<Rightarrow> dc_primary_key_of (dc C) v | None \<Rightarrow> key) = key"
    using assms(2) by (auto simp: aligned_def split: option.splits)
  have q: "pool_wf (pool s)" "pool_own (pool s)" "pool_idle (pool s)"
    using assms(1) by (simp_all add: pool_quiet_def)
  show ?thesis
  proof (cases "pool_get (pool s) key")
    case None
    define p where "p = pool_insert key (fresh (pool s)) (snd (alloc_state (pool s)))"
    have "fetch_state C key value s = (Ok (fresh (pool s)), s\<lparr>pool := p\<rparr>)"
      using None by (simp add: fetch_state_def Let_def key p_def alloc_state_def)
    moreover have "pool_wf p" "pool_own p"
      using q pool_own_alloc_insert[OF q(1,2)] by (simp_all add: p_def)
    moreover have "pool_idle p" using q(3) by (simp add: p_def pool_idle_def)
    moreover have "pending (pool s) key = None" using None by (simp add: pending_def)
    moreover have "pending p = pending (pool s)"
      using q(1) \<open>pending (pool s) key = None\<close> by (auto simp: p_def)
    moreover have "pool_get p key = Some (fresh (pool s))" "fresh (pool s) < fresh p"
      "data (states p (fresh (pool s))) = None"
      by (simp_all add: p_def)
    ultimately show ?thesis by (metis pool_quiet_def)
  next
    case (Some i)
    have "fetch_state C key value s = (Ok i, s\<lparr>pool := pool s\<rparr>)"
      using Some by (simp add: fetch_state_def Let_def key)
    moreover have "i < fresh (pool s)" by (rule pool_wf_get[OF q(1) Some])
    ultimately show ?thesis using Some assms(1)
      by (intro exI[of _ i] exI[of _ "pool s"]) (simp add: pending_def)
  qed
qed

text \<open>What the answer of the data controller asks of moka, and the pool's view afterwards.\<close>

definition op_of_dc :: "dc_op \<Rightarrow> 'v option \<Rightarrow> ('k, 'v) value_state op" where
  "op_of_dc oper value = (case oper of
       DcNop \<Rightarrow> Nop
     | DcInsert \<Rightarrow> (case value of Some v \<Rightarrow> Put (Primary v) | None \<Rightarrow> Nop)
     | DcRevoke \<Rightarrow> Remove
     | DcDrop \<Rightarrow> Remove)"

lemma hm_insert_same: "map_of al k = Some x \<Longrightarrow> hm_insert k x al = al"
  by (induction al) (auto simp: hm_insert_def)

lemma pool_insert_same [simp]: "pool_get p k = Some i \<Longrightarrow> pool_insert k i p = p"
  by (cases p) (simp add: pool_insert_def pool_get_def hm_insert_same)

lemma pool_quiet_set_data [simp]: "pool_quiet p \<Longrightarrow> pool_quiet (set_data i x p)"
  by (simp add: pool_quiet_def pool_idle_def)

lemma pool_quiet_remove [simp]: "pool_quiet p \<Longrightarrow> pool_quiet (pool_remove k p)"
  by (simp add: pool_quiet_def pool_idle_def)

lemma release_remove_hold [pool_simps]:
  "release_state i (pool_remove k (hold_state i p)) = pool_remove k p"
  "release_state i (set_data i x (hold_state i p)) = set_data i x p"
  "release_state i (pool_remove k (set_data i x (hold_state i p))) = pool_remove k (set_data i x p)"
  by (rule pool_eqI; simp)+

text \<open>
  The call made under the lock of an update state ends in \<open>r\<close> and leaves the update \<open>x\<close>;
  then so does the pool, except that \<open>Drop\<close> takes the key out.
\<close>

lemma get_update_state_and_compute_spec:
  assumes q: "pool_quiet (pool s)" and al: "aligned C key value"
    and f: "\<And>i t. \<not> locked (states (pool t) i) \<Longrightarrow> data (states (pool t) i) = pending (pool s) key \<Longrightarrow>
      backend t = backend s \<Longrightarrow> f i t = (r, t\<lparr>pool := set_data i x (pool t), backend := d\<rparr>)"
    and r: "r = Ok oper \<or> r = Fail err"
  shows "\<exists>p. get_update_state_and_compute C key value f s =
      (if r = Ok oper then Ok (op_of_dc oper value) else Fail err,
       s\<lparr>monitor_task := spawn (monitor_task s), backend := d, pool := p\<rparr>) \<and>
    pool_quiet p \<and> pending p = (pending (pool s))(key := if r = Ok DcDrop then None else x) \<and>
    (r \<noteq> Ok DcDrop \<longrightarrow> pool_get p key \<noteq> None)"
proof -
  define s1 where "s1 = s\<lparr>monitor_task := spawn (monitor_task s)\<rparr>"
  obtain i p where fs: "fetch_state C key value s1 = (Ok i, s1\<lparr>pool := p\<rparr>)"
    and p: "pool_quiet p" "i < fresh p" "pool_get p key = Some i" "data (states p i) = pending (pool s) key"
      "pending p = pending (pool s)"
    using fetch_state_spec[OF _ al, of s1] q by (auto simp: s1_def)
  define t where "t = s1\<lparr>pool := hold_state i p\<rparr>"
  have unl: "\<not> locked (states p i)" using p(1) by (simp add: pool_quiet_def pool_idle_def)
  have ft: "f i t = (r, t\<lparr>pool := set_data i x (hold_state i p), backend := d\<rparr>)"
    using f[of t i] unl p(4) by (simp add: t_def s1_def)
  have step: "get_update_state_and_compute C key value f s = on_exit
      (bnd (f i) (\<lambda>oper. bnd (on_pool (pool_insert key i)) (\<lambda>_. on_dc_op oper key value)))
      (\<lambda>s. s\<lparr>pool := release_state i (pool s)\<rparr>) t"
    by (simp add: get_update_state_and_compute_def s1_def[symmetric] fs on_pool_def t_def)
  have pen: "pending (set_data i x p) = (pending (pool s))(key := x)"
    using pending_set_data[of p key i x] p by (simp add: pool_quiet_def)
  show ?thesis
  proof (cases "r = Ok oper")
    case True
    have same: "pool_insert key i (set_data i x (hold_state i p)) = set_data i x (hold_state i p)"
      using p(3) by simp
    show ?thesis
    proof (cases "oper = DcDrop")
      case True
      with \<open>r = Ok oper\<close> step ft same p(1,3) pen show ?thesis
        by (intro exI[of _ "pool_remove key (set_data i x p)"])
          (simp add: on_exit_def bnd_def on_pool_def modify_def on_dc_op_def op_of_dc_def pool_simps s1_def t_def)
    next
      case False
      with \<open>r = Ok oper\<close> step ft same p(1,3) pen show ?thesis
        by (intro exI[of _ "set_data i x p"])
          (cases oper, simp_all add: on_exit_def bnd_def on_pool_def modify_def on_dc_op_def op_of_dc_def
            ret_def pool_simps s1_def t_def)
    qed
  next
    case False
    with r have "r = Fail err" by simp
    with step ft p(1,3) pen show ?thesis
      by (intro exI[of _ "set_data i x p"]) (simp add: on_exit_def bnd_def pool_simps s1_def t_def)
  qed
qed

text \<open>
  The four events. Each leaves the pool quiet; with an answer of the data controller the answer's
  update is what is pending, with an error the old one stays after \<open>on_new\<close> and \<open>on_delete\<close> and
  is gone after \<open>on_change\<close> and \<open>on_access\<close>.
\<close>

definition dc_event_ok ::
  "('k, 'u, 'e, 'm, 'd) cache \<Rightarrow> 'k \<Rightarrow> 'u dc_response \<Rightarrow> 'd \<Rightarrow> ('k, 'u, 'e, 'm, 'd) cache \<Rightarrow> bool" where
  "dc_event_ok s key resp d t \<longleftrightarrow> pool_quiet (pool t) \<and>
     t = s\<lparr>monitor_task := spawn (monitor_task s), backend := d, pool := pool t\<rparr> \<and>
     pending (pool t) =
       (pending (pool s))(key := if resp_op resp = DcDrop then None else resp_update resp) \<and>
     (resp_op resp \<noteq> DcDrop \<longrightarrow> pool_get (pool t) key \<noteq> None)"

definition dc_event_failed ::
  "('k, 'u, 'e, 'm, 'd) cache \<Rightarrow> 'k \<Rightarrow> 'u option \<Rightarrow> 'd \<Rightarrow> ('k, 'u, 'e, 'm, 'd) cache \<Rightarrow> bool" where
  "dc_event_failed s key x d t \<longleftrightarrow> pool_quiet (pool t) \<and>
     t = s\<lparr>monitor_task := spawn (monitor_task s), backend := d, pool := pool t\<rparr> \<and>
     pending (pool t) = (pending (pool s))(key := x)"

lemma compute_Ok:
  assumes "pool_quiet (pool s)" "aligned C key value"
    and "\<And>i t. \<not> locked (states (pool t) i) \<Longrightarrow> data (states (pool t) i) = pending (pool s) key \<Longrightarrow>
      backend t = backend s \<Longrightarrow>
      f i t = (Ok (resp_op resp), t\<lparr>pool := set_data i (resp_update resp) (pool t), backend := d\<rparr>)"
  shows "\<exists>t. get_update_state_and_compute C key value f s = (Ok (op_of_dc (resp_op resp) value), t) \<and>
    dc_event_ok s key resp d t"
  using get_update_state_and_compute_spec[OF assms(1,2), where r = "Ok (resp_op resp)" and f = f and d = d
      and x = "resp_update resp" and oper = "resp_op resp", OF assms(3)]
  by (fastforce simp: dc_event_ok_def)

lemma compute_Fail:
  assumes "pool_quiet (pool s)" "aligned C key value"
    and "\<And>i t. \<not> locked (states (pool t) i) \<Longrightarrow> data (states (pool t) i) = pending (pool s) key \<Longrightarrow>
      backend t = backend s \<Longrightarrow> f i t = (Fail err, t\<lparr>pool := set_data i x (pool t), backend := d\<rparr>)"
  shows "\<exists>t. get_update_state_and_compute C key value f s = (Fail err, t) \<and> dc_event_failed s key x d t"
  using get_update_state_and_compute_spec[OF assms(1,2), where r = "Fail err" and f = f and d = d and x = x
      and err = err, OF assms(3)]
  by (fastforce simp: dc_event_failed_def)

lemma aligned_simps [simp]:
  "aligned C key None" "aligned C key (Some v) \<longleftrightarrow> dc_primary_key_of (dc C) v = key"
  by (simp_all add: aligned_def)

lemma on_new_Ok:
  assumes "pool_quiet (pool s)" "dc_primary_key_of (dc C) v = key"
    and "dc_on_new (dc C) key v (backend s) = (Ok resp, d)"
  shows "\<exists>t. on_new C key v s = (Ok (op_of_dc (resp_op resp) (Some v)), t) \<and> dc_event_ok s key resp d t"
  unfolding on_new_def by (rule compute_Ok; (rule us_on_new_Ok)?) (use assms in simp_all)

lemma on_new_Fail:
  assumes "pool_quiet (pool s)" "dc_primary_key_of (dc C) v = key"
    and "dc_on_new (dc C) key v (backend s) = (Fail err, d)"
  shows "\<exists>t. on_new C key v s = (Fail err, t) \<and> dc_event_failed s key (pending (pool s) key) d t"
  unfolding on_new_def by (rule compute_Fail) (use assms in \<open>simp_all add: set_data_same us_on_new_Fail[where e = err and d = d]\<close>)

lemma on_change_Ok:
  assumes "pool_quiet (pool s)" "dc_primary_key_of (dc C) v = key"
    and "dc_on_change (dc C) key v old (pending (pool s) key) (backend s) = (Ok resp, d)"
  shows "\<exists>t. on_change C key v old s = (Ok (op_of_dc (resp_op resp) (Some v)), t) \<and> dc_event_ok s key resp d t"
  unfolding on_change_def by (rule compute_Ok; (rule us_on_change_Ok)?) (use assms in simp_all)

lemma on_change_Fail:
  assumes "pool_quiet (pool s)" "dc_primary_key_of (dc C) v = key"
    and "dc_on_change (dc C) key v old (pending (pool s) key) (backend s) = (Fail err, d)"
  shows "\<exists>t. on_change C key v old s = (Fail err, t) \<and> dc_event_failed s key None d t"
  unfolding on_change_def by (rule compute_Fail; (rule us_on_change_Fail)?) (use assms in simp_all)

lemma on_access_Ok:
  assumes "pool_quiet (pool s)" "dc_primary_key_of (dc C) v = key"
    and "dc_on_access (dc C) key v (pending (pool s) key) (backend s) = (Ok resp, d)"
  shows "\<exists>t. on_access C key v s = (Ok (), t) \<and> dc_event_ok s key resp d t"
proof -
  have "\<exists>t. get_update_state_and_compute C key (Some v) (\<lambda>i. us_on_access C i key v) s =
      (Ok (op_of_dc (resp_op resp) (Some v)), t) \<and> dc_event_ok s key resp d t"
    by (rule compute_Ok; (rule us_on_access_Ok)?) (use assms in simp_all)
  then show ?thesis by (auto simp: on_access_def)
qed

lemma on_delete_Ok:
  assumes "pool_quiet (pool s)" "aligned C key value"
    and "dc_on_delete (dc C) key (pending (pool s) key) (backend s) = (Ok resp, d)"
  shows "\<exists>t. on_delete C key value s = (Ok (op_of_dc (resp_op resp) value), t) \<and> dc_event_ok s key resp d t"
  unfolding on_delete_def by (rule compute_Ok; (rule us_on_delete_Ok)?) (use assms in simp_all)

lemma on_delete_Fail:
  assumes "pool_quiet (pool s)" "aligned C key value"
    and "dc_on_delete (dc C) key (pending (pool s) key) (backend s) = (Fail err, d)"
  shows "\<exists>t. on_delete C key value s = (Fail err, t) \<and> dc_event_failed s key (pending (pool s) key) d t"
  unfolding on_delete_def by (rule compute_Fail) (use assms in \<open>simp_all add: set_data_same us_on_delete_Fail[where e = err and d = d]\<close>)

section \<open>Flushes\<close>

text \<open>
  A \<open>write_back\<close> or an observer that works through the iterator only keeps the discipline of a
  flush. This is the contract that the cache has with the code it calls during a flush.
\<close>

definition ctx_safe :: "(('k, 'u, 'd) flush_ctx, 'e, 'a) prog \<Rightarrow> bool" where
  "ctx_safe m \<longleftrightarrow> (\<forall>p0 c r c'. flush_inv p0 [] c \<longrightarrow> m c = (r, c') \<longrightarrow> r \<noteq> Wait \<longrightarrow> flush_inv p0 [] c')"

lemma ctx_safeD: "ctx_safe m \<Longrightarrow> flush_inv p0 [] c \<Longrightarrow> m c = (r, c') \<Longrightarrow> r \<noteq> Wait \<Longrightarrow> flush_inv p0 [] c'"
  by (auto simp: ctx_safe_def)

lemma ctx_safe_ret: "ctx_safe (ret a)"
  by (simp add: ctx_safe_def)

lemma ctx_safe_bnd: "ctx_safe m \<Longrightarrow> (\<And>a. ctx_safe (f a)) \<Longrightarrow> ctx_safe (bnd m f)"
proof (unfold ctx_safe_def, intro allI impI)
  fix p0 c r c'
  assume m: "\<forall>p0 c r c'. flush_inv p0 [] c \<longrightarrow> m c = (r, c') \<longrightarrow> r \<noteq> Wait \<longrightarrow> flush_inv p0 [] c'"
    and f: "\<And>a. \<forall>p0 c r c'. flush_inv p0 [] c \<longrightarrow> f a c = (r, c') \<longrightarrow> r \<noteq> Wait \<longrightarrow> flush_inv p0 [] c'"
    and c: "flush_inv p0 [] c" "bnd m f c = (r, c')" "r \<noteq> Wait"
  obtain r1 c1 where mc: "m c = (r1, c1)" by fastforce
  show "flush_inv p0 [] c'"
  proof (cases r1)
    case (Ok a)
    then have "flush_inv p0 [] c1" using m[rule_format, OF c(1) mc] by simp
    moreover have "f a c1 = (r, c')" using c(2) mc Ok by simp
    ultimately show ?thesis using f[rule_format] c(3) by simp
  next
    case (Fail e)
    then show ?thesis using m[rule_format, OF c(1) mc] c(2) mc by simp
  next
    case (Panic msg)
    then show ?thesis using m[rule_format, OF c(1) mc] c(2) mc by simp
  next
    case Wait
    then show ?thesis using c(2,3) mc by simp
  qed
qed

lemma ctx_safe_for_each: "(\<And>x. x \<in> set xs \<Longrightarrow> ctx_safe (f x)) \<Longrightarrow> ctx_safe (for_each f xs)"
  by (induction xs) (auto intro: ctx_safe_bnd ctx_safe_ret)

lemma ctx_safe_reset: "ctx_safe (modify iter_reset)"
  by (auto simp: ctx_safe_def iter_reset_inv)

lemma ctx_safe_confirm_all: "ctx_safe (modify confirm_all)"
  by (auto simp: ctx_safe_def confirm_all_inv)

lemmas ctx_safe_intros = ctx_safe_ret ctx_safe_bnd ctx_safe_for_each ctx_safe_reset ctx_safe_confirm_all

text \<open>What the end of a flush that began with the pool \<open>p0\<close> promises.\<close>

definition flush_done :: "('k, 'u) pool \<Rightarrow> ('e, nat) res \<Rightarrow> ('k, 'u) pool \<Rightarrow> bool" where
  "flush_done p0 r p \<longleftrightarrow> pool_flushed p0 p \<and> (\<forall>n. r = Ok n \<longrightarrow> n = 0) \<and>
     (\<forall>k i. pool_get p0 k = Some i \<longrightarrow> holders (states p0 i) > 0 \<longrightarrow> pool_get p k = Some i)"

text \<open>
  \<open>V\<close> is what the caller tracks of the run of \<open>m\<close>: whether it succeeded, the pending updates and
  the backend. The clean-up and the drop of the iterator change none of them.
\<close>

lemma iter_drop_pending [simp]:
  "pending (ctx_pool (iter_drop c)) = pending (ctx_pool c)" "ctx_backend (iter_drop c) = ctx_backend c"
  by (simp_all add: iter_drop_def ctx_on_pool_def Let_def)

lemma purified_body_done:
  fixes r :: "('e, nat) res"
  assumes "ctx_safe m" "pool_wf p0" "pool_own p0" "flush_inv p0 [] c"
    and "bnd m (\<lambda>_. purify_updates) c = (r, c')" "r \<noteq> Wait"
    and V: "\<And>r1 c1. m c = (r1, c1) \<Longrightarrow> r1 \<noteq> Wait \<Longrightarrow>
      V (\<exists>u. r1 = Ok u) (pending (ctx_pool c1)) (ctx_backend c1)"
  shows "flush_done p0 r (ctx_pool (iter_drop c')) \<and>
    V (\<exists>n. r = Ok n) (pending (ctx_pool (iter_drop c'))) (ctx_backend (iter_drop c'))"
proof -
  obtain r1 c1 where m: "m c = (r1, c1)" by fastforce
  show ?thesis
  proof (cases "\<exists>u. r1 = Ok u")
    case True
    then have inv: "flush_inv p0 [] c1" using ctx_safeD[OF assms(1,4) m] by auto
    obtain r2 c2 where pu: "purify_updates c1 = (r2 :: ('e, nat) res, c2)" by fastforce
    have r2: "r = r2" "c' = c2" using assms(5) m pu True by auto
    have "\<not> purified (worked (ctx_iter c1)) (ctx_pool c1) k"
      if "pool_get p0 k = Some i" "holders (states p0 i) > 0" for k i
      using that flush_inv_worked(1)[OF inv] flush_invD(3,6)[OF inv] by (fastforce simp: purified_def)
    then show ?thesis using purify_updates_spec[OF assms(2,3) inv pu] r2 V[OF m] True
      by (auto simp: flush_done_def)
  next
    case False
    have c': "c' = c1" "r1 \<noteq> Wait" "\<nexists>n. r = Ok n" using assms(5,6) m False by (cases r1; auto)+
    note inv = ctx_safeD[OF assms(1,4) m c'(2)]
    from c' show ?thesis
      using pool_flushed_drop[OF assms(2,3) inv] flush_invD(6)[OF iter_drop_inv[OF inv]] V[OF m] False
      by (simp add: flush_done_def)
  qed
qed

lemma with_ctx_drop:
  assumes "with_ctx it (on_exit m iter_drop) s = (r, s')" "r \<noteq> Wait"
    and "\<And>c' r. m \<lparr>ctx_pool = pool s, ctx_iter = it, ctx_backend = backend s\<rparr> = (r, c') \<Longrightarrow> r \<noteq> Wait \<Longrightarrow>
      Q r (ctx_pool (iter_drop c')) (ctx_backend (iter_drop c'))"
  shows "\<exists>p d. s' = s\<lparr>pool := p, backend := d\<rparr> \<and> Q r p d"
proof -
  obtain r1 c1 where m: "m \<lparr>ctx_pool = pool s, ctx_iter = it, ctx_backend = backend s\<rparr> = (r1, c1)"
    by fastforce
  have "r = r1" "s' = s\<lparr>pool := ctx_pool (iter_drop c1), backend := ctx_backend (iter_drop c1)\<rparr>"
    using assms(1,2) m by (cases r1; auto simp: with_ctx_def on_exit_def)+
  with assms(2) assms(3)[OF m] show ?thesis by blast
qed

lemma pool_flushed_refl: "pool_wf p \<Longrightarrow> pool_own p \<Longrightarrow> pool_flushed p p"
  by (simp add: pool_flushed_def)

lemma pool_flushed_release:
  assumes "pool_flushed (hold_state i q) p"
  shows "pool_flushed q (release_state i p)"
proof -
  have "holders (states p j) = (if j = i then Suc (holders (states q i)) else holders (states q j))" for j
    using assms by (simp add: pool_flushed_def)
  then show ?thesis using assms by (simp add: pool_flushed_def)
qed

lemma pool_flushed_quiet: "pool_flushed p0 p \<Longrightarrow> pool_quiet p0 \<Longrightarrow> pool_quiet p"
  by (auto simp: pool_quiet_def pool_flushed_def pool_idle_def)

lemma flush_done_refl: "pool_wf p \<Longrightarrow> pool_own p \<Longrightarrow> (\<And>n. r = Ok n \<Longrightarrow> n = 0) \<Longrightarrow> flush_done p r p"
  by (simp add: flush_done_def pool_flushed_refl)

text \<open>The contract of the calls a flush makes, and what the cache guarantees on it.\<close>

locale flush_client =
  fixes C :: "('k, 'v, 'u, 'e, 'm, 'd) conf"
  assumes write_back_safe: "ctx_safe (dc_write_back (dc C))"
    and observers_safe: "ob \<in> set (observers C) \<Longrightarrow> ctx_safe (ob_on_flush ob)"
begin

lemma flush_many_body_done:
  assumes "pool_wf p0" "pool_own p0" "flush_inv p0 [] c" "flush_many_body C c = (r, c')" "r \<noteq> Wait"
    and V: "\<And>r1 c1. bnd (event_on_flush C) (\<lambda>_. bnd (modify iter_reset) (\<lambda>_. dc_write_back (dc C))) c = (r1, c1) \<Longrightarrow>
      r1 \<noteq> Wait \<Longrightarrow> V (\<exists>u. r1 = Ok u) (pending (ctx_pool c1)) (ctx_backend c1)"
  shows "flush_done p0 r (ctx_pool (iter_drop c')) \<and>
    V (\<exists>n. r = Ok n) (pending (ctx_pool (iter_drop c'))) (ctx_backend (iter_drop c'))"
proof -
  define m where "m = bnd (event_on_flush C) (\<lambda>_. bnd (modify iter_reset) (\<lambda>_. dc_write_back (dc C)))"
  have safe: "ctx_safe m"
    unfolding m_def event_on_flush_def by (intro ctx_safe_intros write_back_safe observers_safe)
  have "flush_many_body C = bnd m (\<lambda>_. purify_updates)"
    by (auto simp: flush_many_body_def m_def bnd_def fun_eq_iff split: prod.splits res.splits)
  with purified_body_done[OF safe assms(1-3), of r c' V] assms(4,5) V[folded m_def] show ?thesis by simp
qed

lemma flush_many_raw_done:
  assumes "pool_wf (pool s)" "pool_own (pool s)" "flush_many_raw C keys s = (r, s')" "r \<noteq> Wait"
    and V: "\<And>r1 c1. bnd (event_on_flush C) (\<lambda>_. bnd (modify iter_reset) (\<lambda>_. dc_write_back (dc C)))
        \<lparr>ctx_pool = pool s, ctx_iter = iter_keys keys, ctx_backend = backend s\<rparr> = (r1, c1) \<Longrightarrow>
      r1 \<noteq> Wait \<Longrightarrow> V (\<exists>u. r1 = Ok u) (pending (ctx_pool c1)) (ctx_backend c1)"
  shows "flush_done (pool s) r (pool s') \<and> V (\<exists>n. r = Ok n) (pending (pool s')) (backend s') \<and>
    s' = s\<lparr>pool := pool s', backend := backend s', last_flush := last_flush s'\<rparr> \<and>
    last_flush s' = (if \<exists>n. r = Ok n then clock s else last_flush s)"
proof -
  obtain r1 s1 where w: "with_ctx (iter_keys keys) (on_exit (flush_many_body C) iter_drop) s = (r1, s1)"
    by fastforce
  have r1: "r1 \<noteq> Wait" "r = r1" using assms(3,4) w by (cases r1; auto simp: flush_many_raw_def)+
  have "\<exists>p d. s1 = s\<lparr>pool := p, backend := d\<rparr> \<and> (flush_done (pool s) r1 p \<and> V (\<exists>n. r1 = Ok n) (pending p) d)"
    using with_ctx_drop[OF w r1(1), of "\<lambda>r p d. flush_done (pool s) r p \<and> V (\<exists>n. r = Ok n) (pending p) d"]
      flush_many_body_done[OF assms(1,2) flush_inv_keys, where V = V] V by auto
  then obtain p d where c: "s1 = s\<lparr>pool := p, backend := d\<rparr>" "flush_done (pool s) r1 p"
    "V (\<exists>n. r1 = Ok n) (pending p) d" by blast
  have "s' = (if \<exists>n. r = Ok n then s1\<lparr>last_flush := clock s1\<rparr> else s1)"
    using assms(3) w r1 by (cases r1; auto simp: flush_many_raw_def)
  with c r1 show ?thesis by auto
qed

text \<open>A flush of one key, which keeps a reference to its update state until it returns.\<close>

lemma flush_one_done:
  assumes q: "pool_quiet (pool s)" and e: "error s = None" and run: "flush_one C key s = (r, s')" "r \<noteq> Wait"
    and V0: "pending (pool s) key = None \<Longrightarrow> V True (pending (pool s)) (backend s)"
    and V1: "\<And>u r2 d. pending (pool s) key = Some u \<Longrightarrow>
      for_each (\<lambda>ob. ob_on_flush_one ob key u) (observers C) (backend s) = (r2, d) \<Longrightarrow> r2 \<noteq> Ok () \<Longrightarrow> r2 \<noteq> Wait \<Longrightarrow>
      V False (pending (pool s)) d"
    and V2: "\<And>u d i r1 c1. pending (pool s) key = Some u \<Longrightarrow>
      for_each (\<lambda>ob. ob_on_flush_one ob key u) (observers C) (backend s) = (Ok (), d) \<Longrightarrow>
      pool_get (pool s) key = Some i \<Longrightarrow> dc_write_back (dc C)
        \<lparr>ctx_pool = lock_state i (hold_state i (pool s)), ctx_iter = iter_key_guard (key, i), ctx_backend = d\<rparr> = (r1, c1) \<Longrightarrow>
      r1 \<noteq> Wait \<Longrightarrow> V (\<exists>u. r1 = Ok u) (pending (ctx_pool c1)) (ctx_backend c1)"
  shows "pool_flushed (pool s) (pool s') \<and> (\<forall>n. r = Ok n \<longrightarrow> n = 0) \<and>
    pool_get (pool s') key = pool_get (pool s) key \<and> V (\<exists>n. r = Ok n) (pending (pool s')) (backend s') \<and>
    s' = s\<lparr>pool := pool s', backend := backend s'\<rparr>"
proof (cases "pool_get (pool s) key")
  case None
  then have "pending (pool s) key = None" by (simp add: pending_def)
  with None run e q V0 show ?thesis
    by (auto simp: flush_one_def pool_quiet_def pool_flushed_refl)
next
  case (Some i)
  define p0 where "p0 = hold_state i (pool s)"
  have wf0: "pool_wf p0" "pool_own p0"
    using q Some pool_wf_get[of "pool s" key i] by (auto simp: p0_def pool_quiet_def)
  have unl: "\<not> locked (states p0 i)" using q by (simp add: p0_def pool_quiet_def pool_idle_def)
  have pen0: "pending p0 = pending (pool s)" "pending (pool s) key = data (states p0 i)"
    using Some by (simp_all add: p0_def pending_def)
  define inner where "inner = (bnd (gets (\<lambda>s. locked (states (pool s) i))) (\<lambda>busy.
            if busy then waits
            else
              bnd (on_pool (lock_state i)) (\<lambda>_.
              bnd (guard_get i) (\<lambda>g. case g of
                None \<Rightarrow> bnd (on_pool (unlock_state i)) (\<lambda>_. ret 0)
              | Some update_data \<Rightarrow>
                  bnd (on_err (event_on_flush_one C key update_data)
                         (\<lambda>s. s\<lparr>pool := unlock_state i (pool s)\<rparr>)) (\<lambda>_.
                  with_ctx (iter_key_guard (key, i))
                    (on_exit (bnd (dc_write_back (dc C)) (\<lambda>_. purify_updates)) iter_drop))))))"
  have eq: "flush_one C key s = on_exit inner (\<lambda>s. s\<lparr>pool := release_state i (pool s)\<rparr>) (s\<lparr>pool := p0\<rparr>)"
    using Some e by (simp add: flush_one_def inner_def[symmetric] on_pool_def p0_def)
  obtain r1 s1 where in1: "inner (s\<lparr>pool := p0\<rparr>) = (r1, s1)" by fastforce
  have rs: "r = r1" "s' = s1\<lparr>pool := release_state i (pool s1)\<rparr>" "r1 \<noteq> Wait"
    using run eq in1 by (cases r1; simp add: on_exit_def)+
  have "\<exists>p d. s1 = s\<lparr>pool := p, backend := d\<rparr> \<and> (flush_done p0 r1 p \<and> V (\<exists>n. r1 = Ok n) (pending p) d)"
  proof (cases "data (states p0 i)")
    case None
    with in1 unl have "r1 = Ok 0" "s1 = s\<lparr>pool := p0, backend := backend s\<rparr>"
      by (auto simp: inner_def on_pool_def guard_get_def pool_simps)
    moreover have "V True (pending p0) (backend s)" using V0 pen0 None by simp
    moreover have "flush_done p0 (Ok 0 :: ('e, nat) res) p0" by (rule flush_done_refl[OF wf0]) simp
    ultimately show ?thesis by (intro exI[of _ p0] exI[of _ "backend s"]) simp
  next
    case (Some u)
    obtain r2 d where ev: "for_each (\<lambda>ob. ob_on_flush_one ob key u) (observers C) (backend s) = (r2, d)"
      by fastforce
    define m where "m = (with_ctx (iter_key_guard (key, i))
                    (on_exit (bnd (dc_write_back (dc C)) (\<lambda>_. purify_updates)) iter_drop)
      :: (('k, 'u, 'e, 'm, 'd) cache, 'e, nat) prog)"
    define t where "t = s\<lparr>pool := lock_state i p0, backend := d\<rparr>"
    have in2: "(r1, s1) = bnd (on_err (event_on_flush_one C key u)
        (\<lambda>s. s\<lparr>pool := unlock_state i (pool s)\<rparr>)) (\<lambda>_. m) (s\<lparr>pool := lock_state i p0\<rparr>)"
      using in1 unl Some by (simp add: inner_def on_pool_def guard_get_def m_def[symmetric])
    show ?thesis
    proof (cases "r2 = Ok ()")
      case True
      then have "m t = (r1, s1)"
        using in2 ev by (simp add: event_on_flush_one_def t_def)
      from with_ctx_drop[OF this[unfolded m_def] rs(3), of "\<lambda>r p d. flush_done p0 r p \<and> V (\<exists>n. r = Ok n) (pending p) d"]
      show ?thesis
        using purified_body_done[OF write_back_safe wf0 flush_inv_key_guard, where V = V] Some unl
          \<open>pool_get (pool s) key = Some i\<close> V2[of u d i] ev True pen0
        by (force simp: t_def p0_def)
    next
      case False
      then have "s1 = s\<lparr>pool := p0, backend := d\<rparr>" "\<nexists>n. r1 = Ok n" "r2 \<noteq> Wait"
        using in2 ev unl rs(3) by (cases r2; auto simp: event_on_flush_one_def pool_simps)+
      moreover have "flush_done p0 r1 p0" using flush_done_refl[OF wf0] calculation(2) by blast
      moreover have "V False (pending p0) d" using V1[OF _ ev False calculation(3)] pen0 Some by simp
      ultimately show ?thesis by (intro exI[of _ p0] exI[of _ d]) simp
    qed
  qed
  then obtain p d where s1: "s1 = s\<lparr>pool := p, backend := d\<rparr>" and fd: "flush_done p0 r1 p"
    "V (\<exists>n. r1 = Ok n) (pending p) d" by blast
  have "pool_get p key = Some i" using fd(1) Some by (simp add: flush_done_def p0_def)
  with s1 fd rs Some pool_flushed_release[of i "pool s" p] show ?thesis
    by (simp add: flush_done_def p0_def)
qed

end

end
