(* ===== verification/CacheEntry.thy ===== *)
theory CacheEntry
  imports CacheCore
begin

text \<open>
  The entry operations: the four compute routines of \<open>src/cache.rs\<close>, \<open>entry\<close>, \<open>get\<close>,
  \<open>insert\<close>, \<open>delete\<close> and \<open>invalidate\<close>, the selector of \<open>src/entry_selector.rs\<close> and the
  snapshot of \<open>src/entry.rs\<close>. A closure handed to a computation is a program; moka runs it with
  the entry it sees and then applies the operation it returns.
\<close>

section \<open>Computations on moka entries\<close>

text \<open>\<open>entry(key).and_try_compute_with(f)\<close>: an error of the closure leaves the entry alone.\<close>

definition moka_and_try_compute_with ::
  "('k, 'v, 'u, 'e, 'm, 'd) conf \<Rightarrow> 'k \<Rightarrow>
     (('k, 'v) value_state option \<Rightarrow> (('k, 'u, 'e, 'm, 'd) cache, 'e, ('k, 'v) value_state op) prog) \<Rightarrow>
     (('k, 'u, 'e, 'm, 'd) cache, 'e, ('k, ('k, 'v) value_state) moka_result) prog" where
  "moka_and_try_compute_with C key f =
     bnd (moka_get C key) (\<lambda>e.
     bnd (f e) (\<lambda>oper.
     (\<lambda>s. case mk_apply (mk C) key e oper (moka s) of (r, m) \<Rightarrow> (Ok r, s\<lparr>moka := m\<rparr>))))"

text \<open>\<open>entry(key).or_try_insert_with(init)\<close>: the value of the entry, new or old.\<close>

definition moka_or_try_insert_with ::
  "('k, 'v, 'u, 'e, 'm, 'd) conf \<Rightarrow> 'k \<Rightarrow>
     (('k, 'u, 'e, 'm, 'd) cache, 'e, ('k, 'v) value_state) prog \<Rightarrow>
     (('k, 'u, 'e, 'm, 'd) cache, 'e, ('k, 'v) value_state) prog" where
  "moka_or_try_insert_with C key init =
     bnd (moka_get C key) (\<lambda>e. case e of
       Some vs \<Rightarrow> ret vs
     | None \<Rightarrow> bnd init (\<lambda>vs. bnd (modify (\<lambda>s. s\<lparr>moka := mk_insert (mk C) key vs (moka s)\<rparr>)) (\<lambda>_. ret vs)))"

definition moka_inv ::
  "('k, 'v, 'u, 'e, 'm, 'd) conf \<Rightarrow> 'k \<Rightarrow> (('k, 'u, 'e, 'm, 'd) cache, 'e, unit) prog" where
  "moka_inv C key = modify (\<lambda>s. s\<lparr>moka := mk_invalidate (mk C) key (moka s)\<rparr>)"

section \<open>Primary keys\<close>

text \<open>The entry given to the user's closure, the old value, and whether it was fetched just now.\<close>

definition current_entry ::
  "('k, 'v, 'u, 'e, 'm, 'd) conf \<Rightarrow> 'k \<Rightarrow> ('k, 'v) value_state option \<Rightarrow>
     (('k, 'u, 'e, 'm, 'd) cache, 'e, ('k, 'v) entry option \<times> 'v option \<times> bool) prog" where
  "current_entry C key e = (case e of
       Some vs \<Rightarrow> bnd (into_value vs) (\<lambda>old_v. ret (Some (entry_new key old_v), Some old_v, False))
     | None \<Rightarrow> bnd (on_backend (dc_get_for_key (dc C) key)) (\<lambda>old_v. ret (case old_v of
           None \<Rightarrow> (None, None, False)
         | Some v \<Rightarrow> (Some (entry_new key v), Some v, True))))"

text \<open>What becomes of the user's operation: the data controller's answer, or a plain caching.\<close>

definition apply_user_op ::
  "('k, 'v, 'u, 'e, 'm, 'd) conf \<Rightarrow> 'k \<Rightarrow> 'v option \<Rightarrow> bool \<Rightarrow> 'v op \<Rightarrow>
     (('k, 'u, 'e, 'm, 'd) cache, 'e, ('k, 'v) value_state op) prog" where
  "apply_user_op C key old_v fetched oper = (case oper of
       Remove \<Rightarrow>
         bnd (case old_v of
                Some old \<Rightarrow> for_each (moka_inv C) (dc_secondary_keys_of (dc C) old)
              | None \<Rightarrow> ret ()) (\<lambda>_.
         on_delete C key old_v)
     | Put v \<Rightarrow>
         (case old_v of
            Some old \<Rightarrow> on_change C key v old
          | None \<Rightarrow> on_new C key v)
     | Nop \<Rightarrow>
         if fetched then
           (case old_v of
              Some old \<Rightarrow> ret (Put (Primary old))
            | None \<Rightarrow> panic ''called Option::unwrap() on a None value'')
         else ret Nop)"

text \<open>\<open>Entry::from_primary_entry\<close>.\<close>

definition from_primary_entry ::
  "'k \<Rightarrow> ('k, 'v) value_state \<Rightarrow> ('s, 'e, ('k, 'v) entry) prog" where
  "from_primary_entry key vs = bnd (into_value vs) (\<lambda>v. ret (entry_new key v))"

definition primary_result ::
  "('k, ('k, 'v) value_state) moka_result \<Rightarrow> ('s, 'e, ('k, 'v) comp_result) prog" where
  "primary_result r = (case r of
       MokaInserted k x \<Rightarrow> bnd (from_primary_entry k x) (\<lambda>en. ret (Inserted en))
     | MokaRemoved k x \<Rightarrow> bnd (from_primary_entry k x) (\<lambda>en. ret (Removed en))
     | MokaReplacedWith k x \<Rightarrow> bnd (from_primary_entry k x) (\<lambda>en. ret (ReplacedWith en))
     | MokaUnchanged k x \<Rightarrow> bnd (from_primary_entry k x) (\<lambda>en. ret (Unchanged en))
     | MokaStillNone k \<Rightarrow> ret (StillNone k))"

type_synonym ('k, 'v, 'u, 'e, 'm, 'd) user_fun =
  "('k, 'v) entry option \<Rightarrow> (('k, 'u, 'e, 'm, 'd) cache, 'e, 'v op) prog"

definition get_and_try_compute_with_primary ::
  "('k, 'v, 'u, 'e, 'm, 'd) conf \<Rightarrow> 'k \<Rightarrow> ('k, 'v, 'u, 'e, 'm, 'd) user_fun \<Rightarrow>
     (('k, 'u, 'e, 'm, 'd) cache, 'e, ('k, 'v) comp_result) prog" where
  "get_and_try_compute_with_primary C key f =
     bnd (maybe_flush_one C key) (\<lambda>_.
     bnd (moka_and_try_compute_with C key (\<lambda>e.
            bnd (current_entry C key e) (\<lambda>(wb_entry, old_v, fetched).
            bnd (f wb_entry) (\<lambda>oper.
            apply_user_op C key old_v fetched oper)))) (\<lambda>result.
     primary_result result))"

text \<open>\<open>Entry::value\<close> reports the access; \<open>into_value\<close> does not.\<close>

definition entry_value_access ::
  "('k, 'v, 'u, 'e, 'm, 'd) conf \<Rightarrow> ('k, 'v) entry \<Rightarrow> (('k, 'u, 'e, 'm, 'd) cache, 'e, 'v) prog" where
  "entry_value_access C en =
     bnd (on_access C (entry_key en) (entry_value en)) (\<lambda>_. ret (entry_value en))"

section \<open>Secondary keys\<close>

definition primary_of_secondary ::
  "('k, 'v, 'u, 'e, 'm, 'd) conf \<Rightarrow> 'k \<Rightarrow> ('k, 'v) value_state option \<Rightarrow>
     (('k, 'u, 'e, 'm, 'd) cache, 'e, 'k option) prog" where
  "primary_of_secondary C key e = (case e of
       Some vs \<Rightarrow> (case vs of
           Secondary k \<Rightarrow> ret (Some k)
         | Primary _ \<Rightarrow> panic ''submitted as a secondary but the corresponding cache entry is primary'')
     | None \<Rightarrow> get_primary_key_from C key)"

text \<open>The closure's entry under a secondary key: reading its value must succeed.\<close>

definition secondary_entry ::
  "('k, 'v, 'u, 'e, 'm, 'd) conf \<Rightarrow> 'k \<Rightarrow> ('k, 'v) entry option \<Rightarrow>
     (('k, 'u, 'e, 'm, 'd) cache, 'e, ('k, 'v) entry option) prog" where
  "secondary_entry C skey en = (case en of
       Some en \<Rightarrow> bnd (unwrap_res ''called Result::unwrap() on an Err value'' (entry_value_access C en))
                    (\<lambda>v. ret (Some (entry_new skey v)))
     | None \<Rightarrow> ret None)"

text \<open>The result for the primary, and with it the value that the caller gets.\<close>

definition secondary_op ::
  "'k option \<Rightarrow> ('k, 'v) comp_result \<Rightarrow> ('s, 'e, 'v option \<times> ('k, 'v) value_state op) prog" where
  "secondary_op primary_key result =
     (let put = (\<lambda>en. case primary_key of
          Some pk \<Rightarrow> ret (Some (entry_value en), Put (Secondary pk))
        | None \<Rightarrow> panic ''called Option::unwrap() on a None value'') in
      case result of
        Inserted en \<Rightarrow> put en
      | ReplacedWith en \<Rightarrow> put en
      | Unchanged en \<Rightarrow> put en
      | Removed en \<Rightarrow> ret (Some (entry_value en), Remove)
      | StillNone _ \<Rightarrow> ret (None, Nop))"

definition unwrap_value :: "'v option \<Rightarrow> ('s, 'e, 'v) prog" where
  "unwrap_value x = (case x of Some v \<Rightarrow> ret v | None \<Rightarrow> panic ''called Option::unwrap() on a None value'')"

definition secondary_result ::
  "'k \<Rightarrow> 'v option \<Rightarrow> ('k, ('k, 'v) value_state) moka_result \<Rightarrow> ('s, 'e, ('k, 'v) comp_result) prog" where
  "secondary_result key primary_value r = (case r of
       MokaInserted _ _ \<Rightarrow> bnd (unwrap_value primary_value) (\<lambda>v. ret (Inserted (entry_new key v)))
     | MokaReplacedWith _ _ \<Rightarrow> bnd (unwrap_value primary_value) (\<lambda>v. ret (ReplacedWith (entry_new key v)))
     | MokaUnchanged _ _ \<Rightarrow> bnd (unwrap_value primary_value) (\<lambda>v. ret (Unchanged (entry_new key v)))
     | MokaRemoved _ _ \<Rightarrow> bnd (unwrap_value primary_value) (\<lambda>v. ret (Removed (entry_new key v)))
     | MokaStillNone k \<Rightarrow> ret (StillNone k))"

text \<open>
  The closure assigns the captured \<open>primary_value\<close>, so the computation below carries it next to
  the operation; moka's part is as in \<open>moka_and_try_compute_with\<close>.
\<close>

definition get_and_try_compute_with_secondary ::
  "('k, 'v, 'u, 'e, 'm, 'd) conf \<Rightarrow> 'k \<Rightarrow> ('k, 'v, 'u, 'e, 'm, 'd) user_fun \<Rightarrow>
     (('k, 'u, 'e, 'm, 'd) cache, 'e, ('k, 'v) comp_result) prog" where
  "get_and_try_compute_with_secondary C key f =
     bnd (moka_get C key) (\<lambda>e.
     bnd (primary_of_secondary C key e) (\<lambda>primary_key.
     bnd (case primary_key of
            Some pkey \<Rightarrow> get_and_try_compute_with_primary C pkey (\<lambda>en.
              bnd (secondary_entry C key en) f)
          | None \<Rightarrow> bnd (f None) (\<lambda>oper. case oper of
                Put new_value \<Rightarrow>
                  get_and_try_compute_with_primary C (dc_primary_key_of (dc C) new_value)
                    (\<lambda>_. ret (Put new_value))
              | _ \<Rightarrow> ret (StillNone key))) (\<lambda>result.
     bnd (secondary_op primary_key result) (\<lambda>(primary_value, oper).
     bnd (\<lambda>s. case mk_apply (mk C) key e oper (moka s) of (r, m) \<Rightarrow> (Ok r, s\<lparr>moka := m\<rparr>)) (\<lambda>r.
     secondary_result key primary_value r)))))"

section \<open>Getting or inserting\<close>

definition get_or_try_insert_with_primary ::
  "('k, 'v, 'u, 'e, 'm, 'd) conf \<Rightarrow> 'k \<Rightarrow> (('k, 'u, 'e, 'm, 'd) cache, 'e, 'v) prog \<Rightarrow>
     (('k, 'u, 'e, 'm, 'd) cache, 'e, ('k, 'v) entry) prog" where
  "get_or_try_insert_with_primary C key init =
     bnd (maybe_flush_one C key) (\<lambda>_.
     bnd (moka_or_try_insert_with C key
            (bnd (on_backend (dc_get_for_key (dc C) key)) (\<lambda>found. case found of
               Some v \<Rightarrow> ret (Primary v)
             | None \<Rightarrow>
                 bnd init (\<lambda>new_value.
                 bnd (on_new C key new_value) (\<lambda>_.
                 ret (Primary new_value)))))) (\<lambda>vs.
     bnd (into_value vs) (\<lambda>v.
     ret (entry_new key v))))"

text \<open>\<open>insert\<close>: whatever is stored under the key already, the chain of \<open>on_new\<close> runs.\<close>

definition cache_insert ::
  "('k, 'v, 'u, 'e, 'm, 'd) conf \<Rightarrow> 'v \<Rightarrow> (('k, 'u, 'e, 'm, 'd) cache, 'e, 'v option) prog" where
  "cache_insert C value =
     bnd check_error (\<lambda>_.
     let key = dc_primary_key_of (dc C) value in
     bnd (moka_and_try_compute_with C key (\<lambda>_. on_new C key value)) (\<lambda>res. case res of
       MokaInserted _ vs \<Rightarrow> bnd (into_value vs) (\<lambda>v. ret (Some v))
     | MokaReplacedWith _ vs \<Rightarrow> bnd (into_value vs) (\<lambda>v. ret (Some v))
     | MokaUnchanged _ vs \<Rightarrow> bnd (into_value vs) (\<lambda>v. ret (Some v))
     | MokaStillNone _ \<Rightarrow> ret None
     | MokaRemoved _ _ \<Rightarrow> panic ''Impossible result of insert operation''))"

definition get_or_try_insert_with_secondary ::
  "('k, 'v, 'u, 'e, 'm, 'd) conf \<Rightarrow> 'k \<Rightarrow> (('k, 'u, 'e, 'm, 'd) cache, 'e, 'v) prog \<Rightarrow>
     (('k, 'u, 'e, 'm, 'd) cache, 'e, ('k, 'v) entry) prog" where
  "get_or_try_insert_with_secondary C key init =
     bnd (moka_and_try_compute_with C key (\<lambda>e.
            bnd (case e of
                Some vs \<Rightarrow>
                  (case vs of
                     Primary _ \<Rightarrow> panic ''Not a secondary key''
                   | Secondary pkey \<Rightarrow>
                       bnd (get_or_try_insert_with_primary C pkey init) (\<lambda>_. ret pkey))
              | None \<Rightarrow>
                  bnd (on_backend (dc_get_primary_key_for (dc C) key)) (\<lambda>found. case found of
                    Some pkey \<Rightarrow> bnd (get_or_try_insert_with_primary C pkey init) (\<lambda>_. ret pkey)
                  | None \<Rightarrow>
                      bnd init (\<lambda>new_value.
                      bnd (cache_insert C new_value) (\<lambda>_.
                      ret (dc_primary_key_of (dc C) new_value))))) (\<lambda>primary_key.
            ret (Put (Secondary primary_key))))) (\<lambda>result. case result of
       MokaInserted _ vs \<Rightarrow> bnd (into_value vs) (\<lambda>v. ret (entry_new key v))
     | MokaUnchanged _ vs \<Rightarrow> bnd (into_value vs) (\<lambda>v. ret (entry_new key v))
     | MokaReplacedWith _ vs \<Rightarrow> bnd (into_value vs) (\<lambda>v. ret (entry_new key v))
     | _ \<Rightarrow> panic ''Unexpected outcome of get_or_try_insert_with_secondary'')"

section \<open>The selector and the public operations\<close>

record 'k entry_key_selector =
  sel_primary_key :: "'k option"
  sel_key :: 'k
  sel_primary :: bool

definition entry ::
  "('k, 'v, 'u, 'e, 'm, 'd) conf \<Rightarrow> 'k \<Rightarrow> (('k, 'u, 'e, 'm, 'd) cache, 'e, 'k entry_key_selector) prog" where
  "entry C key =
     bnd check_error (\<lambda>_.
     bnd (get_primary_key_from C key) (\<lambda>found. ret (case found of
       Some pkey \<Rightarrow> \<lparr>sel_primary_key = Some pkey, sel_key = key, sel_primary = (pkey = key)\<rparr>
     | None \<Rightarrow> \<lparr>sel_primary_key = None, sel_key = key, sel_primary = dc_is_primary (dc C) key\<rparr>)))"

definition and_try_compute_with ::
  "('k, 'v, 'u, 'e, 'm, 'd) conf \<Rightarrow> 'k entry_key_selector \<Rightarrow> ('k, 'v, 'u, 'e, 'm, 'd) user_fun \<Rightarrow>
     (('k, 'u, 'e, 'm, 'd) cache, 'e, ('k, 'v) comp_result) prog" where
  "and_try_compute_with C sel callback =
     (if sel_primary sel then get_and_try_compute_with_primary C (sel_key sel) callback
      else get_and_try_compute_with_secondary C (sel_key sel) callback)"

definition or_try_insert_with ::
  "('k, 'v, 'u, 'e, 'm, 'd) conf \<Rightarrow> 'k entry_key_selector \<Rightarrow> (('k, 'u, 'e, 'm, 'd) cache, 'e, 'v) prog \<Rightarrow>
     (('k, 'u, 'e, 'm, 'd) cache, 'e, ('k, 'v) entry) prog" where
  "or_try_insert_with C sel init =
     (if sel_primary sel then get_or_try_insert_with_primary C (sel_key sel) init
      else get_or_try_insert_with_secondary C (sel_key sel) init)"

definition cache_get ::
  "('k, 'v, 'u, 'e, 'm, 'd) conf \<Rightarrow> 'k \<Rightarrow> (('k, 'u, 'e, 'm, 'd) cache, 'e, 'v option) prog" where
  "cache_get C key =
     bnd check_error (\<lambda>_.
     bnd (entry C key) (\<lambda>sel.
     bnd (and_try_compute_with C sel (\<lambda>_. ret Nop)) (\<lambda>outcome.
       let found = (\<lambda>en. bnd (on_access C key (entry_value en)) (\<lambda>_. ret (Some (entry_value en)))) in
       case outcome of
         Inserted en \<Rightarrow> found en
       | Unchanged en \<Rightarrow> found en
       | ReplacedWith en \<Rightarrow> found en
       | StillNone _ \<Rightarrow> ret None
       | _ \<Rightarrow> ret None)))"

definition cache_delete ::
  "('k, 'v, 'u, 'e, 'm, 'd) conf \<Rightarrow> 'k \<Rightarrow> (('k, 'u, 'e, 'm, 'd) cache, 'e, 'v option) prog" where
  "cache_delete C key =
     bnd check_error (\<lambda>_.
     bnd (entry C key) (\<lambda>sel.
     bnd (and_try_compute_with C sel (\<lambda>en. ret (if en \<noteq> None then Remove else Nop))) (\<lambda>result. case result of
         Removed en \<Rightarrow> ret (Some (entry_value en))
       | StillNone _ \<Rightarrow> ret None
       | _ \<Rightarrow> panic ''Impossible result of delete operation'')))"

definition cache_invalidate ::
  "('k, 'v, 'u, 'e, 'm, 'd) conf \<Rightarrow> 'k \<Rightarrow> (('k, 'u, 'e, 'm, 'd) cache, 'e, unit) prog" where
  "cache_invalidate C key =
     bnd check_error (\<lambda>_.
     bnd (moka_and_try_compute_with C key (\<lambda>e.
            bnd (case e of
                Some (Primary value) \<Rightarrow> for_each (moka_inv C) (dc_secondary_keys_of (dc C) value)
              | _ \<Rightarrow> ret ()) (\<lambda>_.
            ret Remove))) (\<lambda>_.
     ret ()))"

end
