(* ===== verification/WriteBehind.thy ===== *)
theory WriteBehind
  imports CacheEntry
begin

text \<open>
  What the cache promises to its user. A data controller for records with a primary key only, and
  whose records the backend stores as they are, is described by a contract (the locale
  \<open>write_behind\<close>); under it the cache, its pool and the backend together behave like one map
  \<open>m\<close> from keys to records: reading returns what the map holds, a change changes the map, and
  flushing, evicting and failing do not change it.
\<close>

section \<open>The logical content\<close>

text \<open>
  \<open>R\<close> reads the records of the backend; \<open>vok k upd ro x\<close> says that the update \<open>upd\<close>, pending
  on the stored record \<open>ro\<close> of the key \<open>k\<close>, stands for the record \<open>x\<close>.
\<close>

definition view_holds ::
  "('d \<Rightarrow> 'k \<rightharpoonup> 'v) \<Rightarrow> ('k \<Rightarrow> 'u option \<Rightarrow> 'v option \<Rightarrow> 'v option \<Rightarrow> bool) \<Rightarrow> ('k \<rightharpoonup> 'v) \<Rightarrow>
     ('k \<Rightarrow> 'u option) \<Rightarrow> 'd \<Rightarrow> bool" where
  "view_holds R vok m pend d \<longleftrightarrow> (\<forall>k. vok k (pend k) (R d k) (m k))"

definition cached_ok ::
  "('k, 'v, 'u, 'e, 'm, 'd) conf \<Rightarrow> 'm \<Rightarrow> ('k \<rightharpoonup> 'v) \<Rightarrow> bool" where
  "cached_ok C mo m \<longleftrightarrow> (\<forall>k x. mk_lookup (mk C) mo k = Some x \<longrightarrow> (\<exists>v. x = Primary v \<and> m k = Some v))"

definition stored_ok ::
  "('k, 'v, 'u, 'e, 'm, 'd) conf \<Rightarrow> ('d \<Rightarrow> 'k \<rightharpoonup> 'v) \<Rightarrow>
     ('k \<Rightarrow> 'u option \<Rightarrow> 'v option \<Rightarrow> 'v option \<Rightarrow> bool) \<Rightarrow> ('k, 'u, 'e, 'm, 'd) cache \<Rightarrow> ('k \<rightharpoonup> 'v) \<Rightarrow> bool" where
  "stored_ok C R vok s m \<longleftrightarrow> pool_quiet (pool s) \<and> view_holds R vok m (pending (pool s)) (backend s) \<and>
     (\<forall>k v. m k = Some v \<longrightarrow> dc_primary_key_of (dc C) v = k)"

definition coherent ::
  "('k, 'v, 'u, 'e, 'm, 'd) conf \<Rightarrow> ('d \<Rightarrow> 'k \<rightharpoonup> 'v) \<Rightarrow>
     ('k \<Rightarrow> 'u option \<Rightarrow> 'v option \<Rightarrow> 'v option \<Rightarrow> bool) \<Rightarrow> ('k, 'u, 'e, 'm, 'd) cache \<Rightarrow> ('k \<rightharpoonup> 'v) \<Rightarrow> bool" where
  "coherent C R vok s m \<longleftrightarrow> stored_ok C R vok s m \<and> cached_ok C (moka s) m"

lemma coherentD:
  assumes "coherent C R vok s m"
  shows "pool_quiet (pool s)" "view_holds R vok m (pending (pool s)) (backend s)"
    "m k = Some v \<Longrightarrow> dc_primary_key_of (dc C) v = k"
    "mk_lookup (mk C) (moka s) k = Some x \<Longrightarrow> \<exists>v. x = Primary v \<and> m k = Some v"
  using assms by (auto simp: coherent_def stored_ok_def cached_ok_def)

lemma cached_ok_shrink: "cached_ok C mo m \<Longrightarrow> mk_lookup (mk C) mo' \<subseteq>\<^sub>m mk_lookup (mk C) mo \<Longrightarrow> cached_ok C mo' m"
  unfolding cached_ok_def map_le_def by (metis domI)

lemma cached_ok_put:
  "cached_ok C mo m \<Longrightarrow> mk_lookup (mk C) mo' \<subseteq>\<^sub>m (mk_lookup (mk C) mo)(k \<mapsto> Primary v) \<Longrightarrow> cached_ok C mo' (m(k \<mapsto> v))"
  unfolding cached_ok_def map_le_def by (metis domI fun_upd_apply option.inject)

lemma cached_ok_remove:
  "cached_ok C mo m \<Longrightarrow> mk_lookup (mk C) mo' \<subseteq>\<^sub>m (mk_lookup (mk C) mo)(k := None) \<Longrightarrow> cached_ok C mo' (m(k := x))"
  unfolding cached_ok_def map_le_def by (metis domI fun_upd_apply option.distinct(1))

text \<open>The user's operation as a change of the map, and the result that goes with it.\<close>

definition apply_op :: "'k \<Rightarrow> 'v op \<Rightarrow> ('k \<rightharpoonup> 'v) \<Rightarrow> ('k \<rightharpoonup> 'v)" where
  "apply_op k oper m = (case oper of Nop \<Rightarrow> m | Put v \<Rightarrow> m(k \<mapsto> v) | Remove \<Rightarrow> m(k := None))"

definition outcome_ok :: "'k \<Rightarrow> ('k \<rightharpoonup> 'v) \<Rightarrow> 'v op \<Rightarrow> ('k, 'v) comp_result \<Rightarrow> bool" where
  "outcome_ok k m oper res \<longleftrightarrow> (case oper of
       Nop \<Rightarrow> (case m k of
           None \<Rightarrow> res = StillNone k
         | Some v \<Rightarrow> res = Inserted (entry_new k v) \<or> res = Unchanged (entry_new k v))
     | Put v \<Rightarrow> res = Inserted (entry_new k v) \<or> res = ReplacedWith (entry_new k v) \<or>
         m k = Some v \<and> (res = Unchanged (entry_new k v) \<or> res = StillNone k)
     | Remove \<Rightarrow> res = StillNone k \<or> (\<exists>v. m k = Some v \<and> res = Removed (entry_new k v)))"

section \<open>Clients\<close>

text \<open>
  A client's calls with their results, as events; \<open>EvFail\<close> is any call that returned an error.
  The closures are those that answer without calling the cache.
\<close>

datatype ('k, 'v, 'e) event =
    EvGet 'k "'v option"
  | EvInsert 'v
  | EvCompute 'k "('k, 'v) entry option \<Rightarrow> ('e, 'v op) res" "('k, 'v) comp_result"
  | EvGetOrInsert 'k "('e, 'v) res" "('k, 'v) entry"
  | EvDelete 'k "'v option"
  | EvInvalidate 'k
  | EvFlush nat
  | EvFail

definition closure_ok :: "('v \<Rightarrow> 'k) \<Rightarrow> 'k \<Rightarrow> (('k, 'v) entry option \<Rightarrow> ('e, 'v op) res) \<Rightarrow> bool" where
  "closure_ok pk k g \<longleftrightarrow> (\<forall>en. (\<exists>oper. g en = Ok oper \<and> (\<forall>v. oper = Put v \<longrightarrow> pk v = k)) \<or> (\<exists>e. g en = Fail e))"

definition init_ok :: "('v \<Rightarrow> 'k) \<Rightarrow> 'k \<Rightarrow> ('e, 'v) res \<Rightarrow> bool" where
  "init_ok pk k g \<longleftrightarrow> (\<exists>v. g = Ok v \<and> pk v = k) \<or> (\<exists>e. g = Fail e)"

text \<open>
  The calls of a client on the cache \<open>C\<close> whose backend \<open>R\<close> reads. A record is inserted only
  where the backend has none under its key.
\<close>

inductive client_step ::
  "('k, 'v, 'u, 'e, 'm, 'd) conf \<Rightarrow> ('d \<Rightarrow> 'k \<rightharpoonup> 'v) \<Rightarrow> ('k, 'u, 'e, 'm, 'd) cache \<Rightarrow> ('k, 'v, 'e) event \<Rightarrow>
     ('k, 'u, 'e, 'm, 'd) cache \<Rightarrow> bool"
  for C R where
  step_get: "cache_get C k s = (Ok x, t) \<Longrightarrow> client_step C R s (EvGet k x) t"
| step_get_fail: "cache_get C k s = (Fail e, t) \<Longrightarrow> client_step C R s EvFail t"
| step_insert: "R (backend s) (dc_primary_key_of (dc C) v) = None \<Longrightarrow> cache_insert C v s = (Ok x, t) \<Longrightarrow>
    client_step C R s (EvInsert v) t"
| step_compute: "closure_ok (dc_primary_key_of (dc C)) k g \<Longrightarrow>
    bnd (entry C k) (\<lambda>sel. and_try_compute_with C sel (\<lambda>en t. (g en, t))) s = (Ok res, t) \<Longrightarrow>
    client_step C R s (EvCompute k g res) t"
| step_compute_fail: "closure_ok (dc_primary_key_of (dc C)) k g \<Longrightarrow>
    bnd (entry C k) (\<lambda>sel. and_try_compute_with C sel (\<lambda>en t. (g en, t))) s = (Fail e, t) \<Longrightarrow>
    client_step C R s EvFail t"
| step_get_or_insert: "init_ok (dc_primary_key_of (dc C)) k g \<Longrightarrow>
    bnd (entry C k) (\<lambda>sel. or_try_insert_with C sel (\<lambda>t. (g, t))) s = (Ok en, t) \<Longrightarrow>
    client_step C R s (EvGetOrInsert k g en) t"
| step_get_or_insert_fail: "init_ok (dc_primary_key_of (dc C)) k g \<Longrightarrow>
    bnd (entry C k) (\<lambda>sel. or_try_insert_with C sel (\<lambda>t. (g, t))) s = (Fail e, t) \<Longrightarrow>
    client_step C R s EvFail t"
| step_delete: "cache_delete C k s = (Ok x, t) \<Longrightarrow> client_step C R s (EvDelete k x) t"
| step_delete_fail: "cache_delete C k s = (Fail e, t) \<Longrightarrow> client_step C R s EvFail t"
| step_invalidate: "cache_invalidate C k s = (Ok (), t) \<Longrightarrow> client_step C R s (EvInvalidate k) t"
| step_flush: "flush C s = (Ok n, t) \<Longrightarrow> client_step C R s (EvFlush n) t"
| step_flush_fail: "flush C s = (Fail e, t) \<Longrightarrow> client_step C R s EvFail t"

inductive client_run ::
  "('k, 'v, 'u, 'e, 'm, 'd) conf \<Rightarrow> ('d \<Rightarrow> 'k \<rightharpoonup> 'v) \<Rightarrow> ('k, 'u, 'e, 'm, 'd) cache \<Rightarrow> ('k, 'v, 'e) event list \<Rightarrow>
     ('k, 'u, 'e, 'm, 'd) cache \<Rightarrow> bool"
  for C R where
  run_none: "client_run C R s [] s"
| run_step: "client_run C R s evs t \<Longrightarrow> client_step C R t ev u \<Longrightarrow> client_run C R s (evs @ [ev]) u"

inductive_cases client_stepE [elim]: "client_step C R s ev t"

text \<open>The specification: the same events on a plain map.\<close>

fun map_step :: "('v \<Rightarrow> 'k) \<Rightarrow> ('k \<rightharpoonup> 'v) \<Rightarrow> ('k, 'v, 'e) event \<Rightarrow> ('k \<rightharpoonup> 'v) \<Rightarrow> bool" where
  "map_step pk m (EvGet k x) m' \<longleftrightarrow> x = m k \<and> m' = m"
| "map_step pk m (EvInsert v) m' \<longleftrightarrow> m' = m(pk v \<mapsto> v)"
| "map_step pk m (EvCompute k g res) m' \<longleftrightarrow> (\<exists>oper. g (map_option (entry_new k) (m k)) = Ok oper \<and>
     m' = apply_op k oper m \<and> outcome_ok k m oper res)"
| "map_step pk m (EvGetOrInsert k g en) m' \<longleftrightarrow> (\<exists>v. en = entry_new k v \<and> m' = m(k \<mapsto> v) \<and>
     (case m k of Some old \<Rightarrow> v = old | None \<Rightarrow> g = Ok v))"
| "map_step pk m (EvDelete k x) m' \<longleftrightarrow> (x = None \<or> x = m k) \<and> m' = m(k := None)"
| "map_step pk m (EvInvalidate k) m' \<longleftrightarrow> m' = m"
| "map_step pk m (EvFlush n) m' \<longleftrightarrow> n = 0 \<and> m' = m"
| "map_step pk m EvFail m' \<longleftrightarrow> m' = m"

inductive map_run :: "('v \<Rightarrow> 'k) \<Rightarrow> ('k \<rightharpoonup> 'v) \<Rightarrow> ('k, 'v, 'e) event list \<Rightarrow> ('k \<rightharpoonup> 'v) \<Rightarrow> bool"
  for pk where
  map_none: "map_run pk m [] m"
| map_more: "map_run pk m evs m1 \<Longrightarrow> map_step pk m1 ev m2 \<Longrightarrow> map_run pk m (evs @ [ev]) m2"

text \<open>A call that finds an error of the background task returns it, and does nothing else.\<close>

lemma error_first:
  assumes "error s = Some e"
  shows "cache_get C k s = (Fail e, s\<lparr>error := None\<rparr>)" "cache_insert C v s = (Fail e, s\<lparr>error := None\<rparr>)"
    "cache_delete C k s = (Fail e, s\<lparr>error := None\<rparr>)" "cache_invalidate C k s = (Fail e, s\<lparr>error := None\<rparr>)"
    "flush C s = (Fail e, s\<lparr>error := None\<rparr>)" "flush_one C k s = (Fail e, s\<lparr>error := None\<rparr>)"
    "entry C k s = (Fail e, s\<lparr>error := None\<rparr>)" "soft_flush s = (Fail e, s\<lparr>error := None\<rparr>)"
  using assms
  by (simp_all add: cache_get_def cache_insert_def cache_delete_def cache_invalidate_def flush_def flush_one_def
      entry_def soft_flush_def)

section \<open>The contract\<close>

locale write_behind = flush_client C
  for C :: "('k, 'v, 'u, 'e, 'm, 'd) conf" +
  fixes R :: "'d \<Rightarrow> 'k \<rightharpoonup> 'v"
    and vok :: "'k \<Rightarrow> 'u option \<Rightarrow> 'v option \<Rightarrow> 'v option \<Rightarrow> bool"
  assumes moka: "moka_ok (mk C)"
    and secondary_keys: "dc_secondary_keys_of (dc C) v = []"
    and primary_key_for: "dc_get_primary_key_for (dc C) k d = (Ok (Some k), d)"
    and vok_None: "vok k None ro x \<longleftrightarrow> x = ro"
    and get_for_key: "dc_get_for_key (dc C) k d = (rg, d') \<Longrightarrow> R d' = R d \<and>
      (rg = Wait \<or> (\<exists>e. rg = Fail e) \<or> rg = Ok (R d k))"
    and dc_new: "\<exists>resp. dc_on_new (dc C) (dc_primary_key_of (dc C) v) v d = (Ok resp, d) \<and> resp_op resp = DcInsert \<and>
      vok (dc_primary_key_of (dc C) v) (resp_update resp) None (Some v)"
    and dc_change: "dc_primary_key_of (dc C) v = k \<Longrightarrow> dc_primary_key_of (dc C) old = k \<Longrightarrow>
      vok k prev ro (Some old) \<Longrightarrow> \<exists>resp. dc_on_change (dc C) k v old prev d = (Ok resp, d) \<and>
        (resp_op resp = DcInsert \<or> resp_op resp = DcNop \<and> v = old) \<and> vok k (resp_update resp) ro (Some v)"
    and dc_delete: "vok k prev ro x \<Longrightarrow> \<exists>resp. dc_on_delete (dc C) k prev d = (Ok resp, d) \<and>
      (resp_op resp = DcRevoke \<or> resp_op resp = DcDrop) \<and>
      vok k (if resp_op resp = DcDrop then None else resp_update resp) ro None"
    and dc_access: "dc_on_access (dc C) k v prev d = (Ok \<lparr>resp_op = DcNop, resp_update = prev\<rparr>, d)"
    and write_back: "wb_start p0 c \<Longrightarrow> pool_own p0 \<Longrightarrow> view_holds R vok m (pending (ctx_pool c)) (ctx_backend c) \<Longrightarrow>
      dc_write_back (dc C) c = (r, c') \<Longrightarrow> r \<noteq> Wait \<Longrightarrow>
      view_holds R vok m (pending (ctx_pool c')) (ctx_backend c') \<and>
      (r = Ok () \<longrightarrow> (\<forall>k \<in> fst ` set (items_of c). pending (ctx_pool c') k = None) \<and>
         (\<forall>k. pending (ctx_pool c) k = None \<longrightarrow> pending (ctx_pool c') k = None))"
    and on_flush: "ob \<in> set (observers C) \<Longrightarrow> snd ` set (unprocessed (ctx_iter c)) \<subseteq> {None} \<Longrightarrow>
      view_holds R vok m (pending (ctx_pool c)) (ctx_backend c) \<Longrightarrow> ob_on_flush ob c = (r, c') \<Longrightarrow> r \<noteq> Wait \<Longrightarrow>
      view_holds R vok m (pending (ctx_pool c')) (ctx_backend c') \<and>
      unprocessed (ctx_iter c') = unprocessed (ctx_iter c)"
    and on_flush_one: "ob \<in> set (observers C) \<Longrightarrow> ob_on_flush_one ob k u d = (r, d') \<Longrightarrow> R d' = R d"
begin

lemma view_R: "view_holds R vok m pend d \<Longrightarrow> R d' = R d \<Longrightarrow> view_holds R vok m pend d'"
  by (simp add: view_holds_def)

lemma view_None: "view_holds R vok m pend d \<Longrightarrow> pend k = None \<Longrightarrow> R d k = m k"
  using vok_None by (metis view_holds_def)

lemma flush_one_events:
  "set obs \<subseteq> set (observers C) \<Longrightarrow> for_each (\<lambda>ob. ob_on_flush_one ob k u) obs d = (r, d') \<Longrightarrow> R d' = R d"
proof (induction obs arbitrary: d)
  case (Cons ob obs)
  obtain r1 d1 where ob: "ob_on_flush_one ob k u d = (r1, d1)" by fastforce
  have "R d1 = R d" using Cons.prems(1) on_flush_one[OF _ ob] by simp
  with Cons ob show ?case by (cases r1) auto
qed simp

subsection \<open>Flushing\<close>

lemma coherent_flush_one:
  assumes co: "coherent C R vok s m" and e: "error s = None" and run: "flush_one C key s = (r, s')" "r \<noteq> Wait"
  shows "coherent C R vok s' m \<and> error s' = None \<and> moka s' = moka s \<and>
    ((\<exists>n. r = Ok n) \<longrightarrow> pending (pool s') key = None)"
proof -
  define V where "V = (\<lambda>ok pend d. view_holds R vok m pend d \<and> (ok \<longrightarrow> pend key = None))"
  note q = coherentD(1)[OF co] and v = coherentD(2)[OF co]
  have fin: "pool_flushed (pool s) (pool s') \<and> (\<forall>n. r = Ok n \<longrightarrow> n = 0) \<and>
      pool_get (pool s') key = pool_get (pool s) key \<and> V (\<exists>n. r = Ok n) (pending (pool s')) (backend s') \<and>
      s' = s\<lparr>pool := pool s', backend := backend s'\<rparr>"
  proof (rule flush_one_done[OF q e run], goal_cases)
    case 1
    then show ?case using v by (simp add: V_def)
  next
    case (2 u r2 d)
    then show ?case using v flush_one_events[OF subset_refl 2(2)] by (simp add: V_def view_R)
  next
    case (3 u d i r1 c1)
    define p0 where "p0 = hold_state i (pool s)"
    define c where "c = \<lparr>ctx_pool = lock_state i p0, ctx_iter = iter_key_guard (key, i), ctx_backend = d\<rparr>"
    have unl: "\<not> locked (states p0 i)" using q by (simp add: p0_def pool_quiet_def pool_idle_def)
    have dat: "data (states p0 i) = Some u" using 3(1,3) by (simp add: p0_def pending_def)
    have td: "todo c = [(key, Some i)]" by (simp add: c_def todo_def iter_key_guard_def)
    have "wb_start p0 c"
      unfolding wb_start_def using flush_inv_key_guard[of p0 key i] unl 3(3) dat td
      by (simp add: c_def p0_def guards_ok_def iter_key_guard_def)
    moreover have "pool_own p0" using q by (simp add: p0_def pool_quiet_def)
    moreover have "view_holds R vok m (pending (ctx_pool c)) (ctx_backend c)"
      using v flush_one_events[OF subset_refl 3(2)] by (simp add: c_def p0_def view_R)
    moreover have "items_of c = [(key, i)]" by (simp add: items_of_def td)
    ultimately show ?case using write_back[of p0 c m r1 c1] 3(4,5)
      by (auto simp: V_def c_def p0_def)
  qed
  from fin have fl: "pool_flushed (pool s) (pool s')" and V: "V (\<exists>n. r = Ok n) (pending (pool s')) (backend s')"
    and s': "s' = s\<lparr>pool := pool s', backend := backend s'\<rparr>" by blast+
  have keep: "moka s' = moka s" "error s' = error s"
    by (subst s', simp)+
  then show ?thesis
    using co e V pool_flushed_quiet[OF fl q] by (auto simp: coherent_def stored_ok_def V_def)
qed

lemma coherent_maybe_flush_one:
  assumes co: "coherent C R vok s m" and e: "error s = None" and run: "maybe_flush_one C key s = (r, s')" "r \<noteq> Wait"
  shows "coherent C R vok s' m \<and> error s' = None \<and> moka s' = moka s \<and>
    ((\<exists>n. r = Ok n) \<longrightarrow> mk_lookup (mk C) (moka s') key \<noteq> None \<or> pending (pool s') key = None)"
proof (cases "mk_lookup (mk C) (moka s) key")
  case None
  then have "flush_one C key s = (r, s')" using run by (simp add: maybe_flush_one_def moka_get_def)
  from coherent_flush_one[OF co e this run(2)] show ?thesis by simp
next
  case (Some x)
  with run co e show ?thesis by (auto simp: maybe_flush_one_def moka_get_def)
qed

lemma flush_events:
  "set obs \<subseteq> set (observers C) \<Longrightarrow> snd ` set (unprocessed (ctx_iter c)) \<subseteq> {None} \<Longrightarrow>
     view_holds R vok m (pending (ctx_pool c)) (ctx_backend c) \<Longrightarrow> for_each ob_on_flush obs c = (r, c') \<Longrightarrow> r \<noteq> Wait \<Longrightarrow>
     view_holds R vok m (pending (ctx_pool c')) (ctx_backend c') \<and> unprocessed (ctx_iter c') = unprocessed (ctx_iter c)"
proof (induction obs arbitrary: c)
  case (Cons ob obs)
  obtain r1 c1 where ob: "ob_on_flush ob c = (r1, c1)" by fastforce
  have "r1 \<noteq> Wait" using Cons.prems(4,5) ob by auto
  then have c1: "view_holds R vok m (pending (ctx_pool c1)) (ctx_backend c1)"
    "unprocessed (ctx_iter c1) = unprocessed (ctx_iter c)"
    using on_flush[OF _ Cons.prems(2,3) ob] Cons.prems(1) by simp_all
  show ?case
  proof (cases r1)
    case (Ok u)
    then have "for_each ob_on_flush obs c1 = (r, c')" using Cons.prems(4) ob by simp
    from Cons.IH[OF _ _ c1(1) this Cons.prems(5)] Cons.prems(1,2) c1(2) show ?thesis by simp
  qed (use Cons.prems(4) ob c1 in auto)
qed simp

lemma iter_reset_reads [simp]:
  "pending (ctx_pool (iter_reset c)) = pending (ctx_pool c)" "ctx_backend (iter_reset c) = ctx_backend c"
  "unprocessed (ctx_iter (iter_reset c)) = unprocessed (ctx_iter c)"
  "next_idx (ctx_iter (iter_reset c)) = 0" "worked (ctx_iter (iter_reset c)) = []"
  by (simp_all add: iter_reset_def ctx_on_pool_def Let_def)

text \<open>A flush of a list of keys: after a success none of them is pending any more.\<close>

lemma coherent_flush_many_raw:
  assumes co: "coherent C R vok s m" and ks: "distinct ks" and run: "flush_many_raw C ks s = (r, s')" "r \<noteq> Wait"
  shows "coherent C R vok s' m \<and> error s' = error s \<and> moka s' = moka s \<and>
    (\<forall>n. r = Ok n \<longrightarrow> n = 0 \<and> (\<forall>k. k \<in> set ks \<or> pending (pool s) k = None \<longrightarrow> pending (pool s') k = None))"
proof -
  define V where "V = (\<lambda>ok pend d. view_holds R vok m pend d \<and>
    (ok \<longrightarrow> (\<forall>k. k \<in> set ks \<or> pending (pool s) k = None \<longrightarrow> pend k = None)))"
  note q = coherentD(1)[OF co] and v = coherentD(2)[OF co]
  have wo: "pool_wf (pool s)" "pool_own (pool s)" using q by (simp_all add: pool_quiet_def)
  have fin: "flush_done (pool s) r (pool s') \<and> V (\<exists>n. r = Ok n) (pending (pool s')) (backend s') \<and>
    s' = s\<lparr>pool := pool s', backend := backend s', last_flush := last_flush s'\<rparr> \<and>
    last_flush s' = (if \<exists>n. r = Ok n then clock s else last_flush s)"
  proof (rule flush_many_raw_done[OF wo run], goal_cases)
    case (1 r1 c1)
    define c where "c = \<lparr>ctx_pool = pool s, ctx_iter = iter_keys ks, ctx_backend = backend s\<rparr>"
    have un: "unprocessed (ctx_iter c) = map (\<lambda>k. (k, None)) ks" by (simp add: c_def iter_keys_def)
    have un0: "snd ` set (unprocessed (ctx_iter c)) \<subseteq> {None}" by (auto simp: un)
    have vc: "view_holds R vok m (pending (ctx_pool c)) (ctx_backend c)" using v by (simp add: c_def)
    obtain r2 c2 where ev: "event_on_flush C c = (r2, c2)" by fastforce
    have r2: "r2 \<noteq> Wait" using 1 ev by (auto simp: c_def[symmetric])
    have inv0: "flush_inv (pool s) [] c" by (simp add: c_def flush_inv_keys)
    have "ctx_safe (event_on_flush C)"
      unfolding event_on_flush_def by (intro ctx_safe_intros observers_safe)
    from ctx_safeD[OF this inv0 ev r2] have inv2: "flush_inv (pool s) [] c2" .
    have v2: "view_holds R vok m (pending (ctx_pool c2)) (ctx_backend c2)" "unprocessed (ctx_iter c2) = unprocessed (ctx_iter c)"
      using flush_events[OF subset_refl un0 vc ev[unfolded event_on_flush_def] r2] by simp_all
    show ?case
    proof (cases "r2 = Ok ()")
      case False
      then have "r1 = r2" "c1 = c2" "\<nexists>u. r1 = Ok u" using 1(1) ev r2 by (cases r2; auto simp: c_def[symmetric])+
      then show ?thesis using v2 by (simp add: V_def)
    next
      case True
      define c3 where "c3 = iter_reset c2"
      have wb: "dc_write_back (dc C) c3 = (r1, c1)" using 1(1) ev True by (simp add: c_def[symmetric] c3_def)
      have inv3: "flush_inv (pool s) [] c3" using iter_reset_inv[OF inv2] by (simp add: c3_def)
      have st: "wb_start (ctx_pool c3) c3" by (rule wb_start_keys[of _ ks]) (simp_all add: c3_def v2 un)
      have own3: "pool_own (ctx_pool c3)" by (rule flush_inv_pool_own[OF inv3 wo(2)])
      have g3: "guards c3 = []" using v2(2) un by (simp add: c3_def guards_def own_guards_def List.map_filter_def)
      have unl: "\<not> locked (states (ctx_pool c3) i)" for i
        using flush_inv_done[OF inv3 g3] q by (simp add: pool_quiet_def pool_idle_def)
      have v3: "view_holds R vok m (pending (ctx_pool c3)) (ctx_backend c3)" using v2 by (simp add: c3_def)
      have "items_of c3 = map (\<lambda>k. (k, the (pool_get (ctx_pool c3) k))) (filter (\<lambda>k. pending (ctx_pool c3) k \<noteq> None) ks)"
        unfolding items_of_def using remaining_keys[OF own3 ks] unl v2(2) un
        by (simp add: todo_def c3_def)
      then have keys: "fst ` set (items_of c3) = {k \<in> set ks. pending (ctx_pool c3) k \<noteq> None}" by force
      have sub: "pending (ctx_pool c3) k = None" if "pending (pool s) k = None" for k
        using flush_inv_pending[OF inv3] that by (metis domIff map_le_def)
      show ?thesis
        unfolding V_def
      proof (intro conjI impI allI)
        show "view_holds R vok m (pending (ctx_pool c1)) (ctx_backend c1)"
          using write_back[OF st own3 v3 wb 1(2)] by blast
        fix k assume "\<exists>u. r1 = Ok u" and k: "k \<in> set ks \<or> pending (pool s) k = None"
        then have w: "\<forall>k \<in> fst ` set (items_of c3). pending (ctx_pool c1) k = None"
          "\<forall>k. pending (ctx_pool c3) k = None \<longrightarrow> pending (ctx_pool c1) k = None"
          using write_back[OF st own3 v3 wb 1(2)] by auto
        show "pending (ctx_pool c1) k = None"
          using w k sub[of k] unfolding keys by (cases "pending (ctx_pool c3) k = None") auto
      qed
    qed
  qed
  then have s': "s' = s\<lparr>pool := pool s', backend := backend s', last_flush := last_flush s'\<rparr>"
    and fd: "flush_done (pool s) r (pool s')" and V: "V (\<exists>n. r = Ok n) (pending (pool s')) (backend s')" by blast+
  have keep: "moka s' = moka s" "error s' = error s" by (subst s', simp)+
  then show ?thesis
    using co V fd pool_flushed_quiet[OF _ q] by (auto simp: coherent_def stored_ok_def V_def flush_done_def)
qed

subsection \<open>Changes\<close>

text \<open>What the data controller's answer to an event leaves behind.\<close>

lemma stored_event:
  assumes "stored_ok C R vok s m" "dc_event_ok s k resp d t" "R d = R (backend s)"
    and "vok k (if resp_op resp = DcDrop then None else resp_update resp) (R (backend s) k) x"
    and "\<And>v. x = Some v \<Longrightarrow> dc_primary_key_of (dc C) v = k"
  shows "stored_ok C R vok t (m(k := x)) \<and> moka t = moka s \<and> error t = error s \<and> backend t = d"
proof -
  have t: "t = s\<lparr>monitor_task := spawn (monitor_task s), backend := d, pool := pool t\<rparr>" "pool_quiet (pool t)"
    and p: "pending (pool t) = (pending (pool s))(k := if resp_op resp = DcDrop then None else resp_update resp)"
    using assms(2) unfolding dc_event_ok_def by blast+
  have "moka t = moka s" "error t = error s" "backend t = d" by (subst t(1), simp)+
  moreover have "view_holds R vok (m(k := x)) (pending (pool t)) d"
    using assms(1,3,4) by (cases "resp_op resp = DcDrop") (simp_all add: stored_ok_def view_holds_def p)
  ultimately show ?thesis using assms(1,5) t(2) by (auto simp: stored_ok_def)
qed

lemma stored_okD:
  assumes "stored_ok C R vok s m"
  shows "pool_quiet (pool s)" "vok k (pending (pool s) k) (R (backend s) k) (m k)"
    "m k = Some v \<Longrightarrow> dc_primary_key_of (dc C) v = k"
  using assms by (auto simp: stored_ok_def view_holds_def)

lemma stored_on_new:
  assumes st: "stored_ok C R vok s m" and k: "dc_primary_key_of (dc C) v = k" "R (backend s) k = None"
  shows "\<exists>t. on_new C k v s = (Ok (Put (Primary v)), t) \<and> stored_ok C R vok t (m(k \<mapsto> v)) \<and>
    moka t = moka s \<and> error t = error s \<and> backend t = backend s"
proof -
  obtain resp where r: "dc_on_new (dc C) k v (backend s) = (Ok resp, backend s)" "resp_op resp = DcInsert"
    "vok k (resp_update resp) None (Some v)" using dc_new[of v "backend s"] k(1) by auto
  from on_new_Ok[OF stored_okD(1)[OF st] k(1) r(1)] obtain t where
    t: "on_new C k v s = (Ok (op_of_dc (resp_op resp) (Some v)), t)" "dc_event_ok s k resp (backend s) t" by blast
  with stored_event[OF st t(2), of "Some v"] r k show ?thesis by (simp add: op_of_dc_def)
qed

lemma stored_on_change:
  assumes st: "stored_ok C R vok s m" and k: "dc_primary_key_of (dc C) v = k" "m k = Some old"
  shows "\<exists>t oper. on_change C k v old s = (Ok oper, t) \<and> stored_ok C R vok t (m(k \<mapsto> v)) \<and>
    (oper = Put (Primary v) \<or> oper = Nop \<and> v = old) \<and> moka t = moka s \<and> error t = error s \<and> backend t = backend s"
proof -
  have old: "dc_primary_key_of (dc C) old = k" using stored_okD(3)[OF st k(2)] .
  have "vok k (pending (pool s) k) (R (backend s) k) (Some old)" using stored_okD(2)[OF st, of k] k(2) by simp
  from dc_change[OF k(1) old this] obtain resp where
    r: "dc_on_change (dc C) k v old (pending (pool s) k) (backend s) = (Ok resp, backend s)"
    "resp_op resp = DcInsert \<or> resp_op resp = DcNop \<and> v = old" "vok k (resp_update resp) (R (backend s) k) (Some v)"
    by blast
  from on_change_Ok[OF stored_okD(1)[OF st] k(1) r(1)] obtain t where
    t: "on_change C k v old s = (Ok (op_of_dc (resp_op resp) (Some v)), t)" "dc_event_ok s k resp (backend s) t" by blast
  have "vok k (if resp_op resp = DcDrop then None else resp_update resp) (R (backend s) k) (Some v)" using r(2,3) by auto
  with stored_event[OF st t(2) refl this] t(1) r(2) k(1) show ?thesis by (auto simp: op_of_dc_def)
qed

lemma stored_on_delete:
  assumes st: "stored_ok C R vok s m"
  shows "\<exists>t. on_delete C k (m k) s = (Ok Remove, t) \<and> stored_ok C R vok t (m(k := None)) \<and>
    moka t = moka s \<and> error t = error s \<and> backend t = backend s"
proof -
  from dc_delete[OF stored_okD(2)[OF st, of k], of "backend s"] obtain resp where
    r: "dc_on_delete (dc C) k (pending (pool s) k) (backend s) = (Ok resp, backend s)"
    "resp_op resp = DcRevoke \<or> resp_op resp = DcDrop"
    "vok k (if resp_op resp = DcDrop then None else resp_update resp) (R (backend s) k) None" by blast
  have "aligned C k (m k)" using stored_okD(3)[OF st] by (simp add: aligned_def)
  from on_delete_Ok[OF stored_okD(1)[OF st] this r(1)] obtain t where
    t: "on_delete C k (m k) s = (Ok (op_of_dc (resp_op resp) (m k)), t)" "dc_event_ok s k resp (backend s) t" by blast
  with stored_event[OF st t(2) refl r(3)] r(2) show ?thesis by (auto simp: op_of_dc_def)
qed

lemma stored_on_access:
  assumes st: "stored_ok C R vok s m" and k: "m k = Some v"
  shows "\<exists>t. on_access C k v s = (Ok (), t) \<and> stored_ok C R vok t m \<and> moka t = moka s \<and> error t = error s \<and> backend t = backend s"
proof -
  define resp where "resp = \<lparr>resp_op = DcNop, resp_update = pending (pool s) k\<rparr>"
  have "dc_on_access (dc C) k v (pending (pool s) k) (backend s) = (Ok resp, backend s)"
    by (simp add: dc_access resp_def)
  from on_access_Ok[OF stored_okD(1)[OF st] stored_okD(3)[OF st k] this] obtain t where
    t: "on_access C k v s = (Ok (), t)" "dc_event_ok s k resp (backend s) t" by blast
  have m: "m(k := m k) = m" by simp
  have "vok k (if resp_op resp = DcDrop then None else resp_update resp) (R (backend s) k) (m k)"
    using stored_okD(2)[OF st, of k] by (simp add: resp_def)
  from stored_event[OF st t(2) refl this, unfolded m] t(1) stored_okD(3)[OF st] show ?thesis by blast
qed

subsection \<open>Computations on an entry\<close>

text \<open>What the closure sees is the logical record; a record fetched from the backend is marked.\<close>

lemma current_entry_spec:
  assumes co: "coherent C R vok s m" and e: "e = mk_lookup (mk C) (moka s) k"
    and p: "e = None \<Longrightarrow> pending (pool s) k = None" and run: "current_entry C k e s = (r, s')" "r \<noteq> Wait"
  shows "coherent C R vok s' m \<and> error s' = error s \<and> moka s' = moka s \<and> pending (pool s') = pending (pool s) \<and>
    ((\<exists>err. r = Fail err) \<or> r = Ok (map_option (entry_new k) (m k), m k, e = None \<and> m k \<noteq> None))"
proof (cases e)
  case (Some x)
  then obtain v where "x = Primary v" "m k = Some v" using coherentD(4)[OF co] e by metis
  with run Some co show ?thesis by (auto simp: current_entry_def into_value_def)
next
  case None
  obtain rg d where g: "dc_get_for_key (dc C) k (backend s) = (rg, d)" by fastforce
  have R: "R d = R (backend s)" "rg = Wait \<or> (\<exists>e. rg = Fail e) \<or> rg = Ok (R (backend s) k)"
    using get_for_key[OF g] by blast+
  have mk: "R (backend s) k = m k" using view_None[OF coherentD(2)[OF co]] p None by simp
  have co': "coherent C R vok (s\<lparr>backend := d\<rparr>) m"
    using co R(1) view_R by (auto simp: coherent_def stored_ok_def)
  have "s' = s\<lparr>backend := d\<rparr>" "(\<exists>err. r = Fail err) \<or> r = Ok (map_option (entry_new k) (m k), m k, m k \<noteq> None)"
    using run g R(2) mk None by (cases rg; auto simp: current_entry_def bnd_def on_backend_def split: option.splits)+
  with co' None show ?thesis by simp
qed

lemma apply_user_op_spec:
  assumes co: "coherent C R vok s m" and fetched: "fetched \<Longrightarrow> m k \<noteq> None"
    and new: "m k = None \<Longrightarrow> pending (pool s) k = None"
    and keyed: "\<And>v. oper = Put v \<Longrightarrow> dc_primary_key_of (dc C) v = k"
  shows "\<exists>t op2. apply_user_op C k (m k) fetched oper s = (Ok op2, t) \<and> stored_ok C R vok t (apply_op k oper m) \<and>
    moka t = moka s \<and> error t = error s \<and> backend t = backend s \<and>
    (case oper of
       Remove \<Rightarrow> op2 = Remove
     | Put v \<Rightarrow> op2 = Put (Primary v) \<or> op2 = Nop \<and> m k = Some v
     | Nop \<Rightarrow> if fetched then op2 = Put (Primary (the (m k))) else op2 = Nop)"
proof (cases oper)
  case Nop
  have "stored_ok C R vok s m" using co by (simp add: coherent_def)
  with Nop fetched show ?thesis
    by (cases fetched) (auto simp: apply_user_op_def apply_op_def split: option.splits)
next
  case Remove
  have st: "stored_ok C R vok s m" using co by (simp add: coherent_def)
  have "bnd (case m k of Some old \<Rightarrow> for_each (moka_inv C) (dc_secondary_keys_of (dc C) old) | None \<Rightarrow> ret ())
      (\<lambda>_. on_delete C k (m k)) s = on_delete C k (m k) s"
    by (cases "m k") (simp_all add: secondary_keys)
  then show ?thesis using stored_on_delete[OF st, of k] Remove by (auto simp: apply_user_op_def apply_op_def)
next
  case (Put v)
  have st: "stored_ok C R vok s m" using co by (simp add: coherent_def)
  have pk: "dc_primary_key_of (dc C) v = k" using keyed Put .
  show ?thesis
  proof (cases "m k")
    case None
    then have "R (backend s) k = None" using view_None[OF coherentD(2)[OF co] new] by simp
    from stored_on_new[OF st pk this] None Put show ?thesis by (auto simp: apply_user_op_def apply_op_def)
  next
    case (Some old)
    from stored_on_change[OF st pk Some] Some Put show ?thesis by (auto simp: apply_user_op_def apply_op_def)
  qed
qed

text \<open>The last step: moka applies the operation, the logical map is the changed one.\<close>

lemma moka_apply_spec:
  assumes st: "stored_ok C R vok t m'" and c: "cached_ok C (moka t) m"
    and ap: "mk_apply (mk C) k e op2 (moka t) = (r, mo)"
    and rel: "case op2 of Nop \<Rightarrow> m' = m | Put x \<Rightarrow> (\<exists>v. x = Primary v \<and> m' = m(k \<mapsto> v)) | Remove \<Rightarrow> m' = m(k := None)"
  shows "coherent C R vok (t\<lparr>moka := mo\<rparr>) m'"
proof -
  note le = moka_apply_cases[OF moka ap]
  have "cached_ok C mo m'"
    using le rel cached_ok_shrink[OF c] cached_ok_put[OF c] cached_ok_remove[OF c]
    by (cases op2) auto
  with st show ?thesis by (simp add: coherent_def stored_ok_def)
qed

lemma primary_result_spec:
  assumes c: "cached_ok C mo m" and e: "e = mk_lookup (mk C) mo k" and ap: "mk_apply (mk C) k e op2 mo = (r, mo')"
    and op2: "case oper of
       Remove \<Rightarrow> op2 = Remove
     | Put v \<Rightarrow> op2 = Put (Primary v) \<or> op2 = Nop \<and> m k = Some v
     | Nop \<Rightarrow> if e = None \<and> m k \<noteq> None then op2 = Put (Primary (the (m k))) else op2 = Nop"
  shows "\<exists>res. primary_result r t = (Ok res, t) \<and> outcome_ok k m oper res"
proof -
  have prim: "\<exists>v. x = Primary v \<and> m k = Some v" if "mk_lookup (mk C) mo k = Some x" for x
    using c that by (simp add: cached_ok_def)
  note simps = primary_result_def from_primary_entry_def into_value_def outcome_ok_def
  show ?thesis
  proof (cases op2)
    case Nop
    with moka_apply_Nop[OF moka] ap have "r = (case e of None \<Rightarrow> MokaStillNone k | Some x \<Rightarrow> MokaUnchanged k x)" by simp
    with Nop op2 e prim show ?thesis
      by (cases oper; cases e) (auto simp: simps split: if_splits option.splits)
  next
    case (Put x)
    with moka_apply_Put[OF moka] ap have "r = (case e of None \<Rightarrow> MokaInserted k x | Some _ \<Rightarrow> MokaReplacedWith k x)" by simp
    with Put op2 show ?thesis
      by (cases oper; cases e) (auto simp: simps split: if_splits)
  next
    case Remove
    with moka_apply_Remove[OF moka] ap have
      "r = MokaStillNone k \<or> (\<exists>x. r = MokaRemoved k x \<and> (e = Some x \<or> mk_lookup (mk C) mo k = Some x))" by simp
    with Remove op2 e prim show ?thesis
      by (cases oper) (fastforce simp: simps split: if_splits)+
  qed
qed

text \<open>
  A computation on a primary key. Its closure may move the backend, within what \<open>R\<close> reads, and
  leaves the rest of the cache alone. \<open>P\<close> is what is known of the cache before the closure runs,
  \<open>Q\<close> what the closure's answer says of the backend afterwards. The map changes as the closure
  says, and the closure saw the record of the map.
\<close>

lemma coherent_compute_via:
  assumes co: "coherent C R vok s m" and er: "error s = None"
    and P: "\<And>r t. maybe_flush_one C k s = (r, t) \<Longrightarrow> P t"
      "\<And>e t r t'. P t \<Longrightarrow> current_entry C k e t = (r, t') \<Longrightarrow> P t'"
    and f: "\<And>t rf t'. coherent C R vok t m \<Longrightarrow> error t = None \<Longrightarrow> P t \<Longrightarrow>
        f (map_option (entry_new k) (m k)) t = (rf, t') \<Longrightarrow> rf \<noteq> Wait \<Longrightarrow>
        t' = t\<lparr>backend := backend t'\<rparr> \<and> R (backend t') = R (backend t) \<and> Q rf (backend t') \<and>
        (\<forall>v. rf = Ok (Put v) \<longrightarrow> dc_primary_key_of (dc C) v = k)"
    and run: "get_and_try_compute_with_primary C k f s = (r, s')" "r \<noteq> Wait"
  shows "error s' = None \<and>
    ((\<nexists>res. r = Ok res) \<and> coherent C R vok s' m \<and>
       (P s' \<or> (\<exists>e. r = Fail e \<and> Q (Fail e) (backend s')) \<or> (\<exists>msg. r = Panic msg \<and> Q (Panic msg) (backend s'))) \<or>
     (\<exists>res oper. r = Ok res \<and> Q (Ok oper) (backend s') \<and>
        coherent C R vok s' (apply_op k oper m) \<and> outcome_ok k m oper res))"
proof -
  obtain r1 s1 where fl: "maybe_flush_one C k s = (r1, s1)" by fastforce
  have r1: "r1 \<noteq> Wait" using run fl by (auto simp: get_and_try_compute_with_primary_def)
  note c1 = coherent_maybe_flush_one[OF co er fl r1] and P1 = P(1)[OF fl]
  show ?thesis
  proof (cases "\<exists>n. r1 = Ok n")
    case False
    then have "s' = s1" "\<nexists>res. r = Ok res"
      using run fl by (cases r1; auto simp: get_and_try_compute_with_primary_def)+
    then show ?thesis using c1 P1 by simp
  next
    case True
    define e where "e = mk_lookup (mk C) (moka s1) k"
    have p1: "e = None \<Longrightarrow> pending (pool s1) k = None" using c1 True unfolding e_def by auto
    obtain r2 s2 where cu: "current_entry C k e s1 = (r2, s2)" by fastforce
    define rest where "rest = (\<lambda>(wb_entry, old_v, fetched). bnd (f wb_entry) (\<lambda>oper. apply_user_op C k old_v fetched oper))"
    have run2: "bnd (bnd (bnd (current_entry C k e) rest) (\<lambda>oper s. case mk_apply (mk C) k e oper (moka s) of
        (r, m) \<Rightarrow> (Ok r, s\<lparr>moka := m\<rparr>))) primary_result s1 = (r, s')"
      using run(1) fl True
      by (auto simp: get_and_try_compute_with_primary_def moka_and_try_compute_with_def moka_get_def e_def rest_def bnd_def
          split: prod.splits res.splits)
    have r2: "r2 \<noteq> Wait" using run2 run(2) cu by auto
    note c2 = current_entry_spec[OF conjunct1[OF c1] e_def p1 cu r2] and P2 = P(2)[OF P1 cu]
    show ?thesis
    proof (cases "\<exists>x. r2 = Ok x")
      case False
      then have "s' = s2" "\<nexists>res. r = Ok res" using run2 cu r2 by (cases r2; auto)+
      then show ?thesis using c1 c2 P2 by simp
    next
      case True
      then have r2: "r2 = Ok (map_option (entry_new k) (m k), m k, e = None \<and> m k \<noteq> None)" using c2 by auto
      obtain rf t where cl: "f (map_option (entry_new k) (m k)) s2 = (rf, t)" by fastforce
      have rf: "rf \<noteq> Wait" using run2 cu r2 run(2) cl by (auto simp: rest_def)
      note cf = f[OF conjunct1[OF c2] _ P2 cl rf]
      have er2: "error s2 = None" using c1 c2 by simp
      have t: "t = s2\<lparr>backend := backend t\<rparr>" "R (backend t) = R (backend s2)" "Q rf (backend t)"
        using cf er2 by blast+
      have kept: "pool t = pool s2" "moka t = moka s2" "error t = error s2" by (subst t(1), simp)+
      have ct: "coherent C R vok t m"
        using conjunct1[OF c2] kept t(2) by (auto simp: coherent_def stored_ok_def intro: view_R)
      show ?thesis
      proof (cases rf)
        case (Ok oper)
        have "m k = None \<Longrightarrow> pending (pool t) k = None"
          using c2 p1 coherentD(4)[OF conjunct1[OF c1]] kept by (cases e) (fastforce simp: e_def)+
        moreover have "dc_primary_key_of (dc C) v = k" if "oper = Put v" for v using cf er2 Ok that by blast
        ultimately obtain s3 op2 where ap: "apply_user_op C k (m k) (e = None \<and> m k \<noteq> None) oper t = (Ok op2, s3)"
          and st: "stored_ok C R vok s3 (apply_op k oper m)"
          and keep: "moka s3 = moka t" "error s3 = error t" "backend s3 = backend t"
          and op2: "case oper of
             Remove \<Rightarrow> op2 = Remove
           | Put v \<Rightarrow> op2 = Put (Primary v) \<or> op2 = Nop \<and> m k = Some v
           | Nop \<Rightarrow> if e = None \<and> m k \<noteq> None then op2 = Put (Primary (the (m k))) else op2 = Nop"
          using apply_user_op_spec[of t m "e = None \<and> m k \<noteq> None" k oper] ct by auto
        obtain rr mo where mk: "mk_apply (mk C) k e op2 (moka s3) = (rr, mo)" by fastforce
        have run3: "primary_result rr (s3\<lparr>moka := mo\<rparr>) = (r, s')"
          using run2 cu r2 cl Ok ap mk by (simp add: rest_def)
        have ck: "cached_ok C (moka s3) m" using ct keep unfolding coherent_def by metis
        have e: "e = mk_lookup (mk C) (moka s3) k" using c2 keep kept unfolding e_def by metis
        obtain res where "primary_result rr (s3\<lparr>moka := mo\<rparr>) = (Ok res :: ('e, ('k, 'v) comp_result) res, s3\<lparr>moka := mo\<rparr>)" "outcome_ok k m oper res"
          using primary_result_spec[OF ck e mk op2, of "s3\<lparr>moka := mo\<rparr>"] by (elim exE conjE)
        with run3 have res: "r = Ok res" "s' = s3\<lparr>moka := mo\<rparr>" "outcome_ok k m oper res" by simp_all
        have "coherent C R vok s' (apply_op k oper m)"
          unfolding res(2)
          by (rule moka_apply_spec[OF st ck mk])
            (use op2 in \<open>cases oper; auto simp: apply_op_def fun_eq_iff split: if_splits\<close>)
        moreover have "error s' = None" "Q (Ok oper) (backend s')"
          using res(2) keep kept er2 t(3) Ok by simp_all
        ultimately show ?thesis using res by blast
      next
        case (Fail err)
        then have "s' = t" "r = Fail err" using run2 cu r2 cl by (auto simp: rest_def)
        then show ?thesis using ct t(3) Fail kept er2 by auto
      next
        case (Panic msg)
        then have "s' = t" "r = Panic msg" using run2 cu r2 cl by (auto simp: rest_def)
        then show ?thesis using ct t(3) Panic kept er2 by auto
      qed (use rf in simp)
    qed
  qed
qed

text \<open>A closure that answers \<open>g\<close> without touching the cache.\<close>

lemma coherent_compute_primary:
  assumes co: "coherent C R vok s m" and er: "error s = None"
    and f: "\<And>en t. f en t = (g en, t)" and g: "\<And>en. (\<exists>oper. g en = Ok oper) \<or> (\<exists>e. g en = Fail e)"
    and keyed: "\<And>v. g (map_option (entry_new k) (m k)) = Ok (Put v) \<Longrightarrow> dc_primary_key_of (dc C) v = k"
    and run: "get_and_try_compute_with_primary C k f s = (r, s')" "r \<noteq> Wait"
  shows "error s' = None \<and>
    ((\<nexists>res. r = Ok res) \<and> coherent C R vok s' m \<or>
     (\<exists>res oper. r = Ok res \<and> g (map_option (entry_new k) (m k)) = Ok oper \<and>
        coherent C R vok s' (apply_op k oper m) \<and> outcome_ok k m oper res))"
  using coherent_compute_via[OF co er, where P = "\<lambda>_. True" and
      Q = "\<lambda>rf _. g (map_option (entry_new k) (m k)) = rf" and f = f, OF _ _ _ run] f keyed by auto

section \<open>The public operations\<close>

text \<open>The selector of a key that is its own primary key.\<close>

lemma entry_spec:
  assumes co: "coherent C R vok s m" and er: "error s = None"
  shows "entry C k s = (Ok \<lparr>sel_primary_key = Some k, sel_key = k, sel_primary = True\<rparr>, s)"
proof (cases "mk_lookup (mk C) (moka s) k")
  case None
  then show ?thesis using er
    by (simp add: entry_def get_primary_key_from_def moka_get_def on_backend_def primary_key_for)
next
  case (Some x)
  then obtain v where "x = Primary v" using coherentD(4)[OF co] by blast
  with Some er show ?thesis
    by (simp add: entry_def get_primary_key_from_def moka_get_def)
qed

text \<open>\<open>entry(key).and_try_compute_with(f)\<close>.\<close>

lemma coherent_entry_compute:
  assumes "coherent C R vok s m" and "error s = None"
    and "\<And>en t. f en t = (g en, t)" and "\<And>en. (\<exists>oper. g en = Ok oper) \<or> (\<exists>e. g en = Fail e)"
    and "\<And>v. g (map_option (entry_new k) (m k)) = Ok (Put v) \<Longrightarrow> dc_primary_key_of (dc C) v = k"
    and "bnd (entry C k) (\<lambda>sel. and_try_compute_with C sel f) s = (r, s')" "r \<noteq> Wait"
  shows "error s' = None \<and>
    ((\<nexists>res. r = Ok res) \<and> coherent C R vok s' m \<or>
     (\<exists>res oper. r = Ok res \<and> g (map_option (entry_new k) (m k)) = Ok oper \<and>
        coherent C R vok s' (apply_op k oper m) \<and> outcome_ok k m oper res))"
proof -
  have "get_and_try_compute_with_primary C k f s = (r, s')"
    using assms(6) entry_spec[OF assms(1,2)] by (simp add: and_try_compute_with_def)
  from coherent_compute_primary[OF assms(1-5) this assms(7)] show ?thesis .
qed

lemma coherent_get:
  assumes co: "coherent C R vok s m" and er: "error s = None" and run: "cache_get C k s = (r, s')" "r \<noteq> Wait"
  shows "coherent C R vok s' m \<and> error s' = None \<and> (\<forall>x. r = Ok x \<longrightarrow> x = m k)"
proof -
  define f :: "('k, 'v, 'u, 'e, 'm, 'd) user_fun" where "f = (\<lambda>_. ret Nop)"
  obtain r1 s1 where cmp: "bnd (entry C k) (\<lambda>sel. and_try_compute_with C sel f) s = (r1, s1)" by fastforce
  define G where "G = (\<lambda>outcome :: ('k, 'v) comp_result.
       let found = (\<lambda>en. bnd (on_access C k (entry_value en)) (\<lambda>_. ret (Some (entry_value en)))) in
       case outcome of
         Inserted en \<Rightarrow> found en
       | Unchanged en \<Rightarrow> found en
       | ReplacedWith en \<Rightarrow> found en
       | StillNone _ \<Rightarrow> ret None
       | _ \<Rightarrow> ret None)"
  have run2: "bnd (bnd (entry C k) (\<lambda>sel. and_try_compute_with C sel f)) G s = (r, s')"
    using run(1) er by (simp add: cache_get_def f_def G_def bnd_assoc)
  have r1: "r1 \<noteq> Wait" using run2 run(2) cmp by auto
  have spec: "error s1 = None \<and> ((\<nexists>res. r1 = Ok res) \<and> coherent C R vok s1 m \<or>
     (\<exists>res. r1 = Ok res \<and> coherent C R vok s1 m \<and> outcome_ok k m Nop res))"
    using coherent_entry_compute[OF co er, of f "\<lambda>_. Ok Nop" k, OF _ _ _ cmp r1]
    by (auto simp: f_def apply_op_def)
  show ?thesis
  proof (cases "\<exists>res. r1 = Ok res")
    case False
    then have "s' = s1" "\<nexists>x. r = Ok x" using run2 cmp r1 by (cases r1; auto)+
    then show ?thesis using spec False by auto
  next
    case True
    then obtain res where res: "r1 = Ok res" "coherent C R vok s1 m" "outcome_ok k m Nop res" using spec by auto
    have st: "stored_ok C R vok s1 m" "cached_ok C (moka s1) m" using res(2) by (simp_all add: coherent_def)
    show ?thesis
    proof (cases "m k")
      case None
      then have "res = StillNone k" using res(3) by (simp add: outcome_ok_def)
      then show ?thesis using run2 cmp res spec None by (auto simp: G_def)
    next
      case (Some v)
      from stored_on_access[OF st(1) Some] obtain t where
        t: "on_access C k v s1 = (Ok (), t)" "stored_ok C R vok t m" "moka t = moka s1" "error t = error s1" by blast
      have "res = Inserted (entry_new k v) \<or> res = Unchanged (entry_new k v)"
        using res(3) Some by (simp add: outcome_ok_def)
      then have "r = Ok (Some v)" "s' = t"
        using run2 cmp res(1) t(1) by (auto simp: G_def entry_new_def)
      then show ?thesis using t st spec Some by (simp add: coherent_def)
    qed
  qed
qed

lemma coherent_delete:
  assumes co: "coherent C R vok s m" and er: "error s = None" and run: "cache_delete C k s = (r, s')" "r \<noteq> Wait"
  shows "error s' = None \<and> ((\<nexists>x. r = Ok x) \<and> coherent C R vok s' m \<or>
    (\<exists>x. r = Ok x \<and> coherent C R vok s' (m(k := None)) \<and> (x = None \<or> x = m k)))"
proof -
  define f :: "('k, 'v, 'u, 'e, 'm, 'd) user_fun" where "f = (\<lambda>en. ret (if en \<noteq> None then Remove else Nop))"
  obtain r1 s1 where cmp: "bnd (entry C k) (\<lambda>sel. and_try_compute_with C sel f) s = (r1, s1)" by fastforce
  define G where "G = (\<lambda>result :: ('k, 'v) comp_result. case result of
         Removed en \<Rightarrow> ret (Some (entry_value en))
       | StillNone _ \<Rightarrow> ret None
       | _ \<Rightarrow> (panic ''Impossible result of delete operation'' :: (('k, 'u, 'e, 'm, 'd) cache, 'e, 'v option) prog))"
  have run2: "bnd (bnd (entry C k) (\<lambda>sel. and_try_compute_with C sel f)) G s = (r, s')"
    using run(1) er by (simp add: cache_delete_def f_def G_def bnd_assoc)
  have r1: "r1 \<noteq> Wait" using run2 run(2) cmp by auto
  define oper :: "'v op" where "oper = (if m k \<noteq> None then Remove else Nop)"
  have spec: "error s1 = None \<and> ((\<nexists>res. r1 = Ok res) \<and> coherent C R vok s1 m \<or>
     (\<exists>res. r1 = Ok res \<and> coherent C R vok s1 (apply_op k oper m) \<and> outcome_ok k m oper res))"
    using coherent_entry_compute[OF co er, of f "\<lambda>en. Ok (if en \<noteq> None then Remove else Nop)" k, OF _ _ _ cmp r1]
    by (auto simp: f_def oper_def)
  show ?thesis
  proof (cases "\<exists>res. r1 = Ok res")
    case False
    then have "s' = s1" "\<nexists>x. r = Ok x" using run2 cmp r1 by (cases r1; auto)+
    then show ?thesis using spec False by auto
  next
    case True
    then obtain res where res: "r1 = Ok res" "coherent C R vok s1 (apply_op k oper m)" "outcome_ok k m oper res"
      using spec by auto
    have "apply_op k oper m = m(k := None)" by (auto simp: oper_def apply_op_def)
    moreover have "s' = s1 \<and> (\<exists>x. r = Ok x \<and> (x = None \<or> x = m k))"
      using run2 cmp res(1,3) by (auto simp: G_def oper_def outcome_ok_def entry_new_def split: if_splits option.splits)
    ultimately show ?thesis using spec res by auto
  qed
qed

text \<open>\<open>insert\<close> of a record the backend does not hold.\<close>

lemma coherent_insert:
  assumes co: "coherent C R vok s m" and er: "error s = None"
    and new: "R (backend s) (dc_primary_key_of (dc C) v) = None"
    and run: "cache_insert C v s = (r, s')"
  shows "error s' = None \<and> coherent C R vok s' (m(dc_primary_key_of (dc C) v \<mapsto> v)) \<and> r = Ok (Some v)"
proof -
  define k where "k = dc_primary_key_of (dc C) v"
  have st: "stored_ok C R vok s m" and ck: "cached_ok C (moka s) m" using co by (simp_all add: coherent_def)
  from stored_on_new[OF st k_def[symmetric]] new obtain t where
    t: "on_new C k v s = (Ok (Put (Primary v)), t)" "stored_ok C R vok t (m(k \<mapsto> v))" "moka t = moka s" "error t = error s"
    by (auto simp: k_def)
  define e where "e = mk_lookup (mk C) (moka s) k"
  obtain rr mo where ap: "mk_apply (mk C) k e (Put (Primary v)) (moka t) = (rr, mo)" by fastforce
  have "rr = (case e of None \<Rightarrow> MokaInserted k (Primary v) | Some _ \<Rightarrow> MokaReplacedWith k (Primary v))"
    by (rule moka_apply_Put[OF moka ap])
  then have "r = Ok (Some v)" "s' = t\<lparr>moka := mo\<rparr>"
    using run er t ap
    by (cases e; auto simp: cache_insert_def Let_def moka_and_try_compute_with_def moka_get_def k_def[symmetric]
        e_def[symmetric] into_value_def)+
  moreover have "coherent C R vok (t\<lparr>moka := mo\<rparr>) (m(k \<mapsto> v))"
    by (rule moka_apply_spec[OF t(2) _ ap, of m]) (use ck t(3) in auto)
  ultimately show ?thesis using t er by (simp add: k_def)
qed

text \<open>\<open>entry(key).or_try_insert_with(init)\<close> with an \<open>init\<close> that answers \<open>g\<close>.\<close>

lemma coherent_get_or_insert:
  assumes co: "coherent C R vok s m" and er: "error s = None"
    and g: "(\<exists>v. g = Ok v \<and> dc_primary_key_of (dc C) v = k) \<or> (\<exists>e. g = Fail e)"
    and run: "get_or_try_insert_with_primary C k (\<lambda>t. (g, t)) s = (r, s')" "r \<noteq> Wait"
  shows "error s' = None \<and> ((\<nexists>en. r = Ok en) \<and> coherent C R vok s' m \<or>
    (\<exists>v. r = Ok (entry_new k v) \<and> coherent C R vok s' (m(k \<mapsto> v)) \<and>
       (case m k of Some old \<Rightarrow> v = old | None \<Rightarrow> g = Ok v)))"
proof -
  obtain r1 s1 where fl: "maybe_flush_one C k s = (r1, s1)" by fastforce
  have r1: "r1 \<noteq> Wait" using run fl by (auto simp: get_or_try_insert_with_primary_def)
  note c1 = coherent_maybe_flush_one[OF co er fl r1]
  then have c1': "coherent C R vok s1 m" "error s1 = None" by blast+
  show ?thesis
  proof (cases "\<exists>n. r1 = Ok n")
    case False
    then have "s' = s1" "\<nexists>res. r = Ok res"
      using run fl by (cases r1; auto simp: get_or_try_insert_with_primary_def)+
    then show ?thesis using c1 by simp
  next
    case True
    show ?thesis
    proof (cases "mk_lookup (mk C) (moka s1) k")
      case (Some x)
      then obtain v where v: "x = Primary v" "m k = Some v" using coherentD(4)[OF c1'(1)] by blast
      have "r = Ok (entry_new k v)" "s' = s1"
        using run fl True Some v
        by (auto simp: get_or_try_insert_with_primary_def moka_or_try_insert_with_def moka_get_def into_value_def)
      moreover have "m(k \<mapsto> v) = m" using v by auto
      ultimately show ?thesis using c1' v by simp
    next
      case None
      then have p: "pending (pool s1) k = None" using c1 True by auto
      have mk: "R (backend s1) k = m k" by (rule view_None[OF coherentD(2)[OF c1'(1)] p])
      obtain rg d where gf: "dc_get_for_key (dc C) k (backend s1) = (rg, d)" by fastforce
      have R: "R d = R (backend s1)" "rg = Wait \<or> (\<exists>e. rg = Fail e) \<or> rg = Ok (m k)"
        using get_for_key[OF gf] mk by simp_all
      define s2 where "s2 = s1\<lparr>backend := d\<rparr>"
      have c2: "coherent C R vok s2 m" "error s2 = None"
        using c1' R(1) view_R by (auto simp: coherent_def stored_ok_def s2_def)
      have put: "coherent C R vok (t\<lparr>moka := mk_insert (mk C) k (Primary v) (moka t)\<rparr>) (m(k \<mapsto> v))"
        if "stored_ok C R vok t (m(k \<mapsto> v))" "moka t = moka s2" for t v
        using that cached_ok_put[OF _ moka_insert[OF moka], where m = m] c2(1)
        by (simp add: coherent_def stored_ok_def)
      have body: "get_or_try_insert_with_primary C k (\<lambda>t. (g, t)) s =
          bnd (bnd (\<lambda>s. (rg, s)) (\<lambda>found. case found of
               Some v \<Rightarrow> ret (Primary v)
             | None \<Rightarrow> bnd (\<lambda>t. (g, t)) (\<lambda>new_value. bnd (on_new C k new_value) (\<lambda>_. ret (Primary new_value)))))
           (\<lambda>vs. bnd (modify (\<lambda>s. s\<lparr>moka := mk_insert (mk C) k vs (moka s)\<rparr>)) (\<lambda>_. bnd (into_value vs) (\<lambda>v. ret (entry_new k v)))) s2"
        using fl True None gf
        by (auto simp: get_or_try_insert_with_primary_def moka_or_try_insert_with_def moka_get_def bnd_def
            on_backend_def s2_def modify_def ret_def split: prod.splits res.splits)
      show ?thesis
      proof (cases "rg = Ok (m k)")
        case False
        then have "s' = s2" "\<nexists>x. r = Ok x" using run body R(2) by auto
        then show ?thesis using c2 by simp
      next
        case True
        show ?thesis
        proof (cases "m k")
          case (Some v)
          have "r = Ok (entry_new k v)" "s' = s2\<lparr>moka := mk_insert (mk C) k (Primary v) (moka s2)\<rparr>"
            using run(1) body True Some by (auto simp: into_value_def)
          moreover have "m(k \<mapsto> v) = m" using Some by auto
          moreover have "stored_ok C R vok s2 m" using c2 by (simp add: coherent_def)
          ultimately show ?thesis using put[of s2 v] c2 Some by simp
        next
          case None
          show ?thesis
          proof (cases g)
            case (Ok v)
            have st: "stored_ok C R vok s2 m" using c2 by (simp add: coherent_def)
            have "R (backend s2) k = None" using R(1) mk None by (simp add: s2_def)
            from stored_on_new[OF st _ this, of v] g Ok obtain t where
              t: "on_new C k v s2 = (Ok (Put (Primary v)), t)" "stored_ok C R vok t (m(k \<mapsto> v))"
              "moka t = moka s2" "error t = error s2" by auto
            have "r = Ok (entry_new k v)" "s' = t\<lparr>moka := mk_insert (mk C) k (Primary v) (moka t)\<rparr>"
              using run(1) body True None Ok t(1) by (auto simp: into_value_def)
            then show ?thesis using put[OF t(2,3)] t(4) c2 None Ok by simp
          next
            case (Fail e)
            then have "s' = s2" "\<nexists>x. r = Ok x" using run body True None by auto
            then show ?thesis using c2 by simp
          qed (use g in auto)
        qed
      qed
    qed
  qed
qed

text \<open>Flushing everything: after a success the backend holds the whole map.\<close>

lemma coherent_flush:
  assumes co: "coherent C R vok s m" and er: "error s = None" and h: "hash_order_ok C"
    and run: "flush C s = (r, s')" "r \<noteq> Wait"
  shows "coherent C R vok s' m \<and> error s' = None \<and> moka s' = moka s \<and>
    (\<forall>n. r = Ok n \<longrightarrow> n = 0 \<and> R (backend s') = m \<and> (\<forall>k. pending (pool s') k = None))"
proof -
  define ks where "ks = hash_order C (keys_of_pool (pool s))"
  have "distinct (keys_of_pool (pool s))"
    using coherentD(1)[OF co] by (simp add: pool_quiet_def pool_wf_def hm_wf_def keys_of_pool_def)
  then have ks: "distinct ks" "set ks = set (keys_of_pool (pool s))"
    using h by (simp_all add: hash_order_ok_def ks_def)
  have "flush_many_raw C ks s = (r, s')"
    using run(1) er by (simp add: flush_def flush_raw_def ks_def)
  note fm = coherent_flush_many_raw[OF co ks(1) this run(2)]
  have all: "k \<in> set ks \<or> pending (pool s) k = None" for k
    by (cases "pool_get (pool s) k")
      (auto simp: ks(2) keys_of_pool_def pending_def pool_get_def dest: map_of_SomeD intro: rev_image_eqI)
  have "R (backend s') = m" if "\<forall>k. pending (pool s') k = None"
    using view_None[OF coherentD(2)] fm that by (metis ext)
  then show ?thesis using fm all er by simp
qed

lemma coherent_invalidate:
  assumes co: "coherent C R vok s m" and er: "error s = None" and run: "cache_invalidate C k s = (r, s')"
  shows "coherent C R vok s' m \<and> error s' = None \<and> r = Ok ()"
proof -
  define e where "e = mk_lookup (mk C) (moka s) k"
  obtain rr mo where ap: "mk_apply (mk C) k e Remove (moka s) = (rr, mo)" by fastforce
  have "r = Ok ()" "s' = s\<lparr>moka := mo\<rparr>"
    using run er ap
    by (auto simp: cache_invalidate_def moka_and_try_compute_with_def moka_get_def e_def[symmetric] secondary_keys
        bnd_assoc split: option.splits value_state.splits)
  moreover have "cached_ok C mo m"
    using moka_apply_cases[OF moka ap] cached_ok_remove[of C "moka s" m mo k "m k"] co by (simp add: coherent_def)
  ultimately show ?thesis using co er by (simp add: coherent_def stored_ok_def)
qed

section \<open>The cache implements the map\<close>

lemma coherent_error: "coherent C R vok (s\<lparr>error := x\<rparr>) m = coherent C R vok s m"
  by (simp add: coherent_def stored_ok_def)

text \<open>One call of a client is one step of the map, and the states stay related.\<close>

lemma simulation_step:
  assumes h: "hash_order_ok C" and co: "coherent C R vok s m" and st: "client_step C R s ev t"
  shows "\<exists>m'. map_step (dc_primary_key_of (dc C)) m ev m' \<and> coherent C R vok t m'"
proof (cases "error s")
  case (Some e)
  show ?thesis
    using st by cases (use Some co in \<open>auto simp: error_first[OF Some] coherent_error\<close>)
next
  case None
  have compute: "bnd (entry C k) (\<lambda>sel. and_try_compute_with C sel (\<lambda>en t. (g en, t))) s = (r, t) \<Longrightarrow> r \<noteq> Wait \<Longrightarrow>
      closure_ok (dc_primary_key_of (dc C)) k g \<Longrightarrow>
      ((\<nexists>res. r = Ok res) \<and> coherent C R vok t m \<or>
       (\<exists>res oper. r = Ok res \<and> g (map_option (entry_new k) (m k)) = Ok oper \<and>
          coherent C R vok t (apply_op k oper m) \<and> outcome_ok k m oper res))" for k g r
  proof -
    assume run: "bnd (entry C k) (\<lambda>sel. and_try_compute_with C sel (\<lambda>en t. (g en, t))) s = (r, t)" "r \<noteq> Wait"
      and cl: "closure_ok (dc_primary_key_of (dc C)) k g"
    have total: "(\<exists>oper. g en = Ok oper) \<or> (\<exists>e. g en = Fail e)" for en
      using cl unfolding closure_ok_def by blast
    have keyed: "dc_primary_key_of (dc C) v = k" if "g en = Ok (Put v)" for en v
    proof -
      from cl[unfolded closure_ok_def, rule_format, of en] that show ?thesis by auto
    qed
    show ?thesis
      using coherent_entry_compute[OF co None refl total keyed[of "map_option (entry_new k) (m k)"] run]
      by (rule conjunct2)
  qed
  have getins: "bnd (entry C k) (\<lambda>sel. or_try_insert_with C sel (\<lambda>t. (g, t))) s = (r, t) \<Longrightarrow> r \<noteq> Wait \<Longrightarrow>
      init_ok (dc_primary_key_of (dc C)) k g \<Longrightarrow>
      ((\<nexists>en. r = Ok en) \<and> coherent C R vok t m \<or>
       (\<exists>v. r = Ok (entry_new k v) \<and> coherent C R vok t (m(k \<mapsto> v)) \<and>
         (case m k of Some old \<Rightarrow> v = old | None \<Rightarrow> g = Ok v)))" for k g r
    using coherent_get_or_insert[OF co None, of g k r t] entry_spec[OF co None, of k]
    by (simp add: init_ok_def or_try_insert_with_def)
  show ?thesis
    using st
  proof cases
    case (step_get k x)
    with coherent_get[OF co None step_get(2)] show ?thesis by auto
  next
    case (step_get_fail k e)
    with coherent_get[OF co None step_get_fail(2)] show ?thesis by auto
  next
    case (step_insert v x)
    with coherent_insert[OF co None step_insert(2,3)] show ?thesis by auto
  next
    case (step_compute k g res)
    with compute[OF step_compute(3)] show ?thesis by auto
  next
    case (step_compute_fail k g e)
    with compute[OF step_compute_fail(3)] show ?thesis by auto
  next
    case (step_get_or_insert k g en)
    with getins[OF step_get_or_insert(3)] show ?thesis by auto
  next
    case (step_get_or_insert_fail k g e)
    with getins[OF step_get_or_insert_fail(3)] show ?thesis by auto
  next
    case (step_delete k x)
    with coherent_delete[OF co None step_delete(2)] show ?thesis by auto
  next
    case (step_delete_fail k e)
    with coherent_delete[OF co None step_delete_fail(2)] show ?thesis by auto
  next
    case (step_invalidate k)
    with coherent_invalidate[OF co None step_invalidate(2)] show ?thesis by auto
  next
    case (step_flush n)
    with coherent_flush[OF co None h step_flush(2)] show ?thesis by auto
  next
    case (step_flush_fail e)
    with coherent_flush[OF co None h step_flush_fail(2)] show ?thesis by auto
  qed
qed

lemma simulation_run:
  assumes h: "hash_order_ok C" and "client_run C R s evs t" "coherent C R vok s m"
  shows "\<exists>m'. map_run (dc_primary_key_of (dc C)) m evs m' \<and> coherent C R vok t m'"
  using assms(2,3)
proof induction
  case (run_none s)
  then show ?case by (auto intro: map_none)
next
  case (run_step s evs t ev u)
  then obtain m1 where m1: "map_run (dc_primary_key_of (dc C)) m evs m1" "coherent C R vok t m1" by blast
  from simulation_step[OF h m1(2) run_step.hyps(2)] m1(1) show ?case by (auto intro: map_more)
qed

end

end
