(* ===== verification/SeaOrm.thy ===== *)
theory SeaOrm
  imports CacheTypes
begin

text \<open>
  The interface of the ORM that the simulation's data controllers use. SeaORM and the database
  behind it are third-party code: their operations are the fields of two records, parameters of
  every definition that uses them. \<open>am_ok\<close> and \<open>orm_ok\<close> state the documented behaviour that
  the properties rely on, over the rows of one table seen as a map from primary keys.
\<close>

section \<open>Active models\<close>

text \<open>\<open>sea_orm::ActiveValue\<close>; its equality tells the variants apart.\<close>

datatype 'x active_value = AvSet 'x | AvUnchanged 'x | AvNotSet

definition av_into_value :: "'x active_value \<Rightarrow> 'x option" where
  "av_into_value av = (case av of AvSet x \<Rightarrow> Some x | AvUnchanged x \<Rightarrow> Some x | AvNotSet \<Rightarrow> None)"

lemma av_into_value_simps [simp]:
  "av_into_value (AvSet x) = Some x" "av_into_value (AvUnchanged x) = Some x" "av_into_value AvNotSet = None"
  by (simp_all add: av_into_value_def)

text \<open>\<open>From<Model>\<close>, \<open>get\<close>, \<open>set\<close> and \<open>not_set\<close> of \<open>ActiveModelTrait\<close>.\<close>

record ('am, 'c, 'x, 'v) am_ops =
  am_from :: "'v \<Rightarrow> 'am"
  am_get :: "'am \<Rightarrow> 'c \<Rightarrow> 'x active_value"
  am_set :: "'c \<Rightarrow> 'x \<Rightarrow> 'am \<Rightarrow> 'am"
  am_not_set :: "'c \<Rightarrow> 'am \<Rightarrow> 'am"

definition am_ok :: "('am, 'c, 'x, 'v) am_ops \<Rightarrow> ('v \<Rightarrow> 'c \<Rightarrow> 'x) \<Rightarrow> bool" where
  "am_ok A fld \<longleftrightarrow>
     (\<forall>v c. am_get A (am_from A v) c = AvUnchanged (fld v c)) \<and>
     (\<forall>am c x c'. am_get A (am_set A c x am) c' = (if c' = c then AvSet x else am_get A am c')) \<and>
     (\<forall>am c c'. am_get A (am_not_set A c am) c' = (if c' = c then AvNotSet else am_get A am c'))"

lemma am_okD:
  assumes "am_ok A fld"
  shows "am_get A (am_from A v) c = AvUnchanged (fld v c)"
    and "am_get A (am_set A c x am) c' = (if c' = c then AvSet x else am_get A am c')"
    and "am_get A (am_not_set A c am) c' = (if c' = c then AvNotSet else am_get A am c')"
  using assms by (simp_all add: am_ok_def)

text \<open>The record an active model holds, and what an update with it makes of a stored record.\<close>

definition represents :: "('am, 'c, 'x, 'v) am_ops \<Rightarrow> ('v \<Rightarrow> 'c \<Rightarrow> 'x) \<Rightarrow> 'am \<Rightarrow> 'v \<Rightarrow> bool" where
  "represents A fld am v \<longleftrightarrow> (\<forall>c. av_into_value (am_get A am c) = Some (fld v c))"

definition patches :: "('am, 'c, 'x, 'v) am_ops \<Rightarrow> ('v \<Rightarrow> 'c \<Rightarrow> 'x) \<Rightarrow> 'am \<Rightarrow> 'v \<Rightarrow> 'v \<Rightarrow> bool" where
  "patches A fld am r v \<longleftrightarrow>
     (\<forall>c. fld v c = (case am_get A am c of AvSet x \<Rightarrow> x | _ \<Rightarrow> fld r c))"

lemma represents_from [simp]: "am_ok A fld \<Longrightarrow> represents A fld (am_from A v) v"
  by (simp add: represents_def am_okD)

section \<open>The database\<close>

text \<open>\<open>Condition::any()\<close> with the \<open>is_in\<close> conditions added to it.\<close>

datatype ('c, 'x) cond = AnyOf "('c \<times> 'x list) list"

fun cond_matches :: "('v \<Rightarrow> 'c \<Rightarrow> 'x) \<Rightarrow> ('c, 'x) cond \<Rightarrow> 'v \<Rightarrow> bool" where
  "cond_matches fld (AnyOf ds) v \<longleftrightarrow> (\<exists>(c, xs) \<in> set ds. fld v c \<in> set xs)"

record ('d, 't, 'am, 'c, 'x, 'v, 'b) orm =
  or_connection :: "('d, 'b, unit) prog"
  or_begin :: "('d, 'b, 't) prog"
  or_insert_many :: "'am list \<Rightarrow> ('t, 'b, unit) prog"
  or_update :: "'am \<Rightarrow> ('t, 'b, unit) prog"
  or_delete_many :: "('c, 'x) cond \<Rightarrow> ('t, 'b, unit) prog"
  or_commit :: "'t \<Rightarrow> ('d, 'b, unit) prog"
  or_find_one :: "('c, 'x) cond \<Rightarrow> ('d, 'b, 'v option) prog"

text \<open>
  A transaction is a value \<open>'t\<close> of its own: dropping it uncommitted rolls back, which here
  means that the database \<open>'d\<close> never sees it. \<open>RD\<close> and \<open>RT\<close> read the rows of the table.
\<close>

definition answers :: "('s, 'e, 'a) prog \<Rightarrow> bool" where
  "answers m \<longleftrightarrow> (\<forall>s. (\<exists>a s'. m s = (Ok a, s')) \<or> (\<exists>e s'. m s = (Fail e, s')))"

definition keeps :: "('s \<Rightarrow> 'r) \<Rightarrow> ('s, 'e, 'a) prog \<Rightarrow> bool" where
  "keeps R m \<longleftrightarrow> (\<forall>s r s'. m s = (r, s') \<longrightarrow> R s' = R s)"

definition orm_answers :: "('d, 't, 'am, 'c, 'x, 'v, 'b) orm \<Rightarrow> bool" where
  "orm_answers B \<longleftrightarrow> answers (or_connection B) \<and> answers (or_begin B) \<and>
     (\<forall>ams. answers (or_insert_many B ams)) \<and> (\<forall>am. answers (or_update B am)) \<and>
     (\<forall>c. answers (or_delete_many B c)) \<and> (\<forall>t. answers (or_commit B t)) \<and>
     (\<forall>c. answers (or_find_one B c))"

definition orm_reads ::
  "('d, 't, 'am, 'c, 'x, 'v, 'b) orm \<Rightarrow> ('v \<Rightarrow> 'c \<Rightarrow> 'x) \<Rightarrow> ('v \<Rightarrow> 'k) \<Rightarrow> ('d \<Rightarrow> 'k \<rightharpoonup> 'v) \<Rightarrow> bool" where
  "orm_reads B fld pk RD \<longleftrightarrow> keeps RD (or_connection B) \<and>
     (\<forall>c d r d'. or_find_one B c d = (r, d') \<longrightarrow> RD d' = RD d \<and>
        (\<forall>v. r = Ok (Some v) \<longrightarrow> RD d (pk v) = Some v \<and> cond_matches fld c v) \<and>
        (r = Ok None \<longrightarrow> (\<forall>k v. RD d k = Some v \<longrightarrow> \<not> cond_matches fld c v)))"

definition orm_transactions ::
  "('d, 't, 'am, 'c, 'x, 'v, 'b) orm \<Rightarrow> ('d \<Rightarrow> 'k \<rightharpoonup> 'v) \<Rightarrow> ('t \<Rightarrow> 'k \<rightharpoonup> 'v) \<Rightarrow> bool" where
  "orm_transactions B RD RT \<longleftrightarrow>
     (\<forall>d r d'. or_begin B d = (r, d') \<longrightarrow> RD d' = RD d \<and> (\<forall>t. r = Ok t \<longrightarrow> RT t = RD d)) \<and>
     (\<forall>t d r d'. or_commit B t d = (r, d') \<longrightarrow> RD d' = (if r = Ok () then RT t else RD d))"

definition orm_inserts ::
  "('d, 't, 'am, 'c, 'x, 'v, 'b) orm \<Rightarrow> ('am, 'c, 'x, 'v) am_ops \<Rightarrow> ('v \<Rightarrow> 'c \<Rightarrow> 'x) \<Rightarrow> ('v \<Rightarrow> 'k) \<Rightarrow>
     ('t \<Rightarrow> 'k \<rightharpoonup> 'v) \<Rightarrow> bool" where
  "orm_inserts B A fld pk RT \<longleftrightarrow>
     (\<forall>ams vs t u t'. or_insert_many B ams t = (Ok u, t') \<longrightarrow> list_all2 (represents A fld) ams vs \<longrightarrow>
        distinct (map pk vs) \<and> (\<forall>v \<in> set vs. RT t (pk v) = None) \<and>
        RT t' = RT t ++ map_of (map (\<lambda>v. (pk v, v)) vs))"

definition orm_updates ::
  "('d, 't, 'am, 'c, 'x, 'v, 'b) orm \<Rightarrow> ('am, 'c, 'x, 'v) am_ops \<Rightarrow> ('v \<Rightarrow> 'c \<Rightarrow> 'x) \<Rightarrow> ('v \<Rightarrow> 'k) \<Rightarrow>
     ('t \<Rightarrow> 'k \<rightharpoonup> 'v) \<Rightarrow> bool" where
  "orm_updates B A fld pk RT \<longleftrightarrow>
     (\<forall>am w t u t'. or_update B am t = (Ok u, t') \<longrightarrow> represents A fld am w \<longrightarrow>
        (\<exists>r. RT t (pk w) = Some r \<and> (\<forall>v. patches A fld am r v \<longrightarrow> pk v = pk w \<longrightarrow> RT t' = (RT t)(pk w \<mapsto> v))))"

definition orm_deletes ::
  "('d, 't, 'am, 'c, 'x, 'v, 'b) orm \<Rightarrow> ('v \<Rightarrow> 'c \<Rightarrow> 'x) \<Rightarrow> ('t \<Rightarrow> 'k \<rightharpoonup> 'v) \<Rightarrow> bool" where
  "orm_deletes B fld RT \<longleftrightarrow>
     (\<forall>ds t u t'. or_delete_many B (AnyOf ds) t = (Ok u, t') \<longrightarrow> ds \<noteq> [] \<longrightarrow>
        RT t' = (\<lambda>k. case RT t k of None \<Rightarrow> None
           | Some v \<Rightarrow> if cond_matches fld (AnyOf ds) v then None else Some v))"

definition orm_keyed :: "('v \<Rightarrow> 'k) \<Rightarrow> ('d \<Rightarrow> 'k \<rightharpoonup> 'v) \<Rightarrow> bool" where
  "orm_keyed pk RD \<longleftrightarrow> (\<forall>d k v. RD d k = Some v \<longrightarrow> pk v = k)"

definition orm_ok ::
  "('d, 't, 'am, 'c, 'x, 'v, 'b) orm \<Rightarrow> ('am, 'c, 'x, 'v) am_ops \<Rightarrow> ('v \<Rightarrow> 'c \<Rightarrow> 'x) \<Rightarrow> ('v \<Rightarrow> 'k) \<Rightarrow>
     ('d \<Rightarrow> 'k \<rightharpoonup> 'v) \<Rightarrow> ('t \<Rightarrow> 'k \<rightharpoonup> 'v) \<Rightarrow> bool" where
  "orm_ok B A fld pk RD RT \<longleftrightarrow> orm_answers B \<and> orm_reads B fld pk RD \<and> orm_transactions B RD RT \<and>
     orm_inserts B A fld pk RT \<and> orm_updates B A fld pk RT \<and> orm_deletes B fld RT \<and>
     orm_keyed pk RD \<and> orm_keyed pk RT"

lemma orm_okD:
  assumes "orm_ok B A fld pk RD RT"
  shows "orm_answers B" "orm_reads B fld pk RD" "orm_transactions B RD RT" "orm_inserts B A fld pk RT"
    "orm_updates B A fld pk RT" "orm_deletes B fld RT" "orm_keyed pk RD" "orm_keyed pk RT"
  using assms by (simp_all add: orm_ok_def)

lemma orm_ok_connection: "orm_reads B fld pk RD \<Longrightarrow> or_connection B d = (r, d') \<Longrightarrow> RD d' = RD d"
  by (simp add: orm_reads_def keeps_def)

lemma orm_ok_find:
  assumes "orm_reads B fld pk RD" "or_find_one B c d = (r, d')"
  shows "RD d' = RD d" and "r = Ok (Some v) \<Longrightarrow> RD d (pk v) = Some v \<and> cond_matches fld c v"
    and "r = Ok None \<Longrightarrow> RD d k = Some v \<Longrightarrow> \<not> cond_matches fld c v"
  using assms unfolding orm_reads_def by blast+

lemma orm_ok_begin:
  assumes "orm_transactions B RD RT" "or_begin B d = (r, d')"
  shows "RD d' = RD d" and "r = Ok t \<Longrightarrow> RT t = RD d"
  using assms unfolding orm_transactions_def by blast+

lemma orm_ok_commit:
  "orm_transactions B RD RT \<Longrightarrow> or_commit B t d = (r, d') \<Longrightarrow> RD d' = (if r = Ok () then RT t else RD d)"
  unfolding orm_transactions_def by blast

lemma orm_ok_insert:
  assumes "orm_inserts B A fld pk RT" "or_insert_many B ams t = (Ok u, t')" "list_all2 (represents A fld) ams vs"
  shows "distinct (map pk vs)" and "v \<in> set vs \<Longrightarrow> RT t (pk v) = None"
    and "RT t' = RT t ++ map_of (map (\<lambda>v. (pk v, v)) vs)"
  using assms unfolding orm_inserts_def by blast+

lemma orm_ok_update:
  "orm_updates B A fld pk RT \<Longrightarrow> or_update B am t = (Ok u, t') \<Longrightarrow> represents A fld am w \<Longrightarrow>
     \<exists>r. RT t (pk w) = Some r \<and> (\<forall>v. patches A fld am r v \<longrightarrow> pk v = pk w \<longrightarrow> RT t' = (RT t)(pk w \<mapsto> v))"
  unfolding orm_updates_def by blast

lemma orm_ok_delete:
  "orm_deletes B fld RT \<Longrightarrow> or_delete_many B (AnyOf ds) t = (Ok u, t') \<Longrightarrow> ds \<noteq> [] \<Longrightarrow>
     RT t' = (\<lambda>k. case RT t k of None \<Rightarrow> None
        | Some v \<Rightarrow> if cond_matches fld (AnyOf ds) v then None else Some v)"
  unfolding orm_deletes_def by blast

lemma orm_ok_keyed: "orm_keyed pk RD \<Longrightarrow> RD d k = Some v \<Longrightarrow> pk v = k"
  unfolding orm_keyed_def by blast

lemma answers_cases:
  assumes "answers m"
  obtains (Ok) a s' where "m s = (Ok a, s')" | (Fail) e s' where "m s = (Fail e, s')"
  using assms unfolding answers_def by blast

section \<open>A database that keeps its promises\<close>

text \<open>
  The documented behaviour can be had: active models as functions of the column, a table as the
  list of its records, transactions on a copy. Insertion refuses a key that is taken.
\<close>

datatype db_err = RecordNotInserted | RecordNotUpdated

definition fun_am :: "('v \<Rightarrow> 'c \<Rightarrow> 'x) \<Rightarrow> ('c \<Rightarrow> 'x active_value, 'c, 'x, 'v) am_ops" where
  "fun_am fld = \<lparr>am_from = (\<lambda>v c. AvUnchanged (fld v c)), am_get = (\<lambda>am c. am c),
     am_set = (\<lambda>c x am. am(c := AvSet x)), am_not_set = (\<lambda>c am. am(c := AvNotSet))\<rparr>"

definition list_rows :: "('v \<Rightarrow> 'k) \<Rightarrow> 'v list \<Rightarrow> 'k \<rightharpoonup> 'v" where
  "list_rows pk d = map_of (map (\<lambda>v. (pk v, v)) d)"

definition list_orm ::
  "('v \<Rightarrow> 'c \<Rightarrow> 'x) \<Rightarrow> ('v \<Rightarrow> 'k) \<Rightarrow> (('c \<Rightarrow> 'x) \<Rightarrow> 'v) \<Rightarrow>
     ('v list, 'v list, 'c \<Rightarrow> 'x active_value, 'c, 'x, 'v, db_err) orm" where
  "list_orm fld pk build = \<lparr>
     or_connection = ret (),
     or_begin = (\<lambda>d. (Ok d, d)),
     or_insert_many = (\<lambda>ams t. let vs = map (\<lambda>am. build (\<lambda>c. the (av_into_value (am c)))) ams in
       if distinct (map pk vs) \<and> (\<forall>v \<in> set vs. list_rows pk t (pk v) = None) then (Ok (), vs @ t)
       else (Fail RecordNotInserted, t)),
     or_update = (\<lambda>am t. let w = build (\<lambda>c. the (av_into_value (am c))) in
       case list_rows pk t (pk w) of
         None \<Rightarrow> (Fail RecordNotUpdated, t)
       | Some r \<Rightarrow> (Ok (), build (\<lambda>c. case am c of AvSet x \<Rightarrow> x | _ \<Rightarrow> fld r c) # t)),
     or_delete_many = (\<lambda>c t. (Ok (), filter (\<lambda>v. \<not> (list_rows pk t (pk v) = Some v \<and> cond_matches fld c v) \<and>
       list_rows pk t (pk v) = Some v) t)),
     or_commit = (\<lambda>t d. (Ok (), t)),
     or_find_one = (\<lambda>c d. (Ok (List.find (\<lambda>v. cond_matches fld c v \<and> list_rows pk d (pk v) = Some v) d), d))\<rparr>"

lemma am_ok_fun_am: "am_ok (fun_am fld) fld"
  by (simp add: am_ok_def fun_am_def)

lemma list_rows_keyed: "list_rows pk d k = Some v \<Longrightarrow> pk v = k"
  by (auto simp: list_rows_def dest: map_of_SomeD)

lemma list_rows_set: "list_rows pk d k = Some v \<Longrightarrow> v \<in> set d"
  by (auto simp: list_rows_def dest: map_of_SomeD)

lemma list_rows_Cons [simp]: "list_rows pk (v # d) = (list_rows pk d)(pk v \<mapsto> v)"
  by (simp add: list_rows_def)

lemma list_rows_Nil [simp]: "list_rows pk [] = Map.empty"
  by (simp add: list_rows_def)

lemma list_rows_append: "list_rows pk (vs @ d) = list_rows pk d ++ map_of (map (\<lambda>v. (pk v, v)) vs)"
  by (simp add: list_rows_def)

lemma list_rows_filter:
  assumes P: "\<And>v. v \<in> set d \<Longrightarrow> P v \<Longrightarrow> list_rows pk d (pk v) = Some v"
  shows "list_rows pk (filter P d) k = (case list_rows pk d k of None \<Rightarrow> None | Some v \<Rightarrow> if P v then Some v else None)"
proof (cases "list_rows pk (filter P d) k")
  case (Some w)
  then have "w \<in> set (filter P d)" "pk w = k" by (blast intro: list_rows_set list_rows_keyed)+
  then show ?thesis using P[of w] Some by auto
next
  case None
  then have no: "\<forall>v \<in> set d. P v \<longrightarrow> pk v \<noteq> k" by (auto simp: list_rows_def map_of_eq_None_iff image_image)
  have "\<not> P v" if "list_rows pk d k = Some v" for v
    using no list_rows_set[OF that] list_rows_keyed[OF that] by blast
  with None show ?thesis by (auto split: option.splits)
qed

lemma list_build:
  assumes "\<And>v. build (fld v) = v" "represents (fun_am fld) fld am v"
  shows "build (\<lambda>c. the (av_into_value (am c))) = v"
proof -
  have "(\<lambda>c. the (av_into_value (am c))) = fld v" using assms(2) by (auto simp: represents_def fun_am_def fun_eq_iff)
  then show ?thesis using assms(1) by simp
qed

lemma list_patch:
  assumes "\<And>v. build (fld v) = v" "patches (fun_am fld) fld am r v"
  shows "build (\<lambda>c. case am c of AvSet x \<Rightarrow> x | _ \<Rightarrow> fld r c) = v"
proof -
  have "(\<lambda>c. case am c of AvSet x \<Rightarrow> x | _ \<Rightarrow> fld r c) = fld v"
    using assms(2) by (auto simp: patches_def fun_am_def fun_eq_iff)
  then show ?thesis using assms(1) by simp
qed

lemma orm_ok_list:
  assumes b: "\<And>v. build (fld v) = v"
  shows "orm_ok (list_orm fld pk build) (fun_am fld) fld pk (list_rows pk) (list_rows pk)"
  unfolding orm_ok_def
proof (intro conjI)
  show "orm_answers (list_orm fld pk build)"
    by (auto simp: orm_answers_def answers_def list_orm_def Let_def split: option.splits)
  show "orm_reads (list_orm fld pk build) fld pk (list_rows pk)"
    by (auto simp: orm_reads_def keeps_def list_orm_def find_Some_iff find_None_iff
        dest: list_rows_set list_rows_keyed)
  show "orm_transactions (list_orm fld pk build) (list_rows pk) (list_rows pk)"
    by (auto simp: orm_transactions_def list_orm_def)
  show "orm_inserts (list_orm fld pk build) (fun_am fld) fld pk (list_rows pk)"
  proof (unfold orm_inserts_def, intro allI impI)
    fix ams vs t u t'
    assume run: "or_insert_many (list_orm fld pk build) ams t = (Ok u, t')"
      and reps: "list_all2 (represents (fun_am fld) fld) ams vs"
    have "map (\<lambda>am. build (\<lambda>c. the (av_into_value (am c)))) ams = vs"
      using reps by (induction rule: list_all2_induct) (simp_all add: list_build[where fld = fld, OF b])
    then show "distinct (map pk vs) \<and> (\<forall>v\<in>set vs. list_rows pk t (pk v) = None) \<and>
        list_rows pk t' = list_rows pk t ++ map_of (map (\<lambda>v. (pk v, v)) vs)"
      using run by (auto simp: list_orm_def Let_def list_rows_append split: if_splits)
  qed
  show "orm_updates (list_orm fld pk build) (fun_am fld) fld pk (list_rows pk)"
  proof (unfold orm_updates_def, intro allI impI)
    fix am w t u t'
    assume run: "or_update (list_orm fld pk build) am t = (Ok u, t')"
      and rep: "represents (fun_am fld) fld am w"
    show "\<exists>r. list_rows pk t (pk w) = Some r \<and>
        (\<forall>v. patches (fun_am fld) fld am r v \<longrightarrow> pk v = pk w \<longrightarrow> list_rows pk t' = (list_rows pk t)(pk w \<mapsto> v))"
      using run list_build[where fld = fld, OF b rep] list_patch[where fld = fld, OF b]
      by (auto simp: list_orm_def Let_def split: option.splits)
  qed
  show "orm_deletes (list_orm fld pk build) fld (list_rows pk)"
  proof (unfold orm_deletes_def, intro allI impI)
    fix ds t u t'
    assume run: "or_delete_many (list_orm fld pk build) (AnyOf ds) t = (Ok u, t')"
    define P where "P = (\<lambda>v. \<not> (list_rows pk t (pk v) = Some v \<and> cond_matches fld (AnyOf ds) v) \<and>
       list_rows pk t (pk v) = Some v)"
    have f: "list_rows pk (filter P t) k = (case list_rows pk t k of None \<Rightarrow> None | Some v \<Rightarrow> if P v then Some v else None)" for k
      by (rule list_rows_filter) (auto simp: P_def)
    have c: "P v = (\<not> cond_matches fld (AnyOf ds) v)" if "list_rows pk t k = Some v" for k v
      using that list_rows_keyed[OF that] by (simp add: P_def del: cond_matches.simps)
    have t: "t' = filter P t" using run by (simp add: list_orm_def P_def)
    show "list_rows pk t' = (\<lambda>k. case list_rows pk t k of None \<Rightarrow> None
        | Some v \<Rightarrow> if cond_matches fld (AnyOf ds) v then None else Some v)"
    proof
      fix k show "list_rows pk t' k = (case list_rows pk t k of None \<Rightarrow> None
        | Some v \<Rightarrow> if cond_matches fld (AnyOf ds) v then None else Some v)"
        unfolding t f using c[of k] by (cases "list_rows pk t k") (simp_all del: cond_matches.simps)
    qed
  qed
  show "orm_keyed pk (list_rows pk)" by (auto simp: orm_keyed_def dest: list_rows_keyed)
  then show "orm_keyed pk (list_rows pk)" .
qed

end
