(* ===== verification/DCCommon.thy ===== *)
theory DCCommon
  imports CacheCore SeaOrm
begin

text \<open>
  The common part of the simulation's data controllers, \<open>src/test/simulation/db/cache.rs\<close>: the
  update records \<open>CacheUpdates\<close> and the methods of the trait \<open>DCCommon\<close>, over the ORM of
  \<open>SeaOrm\<close>. The trait's own parameters are a record: the columns of the table, the filter for
  a deletion, and the flag \<open>IMMUTABLE\<close>.
\<close>

section \<open>Update records and controllers\<close>

text \<open>\<open>SimErrorAny\<close>: a message of the simulation or an error of the database.\<close>

datatype 'b sim_error = SimMsg string | DbError 'b

datatype 'am cache_updates = CuInsert 'am | CuUpdate 'am | CuDelete

definition cu_replace :: "'am cache_updates \<Rightarrow> 'am \<Rightarrow> 'am cache_updates" where
  "cu_replace self am = (case self of
       CuInsert _ \<Rightarrow> CuInsert am
     | CuUpdate _ \<Rightarrow> CuUpdate am
     | CuDelete \<Rightarrow> CuDelete)"

record ('k, 'c, 'x) dc_common =
  dcc_columns :: "'c list"
  dcc_delete_many_condition :: "'k list \<Rightarrow> ('c, 'x) cond"
  dcc_immutable :: bool

subsection \<open>Events\<close>

definition wbdbc_on_new ::
  "('k, 'c, 'x) dc_common \<Rightarrow> 'am \<Rightarrow> ('d, 'b sim_error, 'am cache_updates dc_response) prog" where
  "wbdbc_on_new T am = (let oper = (if dcc_immutable T then DcInsert else DcNop) in
     ret (wbdc_response oper (Some (CuInsert am))))"

definition wbdc_on_delete ::
  "('k, 'c, 'x) dc_common \<Rightarrow> 'am cache_updates option \<Rightarrow> ('d, 'b sim_error, 'am cache_updates dc_response) prog" where
  "wbdc_on_delete T upd =
     (let oper = (if dcc_immutable T \<and> (case upd of Some (CuInsert _) \<Rightarrow> True | _ \<Rightarrow> False)
                  then DcDrop else DcRevoke) in
      ret (wbdc_response oper (Some CuDelete)))"

text \<open>One step of the loop over the columns: a column that differs is taken over.\<close>

definition diff_column ::
  "('am, 'c, 'x, 'v) am_ops \<Rightarrow> 'am \<Rightarrow> 'c \<Rightarrow> 'am \<times> bool \<Rightarrow> 'am \<times> bool" where
  "diff_column A new_am c = (\<lambda>(prev_am, changed).
     let new_v = am_get A new_am c in
     if am_get A prev_am c \<noteq> new_v then
       ((case av_into_value new_v of Some v \<Rightarrow> am_set A c v prev_am | None \<Rightarrow> am_not_set A c prev_am), True)
     else (prev_am, changed))"

definition wbdc_on_change ::
  "('am, 'c, 'x, 'v) am_ops \<Rightarrow> ('k, 'c, 'x) dc_common \<Rightarrow> 'v \<Rightarrow> 'v \<Rightarrow> 'am cache_updates option \<Rightarrow>
     ('d, 'b sim_error, 'am cache_updates dc_response) prog" where
  "wbdc_on_change A T value old_value prev_update =
     bnd (case prev_update of
            Some prev \<Rightarrow> (case prev of
                CuDelete \<Rightarrow> throw (SimMsg ''Attempt to modify a previously deleted key'')
              | CuInsert a \<Rightarrow> ret a
              | CuUpdate a \<Rightarrow> ret a)
          | None \<Rightarrow> ret (am_from A old_value)) (\<lambda>prev_am0.
     let new_am = am_from A value;
         (prev_am, changed) = fold (diff_column A new_am) (dcc_columns T) (prev_am0, False);
         oper = (if changed \<and> dcc_immutable T then DcInsert else DcNop);
         upd = (if changed then
                  Some (case prev_update of None \<Rightarrow> CuUpdate prev_am | Some p \<Rightarrow> cu_replace p prev_am)
                else prev_update)
     in ret (wbdc_response oper upd))"

subsection \<open>Writing back\<close>

text \<open>An operation of the database, its error converted by \<open>?\<close>.\<close>

definition on_db :: "('d, 'b, 'a) prog \<Rightarrow> ('d, 'b sim_error, 'a) prog" where
  "on_db m = (\<lambda>d. case m d of
       (Ok a, d') \<Rightarrow> (Ok a, d')
     | (Fail e, d') \<Rightarrow> (Fail (DbError e), d')
     | (Panic msg, d') \<Rightarrow> (Panic msg, d')
     | (Wait, d') \<Rightarrow> (Wait, d'))"

definition ctx_db :: "('d, 'b, 'a) prog \<Rightarrow> (('k, 'u, 'd) flush_ctx, 'b sim_error, 'a) prog" where
  "ctx_db m = (\<lambda>c. case on_db m (ctx_backend c) of (r, d) \<Rightarrow> (r, c\<lparr>ctx_backend := d\<rparr>))"

text \<open>An operation on the open transaction \<open>t\<close>; its result is the transaction afterwards.\<close>

definition on_tx :: "('t, 'b, unit) prog \<Rightarrow> 't \<Rightarrow> ('c, 'b sim_error, 't) prog" where
  "on_tx m t = (\<lambda>c. case m t of
       (Ok _, t') \<Rightarrow> (Ok t', c)
     | (Fail e, _) \<Rightarrow> (Fail (DbError e), c)
     | (Panic msg, _) \<Rightarrow> (Panic msg, c)
     | (Wait, _) \<Rightarrow> (Wait, c))"

fun collect :: "('x \<Rightarrow> ('s, 'e, 'a) prog) \<Rightarrow> 'x list \<Rightarrow> ('s, 'e, 'a list) prog" where
  "collect f [] = ret []"
| "collect f (x # xs) = bnd (f x) (\<lambda>a. bnd (collect f xs) (\<lambda>as. ret (a # as)))"

definition insert_am :: "'k \<times> nat \<Rightarrow> (('k, 'am cache_updates, 'd) flush_ctx, 'e, 'am) prog" where
  "insert_am it = bnd (item_update it) (\<lambda>upd. case upd of
       CuInsert am \<Rightarrow> ret am
     | _ \<Rightarrow> panic ''Expected insert update'')"

definition delete_key :: "'k \<times> nat \<Rightarrow> (('k, 'am cache_updates, 'd) flush_ctx, 'e, 'k) prog" where
  "delete_key it = bnd (item_update it) (\<lambda>upd. case upd of
       CuDelete \<Rightarrow> ret (item_key it)
     | _ \<Rightarrow> panic ''Expected delete update'')"

definition batch_limit :: nat where
  "batch_limit = 1000"

text \<open>The batch of inserts is sent at the end and when it is full; sending drops its items.\<close>

definition send_inserts ::
  "('d, 't, 'am, 'c, 'x, 'v, 'b) orm \<Rightarrow> bool \<Rightarrow> ('k \<times> nat) list \<Rightarrow> 't \<Rightarrow>
     (('k, 'am cache_updates, 'd) flush_ctx, 'b sim_error, 't \<times> ('k \<times> nat) list) prog" where
  "send_inserts B last_loop inserts t =
     (if (last_loop \<and> inserts \<noteq> []) \<or> length inserts \<ge> batch_limit then
        bnd (collect insert_am inserts) (\<lambda>am_list.
        bnd (on_tx (or_insert_many B am_list) t) (\<lambda>t'.
        bnd (modify (items_drop inserts)) (\<lambda>_.
        ret (t', []))))
      else ret (t, inserts))"

definition send_deletes ::
  "('k, 'c, 'x) dc_common \<Rightarrow> ('d, 't, 'am, 'c, 'x, 'v, 'b) orm \<Rightarrow> bool \<Rightarrow> ('k \<times> nat) list \<Rightarrow> 't \<Rightarrow>
     (('k, 'am cache_updates, 'd) flush_ctx, 'b sim_error, 't \<times> ('k \<times> nat) list) prog" where
  "send_deletes T B last_loop deletes t =
     (if (last_loop \<and> deletes \<noteq> []) \<or> length deletes \<ge> batch_limit then
        bnd (collect delete_key deletes) (\<lambda>delete_chunk.
        bnd (on_tx (or_delete_many B (dcc_delete_many_condition T delete_chunk)) t) (\<lambda>t'.
        bnd (modify (items_drop deletes)) (\<lambda>_.
        ret (t', []))))
      else ret (t, deletes))"

text \<open>
  One round of the loop. The items it holds, in the two batches and in hand, are dropped when an
  error leaves the function.
\<close>

type_synonym ('k, 't) wb_state = "('k \<times> nat) list \<times> ('k \<times> nat) list \<times> 't"

definition wb_step ::
  "('k, 'c, 'x) dc_common \<Rightarrow> ('d, 't, 'am, 'c, 'x, 'v, 'b) orm \<Rightarrow> ('k, 't) wb_state \<Rightarrow>
     (('k, 'am cache_updates, 'd) flush_ctx, 'b sim_error, 't + ('k, 't) wb_state) prog" where
  "wb_step T B = (\<lambda>(inserts, deletes, t) c. case iter_next c of (update_item, c1) \<Rightarrow>
     (let last_loop = (update_item = None);
          hand = (case update_item of None \<Rightarrow> [] | Some it \<Rightarrow> [it]) in
      bnd (on_err (send_inserts B last_loop inserts t) (items_drop (hand @ inserts @ deletes))) (\<lambda>(t1, inserts1).
      bnd (on_err (send_deletes T B last_loop deletes t1) (items_drop (hand @ inserts1 @ deletes))) (\<lambda>(t2, deletes1).
      case update_item of
        None \<Rightarrow> ret (Inl t2)
      | Some it \<Rightarrow>
          bnd (on_err (item_update it) (items_drop (it # inserts1 @ deletes1))) (\<lambda>upd. case upd of
            CuInsert _ \<Rightarrow> ret (Inr (inserts1 @ [it], deletes1, t2))
          | CuUpdate am \<Rightarrow>
              bnd (on_err (on_tx (or_update B am) t2) (items_drop (it # inserts1 @ deletes1))) (\<lambda>t3.
              bnd (modify (item_drop it)) (\<lambda>_.
              ret (Inr (inserts1, deletes1, t3))))
          | CuDelete \<Rightarrow> ret (Inr (inserts1, deletes1 @ [it], t2)))))) c1)"

lemma todo_items_drop [simp]: "todo (items_drop its c) = todo c"
  unfolding items_drop_def by (induction its arbitrary: c) simp_all

lemma item_update_state: "item_update it c = (r, c') \<Longrightarrow> c' = c"
  by (auto simp: item_update_def split: option.splits)

lemma on_tx_state: "on_tx m t c = (r, c') \<Longrightarrow> c' = c"
  by (auto simp: on_tx_def split: prod.splits res.splits)

lemma insert_am_state: "insert_am it c = (r, c') \<Longrightarrow> c' = c"
  by (auto simp: insert_am_def bnd_def split: prod.splits res.splits cache_updates.splits dest: item_update_state)

lemma delete_key_state: "delete_key it c = (r, c') \<Longrightarrow> c' = c"
  by (auto simp: delete_key_def bnd_def split: prod.splits res.splits cache_updates.splits dest: item_update_state)

lemma collect_state:
  assumes "\<And>x c r c'. f x c = (r, c') \<Longrightarrow> c' = c"
  shows "collect f xs c = (r, c') \<Longrightarrow> c' = c"
proof (induction xs arbitrary: r c')
  case (Cons x xs)
  then show ?case using assms[of x c] by (fastforce simp: bnd_def split: prod.splits res.splits)
qed simp

lemma collect_insert_state: "collect insert_am its c = (r, c') \<Longrightarrow> c' = c"
  by (rule collect_state[OF insert_am_state])

lemma collect_delete_state: "collect delete_key its c = (r, c') \<Longrightarrow> c' = c"
  by (rule collect_state[OF delete_key_state])

lemma send_inserts_Ok:
  "send_inserts B l ins t c = (Ok (t', ins'), c') \<Longrightarrow>
     (if (l \<and> ins \<noteq> []) \<or> length ins \<ge> batch_limit then ins' = [] \<and> c' = items_drop ins c
      else ins' = ins \<and> t' = t \<and> c' = c)"
  by (auto simp: send_inserts_def split: if_splits dest!: collect_insert_state on_tx_state)

lemma send_deletes_Ok:
  "send_deletes T B l dels t c = (Ok (t', dels'), c') \<Longrightarrow>
     (if (l \<and> dels \<noteq> []) \<or> length dels \<ge> batch_limit then dels' = [] \<and> c' = items_drop dels c
      else dels' = dels \<and> t' = t \<and> c' = c)"
  by (auto simp: send_deletes_def split: if_splits dest!: collect_delete_state on_tx_state)

text \<open>A round that goes on has taken an item from the iterator, so the loop ends.\<close>

lemma wb_step_todo:
  assumes "wb_step T B st c = (Ok (Inr st'), c')"
  shows "length (todo c') < length (todo c)"
proof -
  obtain ins dels t where st: "st = (ins, dels, t)" by (cases st)
  obtain item c1 where nx: "iter_next c = (item, c1)" by fastforce
  obtain it where it: "item = Some it" using assms nx
    by (cases item) (auto simp: wb_step_def st Let_def)
  have "length (todo c1) < length (todo c)" using iter_next_todo[OF nx] it by simp
  moreover have "todo c' = todo c1"
    using assms nx it
    by (auto simp: wb_step_def st Let_def on_err_def split: prod.splits res.splits cache_updates.splits if_splits
        dest!: send_inserts_Ok send_deletes_Ok item_update_state on_tx_state)
  ultimately show ?thesis by simp
qed

function wb_loop ::
  "('k, 'c, 'x) dc_common \<Rightarrow> ('d, 't, 'am, 'c, 'x, 'v, 'b) orm \<Rightarrow> ('k, 't) wb_state \<Rightarrow>
     (('k, 'am cache_updates, 'd) flush_ctx, 'b sim_error, 't) prog" where
  "wb_loop T B st c = (case wb_step T B st c of
       (Ok (Inl t), c') \<Rightarrow> (Ok t, c')
     | (Ok (Inr st'), c') \<Rightarrow> wb_loop T B st' c'
     | (Fail e, c') \<Rightarrow> (Fail e, c')
     | (Panic msg, c') \<Rightarrow> (Panic msg, c')
     | (Wait, c') \<Rightarrow> (Wait, c'))"
  by pat_completeness auto
termination
  by (relation "measure (\<lambda>(T, B, st, c). length (todo c))") (auto dest!: sym[of _ "wb_step _ _ _ _"] wb_step_todo)

declare wb_loop.simps [simp del]

definition wbdc_write_back ::
  "('k, 'c, 'x) dc_common \<Rightarrow> ('d, 't, 'am, 'c, 'x, 'v, 'b) orm \<Rightarrow>
     (('k, 'am cache_updates, 'd) flush_ctx, 'b sim_error, unit) prog" where
  "wbdc_write_back T B =
     bnd (ctx_db (or_connection B)) (\<lambda>_.
     bnd (ctx_db (or_begin B)) (\<lambda>transaction.
     bnd (wb_loop T B ([], [], transaction)) (\<lambda>transaction.
     bnd (ctx_db (or_commit B transaction)) (\<lambda>_.
     modify confirm_all))))"

section \<open>The discipline of a write-back\<close>

lemma flush_inv_perm: "flush_inv p0 H c \<Longrightarrow> mset H' = mset H \<Longrightarrow> flush_inv p0 H' c"
  by (rule flush_inv_mset) simp_all

text \<open>
  After a round: the items held are those of the new state; after an error, and at the end of the
  loop, none is.
\<close>

definition wb_held :: "('k, 't) wb_state \<Rightarrow> ('k \<times> nat) list" where
  "wb_held st = (case st of (ins, dels, t) \<Rightarrow> ins @ dels)"

lemma send_inserts_bad:
  "send_inserts B l ins t c = (r, c') \<Longrightarrow> (\<nexists>x. r = Ok x) \<Longrightarrow> c' = c"
  by (auto simp: send_inserts_def bnd_def split: if_splits prod.splits res.splits
      dest!: collect_insert_state on_tx_state)

lemma send_deletes_bad:
  "send_deletes T B l dels t c = (r, c') \<Longrightarrow> (\<nexists>x. r = Ok x) \<Longrightarrow> c' = c"
  by (auto simp: send_deletes_def bnd_def split: if_splits prod.splits res.splits
      dest!: collect_delete_state on_tx_state)

lemma on_err_bad:
  "on_err m g s = (r, s') \<Longrightarrow> (\<nexists>a. r = Ok a) \<Longrightarrow> r \<noteq> Wait \<Longrightarrow> \<exists>s1. m s = (r, s1) \<and> s' = g s1"
  by (auto simp: on_err_def split: prod.splits res.splits)

lemma on_err_Ok_iff: "on_err m g s = (Ok a, s') \<longleftrightarrow> m s = (Ok a, s')"
  by (auto simp: on_err_def split: prod.splits res.splits)

definition wb_post ::
  "(('k \<times> nat) list \<Rightarrow> ('k, 'u, 'd) flush_ctx \<Rightarrow> bool) \<Rightarrow> ('e, 't + ('k, 't) wb_state) res \<Rightarrow> ('k, 'u, 'd) flush_ctx \<Rightarrow> bool" where
  "wb_post Q r c \<longleftrightarrow> r = Wait \<or> Q (case r of Ok (Inr st) \<Rightarrow> wb_held st | _ \<Rightarrow> []) c"

text \<open>
  What a statement about the items in hand and the context must survive to hold at the end of a
  write-back: the calls it makes of the iterator, and a write to the database.
\<close>

locale item_use =
  fixes Q :: "('k \<times> nat) list \<Rightarrow> ('k, 'am cache_updates, 'd) flush_ctx \<Rightarrow> bool"
  assumes next_item: "iter_next c = (r, c') \<Longrightarrow> Q H c \<Longrightarrow> (case r of None \<Rightarrow> Q H c' | Some it \<Rightarrow> Q (it # H) c')"
    and drop: "Q (it # H) c \<Longrightarrow> Q H (item_drop it c)"
    and confirm: "Q H c \<Longrightarrow> Q H (confirm_all c)"
    and perm: "Q H c \<Longrightarrow> mset H' = mset H \<Longrightarrow> Q H' c"
    and write_db: "Q H c \<Longrightarrow> Q H (c\<lparr>ctx_backend := d\<rparr>)"

begin

lemma drops: "Q (its @ H) c \<Longrightarrow> Q H (items_drop its c)"
  unfolding items_drop_def by (induction its arbitrary: c) (auto dest: drop)

lemma drop_all_keeps: "Q H c \<Longrightarrow> mset its = mset H \<Longrightarrow> Q [] (items_drop its c)"
  by (rule drops) (auto intro: perm)

lemma send_inserts_keeps:
  assumes "Q (ins @ H) c" "send_inserts B l ins t c = (Ok (t', ins'), c')"
  shows "Q (ins' @ H) c' \<and> (l \<longrightarrow> ins' = [])"
  using assms send_inserts_Ok[OF assms(2)] by (auto split: if_splits intro: drops)

lemma send_deletes_keeps:
  assumes "Q (dels @ H) c" "send_deletes T B l dels t c = (Ok (t', dels'), c')"
  shows "Q (dels' @ H) c' \<and> (l \<longrightarrow> dels' = [])"
  using assms send_deletes_Ok[OF assms(2)] by (auto split: if_splits intro: drops)

text \<open>A step under \<open>on_err\<close>: either it hands its value on, or the items are dropped.\<close>

lemma wb_post_on_err:
  assumes run: "bnd (on_err m (items_drop its)) f c = (r, c')"
    and bad: "\<And>r1 c1. m c = (r1, c1) \<Longrightarrow> (\<nexists>a. r1 = Ok a) \<Longrightarrow> r1 \<noteq> Wait \<Longrightarrow> Q [] (items_drop its c1)"
    and good: "\<And>a c1. m c = (Ok a, c1) \<Longrightarrow> f a c1 = (r, c') \<Longrightarrow> wb_post Q r c'"
  shows "wb_post Q r c'"
proof -
  obtain r1 c1 where m: "m c = (r1, c1)" by fastforce
  show ?thesis
    using run bad[OF m] good m by (cases r1) (auto simp: wb_post_def)
qed

lemma wb_step_keeps:
  assumes inv: "Q (wb_held st) c" and run: "wb_step T B st c = (r, c')"
  shows "wb_post Q r c'"
proof -
  obtain ins dels t where st: "st = (ins, dels, t)" by (cases st)
  obtain item c1 where nx: "iter_next c = (item, c1)" by fastforce
  define hand where "hand = (case item of None \<Rightarrow> [] | Some it \<Rightarrow> [it])"
  have inv1: "Q (hand @ ins @ dels) c1"
    using next_item[OF nx inv] by (cases item) (auto simp: hand_def st wb_held_def)
  show ?thesis
    using run[unfolded wb_step_def st, simplified, unfolded nx, simplified, unfolded Let_def, folded hand_def]
  proof (rule wb_post_on_err, goal_cases)
    case (1 r1 c2)
    then show ?case using send_inserts_bad[OF 1(1,2)] inv1 by (auto intro!: drop_all_keeps)
  next
    case (2 a c2)
    obtain t1 ins1 where a: "a = (t1, ins1)" by fastforce
    have "Q (ins @ (hand @ dels)) c1" by (rule perm[OF inv1]) simp
    from send_inserts_keeps[OF this 2(1)[unfolded a]]
    have inv2: "Q (ins1 @ (hand @ dels)) c2" and l1: "item = None \<Longrightarrow> ins1 = []" by auto
    show ?case
      using 2(2)[unfolded a, simplified]
    proof (rule wb_post_on_err, goal_cases)
      case (1 r1 c3)
      then show ?case using send_deletes_bad[OF 1(1,2)] inv2 by (auto intro!: drop_all_keeps)
    next
      case (2 a c3)
      obtain t2 dels1 where a: "a = (t2, dels1)" by fastforce
      have "Q (dels @ (hand @ ins1)) c2" by (rule perm[OF inv2]) simp
      from send_deletes_keeps[OF this 2(1)[unfolded a]]
      have inv3: "Q (dels1 @ (hand @ ins1)) c3" and l2: "item = None \<Longrightarrow> dels1 = []" by auto
      show ?case
      proof (cases item)
        case None
        then show ?thesis using 2(2) inv3 l1 l2 by (auto simp: a hand_def wb_post_def)
      next
        case (Some it)
        have hold: "Q (it # ins1 @ dels1) c3"
          by (rule perm[OF inv3]) (simp add: hand_def Some)
        show ?thesis
          using 2(2)[unfolded a Some, simplified]
        proof (rule wb_post_on_err, goal_cases)
          case (1 r1 c4)
          then show ?case using item_update_state[OF 1(1)] hold by (auto intro!: drop_all_keeps)
        next
          case (2 upd c4)
          have c4: "c4 = c3" using item_update_state[OF 2(1)] .
          show ?case
          proof (cases upd)
            case (CuUpdate am)
            show ?thesis
              using 2(2)[unfolded CuUpdate c4, simplified]
            proof (rule wb_post_on_err, goal_cases)
              case (1 r1 c5)
              then show ?case using on_tx_state[OF 1(1)] hold by (auto intro!: drop_all_keeps)
            next
              case (2 t3 c5)
              then show ?case using on_tx_state[OF 2(1)] drop[OF hold]
                by (auto simp: wb_post_def wb_held_def)
            qed
          next
            case (CuInsert am)
            then show ?thesis using 2(2) hold
              by (auto simp: c4 wb_post_def wb_held_def intro: perm)
          next
            case CuDelete
            then show ?thesis using 2(2) hold
              by (auto simp: c4 wb_post_def wb_held_def intro: perm)
          qed
        qed
      qed
    qed
  qed
qed

lemma wb_loop_keeps:
  "Q (wb_held st) c \<Longrightarrow> wb_loop T B st c = (r, c') \<Longrightarrow> r \<noteq> Wait \<Longrightarrow> Q [] c'"
proof (induction T B st c arbitrary: r c' rule: wb_loop.induct)
  case (1 T B st c)
  obtain r1 c1 where st: "wb_step T B st c = (r1, c1)" by fastforce
  note post = wb_step_keeps[OF "1.prems"(1) st]
  note eq = "1.prems"(2)[unfolded wb_loop.simps[of T B st c] st]
  show ?case
  proof (cases "\<exists>st'. r1 = Ok (Inr st')")
    case True
    then obtain st' where r1: "r1 = Ok (Inr st')" by blast
    have "Q (wb_held st') c1" using post r1 by (simp add: wb_post_def)
    from "1.IH"[OF st[symmetric] r1 refl this] show ?thesis using eq r1 "1.prems"(3) by simp
  next
    case False
    then show ?thesis using post eq "1.prems"(3)
      by (auto simp: wb_post_def split: res.splits sum.splits)
  qed
qed

lemma ctx_db_keeps: "Q H c \<Longrightarrow> ctx_db m c = (r, c') \<Longrightarrow> Q H c'"
  by (auto simp: ctx_db_def intro: write_db split: prod.splits)

text \<open>A program that keeps \<open>Q\<close> while no item is in hand.\<close>

definition keeps_hands :: "(('k, 'am cache_updates, 'd) flush_ctx, 'e, 'a) prog \<Rightarrow> bool" where
  "keeps_hands m \<longleftrightarrow> (\<forall>c r c'. Q [] c \<longrightarrow> m c = (r, c') \<longrightarrow> r \<noteq> Wait \<longrightarrow> Q [] c')"

lemma keeps_hands_bnd: "keeps_hands m \<Longrightarrow> (\<And>a. keeps_hands (f a)) \<Longrightarrow> keeps_hands (bnd m f)"
proof (unfold keeps_hands_def, intro allI impI)
  fix c r c'
  assume m: "\<forall>c r c'. Q [] c \<longrightarrow> m c = (r, c') \<longrightarrow> r \<noteq> Wait \<longrightarrow> Q [] c'"
    and f: "\<And>a. \<forall>c r c'. Q [] c \<longrightarrow> f a c = (r, c') \<longrightarrow> r \<noteq> Wait \<longrightarrow> Q [] c'"
    and c: "Q [] c" "bnd m f c = (r, c')" "r \<noteq> Wait"
  obtain r1 c1 where mc: "m c = (r1, c1)" by fastforce
  then have "Q [] c1" if "r1 \<noteq> Wait" using m c(1) that by blast
  then show "Q [] c'" using c(2,3) mc f by (cases r1) auto
qed

lemma keeps_hands_loop: "keeps_hands (wb_loop T B ([], [], t))"
  unfolding keeps_hands_def using wb_loop_keeps[of "([], [], t)"] by (auto simp: wb_held_def)

lemma wbdc_write_back_keeps:
  "Q [] c \<Longrightarrow> wbdc_write_back T B c = (r, c') \<Longrightarrow> r \<noteq> Wait \<Longrightarrow> Q [] c'"
proof -
  have "keeps_hands (wbdc_write_back T B)"
    unfolding wbdc_write_back_def
    by (intro keeps_hands_bnd keeps_hands_loop) (auto simp: keeps_hands_def intro: confirm dest: ctx_db_keeps)
  then show "Q [] c \<Longrightarrow> wbdc_write_back T B c = (r, c') \<Longrightarrow> r \<noteq> Wait \<Longrightarrow> Q [] c'"
    by (simp add: keeps_hands_def)
qed

end

text \<open>The discipline of an iterator is such a statement.\<close>

interpretation inv_use: item_use "flush_inv p0" for p0
proof
  show "case r of None \<Rightarrow> flush_inv p0 H c' | Some it \<Rightarrow> flush_inv p0 (it # H) c'"
    if "iter_next c = (r, c')" "flush_inv p0 H c" for p0 H and c c' :: "('a, 'b cache_updates, 'c) flush_ctx" and r
    using iter_next_inv[OF that] by (cases r) simp_all
qed (simp_all add: item_drop_inv confirm_all_inv flush_inv_perm)

lemma wbdc_write_back_safe: "ctx_safe (wbdc_write_back T B)"
  by (auto simp: ctx_safe_def intro: inv_use.wbdc_write_back_keeps)

text \<open>No round touches an update or the database outside the transaction, whatever its result.\<close>

definition same_data :: "('k, 'u, 'd) flush_ctx \<Rightarrow> ('k, 'u, 'd) flush_ctx \<Rightarrow> bool" where
  "same_data c c' \<longleftrightarrow> ctx_backend c' = ctx_backend c \<and> pool_get (ctx_pool c') = pool_get (ctx_pool c) \<and>
     (\<forall>i. data (states (ctx_pool c') i) = data (states (ctx_pool c) i))"

lemma same_data_refl [simp]: "same_data c c"
  by (simp add: same_data_def)

lemma same_data_trans: "same_data c c1 \<Longrightarrow> same_data c1 c2 \<Longrightarrow> same_data c c2"
  by (simp add: same_data_def)

lemma same_data_item_drop [simp]: "same_data c (item_drop it c1) = same_data c c1"
  by (simp add: same_data_def item_drop_def)

lemma same_data_items_drop [simp]: "same_data c (items_drop its c1) = same_data c c1"
  unfolding items_drop_def by (induction its arbitrary: c1) simp_all

lemma same_data_next: "iter_next c = (r, c') \<Longrightarrow> guards_ok (ctx_pool c) (todo c) \<Longrightarrow> same_data c c'"
  by (drule (1) iter_next_spec) (auto simp: same_data_def split: option.splits)

lemma same_data_inserts: "send_inserts B l ins t c = (r, c') \<Longrightarrow> same_data c c'"
proof (cases "\<exists>x. r = Ok x")
  case True
  assume run: "send_inserts B l ins t c = (r, c')"
  obtain t' ins' where "r = Ok (t', ins')" using True by auto
  then have "c' = items_drop ins c \<or> c' = c" using send_inserts_Ok run by (metis (full_types))
  then show ?thesis by auto
qed (auto dest: send_inserts_bad)

lemma same_data_deletes: "send_deletes T B l dels t c = (r, c') \<Longrightarrow> same_data c c'"
proof (cases "\<exists>x. r = Ok x")
  case True
  assume run: "send_deletes T B l dels t c = (r, c')"
  obtain t' dels' where "r = Ok (t', dels')" using True by auto
  then have "c' = items_drop dels c \<or> c' = c" using send_deletes_Ok run by (metis (full_types))
  then show ?thesis by auto
qed (auto dest: send_deletes_bad)

lemma same_data_on_err:
  assumes "bnd (on_err m (items_drop its)) f c = (r, c')"
    and "\<And>r1 c1. m c = (r1, c1) \<Longrightarrow> same_data c c1"
    and "\<And>a c1. m c = (Ok a, c1) \<Longrightarrow> f a c1 = (r, c') \<Longrightarrow> same_data c1 c'"
  shows "same_data c c'"
proof -
  obtain r1 c1 where m: "m c = (r1, c1)" by fastforce
  then show ?thesis using assms(1) assms(2)[OF m] assms(3)[of _ c1] same_data_trans[of c c1 c']
    by (cases r1) auto
qed

lemma wb_step_same:
  assumes run: "wb_step T B st c = (r, c')" and g: "guards_ok (ctx_pool c) (todo c)"
  shows "same_data c c'"
proof -
  obtain ins dels t where st: "st = (ins, dels, t)" by (cases st)
  obtain item c1 where nx: "iter_next c = (item, c1)" by fastforce
  have "same_data c1 c'"
    using run[unfolded wb_step_def st, simplified, unfolded nx, simplified, unfolded Let_def]
  proof (rule same_data_on_err, goal_cases)
    case (1 r1 c2)
    then show ?case by (rule same_data_inserts)
  next
    case (2 a c2)
    obtain t1 ins1 where a: "a = (t1, ins1)" by fastforce
    show ?case
      using 2(2)[unfolded a, simplified]
    proof (rule same_data_on_err, goal_cases)
      case (1 r1 c3)
      then show ?case by (rule same_data_deletes)
    next
      case (2 a c3)
      obtain t2 dels1 where a: "a = (t2, dels1)" by fastforce
      show ?case
      proof (cases item)
        case None
        with 2(2) show ?thesis by (auto simp: a)
      next
        case (Some it)
        show ?thesis
          using 2(2)[unfolded a Some, simplified]
        proof (rule same_data_on_err, goal_cases)
          case (1 r1 c4)
          then show ?case by (auto dest: item_update_state)
        next
          case (2 upd c4)
          show ?case
          proof (cases upd)
            case (CuUpdate am)
            show ?thesis
              using 2(2)[unfolded CuUpdate, simplified]
              by (rule same_data_on_err) (auto dest: on_tx_state)
          qed (use 2(2) in auto)
        qed
      qed
    qed
  qed
  then show ?thesis using same_data_next[OF nx g] same_data_trans by blast
qed

section \<open>What a write-back does to the table\<close>

text \<open>
  What a pending update stands for: the stored row \<open>ro\<close> of the key becomes \<open>x\<close>. An update
  carries the whole record, so it patches the stored row to that record.
\<close>

definition stands_for ::
  "('am, 'c, 'x, 'v) am_ops \<Rightarrow> ('v \<Rightarrow> 'c \<Rightarrow> 'x) \<Rightarrow> ('v \<Rightarrow> 'k) \<Rightarrow> ('k \<Rightarrow> bool) \<Rightarrow>
     'k \<Rightarrow> 'am cache_updates \<Rightarrow> 'v option \<Rightarrow> 'v option \<Rightarrow> bool" where
  "stands_for A fld pk prim k upd ro x \<longleftrightarrow> prim k \<and> (case upd of
       CuInsert am \<Rightarrow> ro = None \<and> (\<exists>v. x = Some v \<and> represents A fld am v \<and> pk v = k)
     | CuUpdate am \<Rightarrow> (\<exists>r v. ro = Some r \<and> x = Some v \<and> represents A fld am v \<and> patches A fld am r v \<and>
         pk v = k \<and> pk r = k)
     | CuDelete \<Rightarrow> x = None)"

text \<open>The logical record of a key, from its stored row and its pending update, if there is one.\<close>

definition update_view ::
  "('am, 'c, 'x, 'v) am_ops \<Rightarrow> ('v \<Rightarrow> 'c \<Rightarrow> 'x) \<Rightarrow> ('v \<Rightarrow> 'k) \<Rightarrow> ('k \<Rightarrow> bool) \<Rightarrow>
     'k \<Rightarrow> 'am cache_updates option \<Rightarrow> 'v option \<Rightarrow> 'v option \<Rightarrow> bool" where
  "update_view A fld pk prim k upd ro x \<longleftrightarrow> (case upd of None \<Rightarrow> x = ro | Some u \<Rightarrow> stands_for A fld pk prim k u ro x)"

definition delete_condition_ok ::
  "('k, 'c, 'x) dc_common \<Rightarrow> ('v \<Rightarrow> 'c \<Rightarrow> 'x) \<Rightarrow> ('v \<Rightarrow> 'k) \<Rightarrow> ('k \<Rightarrow> bool) \<Rightarrow> bool" where
  "delete_condition_ok T fld pk prim \<longleftrightarrow> (\<forall>ks. ks \<noteq> [] \<longrightarrow> (\<forall>k \<in> set ks. prim k) \<longrightarrow>
     (\<exists>ds. dcc_delete_many_condition T ks = AnyOf ds \<and> ds \<noteq> [] \<and>
        (\<forall>v. cond_matches fld (AnyOf ds) v \<longleftrightarrow> pk v \<in> set ks)))"

text \<open>
  A table of the simulation: the controller's parameters, the ORM that stores the table, and how
  its rows are read. The contract is the documented behaviour of the ORM and the adequacy of the
  controller's deletion filter and list of columns.
\<close>

locale table_controller =
  fixes B :: "('d, 't, 'am, 'c, 'x, 'v, 'b) orm"
    and A :: "('am, 'c, 'x, 'v) am_ops"
    and T :: "('k, 'c, 'x) dc_common"
    and fld :: "'v \<Rightarrow> 'c \<Rightarrow> 'x"
    and pk :: "'v \<Rightarrow> 'k"
    and prim :: "'k \<Rightarrow> bool"
    and RD :: "'d \<Rightarrow> 'k \<rightharpoonup> 'v"
    and RT :: "'t \<Rightarrow> 'k \<rightharpoonup> 'v"
  assumes orm: "orm_ok B A fld pk RD RT"
    and am: "am_ok A fld"
    and del: "delete_condition_ok T fld pk prim"
    and cols: "distinct (dcc_columns T)" "set (dcc_columns T) = UNIV"
    and fields: "(\<And>c. fld v c = fld w c) \<Longrightarrow> v = w"
begin

text \<open>\<open>wbdc_on_change\<close>: the merged active model holds the new record, column by column.\<close>

lemma diff_fold:
  assumes "distinct cs" and "fold (diff_column A (am_from A value)) cs (am0, ch0) = (am, ch)"
  shows "am_get A am c = (if c \<in> set cs \<and> am_get A am0 c \<noteq> AvUnchanged (fld value c)
      then AvSet (fld value c) else am_get A am0 c) \<and>
    (ch \<longleftrightarrow> ch0 \<or> (\<exists>c \<in> set cs. am_get A am0 c \<noteq> AvUnchanged (fld value c)))"
  using assms
proof (induction cs arbitrary: am0 ch0)
  case (Cons d cs)
  obtain am1 ch1 where d: "diff_column A (am_from A value) d (am0, ch0) = (am1, ch1)" by fastforce
  have am1: "am_get A am1 c' = (if c' = d \<and> am_get A am0 d \<noteq> AvUnchanged (fld value d)
      then AvSet (fld value d) else am_get A am0 c')"
    and ch1: "ch1 \<longleftrightarrow> ch0 \<or> am_get A am0 d \<noteq> AvUnchanged (fld value d)" for c'
    using d by (auto simp: diff_column_def Let_def am_okD[OF am] split: if_splits)
  have "fold (diff_column A (am_from A value)) cs (am1, ch1) = (am, ch)" using Cons.prems(2) d by simp
  from Cons.IH[OF _ this] Cons.prems(1) show ?case by (auto simp: am1 ch1)
qed simp

lemma merged_model:
  assumes "fold (diff_column A (am_from A value)) (dcc_columns T) (am0, False) = (am, ch)"
  shows "am_get A am c = (if am_get A am0 c = AvUnchanged (fld value c) then AvUnchanged (fld value c)
      else AvSet (fld value c))"
    and "ch \<longleftrightarrow> (\<exists>c. am_get A am0 c \<noteq> AvUnchanged (fld value c))"
  using diff_fold[OF cols(1) assms, of c] cols(2) by auto

lemma merged_represents:
  "fold (diff_column A (am_from A value)) (dcc_columns T) (am0, False) = (am, ch) \<Longrightarrow> represents A fld am value"
  using merged_model(1) by (simp add: represents_def)

text \<open>The three events, in terms of the stored row and the logical record of the key.\<close>

lemma on_new_view: "prim (pk v) \<Longrightarrow> update_view A fld pk prim (pk v) (Some (CuInsert (am_from A v))) None (Some v)"
  using am by (simp add: update_view_def stands_for_def)

lemma on_delete_view: "prim k \<Longrightarrow> update_view A fld pk prim k (Some CuDelete) ro None"
  by (simp add: update_view_def stands_for_def)

lemma on_change_view:
  assumes prim: "prim k" and keys: "pk value = k" "pk old = k" and prev: "update_view A fld pk prim k prev ro (Some old)"
  shows "\<exists>resp. wbdc_on_change A T value old prev d = (Ok resp, d) \<and>
    update_view A fld pk prim k (resp_update resp) ro (Some value) \<and>
    (resp_op resp = DcNop \<or> dcc_immutable T \<and> resp_op resp = DcInsert) \<and>
    (dcc_immutable T \<longrightarrow> resp_op resp = DcInsert \<or> value = old)"
proof -
  obtain am0 where am0: "am0 = (case prev of Some (CuInsert a) \<Rightarrow> a | Some (CuUpdate a) \<Rightarrow> a | _ \<Rightarrow> am_from A old)" by blast
  obtain am ch where f: "fold (diff_column A (am_from A value)) (dcc_columns T) (am0, False) = (am, ch)" by fastforce
  have nd: "prev \<noteq> Some CuDelete" using prev by (auto simp: update_view_def stands_for_def)
  define upd where "upd = (if ch then Some (case prev of None \<Rightarrow> CuUpdate am | Some p \<Rightarrow> cu_replace p am) else prev)"
  have run: "wbdc_on_change A T value old prev d =
      (Ok (wbdc_response (if ch \<and> dcc_immutable T then DcInsert else DcNop) upd), d)"
    using nd f by (auto simp: wbdc_on_change_def am0 upd_def Let_def split: option.splits cache_updates.splits)
  have rep0: "represents A fld am0 old"
    using prev nd am by (auto simp: am0 update_view_def stands_for_def split: option.splits cache_updates.splits)
  have same: "value = old" if "\<not> ch"
  proof (rule fields)
    show "fld value c = fld old c" for c
      using that merged_model(2)[OF f] rep0 by (auto simp: represents_def)
  qed
  have new: "represents A fld am value" by (rule merged_represents[OF f])
  have pat: "patches A fld am r value" if "\<And>c. am_get A am0 c = AvUnchanged (fld value c) \<Longrightarrow> fld r c = fld value c" for r
    using that merged_model(1)[OF f] by (simp add: patches_def)
  have "update_view A fld pk prim k upd ro (Some value)"
  proof (cases ch)
    case False
    then show ?thesis using same prev by (simp add: upd_def)
  next
    case True
    show ?thesis
    proof (cases prev)
      case None
      then have ro: "ro = Some old" using prev by (simp add: update_view_def)
      have "am0 = am_from A old" by (simp add: am0 None)
      then have "patches A fld am old value" using pat[of old] am by (simp add: am_okD)
      with True None ro new keys prim show ?thesis by (simp add: upd_def update_view_def stands_for_def)
    next
      case (Some u)
      show ?thesis
      proof (cases u)
        case (CuInsert a)
        with True Some new keys prim prev show ?thesis
          by (auto simp: upd_def update_view_def stands_for_def cu_replace_def)
      next
        case (CuUpdate a)
        obtain r where r: "ro = Some r" "patches A fld a r old" "pk r = k"
          using prev Some CuUpdate by (auto simp: update_view_def stands_for_def)
        have a: "am0 = a" by (simp add: am0 Some CuUpdate)
        have "patches A fld am r value"
        proof (rule pat)
          fix c assume "am_get A am0 c = AvUnchanged (fld value c)"
          then show "fld r c = fld value c" using r(2) rep0 a by (auto simp: patches_def represents_def dest: spec[of _ c])
        qed
        with True Some CuUpdate r new keys prim show ?thesis
          by (auto simp: upd_def update_view_def stands_for_def cu_replace_def)
      next
        case CuDelete
        with nd Some show ?thesis by simp
      qed
    qed
  qed
  moreover have "dcc_immutable T \<longrightarrow> ch \<or> value = old" using same by blast
  ultimately show ?thesis using run
    by (intro exI[of _ "wbdc_response (if ch \<and> dcc_immutable T then DcInsert else DcNop) upd"] conjI)
      (auto simp: wbdc_response_def)
qed

subsection \<open>The loop\<close>

text \<open>
  \<open>Y\<close> are the items taken so far, \<open>hand\<close> the one just taken. The transaction holds the logical
  records of the items that were sent, the other rows are as at the start.
\<close>

definition wb_inv ::
  "('k, 'am cache_updates) pool \<Rightarrow> ('k \<rightharpoonup> 'v) \<Rightarrow> ('k \<rightharpoonup> 'v) \<Rightarrow> ('k \<times> nat) list \<Rightarrow> ('k \<times> nat) list \<Rightarrow>
     ('k \<times> nat) list \<Rightarrow> ('k \<times> nat) list \<Rightarrow> 't \<Rightarrow> ('k, 'am cache_updates, 'd) flush_ctx \<Rightarrow> bool" where
  "wb_inv p0 R0 m Y hand ins dels t c \<longleftrightarrow>
     flush_inv p0 (hand @ ins @ dels) c \<and>
     (\<forall>i. data (states (ctx_pool c) i) = data (states p0 i)) \<and>
     guards_ok (ctx_pool c) (todo c) \<and>
     (\<forall>(k, i) \<in> set (Y @ hand). \<exists>u. data (states p0 i) = Some u \<and> stands_for A fld pk prim k u (R0 k) (m k)) \<and>
     distinct (map fst (Y @ hand)) \<and> distinct (ins @ dels) \<and> set (ins @ dels) \<subseteq> set Y \<and>
     set (worked (ctx_iter c)) = set Y - set (ins @ dels) \<and>
     (\<forall>(k, i) \<in> set ins. \<exists>am. data (states p0 i) = Some (CuInsert am)) \<and>
     (\<forall>(k, i) \<in> set dels. data (states p0 i) = Some CuDelete) \<and>
     (\<forall>k. RT t k = (if k \<in> fst ` (set Y - set (ins @ dels)) then m k else R0 k))"

lemma items_drop_kept:
  "\<forall>it \<in> set its. data (states (ctx_pool c) (snd it)) \<noteq> None \<Longrightarrow>
     items_drop its c = c\<lparr>ctx_iter := (ctx_iter c)\<lparr>worked := worked (ctx_iter c) @ its\<rparr>\<rparr>"
  unfolding items_drop_def by (induction its arbitrary: c) (simp_all add: item_drop_def)

lemma collect_inserts:
  assumes "\<forall>(k, i) \<in> set its. data (states (ctx_pool c) i) = Some (CuInsert (g (k, i)))"
  shows "collect insert_am its c = (Ok (map g its), c)"
  using assms by (induction its) (auto simp: insert_am_def item_update_def)

lemma collect_deletes:
  assumes "\<forall>(k, i) \<in> set its. data (states (ctx_pool c) i) = Some CuDelete"
  shows "collect delete_key its c = (Ok (map fst its), c)"
  using assms by (induction its) (auto simp: delete_key_def item_update_def item_key_def)

lemma wb_invD:
  assumes "wb_inv p0 R0 m Y hand ins dels t c"
  shows "flush_inv p0 (hand @ ins @ dels) c" "data (states (ctx_pool c) i) = data (states p0 i)"
    "guards_ok (ctx_pool c) (todo c)"
    "(k, i) \<in> set (Y @ hand) \<Longrightarrow> \<exists>u. data (states p0 i) = Some u \<and> stands_for A fld pk prim k u (R0 k) (m k)"
    "distinct (map fst (Y @ hand))" "distinct (ins @ dels)" "set (ins @ dels) \<subseteq> set Y"
    "set (worked (ctx_iter c)) = set Y - set (ins @ dels)"
    "(k, i) \<in> set ins \<Longrightarrow> \<exists>am. data (states p0 i) = Some (CuInsert am)"
    "(k, i) \<in> set dels \<Longrightarrow> data (states p0 i) = Some CuDelete"
    "RT t k = (if k \<in> fst ` (set Y - set (ins @ dels)) then m k else R0 k)"
  using assms unfolding wb_inv_def by blast+

lemma wb_inv_sent:
  assumes inv: "wb_inv p0 R0 m Y hand ins0 dels0 t c"
    and split: "mset (ins0 @ dels0) = mset (its @ ins @ dels)" "set ins \<subseteq> set ins0" "set dels \<subseteq> set dels0"
    and t': "\<And>k. RT t' k = (if k \<in> fst ` set its then m k else RT t k)"
  shows "wb_inv p0 R0 m Y hand ins dels t' (items_drop its c) \<and> items_of (items_drop its c) = items_of c"
proof -
  have sets: "set (ins0 @ dels0) = set (its @ ins @ dels)" using split(1) by (metis set_mset_mset)
  have dist: "distinct (its @ ins @ dels)"
    using split(1) wb_invD(6)[OF inv] by (metis mset_eq_imp_distinct_iff)
  have ne: "\<forall>it \<in> set its. data (states (ctx_pool c) (snd it)) \<noteq> None"
  proof
    fix it assume "it \<in> set its"
    then have "(fst it, snd it) \<in> set (Y @ hand)" using sets wb_invD(7)[OF inv] by auto
    then show "data (states (ctx_pool c) (snd it)) \<noteq> None"
      using wb_invD(4)[OF inv] wb_invD(2)[OF inv] by fastforce
  qed
  note drop = items_drop_kept[OF ne]
  have "flush_inv p0 (its @ (hand @ ins @ dels)) c"
    by (rule flush_inv_perm[OF wb_invD(1)[OF inv]]) (use split(1) in simp)
  from items_drop_inv[OF this] have f: "flush_inv p0 (hand @ ins @ dels) (items_drop its c)" .
  have Y: "set Y - set (ins @ dels) = (set Y - set (ins0 @ dels0)) \<union> set its"
    using sets dist wb_invD(7)[OF inv] by auto
  have w': "set (worked (ctx_iter (items_drop its c))) = set Y - set (ins @ dels)"
    unfolding Y using wb_invD(8)[OF inv] by (simp add: drop)
  have r: "RT t' k = (if k \<in> fst ` (set Y - set (ins @ dels)) then m k else R0 k)" for k
    unfolding Y image_Un using wb_invD(11)[OF inv, of k] by (simp add: t')
  have p: "ctx_pool (items_drop its c) = ctx_pool c" by (simp add: drop)
  have "set (ins @ dels) \<subseteq> set Y" using sets wb_invD(7)[OF inv] by auto
  moreover have "\<forall>(k, i) \<in> set ins. \<exists>am. data (states p0 i) = Some (CuInsert am)"
    using wb_invD(9)[OF inv] split(2) by fast
  moreover have "\<forall>(k, i) \<in> set dels. data (states p0 i) = Some CuDelete"
    using wb_invD(10)[OF inv] split(3) by fast
  moreover have "\<forall>(k, i) \<in> set (Y @ hand). \<exists>u. data (states p0 i) = Some u \<and> stands_for A fld pk prim k u (R0 k) (m k)"
    using wb_invD(4)[OF inv] by fast
  moreover have "distinct (ins @ dels)" using dist by simp
  ultimately show ?thesis
    unfolding wb_inv_def items_of_def p todo_items_drop using f w' r wb_invD(2,3,5)[OF inv] by blast
qed

lemma map_of_keyed:
  "(\<And>x. x \<in> set xs \<Longrightarrow> pk (f x) = fst x) \<Longrightarrow> (\<And>x. x \<in> set xs \<Longrightarrow> m (fst x) = Some (f x)) \<Longrightarrow>
     map_of (map (\<lambda>v. (pk v, v)) (map f xs)) k = (if k \<in> fst ` set xs then m k else None)"
  by (induction xs) auto

lemma send_inserts_wb_inv:
  assumes inv: "wb_inv p0 R0 m Y hand ins dels t c" and run: "send_inserts B l ins t c = (Ok (t', ins'), c')"
  shows "wb_inv p0 R0 m Y hand ins' dels t' c' \<and> (l \<longrightarrow> ins' = []) \<and> items_of c' = items_of c"
proof (cases "(l \<and> ins \<noteq> []) \<or> length ins \<ge> batch_limit")
  case False
  then show ?thesis using run inv by (auto simp: send_inserts_def)
next
  case True
  have sub: "set ins \<subseteq> set Y" using wb_invD(7)[OF inv] by simp
  define g where "g = (\<lambda>it :: 'k \<times> nat. case data (states p0 (snd it)) of Some (CuInsert am) \<Rightarrow> am | _ \<Rightarrow> undefined)"
  have g: "data (states p0 i) = Some (CuInsert (g (k, i)))" if "(k, i) \<in> set ins" for k i
    using wb_invD(9)[OF inv that] by (auto simp: g_def)
  have st: "\<exists>v. m k = Some v \<and> represents A fld (g (k, i)) v \<and> pk v = k" if "(k, i) \<in> set ins" for k i
  proof -
    have "(k, i) \<in> set (Y @ hand)" using that sub by auto
    from wb_invD(4)[OF inv this] obtain u where u: "data (states p0 i) = Some u"
      "stands_for A fld pk prim k u (R0 k) (m k)" by blast
    then show ?thesis using g[OF that] by (auto simp: stands_for_def)
  qed
  define f where "f = (\<lambda>it :: 'k \<times> nat. the (m (fst it)))"
  have f: "pk (f it) = fst it" "m (fst it) = Some (f it)" "represents A fld (g it) (f it)" if "it \<in> set ins" for it
    using st[of "fst it" "snd it"] that by (auto simp: f_def)
  have col: "collect insert_am ins c = (Ok (map g ins), c)"
    by (rule collect_inserts) (use wb_invD(2)[OF inv] g in auto)
  obtain u where im: "or_insert_many B (map g ins) t = (Ok u, t')" and c': "c' = items_drop ins c" "ins' = []"
    using run True by (auto simp: send_inserts_def col on_tx_def split: prod.splits res.splits)
  have "list_all2 (represents A fld) (map g ins) (map f ins)"
    using f(3) by (simp add: list_all2_conv_all_nth)
  from orm_ok_insert(3)[OF orm_okD(4)[OF orm] im this]
  have rt: "RT t' = RT t ++ map_of (map (\<lambda>v. (pk v, v)) (map f ins))" .
  have mo: "map_of (map (\<lambda>v. (pk v, v)) (map f ins)) k = (if k \<in> fst ` set ins then m k else None)" for k
    by (rule map_of_keyed) (use f in auto)
  have some: "k \<in> fst ` set ins \<Longrightarrow> m k \<noteq> None" for k using f(2) by auto
  have "RT t' k = (if k \<in> fst ` set ins then m k else RT t k)" for k
    unfolding rt map_add_def mo using some[of k] by (cases "k \<in> fst ` set ins"; cases "m k"; simp)
  from wb_inv_sent[OF inv, of ins "[]" dels, OF _ _ _ this] c' show ?thesis by simp
qed

lemma send_deletes_wb_inv:
  assumes inv: "wb_inv p0 R0 m Y hand ins dels t c" and run: "send_deletes T B l dels t c = (Ok (t', dels'), c')"
  shows "wb_inv p0 R0 m Y hand ins dels' t' c' \<and> (l \<longrightarrow> dels' = []) \<and> items_of c' = items_of c"
proof (cases "(l \<and> dels \<noteq> []) \<or> length dels \<ge> batch_limit")
  case False
  then show ?thesis using run inv by (auto simp: send_deletes_def)
next
  case True
  have ne: "dels \<noteq> []" using True by (auto simp: batch_limit_def)
  have sub: "set dels \<subseteq> set Y" using wb_invD(7)[OF inv] by simp
  have st: "m k = None \<and> prim k" if "(k, i) \<in> set dels" for k i
  proof -
    have "(k, i) \<in> set (Y @ hand)" using that sub by auto
    from wb_invD(4)[OF inv this] obtain u where u: "data (states p0 i) = Some u"
      "stands_for A fld pk prim k u (R0 k) (m k)" by blast
    moreover have "data (states p0 i) = Some CuDelete" using wb_invD(10)[OF inv that] .
    ultimately show ?thesis by (simp add: stands_for_def)
  qed
  have col: "collect delete_key dels c = (Ok (map fst dels), c)"
    by (rule collect_deletes) (use wb_invD(2,10)[OF inv] in auto)
  have "map fst dels \<noteq> []" "\<forall>k \<in> set (map fst dels). prim k" using ne st by auto
  then obtain ds where ds: "dcc_delete_many_condition T (map fst dels) = AnyOf ds" "ds \<noteq> []"
    "\<And>v. cond_matches fld (AnyOf ds) v \<longleftrightarrow> pk v \<in> set (map fst dels)"
    using del unfolding delete_condition_ok_def by meson
  obtain u where im: "or_delete_many B (AnyOf ds) t = (Ok u, t')" and c': "c' = items_drop dels c" "dels' = []"
    using run True by (auto simp: send_deletes_def col ds(1) on_tx_def split: prod.splits res.splits)
  have none: "k \<in> fst ` set dels \<Longrightarrow> m k = None" for k using st by auto
  have "RT t' k = (case RT t k of None \<Rightarrow> None | Some v \<Rightarrow> if pk v \<in> fst ` set dels then None else Some v)" for k
    unfolding orm_ok_delete[OF orm_okD(6)[OF orm] im ds(2)] ds(3) set_map by (rule refl)
  moreover have "RT t k = Some v \<Longrightarrow> pk v = k" for k v by (rule orm_ok_keyed[OF orm_okD(8)[OF orm]])
  ultimately have "RT t' k = (if k \<in> fst ` set dels then m k else RT t k)" for k
    using none[of k] by (cases "RT t k") auto
  from wb_inv_sent[OF inv, of dels ins "[]", OF _ _ _ this] c' show ?thesis by simp
qed

definition pool_stands :: "('k, 'am cache_updates) pool \<Rightarrow> ('k \<rightharpoonup> 'v) \<Rightarrow> ('k \<rightharpoonup> 'v) \<Rightarrow> bool" where
  "pool_stands p R m \<longleftrightarrow> (\<forall>k i u. pool_get p k = Some i \<longrightarrow> data (states p i) = Some u \<longrightarrow>
     stands_for A fld pk prim k u (R k) (m k))"

text \<open>The next item: from the iterator into the hand, and from there into the right place.\<close>

lemma wb_inv_next:
  assumes inv: "wb_inv p0 R0 m Y [] ins dels t c" and nx: "iter_next c = (item, c1)"
    and own: "pool_own p0" and st: "pool_stands p0 R0 m"
    and future: "distinct (map fst (Y @ items_of c))"
  shows "wb_inv p0 R0 m Y (case item of None \<Rightarrow> [] | Some it \<Rightarrow> [it]) ins dels t c1 \<and> ctx_backend c1 = ctx_backend c \<and>
    items_of c = (case item of None \<Rightarrow> [] | Some it \<Rightarrow> it # items_of c1)"
proof -
  have spec: "ctx_backend c1 = ctx_backend c" "worked (ctx_iter c1) = worked (ctx_iter c)"
    "guards_ok (ctx_pool c1) (todo c1)" using iter_next_spec[OF nx wb_invD(3)[OF inv]] by simp_all
  have dat: "data (states (ctx_pool c1) i) = data (states p0 i)" for i
    using iter_next_spec[OF nx wb_invD(3)[OF inv]] wb_invD(2)[OF inv] by (cases item) auto
  have fl: "flush_inv p0 ((case item of None \<Rightarrow> [] | Some it \<Rightarrow> [it]) @ ins @ dels) c1"
    using iter_next_inv[OF nx wb_invD(1)[OF inv]] by (cases item) auto
  have io: "items_of c = (case item of None \<Rightarrow> [] | Some it \<Rightarrow> it # items_of c1)"
    using iter_next_spec[OF nx wb_invD(3)[OF inv]] by (cases item) auto
  have hand: "\<exists>u. data (states p0 i) = Some u \<and> stands_for A fld pk prim k u (R0 k) (m k)" if "item = Some (k, i)" for k i
  proof -
    have "pool_get p0 k = Some i" using flush_inv_guard[OF fl, of k i] that by simp
    moreover have "data (states p0 i) \<noteq> None"
      using iter_next_spec[OF nx wb_invD(3)[OF inv]] that wb_invD(2)[OF inv] by simp
    ultimately show ?thesis using st unfolding pool_stands_def by blast
  qed
  have "distinct (map fst (Y @ (case item of None \<Rightarrow> [] | Some it \<Rightarrow> [it])))"
    using future io wb_invD(5)[OF inv] by (cases item) auto
  with fl dat spec hand inv io show ?thesis
    unfolding wb_inv_def by (cases item) auto
qed

lemma wb_inv_hand_new:
  assumes "wb_inv p0 R0 m Y [it] ins dels t c"
  shows "it \<notin> set Y" "fst it \<notin> fst ` set Y" "distinct (map fst (Y @ [it]))"
  using wb_invD(5)[OF assms] by auto

lemma wb_inv_take:
  assumes inv: "wb_inv p0 R0 m Y [it] ins dels t c"
    and new: "mset (ins' @ dels') = mset (it # ins @ dels)"
    and kind: "\<And>k i. (k, i) \<in> set ins' \<Longrightarrow> \<exists>am. data (states p0 i) = Some (CuInsert am)"
      "\<And>k i. (k, i) \<in> set dels' \<Longrightarrow> data (states p0 i) = Some CuDelete"
  shows "wb_inv p0 R0 m (Y @ [it]) [] ins' dels' t c"
proof -
  have sets: "set (ins' @ dels') = set (it # ins @ dels)" using new by (metis set_mset_mset)
  have nit: "it \<notin> set Y" by (rule wb_inv_hand_new[OF inv])
  have Y: "set (Y @ [it]) - set (ins' @ dels') = set Y - set (ins @ dels)"
    unfolding sets using nit by auto
  have "distinct (it # ins @ dels)" using nit wb_invD(6,7)[OF inv] by auto
  then have "distinct (ins' @ dels')" using new by (metis mset_eq_imp_distinct_iff)
  moreover have "set (ins' @ dels') \<subseteq> set (Y @ [it])" unfolding sets using wb_invD(7)[OF inv] by auto
  moreover have "flush_inv p0 ([] @ ins' @ dels') c"
    by (rule flush_inv_perm[OF wb_invD(1)[OF inv]]) (use new in simp)
  moreover have "\<forall>(k, i) \<in> set (Y @ [it] @ []). \<exists>u. data (states p0 i) = Some u \<and> stands_for A fld pk prim k u (R0 k) (m k)"
    using wb_invD(4)[OF inv] by fastforce
  ultimately show ?thesis
    unfolding wb_inv_def Y using wb_invD(2,3,8,11)[OF inv] wb_inv_hand_new[OF inv] kind by auto
qed

lemma wb_inv_update:
  assumes inv: "wb_inv p0 R0 m Y [it] ins dels t c" and d: "data (states p0 (snd it)) = Some (CuUpdate am)"
    and up: "or_update B am t = (Ok u, t')"
  shows "wb_inv p0 R0 m (Y @ [it]) [] ins dels t' (item_drop it c) \<and> items_of (item_drop it c) = items_of c"
proof -
  note nit = wb_inv_hand_new[OF inv]
  have ii: "it \<notin> set (ins @ dels)" using nit wb_invD(7)[OF inv] by auto
  have Y: "set (Y @ [it]) - set (ins @ dels) = insert it (set Y - set (ins @ dels))" using ii by auto
  have "\<exists>u. data (states p0 (snd it)) = Some u \<and> stands_for A fld pk prim (fst it) u (R0 (fst it)) (m (fst it))"
    using wb_invD(4)[OF inv, of "fst it" "snd it"] by simp
  then obtain r w where rw: "R0 (fst it) = Some r" "m (fst it) = Some w" "represents A fld am w" "patches A fld am r w" "pk w = fst it"
    using d by (auto simp: stands_for_def)
  have "RT t (fst it) = Some r" using wb_invD(11)[OF inv, of "fst it"] nit(2) rw(1) by auto
  with orm_ok_update[OF orm_okD(5)[OF orm] up rw(3)] rw have rt: "RT t' = (RT t)(fst it \<mapsto> w)" by auto
  have ne: "data (states (ctx_pool c) (snd it)) \<noteq> None" using wb_invD(2)[OF inv] d by simp
  have drop: "ctx_pool (item_drop it c) = ctx_pool c" "worked (ctx_iter (item_drop it c)) = worked (ctx_iter c) @ [it]"
    using ne by (simp_all add: item_drop_def)
  have "flush_inv p0 ([] @ ins @ dels) (item_drop it c)" using item_drop_inv wb_invD(1)[OF inv] by simp
  moreover have "RT t' k = (if k \<in> fst ` (set (Y @ [it]) - set (ins @ dels)) then m k else R0 k)" for k
    unfolding Y image_insert using wb_invD(11)[OF inv, of k] rt rw(2) by simp
  moreover have "set (worked (ctx_iter (item_drop it c))) = set (Y @ [it]) - set (ins @ dels)"
    unfolding Y using wb_invD(8)[OF inv] drop by simp
  moreover have "set (ins @ dels) \<subseteq> set (Y @ [it])" using wb_invD(7)[OF inv] by auto
  moreover have "\<forall>(k, i) \<in> set (Y @ [it] @ []). \<exists>u. data (states p0 i) = Some u \<and> stands_for A fld pk prim k u (R0 k) (m k)"
    using wb_invD(4)[OF inv] by fastforce
  ultimately show ?thesis
    unfolding wb_inv_def items_of_def drop todo_item_drop using wb_invD(2,3,6,9,10)[OF inv] nit by auto
qed

lemma wb_step_spec:
  assumes inv: "wb_inv p0 R0 m Y [] ins dels t c" and run: "wb_step T B (ins, dels, t) c = (Ok out, c')"
    and own: "pool_own p0" and st: "pool_stands p0 R0 m"
    and future: "Y @ items_of c = its" "distinct (map fst its)"
  shows "case out of Inl t' \<Rightarrow> wb_inv p0 R0 m its [] [] [] t' c'
    | Inr (ins', dels', t') \<Rightarrow> \<exists>it. wb_inv p0 R0 m (Y @ [it]) [] ins' dels' t' c' \<and> (Y @ [it]) @ items_of c' = its"
proof -
  obtain item c1 where nx: "iter_next c = (item, c1)" by fastforce
  define hand where "hand = (case item of None \<Rightarrow> [] | Some it \<Rightarrow> [it])"
  have inv1: "wb_inv p0 R0 m Y hand ins dels t c1" "items_of c = (case item of None \<Rightarrow> [] | Some it \<Rightarrow> it # items_of c1)"
    using wb_inv_next[OF inv nx own st] future by (auto simp: hand_def)
  obtain t1 ins1 c2 where s1: "send_inserts B (item = None) ins t c1 = (Ok (t1, ins1), c2)"
    and run2: "bnd (on_err (send_deletes T B (item = None) dels t1) (items_drop (hand @ ins1 @ dels))) (\<lambda>(t2, deletes1).
      case item of
        None \<Rightarrow> ret (Inl t2)
      | Some it \<Rightarrow>
          bnd (on_err (item_update it) (items_drop (it # ins1 @ deletes1))) (\<lambda>upd. case upd of
            CuInsert _ \<Rightarrow> ret (Inr (ins1 @ [it], deletes1, t2))
          | CuUpdate am \<Rightarrow>
              bnd (on_err (on_tx (or_update B am) t2) (items_drop (it # ins1 @ deletes1))) (\<lambda>t3.
              bnd (modify (item_drop it)) (\<lambda>_.
              ret (Inr (ins1, deletes1, t3))))
          | CuDelete \<Rightarrow> ret (Inr (ins1, deletes1 @ [it], t2)))) c2 = (Ok out, c')"
    using run by (auto simp: wb_step_def nx Let_def hand_def bnd_Ok_iff on_err_Ok_iff)
  note i2 = send_inserts_wb_inv[OF inv1(1) s1]
  obtain t2 dels1 c3 where s2: "send_deletes T B (item = None) dels t1 c2 = (Ok (t2, dels1), c3)"
    and run3: "(case item of
        None \<Rightarrow> ret (Inl t2)
      | Some it \<Rightarrow>
          bnd (on_err (item_update it) (items_drop (it # ins1 @ dels1))) (\<lambda>upd. case upd of
            CuInsert _ \<Rightarrow> ret (Inr (ins1 @ [it], dels1, t2))
          | CuUpdate am \<Rightarrow>
              bnd (on_err (on_tx (or_update B am) t2) (items_drop (it # ins1 @ dels1))) (\<lambda>t3.
              bnd (modify (item_drop it)) (\<lambda>_.
              ret (Inr (ins1, dels1, t3))))
          | CuDelete \<Rightarrow> ret (Inr (ins1, dels1 @ [it], t2)))) c3 = (Ok out, c')"
    using run2 by (auto simp: bnd_Ok_iff on_err_Ok_iff)
  note i3 = send_deletes_wb_inv[OF conjunct1[OF i2] s2]
  have c3: "items_of c3 = items_of c1" using i2 i3 by simp
  show ?thesis
  proof (cases item)
    case None
    then show ?thesis using run3 i2 i3 inv1(2) future by (auto simp: hand_def)
  next
    case (Some it)
    obtain u where u: "data (states p0 (snd it)) = Some u"
      using wb_invD(4)[OF inv1(1), of "fst it" "snd it"] by (auto simp: hand_def Some)
    have up: "item_update it c3 = (Ok u, c3)"
      using u wb_invD(2)[OF conjunct1[OF i3]] by (simp add: item_update_def)
    have up': "bnd (on_err (item_update it) g) f c3 = f u c3"
      for g and f :: "'am cache_updates \<Rightarrow> (('k, 'am cache_updates, 'd) flush_ctx, 'b sim_error, 't + ('k, 't) wb_state) prog"
      by (rule bnd_simps(1), rule on_err_simps(1), rule up)
    have i4: "wb_inv p0 R0 m Y [it] ins1 dels1 t2 c3" using i3 by (simp add: hand_def Some)
    have its: "(Y @ [it]) @ items_of c3 = its" using future(1) inv1(2) c3 Some by simp
    show ?thesis
    proof (cases u)
      case (CuInsert am)
      then have "out = Inr (ins1 @ [it], dels1, t2)" "c' = c3"
        using run3 by (simp_all add: Some up')
      moreover have "wb_inv p0 R0 m (Y @ [it]) [] (ins1 @ [it]) dels1 t2 c3"
        by (rule wb_inv_take[OF i4]) (use wb_invD(9,10)[OF i4] u CuInsert in auto)
      ultimately show ?thesis using its by (auto simp del: split_paired_Ex intro!: exI[of _ it])
    next
      case CuDelete
      then have "out = Inr (ins1, dels1 @ [it], t2)" "c' = c3"
        using run3 by (simp_all add: Some up')
      moreover have "wb_inv p0 R0 m (Y @ [it]) [] ins1 (dels1 @ [it]) t2 c3"
        by (rule wb_inv_take[OF i4]) (use wb_invD(9,10)[OF i4] u CuDelete in auto)
      ultimately show ?thesis using its by (auto simp del: split_paired_Ex intro!: exI[of _ it])
    next
      case (CuUpdate am)
      then obtain t3 x where "or_update B am t2 = (Ok x, t3)" "out = Inr (ins1, dels1, t3)" "c' = item_drop it c3"
        using run3 by (auto simp: Some up' bnd_Ok_iff on_err_Ok_iff on_tx_def split: prod.splits res.splits)
      with wb_inv_update[OF i4, of am x t3] u CuUpdate its show ?thesis by (auto simp del: split_paired_Ex intro!: exI[of _ it])
    qed
  qed
qed

lemma wb_loop_spec:
  assumes "wb_inv p0 R0 m Y [] ins dels t c" "wb_loop T B (ins, dels, t) c = (r, c')"
    and own: "pool_own p0" and st: "pool_stands p0 R0 m"
    and "Y @ items_of c = its" "distinct (map fst its)"
  shows "same_data c c' \<and> (\<forall>t'. r = Ok t' \<longrightarrow> wb_inv p0 R0 m its [] [] [] t' c')"
  using assms(1,2,5,6)
proof (induction "length (todo c)" arbitrary: Y ins dels t c rule: less_induct)
  case less
  obtain r1 c1 where run: "wb_step T B (ins, dels, t) c = (r1, c1)" by fastforce
  have same: "same_data c c1" by (rule wb_step_same[OF run wb_invD(3)[OF less.prems(1)]])
  note eq = less.prems(2)[unfolded wb_loop.simps[of T B "(ins, dels, t)" c] run]
  show ?case
  proof (cases r1)
    case (Ok out)
    note spec = wb_step_spec[OF less.prems(1) run[unfolded Ok] own st less.prems(3,4)]
    show ?thesis
    proof (cases out)
      case (Inl t')
      then have "r = Ok t'" "c' = c1" using eq Ok by auto
      then show ?thesis using spec same Inl by simp
    next
      case (Inr st')
      obtain ins' dels' t' where st': "st' = (ins', dels', t')" by (cases st')
      obtain it where it: "wb_inv p0 R0 m (Y @ [it]) [] ins' dels' t' c1" "(Y @ [it]) @ items_of c1 = its"
        using spec Inr st' by auto
      have lt: "length (todo c1) < length (todo c)" using wb_step_todo run Ok Inr by blast
      have "wb_loop T B (ins', dels', t') c1 = (r, c')" using eq Ok Inr st' by simp
      from less.hyps[OF lt it(1) this it(2) less.prems(4)] same same_data_trans show ?thesis by blast
    qed
  qed (use eq same in auto)
qed

subsection \<open>The whole write-back\<close>

lemma wbdc_write_back_spec:
  assumes start: "wb_start p0 c" and own: "pool_own p0" and st: "pool_stands p0 (RD (ctx_backend c)) m"
    and run: "wbdc_write_back T B c = (r, c')"
  shows "pool_get (ctx_pool c') = pool_get (ctx_pool c) \<and>
    (if r = Ok () then
       (\<forall>k. RD (ctx_backend c') k = (if k \<in> fst ` set (items_of c) then m k else RD (ctx_backend c) k)) \<and>
       (\<forall>i. data (states (ctx_pool c') i) = (if i \<in> snd ` set (items_of c) then None else data (states p0 i)))
     else RD (ctx_backend c') = RD (ctx_backend c) \<and> (\<forall>i. data (states (ctx_pool c') i) = data (states p0 i)))"
proof -
  have dat: "data (states (ctx_pool c) i) = data (states p0 i)" for i using start by (simp add: wb_start_def)
  obtain r1 d1 where con: "or_connection B (ctx_backend c) = (r1, d1)" by fastforce
  have rd1: "RD d1 = RD (ctx_backend c)" by (rule orm_ok_connection[OF orm_okD(2)[OF orm] con])
  obtain r2 d2 where beg: "or_begin B d1 = (r2, d2)" by fastforce
  note begin_spec = orm_ok_begin[OF orm_okD(3)[OF orm] beg]
  have rd2: "RD d2 = RD (ctx_backend c)" using begin_spec(1) rd1 by simp
  show ?thesis
  proof (cases "r1 = Ok () \<and> (\<exists>t. r2 = Ok t)")
    case False
    then have "c' = c\<lparr>ctx_backend := ctx_backend c'\<rparr>" "RD (ctx_backend c') = RD (ctx_backend c)" "r \<noteq> Ok ()"
      using run con beg rd1 rd2
      by (auto simp: wbdc_write_back_def bnd_def ctx_db_def on_db_def split: prod.splits res.splits)
    moreover have "ctx_pool c' = ctx_pool c" using calculation(1) by (metis flush_ctx.select_convs(1) flush_ctx.surjective flush_ctx.update_convs(3))
    ultimately show ?thesis using dat by simp
  next
    case True
    then obtain t where r2: "r2 = Ok t" and r1: "r1 = Ok ()" by blast
    define c2 where "c2 = c\<lparr>ctx_backend := d2\<rparr>"
    have rt: "RT t = RD (ctx_backend c)" using begin_spec(2) r2 rd1 by simp
    have io: "items_of c2 = items_of c" by (simp add: c2_def items_of_def todo_def)
    have inv: "wb_inv p0 (RD (ctx_backend c)) m [] [] [] [] t c2"
      using start rt by (auto simp: wb_inv_def wb_start_def c2_def todo_def)
    obtain r3 c3 where loop: "wb_loop T B ([], [], t) c2 = (r3, c3)" by fastforce
    have dist: "distinct (map fst (items_of c))"
      using start items_of_keys_distinct by (auto simp: wb_start_def)
    note spec = wb_loop_spec[OF inv loop own st, of "items_of c"]
    have same: "same_data c2 c3" using spec io dist by simp
    have rest: "bnd (wb_loop T B ([], [], t)) (\<lambda>transaction. bnd (ctx_db (or_commit B transaction)) (\<lambda>_. modify confirm_all)) c2 = (r, c')"
      using run con beg r1 r2 by (simp add: wbdc_write_back_def ctx_db_def on_db_def c2_def)
    show ?thesis
    proof (cases "\<exists>t'. r3 = Ok t'")
      case False
      then have "c' = c3" "r \<noteq> Ok ()" using rest loop by (cases r3; auto)+
      then show ?thesis using same rd2 dat by (simp add: same_data_def c2_def)
    next
      case True
      then obtain t' where r3: "r3 = Ok t'" by blast
      have fin: "wb_inv p0 (RD (ctx_backend c)) m (items_of c) [] [] [] t' c3"
        using spec io dist r3 by simp
      obtain r4 d4 where com: "or_commit B t' (ctx_backend c3) = (r4, d4)" by fastforce
      note commit_spec = orm_ok_commit[OF orm_okD(3)[OF orm] com]
      have b3: "ctx_backend c3 = d2" "pool_get (ctx_pool c3) = pool_get (ctx_pool c)"
        using same by (simp_all add: same_data_def c2_def)
      show ?thesis
      proof (cases "r4 = Ok ()")
        case True
        then have c': "c' = confirm_all (c3\<lparr>ctx_backend := d4\<rparr>)" "r = Ok ()"
          using rest loop r3 com by (simp_all add: ctx_db_def on_db_def)
        have w: "set (worked (ctx_iter c3)) = set (items_of c)" using wb_invD(8)[OF fin] by simp
        show ?thesis
          using commit_spec True wb_invD(11)[OF fin] wb_invD(2)[OF fin] w b3(2)
          by (simp add: c' confirm_all_reads)
      next
        case False
        then have c': "c' = c3\<lparr>ctx_backend := d4\<rparr>" "r \<noteq> Ok ()"
          using rest loop r3 com by (cases r4; auto simp: ctx_db_def on_db_def)+
        then show ?thesis using False commit_spec b3 rd2 wb_invD(2)[OF fin] by simp
      qed
    qed
  qed
qed

end

end
