(* ===== verification/Tables.thy ===== *)
theory Tables
  imports WriteBehind DCCommon
begin

text \<open>
  From the table to the cache: a data controller whose methods are those of \<open>DCCommon\<close>, over a
  table with a primary key only and the flag \<open>IMMUTABLE\<close>, keeps the contract of \<open>write_behind\<close>.
\<close>

context table_controller
begin

lemma pending_pool_stands:
  assumes "view_holds RD (update_view A fld pk prim) m (pending p) d"
  shows "pool_stands p (RD d) m"
  unfolding pool_stands_def
proof (intro allI impI)
  fix k i u assume "pool_get p k = Some i" "data (states p i) = Some u"
  then have "pending p k = Some u" by (simp add: pending_def)
  then show "stands_for A fld pk prim k u (RD d k) (m k)"
    using assms by (auto simp: view_holds_def update_view_def split: option.splits dest: spec[of _ k])
qed

lemma write_back_pending:
  assumes start: "wb_start p0 c" and own: "pool_own p0" and st: "pool_stands p0 (RD (ctx_backend c)) m"
    and run: "wbdc_write_back T B c = (r, c')"
  shows "pending (ctx_pool c') = (if r = Ok () then pending p0 |` (- fst ` set (items_of c)) else pending p0)"
proof
  fix k
  have inv: "flush_inv p0 [] c" and g: "guards_ok (ctx_pool c) (todo c)" using start by (simp_all add: wb_start_def)
  have get: "pool_get (ctx_pool c) = pool_get p0" using flush_invD(6)[OF inv] .
  note spec = wbdc_write_back_spec[OF start own st run]
  have get': "pool_get (ctx_pool c') = pool_get p0" using spec get by simp
  have its: "(k, i) \<in> set (items_of c) \<Longrightarrow> pool_get p0 k = Some i" for k i
    using items_of_distinct[OF inv g] by auto
  have "i \<in> snd ` set (items_of c) \<longleftrightarrow> k \<in> fst ` set (items_of c)" if "pool_get p0 k = Some i" for i
    using that its own by (force simp: pool_own_def)
  then show "pending (ctx_pool c') k = (if r = Ok () then pending p0 |` (- fst ` set (items_of c)) else pending p0) k"
    using spec get' its by (cases "pool_get p0 k") (auto simp: pending_def restrict_map_def)
qed

lemma write_back_contract:
  assumes start: "wb_start p0 c" and own: "pool_own p0"
    and view: "view_holds RD (update_view A fld pk prim) m (pending (ctx_pool c)) (ctx_backend c)"
    and run: "wbdc_write_back T B c = (r, c')"
  shows "view_holds RD (update_view A fld pk prim) m (pending (ctx_pool c')) (ctx_backend c') \<and>
    (r = Ok () \<longrightarrow> (\<forall>k \<in> fst ` set (items_of c). pending (ctx_pool c') k = None) \<and>
       (\<forall>k. pending (ctx_pool c) k = None \<longrightarrow> pending (ctx_pool c') k = None))"
proof -
  have inv: "flush_inv p0 [] c" using start by (simp add: wb_start_def)
  have pen: "pending (ctx_pool c) = pending p0"
    using start by (intro pending_states flush_invD(6)[OF inv]) (simp add: wb_start_def)
  have st: "pool_stands p0 (RD (ctx_backend c)) m" using pending_pool_stands view pen by simp
  note spec = wbdc_write_back_spec[OF start own st run] and p = write_back_pending[OF start own st run]
  have "update_view A fld pk prim k (pending (ctx_pool c') k) (RD (ctx_backend c') k) (m k)" for k
  proof -
    have v: "update_view A fld pk prim k (pending p0 k) (RD (ctx_backend c) k) (m k)"
      using view by (simp add: view_holds_def pen)
    show ?thesis
    proof (cases "r = Ok () \<and> k \<in> fst ` set (items_of c)")
      case True
      then show ?thesis using spec p by (simp add: update_view_def)
    next
      case False
      then have "RD (ctx_backend c') k = RD (ctx_backend c) k" "pending (ctx_pool c') k = pending p0 k"
        using spec p by (simp_all split: if_splits)
      then show ?thesis using v by simp
    qed
  qed
  then show ?thesis using p by (simp add: view_holds_def pen restrict_map_def)
qed

text \<open>The five methods of an immutable manager without secondary keys.\<close>

lemma write_behind_manager:
  fixes C :: "('k, 'v, 'am cache_updates, 'b sim_error, 'm, 'd) conf"
  assumes mok: "moka_ok (mk C)" and obs: "observers C = []" and prims: "\<And>k. prim k" and imm: "dcc_immutable T"
    and find: "\<And>k d r d'. dc_get_for_key (dc C) k d = (r, d') \<Longrightarrow> RD d' = RD d \<and>
      (r = Wait \<or> (\<exists>e. r = Fail e) \<or> r = Ok (RD d k))"
    and dcs: "dc_write_back (dc C) = wbdc_write_back T B"
      "dc_on_new (dc C) = (\<lambda>_ v. wbdbc_on_new T (am_from A v))"
      "dc_on_delete (dc C) = (\<lambda>_ upd. wbdc_on_delete T upd)"
      "dc_on_change (dc C) = (\<lambda>_ v old prev. wbdc_on_change A T v old prev)"
      "dc_primary_key_of (dc C) = pk"
      "dc_secondary_keys_of (dc C) = default_secondary_keys_of"
      "dc_get_primary_key_for (dc C) = default_get_primary_key_for"
      "dc_on_access (dc C) = default_on_access"
  shows "write_behind C RD (update_view A fld pk prim)"
proof unfold_locales
  show "ctx_safe (dc_write_back (dc C))" by (simp add: dcs wbdc_write_back_safe)
  show "ctx_safe (ob_on_flush ob)" if "ob \<in> set (observers C)" for ob using that obs by simp
  show "moka_ok (mk C)" by (rule mok)
  show "dc_secondary_keys_of (dc C) v = []" for v by (simp add: dcs default_secondary_keys_of_def)
  show "dc_get_primary_key_for (dc C) k d = (Ok (Some k), d)" for k d
    by (simp add: dcs default_get_primary_key_for_def)
  show "update_view A fld pk prim k None ro x = (x = ro)" for k ro x by (simp add: update_view_def)
  show "RD d' = RD d \<and> (r = Wait \<or> (\<exists>e. r = Fail e) \<or> r = Ok (RD d k))"
    if "dc_get_for_key (dc C) k d = (r, d')" for k d r d' by (rule find[OF that])
  show "\<exists>resp. dc_on_new (dc C) (dc_primary_key_of (dc C) v) v d = (Ok resp, d) \<and> resp_op resp = DcInsert \<and>
      update_view A fld pk prim (dc_primary_key_of (dc C) v) (resp_update resp) None (Some v)" for v d
    using on_new_view[of v] prims by (simp add: dcs wbdbc_on_new_def imm wbdc_response_def)
  show "\<exists>resp. dc_on_change (dc C) k v old prev d = (Ok resp, d) \<and>
        (resp_op resp = DcInsert \<or> resp_op resp = DcNop \<and> v = old) \<and>
        update_view A fld pk prim k (resp_update resp) ro (Some v)"
    if "dc_primary_key_of (dc C) v = k" "dc_primary_key_of (dc C) old = k"
      "update_view A fld pk prim k prev ro (Some old)" for v k old prev ro d
    using on_change_view[OF prims, of v k old prev ro d] that imm by (auto simp: dcs)
  show "\<exists>resp. dc_on_delete (dc C) k prev d = (Ok resp, d) \<and>
      (resp_op resp = DcRevoke \<or> resp_op resp = DcDrop) \<and>
      update_view A fld pk prim k (if resp_op resp = DcDrop then None else resp_update resp) ro None"
    if "update_view A fld pk prim k prev ro x" for k prev ro x d
    using that prims on_delete_view[of k ro] imm
    by (auto simp: dcs wbdc_on_delete_def wbdc_response_def Let_def update_view_def stands_for_def
        split: option.splits cache_updates.splits)
  show "dc_on_access (dc C) k v prev d = (Ok \<lparr>resp_op = DcNop, resp_update = prev\<rparr>, d)" for k v prev d
    by (simp add: dcs default_on_access_def wbdc_response_def)
  show "view_holds RD (update_view A fld pk prim) m (pending (ctx_pool c')) (ctx_backend c') \<and>
      (r = Ok () \<longrightarrow> (\<forall>k \<in> fst ` set (items_of c). pending (ctx_pool c') k = None) \<and>
         (\<forall>k. pending (ctx_pool c) k = None \<longrightarrow> pending (ctx_pool c') k = None))"
    if "wb_start p0 c" "pool_own p0" "view_holds RD (update_view A fld pk prim) m (pending (ctx_pool c)) (ctx_backend c)"
      "dc_write_back (dc C) c = (r, c')" for p0 c m r c'
    using write_back_contract[OF that(1-3)] that(4) by (simp add: dcs)
qed (use obs in simp_all)

end

end
