(* ===== verification/Entities.thy ===== *)
theory Entities
  imports Tables "HOL-Library.Word"
begin

text \<open>
  The models and managers of the simulation, \<open>src/test/simulation/db/entity/*.rs\<close>: for each
  table the record, its columns, its value in each column, the controller parameters and the data
  controller. A signed integer of a model is an \<open>int\<close>, an \<open>f64\<close> is its bit pattern, a
  \<open>Uuid\<close> is a 128-bit word; no manager computes with them.
\<close>

section \<open>Values of columns\<close>

text \<open>\<open>sea_orm::Value\<close>, as far as the models use it, and \<open>OrderStatus\<close> with its stored text.\<close>

datatype db_value =
    ValInt "int option"
  | ValSmallInt "int option"
  | ValBigInt "int option"
  | ValDouble "64 word option"
  | ValString "string option"
  | ValUuid "128 word option"

datatype order_status = New | Backordered | Recheck | Pending | Shipped | Refunded

definition order_status_value :: "order_status \<Rightarrow> string" where
  "order_status_value st = (case st of
       New \<Rightarrow> ''New''
     | Backordered \<Rightarrow> ''Backordered''
     | Recheck \<Rightarrow> ''Recheck''
     | Pending \<Rightarrow> ''Pending''
     | Shipped \<Rightarrow> ''Shipped''
     | Refunded \<Rightarrow> ''Refunded'')"

definition order_status_of :: "string \<Rightarrow> order_status" where
  "order_status_of s = (if s = ''New'' then New else if s = ''Backordered'' then Backordered
     else if s = ''Recheck'' then Recheck else if s = ''Pending'' then Pending
     else if s = ''Shipped'' then Shipped else Refunded)"

lemma order_status_roundtrip [simp]: "order_status_of (order_status_value st) = st"
  by (cases st) (simp_all add: order_status_value_def order_status_of_def)

definition val_int :: "db_value \<Rightarrow> int option" where
  "val_int x = (case x of ValInt i \<Rightarrow> i | ValSmallInt i \<Rightarrow> i | ValBigInt i \<Rightarrow> i | _ \<Rightarrow> None)"

definition val_string :: "db_value \<Rightarrow> string" where
  "val_string x = (case x of ValString (Some s) \<Rightarrow> s | _ \<Rightarrow> [])"

definition val_double :: "db_value \<Rightarrow> 64 word" where
  "val_double x = (case x of ValDouble (Some f) \<Rightarrow> f | _ \<Rightarrow> 0)"

definition val_uuid :: "db_value \<Rightarrow> 128 word" where
  "val_uuid x = (case x of ValUuid (Some u) \<Rightarrow> u | _ \<Rightarrow> 0)"

lemmas val_defs = val_int_def val_string_def val_double_def val_uuid_def

section \<open>Queries\<close>

text \<open>\<open>Entity::find_by_id(id).one(&db)\<close> and \<open>find().filter(column.eq(x)).one(&db)\<close>.\<close>

definition find_one_by ::
  "('d, 't, 'am, 'c, 'x, 'v, 'b) orm \<Rightarrow> 'c \<Rightarrow> 'x \<Rightarrow> ('d, 'b sim_error, 'v option) prog" where
  "find_one_by B col x =
     bnd (on_db (or_connection B)) (\<lambda>_. on_db (or_find_one B (AnyOf [(col, [x])])))"

lemma answersD: "answers m \<Longrightarrow> m s = (r, s') \<Longrightarrow> (\<exists>a. r = Ok a) \<or> (\<exists>e. r = Fail e)"
  unfolding answers_def by (drule spec[of _ s]) auto

lemma find_one_by_pk:
  assumes orm: "orm_ok B A fld pk RD RT" and pkc: "\<And>v. fld v col = enc (pk v)" and inj: "\<And>k k'. enc k = enc k' \<Longrightarrow> k = k'"
    and run: "find_one_by B col (enc k) d = (r, d')"
  shows "RD d' = RD d \<and> (r = Wait \<or> (\<exists>e. r = Fail e) \<or> r = Ok (RD d k))"
proof -
  obtain r1 d1 where c: "or_connection B d = (r1, d1)" by fastforce
  have d1: "RD d1 = RD d" by (rule orm_ok_connection[OF orm_okD(2)[OF orm] c])
  have a1: "r1 = Ok () \<or> (\<exists>e. r1 = Fail e)"
    using answersD[where m = "or_connection B", OF _ c] orm_okD(1)[OF orm] by (auto simp: orm_answers_def)
  show ?thesis
  proof (cases "r1 = Ok ()")
    case False
    then show ?thesis using run c a1 d1 by (auto simp: find_one_by_def on_db_def bnd_def)
  next
    case True
    define cd where "cd = AnyOf [(col, [enc k])]"
    obtain r2 d2 where f: "or_find_one B cd d1 = (r2, d2)" by fastforce
    note fo = orm_ok_find[OF orm_okD(2)[OF orm] f]
    have m: "cond_matches fld cd v \<longleftrightarrow> pk v = k" for v using pkc inj by (auto simp: cd_def)
    have a2: "(\<exists>x. r2 = Ok x) \<or> (\<exists>e. r2 = Fail e)"
      using answersD[where m = "or_find_one B cd", OF _ f] orm_okD(1)[OF orm] by (simp add: orm_answers_def)
    have ok: "x = RD d k" if "r2 = Ok x" for x
    proof (cases x)
      case None
      then show ?thesis
        using fo(3)[of k] that d1 m orm_ok_keyed[OF orm_okD(7)[OF orm], of d k] by (cases "RD d k") auto
    next
      case (Some v)
      then show ?thesis using fo(2)[of v] that d1 m by auto
    qed
    have run2: "on_db (or_find_one B cd) d1 = (r, d')"
      using run c True by (simp add: find_one_by_def on_db_def cd_def)
    then have "RD d' = RD d" using f fo(1) d1 by (cases r2; simp add: on_db_def)
    moreover have "(\<exists>e. r = Fail e) \<or> r = Ok (RD d k)"
      using a2 ok run2 f by (auto simp: on_db_def)
    ultimately show ?thesis by blast
  qed
qed

section \<open>Products\<close>

record product =
  prod_id :: "int"
  prod_name :: "string"
  prod_price :: "64 word"
  prod_views :: "int"

datatype product_column = ProdId | ProdName | ProdPrice | ProdViews

definition product_field :: "product \<Rightarrow> product_column \<Rightarrow> db_value" where
  "product_field v c = (case c of
       ProdId \<Rightarrow> ValInt (Some (prod_id v))
     | ProdName \<Rightarrow> ValString (Some (prod_name v))
     | ProdPrice \<Rightarrow> ValDouble (Some (prod_price v))
     | ProdViews \<Rightarrow> ValBigInt (Some (prod_views v)))"

definition product_of :: "(product_column \<Rightarrow> db_value) \<Rightarrow> product" where
  "product_of f = \<lparr>prod_id = the (val_int (f ProdId)),
     prod_name = val_string (f ProdName),
     prod_price = val_double (f ProdPrice),
     prod_views = the (val_int (f ProdViews))\<rparr>"

lemma product_of_field [simp]: "product_of (product_field v) = v"
  by (cases v) (simp add: product_of_def product_field_def val_defs)

lemma product_field_inject: "(\<And>c. product_field v c = product_field w c) \<Longrightarrow> v = w"
  by (metis product_of_field ext)

definition product_common :: "(int, product_column, db_value) dc_common" where
  "product_common = \<lparr>
     dcc_columns = [ProdId, ProdName, ProdPrice, ProdViews],
     dcc_delete_many_condition = (\<lambda>keys. AnyOf [(ProdId, map (\<lambda>k. ValInt (Some k)) keys)]),
     dcc_immutable = True\<rparr>"

lemma product_columns: "distinct (dcc_columns product_common)" "set (dcc_columns product_common) = UNIV"
proof -
  show "distinct (dcc_columns product_common)" by (simp add: product_common_def)
  have "c \<in> set (dcc_columns product_common)" for c by (cases c) (simp_all add: product_common_def)
  then show "set (dcc_columns product_common) = UNIV" by blast
qed

lemma product_delete_condition: "delete_condition_ok product_common product_field prod_id (\<lambda>_. True)"
  by (auto simp: delete_condition_ok_def product_common_def product_field_def)

definition product_get_for_key ::
  "('d, 't, 'am, product_column, db_value, product, 'b) orm \<Rightarrow> int \<Rightarrow> ('d, 'b sim_error, product option) prog" where
  "product_get_for_key B k = find_one_by B ProdId (ValInt (Some k))"

definition product_manager ::
  "('d, 't, 'am, product_column, db_value, product, 'b) orm \<Rightarrow> ('am, product_column, db_value, product) am_ops \<Rightarrow>
     (int, product, 'am cache_updates, 'b sim_error, 'd) data_controller" where
  "product_manager B A = \<lparr>
     dc_get_for_key = product_get_for_key B,
     dc_write_back = wbdc_write_back product_common B,
     dc_on_new = (\<lambda>_ v. wbdbc_on_new product_common (am_from A v)),
     dc_on_delete = (\<lambda>_ upd. wbdc_on_delete product_common upd),
     dc_on_change = (\<lambda>_ v old prev. wbdc_on_change A product_common v old prev),
     dc_primary_key_of = prod_id,
     dc_secondary_keys_of = default_secondary_keys_of,
     dc_get_primary_key_for = default_get_primary_key_for,
     dc_is_primary = default_is_primary,
     dc_on_access = default_on_access\<rparr>"

lemma product_table:
  assumes "orm_ok B A product_field prod_id RD RT" "am_ok A product_field"
  shows "table_controller B A product_common product_field prod_id (\<lambda>_. True) RD RT"
  by unfold_locales (use assms product_delete_condition product_columns product_field_inject in blast)+

lemma product_write_behind:
  assumes orm: "orm_ok B A product_field prod_id RD RT" and am: "am_ok A product_field"
    and C: "dc C = product_manager B A" "moka_ok (mk C)" "observers C = []"
  shows "write_behind C RD (update_view A product_field prod_id (\<lambda>_. True))"
proof (rule table_controller.write_behind_manager[OF product_table[OF orm am]])
  show "RD d' = RD d \<and> (r = Wait \<or> (\<exists>e. r = Fail e) \<or> r = Ok (RD d k))"
    if "dc_get_for_key (dc C) k d = (r, d')" for k d r d'
  proof (rule find_one_by_pk[OF orm, where col = ProdId and enc = "\<lambda>k. ValInt (Some k)"])
    show "find_one_by B ProdId (ValInt (Some k)) d = (r, d')"
      using that C(1) by (simp add: product_manager_def product_get_for_key_def)
  qed (simp_all add: product_field_def)
qed (use C in \<open>simp_all add: product_manager_def product_common_def\<close>)

section \<open>Orders\<close>

record order =
  ord_id :: "128 word"
  ord_customer_id :: "int"
  ord_product_id :: "int"
  ord_quantity :: "int"
  ord_status :: "order_status"
  ord_purchased_on :: "int"

datatype order_column = OrdId | OrdCustomerId | OrdProductId | OrdQuantity | OrdStatus | OrdPurchasedOn

definition order_field :: "order \<Rightarrow> order_column \<Rightarrow> db_value" where
  "order_field v c = (case c of
       OrdId \<Rightarrow> ValUuid (Some (ord_id v))
     | OrdCustomerId \<Rightarrow> ValInt (Some (ord_customer_id v))
     | OrdProductId \<Rightarrow> ValInt (Some (ord_product_id v))
     | OrdQuantity \<Rightarrow> ValInt (Some (ord_quantity v))
     | OrdStatus \<Rightarrow> ValString (Some (order_status_value (ord_status v)))
     | OrdPurchasedOn \<Rightarrow> ValInt (Some (ord_purchased_on v)))"

definition order_of :: "(order_column \<Rightarrow> db_value) \<Rightarrow> order" where
  "order_of f = \<lparr>ord_id = val_uuid (f OrdId),
     ord_customer_id = the (val_int (f OrdCustomerId)),
     ord_product_id = the (val_int (f OrdProductId)),
     ord_quantity = the (val_int (f OrdQuantity)),
     ord_status = order_status_of (val_string (f OrdStatus)),
     ord_purchased_on = the (val_int (f OrdPurchasedOn))\<rparr>"

lemma order_of_field [simp]: "order_of (order_field v) = v"
  by (cases v) (simp add: order_of_def order_field_def val_defs)

lemma order_field_inject: "(\<And>c. order_field v c = order_field w c) \<Longrightarrow> v = w"
  by (metis order_of_field ext)

definition order_common :: "(128 word, order_column, db_value) dc_common" where
  "order_common = \<lparr>
     dcc_columns = [OrdId, OrdCustomerId, OrdProductId, OrdQuantity, OrdStatus, OrdPurchasedOn],
     dcc_delete_many_condition = (\<lambda>keys. AnyOf [(OrdId, map (\<lambda>k. ValUuid (Some k)) keys)]),
     dcc_immutable = True\<rparr>"

lemma order_columns: "distinct (dcc_columns order_common)" "set (dcc_columns order_common) = UNIV"
proof -
  show "distinct (dcc_columns order_common)" by (simp add: order_common_def)
  have "c \<in> set (dcc_columns order_common)" for c by (cases c) (simp_all add: order_common_def)
  then show "set (dcc_columns order_common) = UNIV" by blast
qed

lemma order_delete_condition: "delete_condition_ok order_common order_field ord_id (\<lambda>_. True)"
  by (auto simp: delete_condition_ok_def order_common_def order_field_def)

definition order_get_for_key ::
  "('d, 't, 'am, order_column, db_value, order, 'b) orm \<Rightarrow> 128 word \<Rightarrow> ('d, 'b sim_error, order option) prog" where
  "order_get_for_key B k = find_one_by B OrdId (ValUuid (Some k))"

definition order_manager ::
  "('d, 't, 'am, order_column, db_value, order, 'b) orm \<Rightarrow> ('am, order_column, db_value, order) am_ops \<Rightarrow>
     (128 word, order, 'am cache_updates, 'b sim_error, 'd) data_controller" where
  "order_manager B A = \<lparr>
     dc_get_for_key = order_get_for_key B,
     dc_write_back = wbdc_write_back order_common B,
     dc_on_new = (\<lambda>_ v. wbdbc_on_new order_common (am_from A v)),
     dc_on_delete = (\<lambda>_ upd. wbdc_on_delete order_common upd),
     dc_on_change = (\<lambda>_ v old prev. wbdc_on_change A order_common v old prev),
     dc_primary_key_of = ord_id,
     dc_secondary_keys_of = default_secondary_keys_of,
     dc_get_primary_key_for = default_get_primary_key_for,
     dc_is_primary = default_is_primary,
     dc_on_access = default_on_access\<rparr>"

lemma order_table:
  assumes "orm_ok B A order_field ord_id RD RT" "am_ok A order_field"
  shows "table_controller B A order_common order_field ord_id (\<lambda>_. True) RD RT"
  by unfold_locales (use assms order_delete_condition order_columns order_field_inject in blast)+

lemma order_write_behind:
  assumes orm: "orm_ok B A order_field ord_id RD RT" and am: "am_ok A order_field"
    and C: "dc C = order_manager B A" "moka_ok (mk C)" "observers C = []"
  shows "write_behind C RD (update_view A order_field ord_id (\<lambda>_. True))"
proof (rule table_controller.write_behind_manager[OF order_table[OF orm am]])
  show "RD d' = RD d \<and> (r = Wait \<or> (\<exists>e. r = Fail e) \<or> r = Ok (RD d k))"
    if "dc_get_for_key (dc C) k d = (r, d')" for k d r d'
  proof (rule find_one_by_pk[OF orm, where col = OrdId and enc = "\<lambda>k. ValUuid (Some k)"])
    show "find_one_by B OrdId (ValUuid (Some k)) d = (r, d')"
      using that C(1) by (simp add: order_manager_def order_get_for_key_def)
  qed (simp_all add: order_field_def)
qed (use C in \<open>simp_all add: order_manager_def order_common_def\<close>)

section \<open>Sessions\<close>

record session =
  sess_id :: "int"
  sess_customer_id :: "int option"
  sess_expires_on :: "int"

datatype session_column = SessId | SessCustomerId | SessExpiresOn

definition session_field :: "session \<Rightarrow> session_column \<Rightarrow> db_value" where
  "session_field v c = (case c of
       SessId \<Rightarrow> ValBigInt (Some (sess_id v))
     | SessCustomerId \<Rightarrow> ValInt (sess_customer_id v)
     | SessExpiresOn \<Rightarrow> ValInt (Some (sess_expires_on v)))"

definition session_of :: "(session_column \<Rightarrow> db_value) \<Rightarrow> session" where
  "session_of f = \<lparr>sess_id = the (val_int (f SessId)),
     sess_customer_id = val_int (f SessCustomerId),
     sess_expires_on = the (val_int (f SessExpiresOn))\<rparr>"

lemma session_of_field [simp]: "session_of (session_field v) = v"
  by (cases v) (simp add: session_of_def session_field_def val_defs)

lemma session_field_inject: "(\<And>c. session_field v c = session_field w c) \<Longrightarrow> v = w"
  by (metis session_of_field ext)

definition session_common :: "(int, session_column, db_value) dc_common" where
  "session_common = \<lparr>
     dcc_columns = [SessId, SessCustomerId, SessExpiresOn],
     dcc_delete_many_condition = (\<lambda>keys. AnyOf [(SessId, map (\<lambda>k. ValBigInt (Some k)) keys)]),
     dcc_immutable = True\<rparr>"

lemma session_columns: "distinct (dcc_columns session_common)" "set (dcc_columns session_common) = UNIV"
proof -
  show "distinct (dcc_columns session_common)" by (simp add: session_common_def)
  have "c \<in> set (dcc_columns session_common)" for c by (cases c) (simp_all add: session_common_def)
  then show "set (dcc_columns session_common) = UNIV" by blast
qed

lemma session_delete_condition: "delete_condition_ok session_common session_field sess_id (\<lambda>_. True)"
  by (auto simp: delete_condition_ok_def session_common_def session_field_def)

definition session_get_for_key ::
  "('d, 't, 'am, session_column, db_value, session, 'b) orm \<Rightarrow> int \<Rightarrow> ('d, 'b sim_error, session option) prog" where
  "session_get_for_key B k = find_one_by B SessId (ValBigInt (Some k))"

definition session_manager ::
  "('d, 't, 'am, session_column, db_value, session, 'b) orm \<Rightarrow> ('am, session_column, db_value, session) am_ops \<Rightarrow>
     (int, session, 'am cache_updates, 'b sim_error, 'd) data_controller" where
  "session_manager B A = \<lparr>
     dc_get_for_key = session_get_for_key B,
     dc_write_back = wbdc_write_back session_common B,
     dc_on_new = (\<lambda>_ v. wbdbc_on_new session_common (am_from A v)),
     dc_on_delete = (\<lambda>_ upd. wbdc_on_delete session_common upd),
     dc_on_change = (\<lambda>_ v old prev. wbdc_on_change A session_common v old prev),
     dc_primary_key_of = sess_id,
     dc_secondary_keys_of = default_secondary_keys_of,
     dc_get_primary_key_for = default_get_primary_key_for,
     dc_is_primary = default_is_primary,
     dc_on_access = default_on_access\<rparr>"

lemma session_table:
  assumes "orm_ok B A session_field sess_id RD RT" "am_ok A session_field"
  shows "table_controller B A session_common session_field sess_id (\<lambda>_. True) RD RT"
  by unfold_locales (use assms session_delete_condition session_columns session_field_inject in blast)+

lemma session_write_behind:
  assumes orm: "orm_ok B A session_field sess_id RD RT" and am: "am_ok A session_field"
    and C: "dc C = session_manager B A" "moka_ok (mk C)" "observers C = []"
  shows "write_behind C RD (update_view A session_field sess_id (\<lambda>_. True))"
proof (rule table_controller.write_behind_manager[OF session_table[OF orm am]])
  show "RD d' = RD d \<and> (r = Wait \<or> (\<exists>e. r = Fail e) \<or> r = Ok (RD d k))"
    if "dc_get_for_key (dc C) k d = (r, d')" for k d r d'
  proof (rule find_one_by_pk[OF orm, where col = SessId and enc = "\<lambda>k. ValBigInt (Some k)"])
    show "find_one_by B SessId (ValBigInt (Some k)) d = (r, d')"
      using that C(1) by (simp add: session_manager_def session_get_for_key_def)
  qed (simp_all add: session_field_def)
qed (use C in \<open>simp_all add: session_manager_def session_common_def\<close>)

section \<open>Inventory records\<close>

record inventory =
  inv_product_id :: "int"
  inv_stock :: "int"
  inv_handling_days :: "int"

datatype inventory_column = InvProductId | InvStock | InvHandlingDays

definition inventory_field :: "inventory \<Rightarrow> inventory_column \<Rightarrow> db_value" where
  "inventory_field v c = (case c of
       InvProductId \<Rightarrow> ValInt (Some (inv_product_id v))
     | InvStock \<Rightarrow> ValBigInt (Some (inv_stock v))
     | InvHandlingDays \<Rightarrow> ValSmallInt (Some (inv_handling_days v)))"

definition inventory_of :: "(inventory_column \<Rightarrow> db_value) \<Rightarrow> inventory" where
  "inventory_of f = \<lparr>inv_product_id = the (val_int (f InvProductId)),
     inv_stock = the (val_int (f InvStock)),
     inv_handling_days = the (val_int (f InvHandlingDays))\<rparr>"

lemma inventory_of_field [simp]: "inventory_of (inventory_field v) = v"
  by (cases v) (simp add: inventory_of_def inventory_field_def val_defs)

lemma inventory_field_inject: "(\<And>c. inventory_field v c = inventory_field w c) \<Longrightarrow> v = w"
  by (metis inventory_of_field ext)

definition inventory_common :: "(int, inventory_column, db_value) dc_common" where
  "inventory_common = \<lparr>
     dcc_columns = [InvProductId, InvStock, InvHandlingDays],
     dcc_delete_many_condition = (\<lambda>keys. AnyOf [(InvProductId, map (\<lambda>k. ValInt (Some k)) keys)]),
     dcc_immutable = True\<rparr>"

lemma inventory_columns: "distinct (dcc_columns inventory_common)" "set (dcc_columns inventory_common) = UNIV"
proof -
  show "distinct (dcc_columns inventory_common)" by (simp add: inventory_common_def)
  have "c \<in> set (dcc_columns inventory_common)" for c by (cases c) (simp_all add: inventory_common_def)
  then show "set (dcc_columns inventory_common) = UNIV" by blast
qed

lemma inventory_delete_condition: "delete_condition_ok inventory_common inventory_field inv_product_id (\<lambda>_. True)"
  by (auto simp: delete_condition_ok_def inventory_common_def inventory_field_def)

definition inventory_get_for_key ::
  "('d, 't, 'am, inventory_column, db_value, inventory, 'b) orm \<Rightarrow> int \<Rightarrow> ('d, 'b sim_error, inventory option) prog" where
  "inventory_get_for_key B k = find_one_by B InvProductId (ValInt (Some k))"

definition inventory_manager ::
  "('d, 't, 'am, inventory_column, db_value, inventory, 'b) orm \<Rightarrow> ('am, inventory_column, db_value, inventory) am_ops \<Rightarrow>
     (int, inventory, 'am cache_updates, 'b sim_error, 'd) data_controller" where
  "inventory_manager B A = \<lparr>
     dc_get_for_key = inventory_get_for_key B,
     dc_write_back = wbdc_write_back inventory_common B,
     dc_on_new = (\<lambda>_ v. wbdbc_on_new inventory_common (am_from A v)),
     dc_on_delete = (\<lambda>_ upd. wbdc_on_delete inventory_common upd),
     dc_on_change = (\<lambda>_ v old prev. wbdc_on_change A inventory_common v old prev),
     dc_primary_key_of = inv_product_id,
     dc_secondary_keys_of = default_secondary_keys_of,
     dc_get_primary_key_for = default_get_primary_key_for,
     dc_is_primary = default_is_primary,
     dc_on_access = default_on_access\<rparr>"

lemma inventory_table:
  assumes "orm_ok B A inventory_field inv_product_id RD RT" "am_ok A inventory_field"
  shows "table_controller B A inventory_common inventory_field inv_product_id (\<lambda>_. True) RD RT"
  by unfold_locales (use assms inventory_delete_condition inventory_columns inventory_field_inject in blast)+

lemma inventory_write_behind:
  assumes orm: "orm_ok B A inventory_field inv_product_id RD RT" and am: "am_ok A inventory_field"
    and C: "dc C = inventory_manager B A" "moka_ok (mk C)" "observers C = []"
  shows "write_behind C RD (update_view A inventory_field inv_product_id (\<lambda>_. True))"
proof (rule table_controller.write_behind_manager[OF inventory_table[OF orm am]])
  show "RD d' = RD d \<and> (r = Wait \<or> (\<exists>e. r = Fail e) \<or> r = Ok (RD d k))"
    if "dc_get_for_key (dc C) k d = (r, d')" for k d r d'
  proof (rule find_one_by_pk[OF orm, where col = InvProductId and enc = "\<lambda>k. ValInt (Some k)"])
    show "find_one_by B InvProductId (ValInt (Some k)) d = (r, d')"
      using that C(1) by (simp add: inventory_manager_def inventory_get_for_key_def)
  qed (simp_all add: inventory_field_def)
qed (use C in \<open>simp_all add: inventory_manager_def inventory_common_def\<close>)

section \<open>Customers\<close>

text \<open>
  The one table with a second key, and the one that is not immutable: its identifiers come from
  the database.
\<close>

record customer =
  cust_id :: int
  cust_email :: string
  cust_first_name :: string
  cust_last_name :: string
  cust_registered_on :: int

datatype customer_column = CustId | CustEmail | CustFirstName | CustLastName | CustRegisteredOn

definition customer_field :: "customer \<Rightarrow> customer_column \<Rightarrow> db_value" where
  "customer_field v c = (case c of
       CustId \<Rightarrow> ValInt (Some (cust_id v))
     | CustEmail \<Rightarrow> ValString (Some (cust_email v))
     | CustFirstName \<Rightarrow> ValString (Some (cust_first_name v))
     | CustLastName \<Rightarrow> ValString (Some (cust_last_name v))
     | CustRegisteredOn \<Rightarrow> ValInt (Some (cust_registered_on v)))"

definition customer_of :: "(customer_column \<Rightarrow> db_value) \<Rightarrow> customer" where
  "customer_of f = \<lparr>cust_id = the (val_int (f CustId)),
     cust_email = val_string (f CustEmail),
     cust_first_name = val_string (f CustFirstName),
     cust_last_name = val_string (f CustLastName),
     cust_registered_on = the (val_int (f CustRegisteredOn))\<rparr>"

lemma customer_of_field [simp]: "customer_of (customer_field v) = v"
  by (cases v) (simp add: customer_of_def customer_field_def val_defs)

lemma customer_field_inject: "(\<And>c. customer_field v c = customer_field w c) \<Longrightarrow> v = w"
  by (metis customer_of_field ext)

datatype customer_by = ById int | ByEmail string

fun is_by_id :: "customer_by \<Rightarrow> bool" where
  "is_by_id (ById _) = True"
| "is_by_id (ByEmail _) = False"

definition customer_key :: "customer \<Rightarrow> customer_by" where
  "customer_key v = ById (cust_id v)"

fun split_keys :: "customer_by list \<Rightarrow> int list \<times> string list" where
  "split_keys [] = ([], [])"
| "split_keys (k # ks) = (case split_keys ks of (by_id, by_email) \<Rightarrow> (case k of
       ById i \<Rightarrow> (i # by_id, by_email)
     | ByEmail e \<Rightarrow> (by_id, e # by_email)))"

definition customer_delete_many_condition :: "customer_by list \<Rightarrow> (customer_column, db_value) cond" where
  "customer_delete_many_condition keys = (case split_keys keys of (by_id, by_email) \<Rightarrow> AnyOf
     ((if by_id \<noteq> [] then [(CustId, map (\<lambda>i. ValInt (Some i)) by_id)] else []) @
      (if by_email \<noteq> [] then [(CustEmail, map (\<lambda>e. ValString (Some e)) by_email)] else [])))"

definition customer_common :: "(customer_by, customer_column, db_value) dc_common" where
  "customer_common = \<lparr>
     dcc_columns = [CustId, CustEmail, CustFirstName, CustLastName, CustRegisteredOn],
     dcc_delete_many_condition = customer_delete_many_condition,
     dcc_immutable = False\<rparr>"

definition customer_get_for_key ::
  "('d, 't, 'am, customer_column, db_value, customer, 'b) orm \<Rightarrow> customer_by \<Rightarrow> ('d, 'b sim_error, customer option) prog" where
  "customer_get_for_key B key = (case key of
       ById i \<Rightarrow> find_one_by B CustId (ValInt (Some i))
     | ByEmail e \<Rightarrow> find_one_by B CustEmail (ValString (Some e)))"

definition customer_get_primary_key_for ::
  "('d, 't, 'am, customer_column, db_value, customer, 'b) orm \<Rightarrow> customer_by \<Rightarrow> ('d, 'b sim_error, customer_by option) prog" where
  "customer_get_primary_key_for B key = (case key of
       ById _ \<Rightarrow> ret (Some key)
     | ByEmail e \<Rightarrow> bnd (find_one_by B CustEmail (ValString (Some e))) (\<lambda>v. ret (map_option customer_key v)))"

definition customer_secondary_keys_of :: "customer \<Rightarrow> customer_by list" where
  "customer_secondary_keys_of v = [ByEmail (cust_email v)]"

definition customer_manager ::
  "('d, 't, 'am, customer_column, db_value, customer, 'b) orm \<Rightarrow> ('am, customer_column, db_value, customer) am_ops \<Rightarrow>
     (customer_by, customer, 'am cache_updates, 'b sim_error, 'd) data_controller" where
  "customer_manager B A = \<lparr>
     dc_get_for_key = customer_get_for_key B,
     dc_write_back = wbdc_write_back customer_common B,
     dc_on_new = (\<lambda>_ v. wbdbc_on_new customer_common (am_from A v)),
     dc_on_delete = (\<lambda>_ upd. wbdc_on_delete customer_common upd),
     dc_on_change = (\<lambda>_ v old prev. wbdc_on_change A customer_common v old prev),
     dc_primary_key_of = customer_key,
     dc_secondary_keys_of = customer_secondary_keys_of,
     dc_get_primary_key_for = customer_get_primary_key_for B,
     dc_is_primary = is_by_id,
     dc_on_access = default_on_access\<rparr>"

lemma customer_columns: "distinct (dcc_columns customer_common)" "set (dcc_columns customer_common) = UNIV"
proof -
  show "distinct (dcc_columns customer_common)" by (simp add: customer_common_def)
  have "c \<in> set (dcc_columns customer_common)" for c by (cases c) (simp_all add: customer_common_def)
  then show "set (dcc_columns customer_common) = UNIV" by blast
qed

lemma split_keys_sets:
  "set (fst (split_keys ks)) = {i. ById i \<in> set ks}" "set (snd (split_keys ks)) = {e. ByEmail e \<in> set ks}"
  by (induction ks) (auto split: prod.splits customer_by.splits)

lemma customer_condition_matches:
  "cond_matches customer_field (customer_delete_many_condition ks) v \<longleftrightarrow>
     ById (cust_id v) \<in> set ks \<or> ByEmail (cust_email v) \<in> set ks"
proof -
  obtain ids es where sp: "split_keys ks = (ids, es)" by (cases "split_keys ks") auto
  have sets: "set ids = {i. ById i \<in> set ks}" "set es = {e. ByEmail e \<in> set ks}"
    using split_keys_sets[of ks] sp by simp_all
  have "cond_matches customer_field (customer_delete_many_condition ks) v \<longleftrightarrow>
      (ids \<noteq> [] \<and> cust_id v \<in> set ids) \<or> (es \<noteq> [] \<and> cust_email v \<in> set es)"
    by (cases "ids = []"; cases "es = []")
      (auto simp: customer_delete_many_condition_def sp customer_field_def)
  then show ?thesis using sets by (auto simp del: set_empty simp: set_empty[symmetric])
qed

lemma customer_delete_condition: "delete_condition_ok customer_common customer_field customer_key is_by_id"
  unfolding delete_condition_ok_def
proof (intro allI impI)
  fix ks assume ks: "ks \<noteq> []" "\<forall>k \<in> set ks. is_by_id k"
  obtain k where k: "k \<in> set ks" using ks(1) by (cases ks) auto
  have "is_by_id k" using ks(2) k by blast
  then obtain i where "k = ById i" by (cases k) auto
  with k have "fst (split_keys ks) \<noteq> []" using split_keys_sets(1)[of ks] by auto
  then obtain ds where ds: "customer_delete_many_condition ks = AnyOf ds" "ds \<noteq> []"
    by (cases "split_keys ks") (auto simp: customer_delete_many_condition_def)
  have "cond_matches customer_field (AnyOf ds) v \<longleftrightarrow> customer_key v \<in> set ks" for v
    using customer_condition_matches[of ks v] ds(1) ks(2) by (auto simp: customer_key_def)
  with ds show "\<exists>ds. dcc_delete_many_condition customer_common ks = AnyOf ds \<and> ds \<noteq> [] \<and>
      (\<forall>v. cond_matches customer_field (AnyOf ds) v \<longleftrightarrow> customer_key v \<in> set ks)"
    by (simp add: customer_common_def)
qed

lemma customer_table:
  assumes "orm_ok B A customer_field customer_key RD RT" "am_ok A customer_field"
  shows "table_controller B A customer_common customer_field customer_key is_by_id RD RT"
  by unfold_locales (use assms customer_delete_condition customer_columns customer_field_inject in blast)+

section \<open>Interpretations\<close>

text \<open>Every manager keeps the contract of a flush whatever the database does.\<close>

definition manager_conf ::
  "('k, 'v, 'u, 'e, 'd) data_controller \<Rightarrow> ('m, 'k, ('k, 'v) value_state) moka_ops \<Rightarrow> nat \<Rightarrow> nat \<Rightarrow>
     ('k, 'v, 'u, 'e, 'm, 'd) conf" where
  "manager_conf D M n i = \<lparr>dc = D, mk = M, observers = [], max_updates = n, flush_interval = i,
     hash_order = (\<lambda>ks. ks)\<rparr>"

lemma hash_order_manager_conf [simp]: "hash_order_ok (manager_conf D M n i)"
  by (simp add: hash_order_ok_def manager_conf_def)

interpretation customers: flush_client "manager_conf (customer_manager B A) M n i" for B A M n i
  by unfold_locales (simp_all add: manager_conf_def customer_manager_def wbdc_write_back_safe)

interpretation products: flush_client "manager_conf (product_manager B A) M n i" for B A M n i
  by unfold_locales (simp_all add: manager_conf_def product_manager_def wbdc_write_back_safe)

interpretation orders: flush_client "manager_conf (order_manager B A) M n i" for B A M n i
  by unfold_locales (simp_all add: manager_conf_def order_manager_def wbdc_write_back_safe)

interpretation sessions: flush_client "manager_conf (session_manager B A) M n i" for B A M n i
  by unfold_locales (simp_all add: manager_conf_def session_manager_def wbdc_write_back_safe)

interpretation inventories: flush_client "manager_conf (inventory_manager B A) M n i" for B A M n i
  by unfold_locales (simp_all add: manager_conf_def inventory_manager_def wbdc_write_back_safe)

text \<open>The tables over the database of \<open>SeaOrm\<close>, and the caches over them.\<close>

interpretation customer_rows: table_controller "list_orm customer_field customer_key customer_of"
    "fun_am customer_field" customer_common customer_field customer_key is_by_id
    "list_rows customer_key" "list_rows customer_key"
  by (rule customer_table) (simp_all add: orm_ok_list am_ok_fun_am)

interpretation product_rows: table_controller "list_orm product_field prod_id product_of"
    "fun_am product_field" product_common product_field prod_id "\<lambda>_. True" "list_rows prod_id" "list_rows prod_id"
  by (rule product_table) (simp_all add: orm_ok_list am_ok_fun_am)

interpretation order_rows: table_controller "list_orm order_field ord_id order_of"
    "fun_am order_field" order_common order_field ord_id "\<lambda>_. True" "list_rows ord_id" "list_rows ord_id"
  by (rule order_table) (simp_all add: orm_ok_list am_ok_fun_am)

interpretation session_rows: table_controller "list_orm session_field sess_id session_of"
    "fun_am session_field" session_common session_field sess_id "\<lambda>_. True" "list_rows sess_id" "list_rows sess_id"
  by (rule session_table) (simp_all add: orm_ok_list am_ok_fun_am)

interpretation inventory_rows: table_controller "list_orm inventory_field inv_product_id inventory_of"
    "fun_am inventory_field" inventory_common inventory_field inv_product_id "\<lambda>_. True"
    "list_rows inv_product_id" "list_rows inv_product_id"
  by (rule inventory_table) (simp_all add: orm_ok_list am_ok_fun_am)

interpretation product_cache: write_behind
    "manager_conf (product_manager (list_orm product_field prod_id product_of) (fun_am product_field)) map_moka n i"
    "list_rows prod_id" "update_view (fun_am product_field) product_field prod_id (\<lambda>_. True)" for n i
  by (rule product_write_behind[where RT = "list_rows prod_id"]) (simp_all add: orm_ok_list am_ok_fun_am manager_conf_def moka_ok_map_moka)

interpretation order_cache: write_behind
    "manager_conf (order_manager (list_orm order_field ord_id order_of) (fun_am order_field)) map_moka n i"
    "list_rows ord_id" "update_view (fun_am order_field) order_field ord_id (\<lambda>_. True)" for n i
  by (rule order_write_behind[where RT = "list_rows ord_id"]) (simp_all add: orm_ok_list am_ok_fun_am manager_conf_def moka_ok_map_moka)

interpretation session_cache: write_behind
    "manager_conf (session_manager (list_orm session_field sess_id session_of) (fun_am session_field)) map_moka n i"
    "list_rows sess_id" "update_view (fun_am session_field) session_field sess_id (\<lambda>_. True)" for n i
  by (rule session_write_behind[where RT = "list_rows sess_id"])
    (simp_all add: orm_ok_list am_ok_fun_am manager_conf_def moka_ok_map_moka)

interpretation inventory_cache: write_behind
    "manager_conf (inventory_manager (list_orm inventory_field inv_product_id inventory_of) (fun_am inventory_field)) map_moka n i"
    "list_rows inv_product_id" "update_view (fun_am inventory_field) inventory_field inv_product_id (\<lambda>_. True)" for n i
  by (rule inventory_write_behind[where RT = "list_rows inv_product_id"])
    (simp_all add: orm_ok_list am_ok_fun_am manager_conf_def moka_ok_map_moka)

end
