(* ===== verification/Frames.thy ===== *)
theory Frames
  imports CacheEntry
begin

text \<open>
  What no call of a client ever does. A relation \<open>F\<close> between the cache before and after is kept by
  every operation when it allows what the operations do themselves, and when the data controller
  and the observers move the backend within a relation \<open>G\<close> that \<open>F\<close> allows too: the locale
  \<open>framing\<close>. Its first interpretation holds for every cache: a client never closes it or shuts it
  down, never moves the clock or raises an error in the slot of the background task, and of the task
  itself it can only spawn a new one.
\<close>

definition framed :: "('s \<Rightarrow> 's \<Rightarrow> bool) \<Rightarrow> ('s, 'e, 'a) prog \<Rightarrow> bool" where
  "framed F m \<longleftrightarrow> (\<forall>s r t. m s = (r, t) \<longrightarrow> F s t)"

named_theorems framed_intros

lemma framedD: "framed F m \<Longrightarrow> m s = (r, t) \<Longrightarrow> F s t"
  by (simp add: framed_def)

lemma framedI: "(\<And>s. F s (snd (m s))) \<Longrightarrow> framed F m"
  unfolding framed_def by (metis snd_conv)

lemma spawn_spawn [simp]: "spawn (spawn t) = spawn t"
  by (simp add: spawn_def)

section \<open>Programs within a relation\<close>

locale frame_rel =
  fixes F :: "'s \<Rightarrow> 's \<Rightarrow> bool"
  assumes F_refl: "F s s" and F_trans: "F s t \<Longrightarrow> F t u \<Longrightarrow> F s u"
begin

lemma framed_basic [framed_intros]:
  "framed F (ret a)" "framed F (throw e)" "framed F (panic msg)" "framed F waits" "framed F (gets g)"
  by (simp_all add: framed_def F_refl)

lemma framed_bnd [framed_intros]:
  assumes "framed F m" "\<And>a. framed F (f a)"
  shows "framed F (bnd m f)"
proof (rule framedI)
  fix s
  obtain r t where m: "m s = (r, t)" by fastforce
  have st: "F s t" by (rule framedD[OF assms(1) m])
  show "F s (snd (bnd m f s))"
  proof (cases r)
    case (Ok a)
    obtain r' u where f: "f a t = (r', u)" by fastforce
    have "F t u" by (rule framedD[OF assms(2) f])
    with st have "F s u" by (rule F_trans)
    with m f Ok show ?thesis by simp
  qed (use m st in simp_all)
qed

lemma framed_modify: "(\<And>s. F s (g s)) \<Longrightarrow> framed F (modify g)"
  by (rule framedI) simp

lemma framed_answer [framed_intros]: "framed F (\<lambda>s. (r, s))"
  by (simp add: framed_def F_refl)

lemma framed_unwrap_res [framed_intros]: "framed F m \<Longrightarrow> framed F (unwrap_res msg m)"
  by (rule framedI) (auto simp: unwrap_res_def dest: framedD split: prod.splits res.splits)

lemma framed_exits:
  assumes "framed F m" "\<And>s. F s (g s)"
  shows "framed F (on_exit m g)" "framed F (on_err m g)"
proof -
  have "F s t \<and> F s (g t)" if "m s = (r, t)" for s r t
    using framedD[OF assms(1) that] assms(2)[of t] F_trans by blast
  then show "framed F (on_exit m g)" "framed F (on_err m g)"
    by (auto intro!: framedI simp: on_exit_def on_err_def split: prod.splits res.splits)
qed

lemma framed_for_each:
  "(\<And>x. x \<in> set xs \<Longrightarrow> framed F (f x)) \<Longrightarrow> framed F (for_each f xs)"
  by (induction xs) (auto intro!: framed_bnd framed_basic)

lemma framed_for_all [framed_intros]: "(\<And>x. framed F (f x)) \<Longrightarrow> framed F (for_each f xs)"
  by (rule framed_for_each)

lemma framed_option [framed_intros]:
  "framed F f \<Longrightarrow> (\<And>x. framed F (g x)) \<Longrightarrow> framed F (case y of None \<Rightarrow> f | Some x \<Rightarrow> g x)"
  by (simp split: option.splits)

lemma framed_cases [framed_intros]:
  "framed F a \<Longrightarrow> (\<And>x. framed F (b x)) \<Longrightarrow> framed F c \<Longrightarrow> framed F (case oper of Nop \<Rightarrow> a | Put x \<Rightarrow> b x | Remove \<Rightarrow> c)"
  "(\<And>x. framed F (p x)) \<Longrightarrow> (\<And>k. framed F (q k)) \<Longrightarrow> framed F (case vs of Primary x \<Rightarrow> p x | Secondary k \<Rightarrow> q k)"
  "framed F a1 \<Longrightarrow> framed F a2 \<Longrightarrow> framed F a3 \<Longrightarrow> framed F a4 \<Longrightarrow>
     framed F (case d of DcNop \<Rightarrow> a1 | DcInsert \<Rightarrow> a2 | DcRevoke \<Rightarrow> a3 | DcDrop \<Rightarrow> a4)"
  subgoal by (cases oper; simp)
  subgoal by (cases vs; simp)
  subgoal by (cases d; simp)
  done

lemma framed_results [framed_intros]:
  "(\<And>k x. framed F (f1 k x)) \<Longrightarrow> (\<And>k x. framed F (f2 k x)) \<Longrightarrow> (\<And>k x. framed F (f3 k x)) \<Longrightarrow>
   (\<And>k x. framed F (f4 k x)) \<Longrightarrow> (\<And>k. framed F (f5 k)) \<Longrightarrow>
   framed F (case r of MokaInserted k x \<Rightarrow> f1 k x | MokaReplacedWith k x \<Rightarrow> f2 k x | MokaRemoved k x \<Rightarrow> f3 k x
     | MokaUnchanged k x \<Rightarrow> f4 k x | MokaStillNone k \<Rightarrow> f5 k)"
  "(\<And>en. framed F (g1 en)) \<Longrightarrow> (\<And>en. framed F (g2 en)) \<Longrightarrow> (\<And>en. framed F (g3 en)) \<Longrightarrow>
   (\<And>en. framed F (g4 en)) \<Longrightarrow> (\<And>k. framed F (g5 k)) \<Longrightarrow>
   framed F (case c of Inserted en \<Rightarrow> g1 en | ReplacedWith en \<Rightarrow> g2 en | Removed en \<Rightarrow> g3 en
     | Unchanged en \<Rightarrow> g4 en | StillNone k \<Rightarrow> g5 k)"
  subgoal by (cases r; simp)
  subgoal by (cases c; simp)
  done

lemma framed_if [framed_intros]: "framed F f \<Longrightarrow> framed F g \<Longrightarrow> framed F (if b then f else g)"
  by simp

end

section \<open>A cache within a relation\<close>

text \<open>The part of the backend's state that a flush can reach.\<close>

definition ctx_frame :: "('d \<Rightarrow> 'd \<Rightarrow> bool) \<Rightarrow> ('k, 'u, 'd) flush_ctx \<Rightarrow> ('k, 'u, 'd) flush_ctx \<Rightarrow> bool" where
  "ctx_frame G c c' \<longleftrightarrow> G (ctx_backend c) (ctx_backend c')"

locale framing = F: frame_rel F + G: frame_rel G
  for F :: "('k, 'u, 'e, 'm, 'd) cache \<Rightarrow> ('k, 'u, 'e, 'm, 'd) cache \<Rightarrow> bool" and G :: "'d \<Rightarrow> 'd \<Rightarrow> bool" +
  fixes C :: "('k, 'v, 'u, 'e, 'm, 'd) conf"
  assumes frame_fields: "F s (s\<lparr>pool := p\<rparr>)" "F s (s\<lparr>moka := mo\<rparr>)" "F s (s\<lparr>last_flush := clock s\<rparr>)"
      "F s (s\<lparr>error := None\<rparr>)" "F s (s\<lparr>monitor_task := spawn (monitor_task s)\<rparr>)"
    and frame_backend: "G (backend s) d \<Longrightarrow> F s (s\<lparr>backend := d\<rparr>)"
    and dc_frames [framed_intros]: "framed G (dc_get_for_key (dc C) k)" "framed G (dc_on_new (dc C) k v)"
      "framed G (dc_on_change (dc C) k v old prev)" "framed G (dc_on_delete (dc C) k prev)"
      "framed G (dc_on_access (dc C) k v prev)" "framed G (dc_get_primary_key_for (dc C) k)"
    and write_back_frame [framed_intros]: "framed (ctx_frame G) (dc_write_back (dc C))"
    and observer_frames: "ob \<in> set (observers C) \<Longrightarrow> framed (ctx_frame G) (ob_on_flush ob)"
      "ob \<in> set (observers C) \<Longrightarrow> framed G (ob_on_flush_one ob k u)"
      "ob \<in> set (observers C) \<Longrightarrow> framed G (ob_on_monitor_error ob e)"
begin

sublocale ctx: frame_rel "ctx_frame G :: ('k, 'u, 'd) flush_ctx \<Rightarrow> ('k, 'u, 'd) flush_ctx \<Rightarrow> bool"
  by unfold_locales (auto simp: ctx_frame_def intro: G.F_refl G.F_trans)

lemma framed_on_backend [framed_intros]: "framed G p \<Longrightarrow> framed F (on_backend p)"
  by (rule framedI) (auto simp: on_backend_def intro: frame_backend dest: framedD split: prod.splits)

lemma framed_on_pool [framed_intros]: "framed F (on_pool g)"
  by (rule framedI) (simp add: on_pool_def frame_fields)

lemma framed_with_ctx [framed_intros]:
  fixes m :: "(('k, 'u, 'd) flush_ctx, 'e, 'a) prog"
  assumes "framed (ctx_frame G) m"
  shows "framed F (with_ctx it m)"
proof (rule framedI)
  fix s :: "('k, 'u, 'e, 'm, 'd) cache"
  obtain r c where m: "m \<lparr>ctx_pool = pool s, ctx_iter = it, ctx_backend = backend s\<rparr> = (r, c)" by fastforce
  have "F (s\<lparr>pool := ctx_pool c\<rparr>) (s\<lparr>pool := ctx_pool c, backend := ctx_backend c\<rparr>)"
    using framedD[OF assms m] by (intro frame_backend) (simp add: ctx_frame_def)
  from F.F_trans[OF frame_fields(1) this] show "F s (snd (with_ctx it m s))"
    by (simp add: with_ctx_def m)
qed

lemma framed_steps [framed_intros]:
  "framed F (modify (\<lambda>s. s\<lparr>moka := f s\<rparr>))" "framed F (modify (\<lambda>s. s\<lparr>last_flush := clock s\<rparr>))"
  "framed F (\<lambda>s. case mk_apply (mk C) key e oper (moka s) of (r, m) \<Rightarrow> (Ok r, s\<lparr>moka := m\<rparr>))"
  "framed F (\<lambda>s. (Ok (fst (mk_apply (mk C) key e oper (moka s))), s\<lparr>moka := snd (mk_apply (mk C) key e oper (moka s))\<rparr>))"
  by (rule framedI, simp add: frame_fields split: prod.splits)+

lemma framed_pool_exits [framed_intros]:
  "framed F m \<Longrightarrow> framed F (on_exit m (\<lambda>s. s\<lparr>pool := f s\<rparr>))"
  "framed F m \<Longrightarrow> framed F (on_err m (\<lambda>s. s\<lparr>pool := f s\<rparr>))"
  by (rule F.framed_exits; simp add: frame_fields)+

lemma framed_write_guard [framed_intros]:
  fixes m :: "(('k, 'u, 'e, 'm, 'd) cache, 'e, 'a) prog"
  assumes "framed F m"
  shows "framed F (with_write_guard i m)"
proof (rule framedI)
  fix s :: "('k, 'u, 'e, 'm, 'd) cache"
  define s1 where "s1 = s\<lparr>pool := lock_state i (pool s)\<rparr>"
  obtain r t where e: "on_exit m (\<lambda>t. t\<lparr>pool := unlock_state i (pool t)\<rparr>) s1 = (r, t)" by fastforce
  have "F s1 t" by (rule framedD[OF framed_pool_exits(1)[OF assms] e])
  moreover have "F s s1" by (simp add: s1_def frame_fields)
  ultimately have "F s t" by (rule F.F_trans[rotated])
  then show "F s (snd (with_write_guard i m s))"
    using e by (simp add: with_write_guard_def s1_def F.F_refl)
qed

subsection \<open>The operations\<close>

lemma framed_check_error [framed_intros]: "framed F check_error"
  unfolding check_error_def clear_error_def
  by (rule framedI) (simp add: bnd_def frame_fields split: option.splits)

lemma framed_check_task [framed_intros]: "framed F check_task"
  by (rule framedI) (simp add: frame_fields)

lemma framed_fetch_state [framed_intros]: "framed F (fetch_state C key value)"
  by (rule framedI) (simp add: fetch_state_def Let_def frame_fields F.F_refl split: option.splits prod.splits)

lemmas framed_unfold = get_update_state_and_compute_def on_dc_op_def guard_take_def guard_get_def guard_set_def
  us_defs on_new_def on_change_def on_access_def on_delete_def moka_get_def moka_inv_def

lemma framed_event_calls [framed_intros]:
  "framed F (event_on_flush_one C key upd)" "framed F (event_on_monitor_error C e)" "framed (ctx_frame G) (event_on_flush C)"
  unfolding event_on_flush_one_def event_on_monitor_error_def event_on_flush_def
  by (intro framed_intros G.framed_for_each ctx.framed_for_each observer_frames, assumption)+

lemma framed_iterator [framed_intros]:
  fixes m :: "(('k, 'u, 'd) flush_ctx, 'e, 'a) prog"
  shows "framed (ctx_frame G) (modify iter_reset :: (('k, 'u, 'd) flush_ctx, 'e, unit) prog)"
    "framed (ctx_frame G) (purify_updates :: (('k, 'u, 'd) flush_ctx, 'e, nat) prog)"
    "framed (ctx_frame G) m \<Longrightarrow> framed (ctx_frame G) (on_exit m iter_drop)"
proof -
  have d: "ctx_frame G c (iter_drop c)" for c :: "('k, 'u, 'd) flush_ctx"
    by (simp add: ctx_frame_def iter_drop_def ctx_on_pool_def Let_def G.F_refl)
  show "framed (ctx_frame G) (modify iter_reset :: (('k, 'u, 'd) flush_ctx, 'e, unit) prog)"
    by (rule ctx.framed_modify) (simp add: ctx_frame_def iter_reset_def ctx_on_pool_def Let_def G.F_refl)
  show "framed (ctx_frame G) m \<Longrightarrow> framed (ctx_frame G) (on_exit m iter_drop)"
    by (rule ctx.framed_exits[OF _ d])
  show "framed (ctx_frame G) (purify_updates :: (('k, 'u, 'd) flush_ctx, 'e, nat) prog)"
    unfolding purify_updates_def
    by (rule ctx.framed_exits[OF _ d], rule framedI)
      (simp add: ctx_frame_def G.F_refl split: prod.splits)
qed

lemma framed_flush_one [framed_intros]: "framed F (flush_one C key)"
  unfolding flush_one_def framed_unfold by (intro framed_intros)

lemma framed_flush [framed_intros]:
  "framed F (flush_many_raw C keys)" "framed F (flush_raw C)" "framed F (flush C)"
  unfolding flush_def flush_raw_def flush_many_raw_def flush_many_body_def by (intro framed_intros)+

lemma framed_events [framed_intros]:
  "framed F (on_new C key v)" "framed F (on_change C key v old)" "framed F (on_access C key v)"
  "framed F (on_delete C key x)"
  unfolding framed_unfold by (intro framed_intros)+

text \<open>The entry operations, whatever closures they run.\<close>

lemma framed_into_value [framed_intros]: "framed F (into_value vs)"
  unfolding into_value_def by (intro framed_intros)

lemma framed_maybe_flush_one [framed_intros]: "framed F (maybe_flush_one C key)"
  unfolding maybe_flush_one_def moka_get_def by (intro framed_intros)

lemma framed_compute [framed_intros]: "(\<And>e. framed F (f e)) \<Longrightarrow> framed F (moka_and_try_compute_with C key f)"
  unfolding moka_and_try_compute_with_def moka_get_def by (intro framed_intros)

lemma framed_or_insert [framed_intros]: "framed F m \<Longrightarrow> framed F (moka_or_try_insert_with C key m)"
  unfolding moka_or_try_insert_with_def moka_get_def by (intro framed_intros)

lemma framed_primary_parts [framed_intros]:
  "framed F (current_entry C key e)" "framed F (apply_user_op C key old fetched oper)" "framed F (primary_result r)"
  unfolding current_entry_def apply_user_op_def moka_inv_def primary_result_def from_primary_entry_def
  by (intro framed_intros)+

lemma framed_compute_primary [framed_intros]:
  "(\<And>en. framed F (f en)) \<Longrightarrow> framed F (get_and_try_compute_with_primary C key f)"
  unfolding get_and_try_compute_with_primary_def case_prod_beta by (intro framed_intros)

lemma framed_primary_key_from [framed_intros]: "framed F (get_primary_key_from C key)"
  unfolding get_primary_key_from_def moka_get_def by (intro framed_intros)

lemma framed_secondary_parts [framed_intros]:
  "framed F (primary_of_secondary C key e)" "framed F (secondary_entry C key en)"
  "framed F (secondary_op pk res)" "framed F (secondary_result key x r)"
  unfolding primary_of_secondary_def secondary_entry_def entry_value_access_def secondary_op_def Let_def
    secondary_result_def unwrap_value_def
  by (intro framed_intros)+

lemma framed_compute_secondary [framed_intros]:
  "(\<And>en. framed F (f en)) \<Longrightarrow> framed F (get_and_try_compute_with_secondary C key f)"
  unfolding get_and_try_compute_with_secondary_def moka_get_def case_prod_beta by (intro framed_intros)

lemma framed_insert_primary [framed_intros]:
  "framed F m \<Longrightarrow> framed F (get_or_try_insert_with_primary C key m)"
  unfolding get_or_try_insert_with_primary_def by (intro framed_intros)

lemma framed_insert [framed_intros]: "framed F (cache_insert C v)"
  unfolding cache_insert_def Let_def by (intro framed_intros)

lemma framed_insert_secondary [framed_intros]:
  "framed F m \<Longrightarrow> framed F (get_or_try_insert_with_secondary C key m)"
  unfolding get_or_try_insert_with_secondary_def by (intro framed_intros)

lemma framed_entry [framed_intros]: "framed F (entry C key)"
  unfolding entry_def by (intro framed_intros)

lemma framed_selector [framed_intros]:
  "(\<And>en. framed F (f en)) \<Longrightarrow> framed F (and_try_compute_with C sel f)"
  "framed F m \<Longrightarrow> framed F (or_try_insert_with C sel m)"
  unfolding and_try_compute_with_def or_try_insert_with_def by (intro framed_intros; simp)+

lemma framed_public [framed_intros]:
  "framed F (cache_get C key)" "framed F (cache_delete C key)" "framed F (cache_invalidate C key)"
  unfolding cache_get_def cache_delete_def cache_invalidate_def moka_inv_def Let_def
  by (intro framed_intros)+

end

section \<open>What a client leaves alone\<close>

definition frame :: "('k, 'u, 'e, 'm, 'd) cache \<Rightarrow> ('k, 'u, 'e, 'm, 'd) cache \<Rightarrow> bool" where
  "frame s t \<longleftrightarrow> closed t = closed s \<and> shutdown t = shutdown s \<and> clock t = clock s \<and>
     flush_notified t = flush_notified s \<and> cleanup_notified t = cleanup_notified s \<and>
     monitor_task t \<in> {monitor_task s, spawn (monitor_task s)} \<and> error t \<in> {error s, None} \<and>
     last_flush t \<in> {last_flush s, clock s}"

lemma frame_refl [simp]: "frame s s"
  by (simp add: frame_def)

lemma frame_trans [trans]: "frame s t \<Longrightarrow> frame t u \<Longrightarrow> frame s u"
  unfolding frame_def by (elim conjE, intro conjI) (elim insertE emptyE; simp)+

interpretation client_frame: framing frame "\<lambda>_ _. True" C for C
  by unfold_locales (auto simp: ctx_frame_def framed_def intro: frame_trans, simp_all add: frame_def)

end
