(* ===== verification/Monitor.thy ===== *)
theory Monitor
  imports WriteBehind Frames
begin

text \<open>
  The background task of \<open>src/cache.rs\<close>: \<open>initial_setup\<close>, \<open>monitor_updates\<close>, \<open>close\<close> and
  \<open>is_shut_down\<close>, the builder's \<open>observer\<close>, and the cache as a system in which clients and the
  task take turns. A turn is one call, or one round of the task's loop; what happens to a single
  update while calls overlap is the subject of the iterator's locks in \<open>UpdateIterators\<close>.
\<close>

section \<open>Construction\<close>

text \<open>\<open>initial_setup\<close>: an open cache with no update, over an empty moka.\<close>

definition initial_setup :: "'m \<Rightarrow> 'd \<Rightarrow> nat \<Rightarrow> ('k, 'u, 'e, 'm, 'd) cache" where
  "initial_setup mo d now = \<lparr>error = None, moka = mo, pool = empty_pool, backend = d, last_flush = now,
     clock = now, monitor_task = None, shutdown = False, closed = False, flush_notified = False,
     cleanup_notified = False\<rparr>"

text \<open>\<open>CacheBuilder::observer\<close>: the observers are called in the order in which they are added.\<close>

definition builder_observer ::
  "('k, 'u, 'e, 'd) observer \<Rightarrow> ('k, 'u, 'e, 'd) observer list option \<Rightarrow> ('k, 'u, 'e, 'd) observer list option" where
  "builder_observer ob obs = (case obs of Some os \<Rightarrow> Some (os @ [ob]) | None \<Rightarrow> Some [ob])"

definition is_shut_down :: "('k, 'u, 'e, 'm, 'd) cache \<Rightarrow> bool" where
  "is_shut_down s = shutdown s"

section \<open>The monitor\<close>

text \<open>
  What ends the \<open>select!\<close>: a notification of \<open>soft_flush\<close>, one of \<open>close\<close>, or the ticking
  interval. The two notified futures are made anew in each round, so a permit that did not end
  the round is dropped with it.
\<close>

datatype wake = WokenFlush | WokenCleanup | WokenTick

fun woken :: "wake \<Rightarrow> ('k, 'u, 'e, 'm, 'd) cache \<Rightarrow> bool" where
  "woken WokenFlush s = flush_notified s"
| "woken WokenCleanup s = cleanup_notified s"
| "woken WokenTick s = True"

definition flush_due :: "('k, 'v, 'u, 'e, 'm, 'd) conf \<Rightarrow> bool \<Rightarrow> ('k, 'u, 'e, 'm, 'd) cache \<Rightarrow> bool" where
  "flush_due C forced s \<longleftrightarrow> forced \<or> closed s \<or> length (updates (pool s)) > max_updates C \<or>
     clock s - last_flush s \<ge> flush_interval C"

text \<open>The flush of a round; an error is kept for the clients and told to the observers.\<close>

definition monitor_flush :: "('k, 'v, 'u, 'e, 'm, 'd) conf \<Rightarrow> (('k, 'u, 'e, 'm, 'd) cache, 'e, unit) prog" where
  "monitor_flush C = (\<lambda>s. case flush C s of
       (Ok _, t) \<Rightarrow> (Ok (), t)
     | (Fail e, t) \<Rightarrow> event_on_monitor_error C e (t\<lparr>error := Some e\<rparr>)
     | (Panic msg, t) \<Rightarrow> (Panic msg, t)
     | (Wait, t) \<Rightarrow> (Wait, t))"

definition monitor_round :: "('k, 'v, 'u, 'e, 'm, 'd) conf \<Rightarrow> bool \<Rightarrow> (('k, 'u, 'e, 'm, 'd) cache, 'e, unit) prog" where
  "monitor_round C forced =
     bnd (modify (\<lambda>s. s\<lparr>closed := is_shut_down s\<rparr>)) (\<lambda>_.
     bnd (gets (\<lambda>s. updates (pool s) = [])) (\<lambda>is_empty.
     if is_empty then ret ()
     else bnd (gets (flush_due C forced)) (\<lambda>due.
          if due then monitor_flush C else ret ())))"

text \<open>The head of the loop: a closed cache ends the task, else it waits again.\<close>

definition monitor_head :: "('k, 'u, 'e, 'm, 'd) cache \<Rightarrow> ('k, 'u, 'e, 'm, 'd) cache" where
  "monitor_head s = s\<lparr>monitor_task := Some (if closed s then Finished else Waiting)\<rparr>"

definition monitor_wakes :: "('k, 'v, 'u, 'e, 'm, 'd) conf \<Rightarrow> wake \<Rightarrow> (('k, 'u, 'e, 'm, 'd) cache, 'e, unit) prog" where
  "monitor_wakes C w =
     bnd (modify (\<lambda>s. s\<lparr>flush_notified := False, cleanup_notified := False\<rparr>)) (\<lambda>_.
     bnd (monitor_round C (w \<noteq> WokenTick)) (\<lambda>_.
     modify monitor_head))"

text \<open>
  A turn of the task: its start, in which it takes the lock of \<open>closed\<close>, a round, or a round in
  which the code it calls panics, which ends the task.
\<close>

inductive monitor_step ::
  "('k, 'v, 'u, 'e, 'm, 'd) conf \<Rightarrow> ('k, 'u, 'e, 'm, 'd) cache \<Rightarrow> ('k, 'u, 'e, 'm, 'd) cache \<Rightarrow> bool" for C where
  monitor_starts: "monitor_task s = Some Spawned \<Longrightarrow> monitor_step C s (monitor_head s)"
| monitor_turns: "monitor_task s = Some Waiting \<Longrightarrow> woken w s \<Longrightarrow> monitor_wakes C w s = (Ok (), t) \<Longrightarrow> monitor_step C s t"
| monitor_dies: "monitor_task s = Some Waiting \<Longrightarrow> woken w s \<Longrightarrow> monitor_wakes C w s = (Panic msg, t) \<Longrightarrow>
    monitor_step C s (t\<lparr>monitor_task := Some Finished\<rparr>)"

inductive_cases monitor_stepE [elim]: "monitor_step C s t"

section \<open>Closing\<close>

text \<open>
  \<open>close\<close> up to the wait for the lock of \<open>closed\<close> (the answer says whether it waits), and that
  wait, which is over at once when no monitor holds the lock.
\<close>

definition close_request :: "(('k, 'u, 'e, 'm, 'd) cache, 'e, bool) prog" where
  "close_request =
     bnd check_error (\<lambda>_.
     bnd (gets is_shut_down) (\<lambda>down.
     if down then ret False
     else bnd (modify (\<lambda>s. s\<lparr>shutdown := True,
                 cleanup_notified := (cleanup_notified s \<or> monitor_task s = Some Waiting)\<rparr>)) (\<lambda>_.
          ret True)))"

definition close_wait :: "(('k, 'u, 'e, 'm, 'd) cache, 'e, unit) prog" where
  "close_wait = bnd (gets monitor_task) (\<lambda>t. if t = Some Waiting then waits else ret ())"

section \<open>The system\<close>

text \<open>The cache with the number of clients that wait in \<open>close\<close>.\<close>

datatype ('k, 'v, 'e) action =
    Client "('k, 'v, 'e) event"
  | SoftFlush
  | CloseRequest
  | CloseReturn
  | MonitorTurn
  | TimePasses nat

inductive sys_step ::
  "('k, 'v, 'u, 'e, 'm, 'd) conf \<Rightarrow> ('d \<Rightarrow> 'k \<rightharpoonup> 'v) \<Rightarrow> ('k, 'u, 'e, 'm, 'd) cache \<times> nat \<Rightarrow> ('k, 'v, 'e) action \<Rightarrow>
     ('k, 'u, 'e, 'm, 'd) cache \<times> nat \<Rightarrow> bool"
  for C R where
  sys_client: "client_step C R s ev t \<Longrightarrow> sys_step C R (s, n) (Client ev) (t, n)"
| sys_soft_flush: "soft_flush s = (r, t) \<Longrightarrow> sys_step C R (s, n) SoftFlush (t, n)"
| sys_close_wait: "close_request s = (Ok True, t) \<Longrightarrow> sys_step C R (s, n) CloseRequest (t, Suc n)"
| sys_close_now: "close_request s = (r, t) \<Longrightarrow> r \<noteq> Ok True \<Longrightarrow> sys_step C R (s, n) CloseRequest (t, n)"
| sys_close_return: "close_wait s = (Ok (), t) \<Longrightarrow> sys_step C R (s, Suc n) CloseReturn (t, n)"
| sys_monitor: "monitor_step C s t \<Longrightarrow> sys_step C R (s, n) MonitorTurn (t, n)"
| sys_time: "sys_step C R (s, n) (TimePasses d) (s\<lparr>clock := clock s + d\<rparr>, n)"

inductive_cases sys_stepE [elim]: "sys_step C R (s, n) a (t, n')"

inductive sys_run ::
  "('k, 'v, 'u, 'e, 'm, 'd) conf \<Rightarrow> ('d \<Rightarrow> 'k \<rightharpoonup> 'v) \<Rightarrow> ('k, 'u, 'e, 'm, 'd) cache \<times> nat \<Rightarrow> ('k, 'v, 'e) action list \<Rightarrow>
     ('k, 'u, 'e, 'm, 'd) cache \<times> nat \<Rightarrow> bool"
  for C R where
  sys_none: "sys_run C R c [] c"
| sys_more: "sys_run C R c as c1 \<Longrightarrow> sys_step C R c1 a c2 \<Longrightarrow> sys_run C R c (as @ [a]) c2"

text \<open>The client's events of a run.\<close>

fun client_events :: "('k, 'v, 'e) action list \<Rightarrow> ('k, 'v, 'e) event list" where
  "client_events [] = []"
| "client_events (Client ev # as) = ev # client_events as"
| "client_events (_ # as) = client_events as"

lemma client_events_append [simp]: "client_events (as @ bs) = client_events as @ client_events bs"
  by (induction as rule: client_events.induct) simp_all

section \<open>The life of the task\<close>

lemma spawn_simps [simp]:
  "spawn None = Some Spawned" "spawn (Some Finished) = Some Spawned" "spawn (Some Waiting) = Some Waiting"
  "spawn (Some Spawned) = Some Spawned" "spawn t = Some Waiting \<longleftrightarrow> t = Some Waiting"
  by (simp_all add: spawn_def)

lemma frame_client:
  assumes "client_step C R s ev t"
  shows "frame s t"
proof -
  have compute: "framed frame (bnd (entry C k) (\<lambda>sel. and_try_compute_with C sel (\<lambda>en t. (g en, t))))" for k g
    by (intro framed_intros)
  have insert: "framed frame (bnd (entry C k) (\<lambda>sel. or_try_insert_with C sel (\<lambda>t. (g, t))))" for k g
    by (intro framed_intros)
  show ?thesis
    using assms
    by cases (erule framedD[OF compute] framedD[OF insert] framedD[rotated], (rule framed_intros)?)+
qed

lemma frame_waiting:
  assumes "frame s t"
  shows "monitor_task t = Some Waiting \<longleftrightarrow> monitor_task s = Some Waiting"
proof -
  have "monitor_task t = monitor_task s \<or> monitor_task t = spawn (monitor_task s)"
    using assms by (simp add: frame_def)
  then show ?thesis by (elim disjE) simp_all
qed

lemma frame_flags:
  "frame s t \<Longrightarrow> closed t = closed s \<and> shutdown t = shutdown s \<and>
     flush_notified t = flush_notified s \<and> cleanup_notified t = cleanup_notified s"
  by (simp add: frame_def)

text \<open>
  A cache is closed only after it was told to shut down, and a monitor that waits has not closed
  it: it closes the cache and ends in one turn.
\<close>

definition monitor_ok :: "('k, 'u, 'e, 'm, 'd) cache \<Rightarrow> bool" where
  "monitor_ok s \<longleftrightarrow> (closed s \<longrightarrow> shutdown s) \<and> (monitor_task s = Some Waiting \<longrightarrow> \<not> closed s) \<and>
     (flush_notified s \<or> cleanup_notified s \<longrightarrow> monitor_task s = Some Waiting)"

lemma monitor_ok_initial [simp]: "monitor_ok (initial_setup mo d now)"
  by (simp add: monitor_ok_def initial_setup_def)

lemma monitor_ok_frame: "frame s t \<Longrightarrow> monitor_ok s \<Longrightarrow> monitor_ok t"
  using frame_waiting[of s t] frame_flags[of s t] by (simp add: monitor_ok_def)

text \<open>A round, step by step.\<close>

lemma monitor_flush_frame:
  assumes "monitor_flush C s = (r, t)"
  shows "closed t = closed s \<and> shutdown t = shutdown s \<and>
    flush_notified t = flush_notified s \<and> cleanup_notified t = cleanup_notified s"
proof -
  obtain r1 s1 where f: "flush C s = (r1, s1)" by fastforce
  note fr = frame_flags[OF framedD[OF client_frame.framed_flush(3) f]]
  show ?thesis
  proof (cases r1)
    case (Fail e)
    then have "event_on_monitor_error C e (s1\<lparr>error := Some e\<rparr>) = (r, t)"
      using assms f by (simp add: monitor_flush_def)
    then have "frame (s1\<lparr>error := Some e\<rparr>) t"
      by (rule framedD[OF client_frame.framed_event_calls(2)])
    with fr frame_flags show ?thesis by fastforce
  qed (use assms f fr in \<open>simp_all add: monitor_flush_def\<close>)
qed

lemma monitor_round_frame:
  assumes "monitor_round C forced s = (r, t)"
  shows "closed t = shutdown s \<and> shutdown t = shutdown s \<and>
    flush_notified t = flush_notified s \<and> cleanup_notified t = cleanup_notified s"
  using assms monitor_flush_frame[of C "s\<lparr>closed := shutdown s\<rparr>" r t]
  by (auto simp: monitor_round_def is_shut_down_def split: if_splits)

lemma monitor_wakes_frame:
  assumes "monitor_wakes C w s = (r, t)"
  shows "closed t = shutdown s \<and> shutdown t = shutdown s \<and> \<not> flush_notified t \<and> \<not> cleanup_notified t \<and>
    (r = Ok () \<longrightarrow> monitor_task t = Some (if shutdown s then Finished else Waiting))"
proof -
  define s0 where "s0 = s\<lparr>flush_notified := False, cleanup_notified := False\<rparr>"
  obtain r1 s1 where m: "monitor_round C (w \<noteq> WokenTick) s0 = (r1, s1)" by fastforce
  have "(r, t) = bnd (monitor_round C (w \<noteq> WokenTick)) (\<lambda>_. modify monitor_head) s0"
    using assms by (simp add: monitor_wakes_def s0_def)
  with m monitor_round_frame[OF m] show ?thesis
    by (cases r1) (auto simp: s0_def monitor_head_def)
qed

lemma monitor_ok_step:
  assumes "monitor_step C s t" "monitor_ok s"
  shows "monitor_ok t"
  using assms(1)
proof cases
  case monitor_starts
  then show ?thesis using assms(2) by (simp add: monitor_ok_def monitor_head_def)
next
  case (monitor_turns w)
  then show ?thesis using monitor_wakes_frame[OF monitor_turns(3)] by (simp add: monitor_ok_def)
next
  case (monitor_dies w msg t)
  then show ?thesis using monitor_wakes_frame[OF monitor_dies(4)] by (simp add: monitor_ok_def)
qed

lemma soft_flush_eq:
  "soft_flush s = (case error s of Some e \<Rightarrow> (Fail e, s\<lparr>error := None\<rparr>)
     | None \<Rightarrow> (Ok (), if monitor_task s = Some Waiting then s\<lparr>flush_notified := True\<rparr> else s))"
  by (simp add: soft_flush_def split: option.splits)

lemma close_request_eq:
  "close_request s = (case error s of Some e \<Rightarrow> (Fail e, s\<lparr>error := None\<rparr>)
     | None \<Rightarrow> if shutdown s then (Ok False, s) else (Ok True, s\<lparr>shutdown := True,
         cleanup_notified := (cleanup_notified s \<or> monitor_task s = Some Waiting)\<rparr>))"
  by (simp add: close_request_def is_shut_down_def split: option.splits)

lemma close_wait_Ok [simp]: "close_wait s = (Ok (), t) \<longleftrightarrow> t = s \<and> monitor_task s \<noteq> Some Waiting"
  by (auto simp: close_wait_def)

lemma monitor_ok_sys:
  assumes "sys_step C R (s, n) a (t, n')" "monitor_ok s"
  shows "monitor_ok t"
  using assms(1)
proof cases
  case (sys_client ev)
  then show ?thesis using monitor_ok_frame frame_client assms(2) by blast
next
  case (sys_soft_flush r)
  then show ?thesis using assms(2) by (auto simp: soft_flush_eq monitor_ok_def split: option.splits if_splits)
next
  case sys_close_wait
  then show ?thesis using assms(2) by (auto simp: close_request_eq monitor_ok_def split: option.splits if_splits)
next
  case (sys_close_now r)
  then show ?thesis using assms(2) by (auto simp: close_request_eq monitor_ok_def split: option.splits if_splits)
next
  case sys_close_return
  then show ?thesis using assms(2) by simp
next
  case sys_monitor
  then show ?thesis using monitor_ok_step assms(2) by blast
next
  case (sys_time d)
  then show ?thesis using assms(2) by (simp add: monitor_ok_def)
qed

lemma monitor_ok_run:
  assumes "sys_run C R c as c'" "monitor_ok (fst c)"
  shows "monitor_ok (fst c')"
  using assms by induction (metis monitor_ok_sys prod.collapse)+

section \<open>After the end\<close>

text \<open>A monitor that starts on a closed cache ends at once.\<close>

lemma closed_turn:
  assumes "monitor_step C s t" "monitor_ok s" "closed s"
  shows "t = s\<lparr>monitor_task := Some Finished\<rparr>"
  using assms by (cases rule: monitor_step.cases) (auto simp: monitor_ok_def monitor_head_def)

lemma closed_stays:
  assumes "sys_step C R (s, n) a (t, n')" "monitor_ok s" "closed s"
  shows "closed t"
  using assms(1)
proof cases
  case (sys_client ev)
  then show ?thesis using frame_flags[OF frame_client] assms(3) by blast
next
  case sys_monitor
  then show ?thesis using closed_turn[OF sys_monitor(3) assms(2,3)] assms(3) by simp
qed (use assms(3) in \<open>auto simp: soft_flush_eq close_request_eq split: option.splits if_splits\<close>)

lemma closed_run:
  assumes "sys_run C R c as c'" "monitor_ok (fst c)" "closed (fst c)"
  shows "closed (fst c')"
  using assms
proof induction
  case (sys_more c as c1 a c2)
  then show ?case using closed_stays[of C R "fst c1" "snd c1" a "fst c2" "snd c2"] monitor_ok_run by fastforce
qed

section \<open>Rounds\<close>

lemma event_on_monitor_error_fields:
  assumes "event_on_monitor_error C e s = (r, t)"
  shows "t = s\<lparr>backend := backend t\<rparr>"
  using assms by (auto simp: event_on_monitor_error_def on_backend_def split: prod.splits)

text \<open>
  An error that no client has fetched yet stops the task from flushing: it only tells the
  observers again.
\<close>

lemma monitor_flush_blocked:
  assumes "error s = Some e" "monitor_flush C s = (r, t)"
  shows "t = s\<lparr>backend := backend t\<rparr>"
proof -
  have "event_on_monitor_error C e s = (r, t)"
    using assms(2) by (simp add: monitor_flush_def error_first[OF assms(1)] assms(1)[symmetric])
  then show ?thesis by (rule event_on_monitor_error_fields)
qed

text \<open>A round without a reason to flush leaves the updates where they are.\<close>

lemma monitor_wakes_idle:
  assumes "updates (pool s) = [] \<or> \<not> flush_due C (w \<noteq> WokenTick) (s\<lparr>closed := shutdown s\<rparr>)"
  shows "monitor_wakes C w s =
    (Ok (), monitor_head (s\<lparr>flush_notified := False, cleanup_notified := False, closed := shutdown s\<rparr>))"
  using assms by (auto simp: monitor_wakes_def monitor_round_def is_shut_down_def flush_due_def)

lemma monitor_wakes_due:
  assumes "updates (pool s) \<noteq> []" "flush_due C (w \<noteq> WokenTick) (s\<lparr>closed := shutdown s\<rparr>)"
  shows "monitor_wakes C w s = bnd (monitor_flush C) (\<lambda>_. modify monitor_head)
    (s\<lparr>flush_notified := False, cleanup_notified := False, closed := shutdown s\<rparr>)"
  using assms
  by (simp add: monitor_wakes_def monitor_round_def is_shut_down_def flush_due_def bnd_def split: prod.splits)

lemma monitor_wakes_blocked:
  assumes "error s = Some e" "monitor_wakes C w s = (Ok (), t)"
  shows "error t = Some e \<and> pool t = pool s \<and> moka t = moka s \<and> last_flush t = last_flush s"
proof -
  define s1 where "s1 = s\<lparr>flush_notified := False, cleanup_notified := False, closed := shutdown s\<rparr>"
  have e1: "error s1 = Some e" using assms(1) by (simp add: s1_def)
  have "\<exists>u. t = monitor_head u \<and> u = s1\<lparr>backend := backend u\<rparr>"
  proof (cases "updates (pool s) = [] \<or> \<not> flush_due C (w \<noteq> WokenTick) (s\<lparr>closed := shutdown s\<rparr>)")
    case True
    then have "t = monitor_head s1" using monitor_wakes_idle[OF True] assms(2) by (simp add: s1_def)
    then show ?thesis by (intro exI[of _ s1]) simp
  next
    case False
    then have "bnd (monitor_flush C) (\<lambda>_. modify monitor_head) s1 = (Ok (), t)"
      using monitor_wakes_due[of s C w] assms(2) by (simp add: s1_def)
    then obtain u where u: "monitor_flush C s1 = (Ok (), u)" "t = monitor_head u" by auto
    then show ?thesis using monitor_flush_blocked[OF e1 u(1)] by blast
  qed
  then obtain u where u: "t = monitor_head u" "u = s1\<lparr>backend := backend u\<rparr>" by blast
  have "error u = Some e \<and> pool u = pool s \<and> moka u = moka s \<and> last_flush u = last_flush s"
    using arg_cong[OF u(2), of error] arg_cong[OF u(2), of pool] arg_cong[OF u(2), of moka]
      arg_cong[OF u(2), of last_flush] assms(1) by (simp add: s1_def)
  then show ?thesis using u(1) by (simp add: monitor_head_def)
qed

section \<open>The task and the logical map\<close>

lemma coherent_cong:
  "pool t = pool s \<Longrightarrow> backend t = backend s \<Longrightarrow> moka t = moka s \<Longrightarrow> coherent C R vok t m = coherent C R vok s m"
  by (simp add: coherent_def stored_ok_def)

text \<open>Every update is in the backend, which holds the map itself.\<close>

definition written :: "('d \<Rightarrow> 'k \<rightharpoonup> 'v) \<Rightarrow> ('k, 'u, 'e, 'm, 'd) cache \<Rightarrow> ('k \<rightharpoonup> 'v) \<Rightarrow> bool" where
  "written R s m \<longleftrightarrow> R (backend s) = m \<and> (\<forall>k. pending (pool s) k = None)"

locale background = write_behind C R vok
  for C :: "('k, 'v, 'u, 'e, 'm, 'd) conf" and R :: "'d \<Rightarrow> 'k \<rightharpoonup> 'v"
    and vok :: "'k \<Rightarrow> 'u option \<Rightarrow> 'v option \<Rightarrow> 'v option \<Rightarrow> bool" +
  assumes on_monitor_error: "ob \<in> set (observers C) \<Longrightarrow> ob_on_monitor_error ob e d = (rm, d') \<Longrightarrow> R d' = R d"
    and orders: "hash_order_ok C"
begin

lemma event_on_monitor_error_R:
  assumes "event_on_monitor_error C e s = (r, t)"
  shows "R (backend t) = R (backend s)"
proof -
  have "R d' = R d" if "for_each (\<lambda>ob. ob_on_monitor_error ob e) obs d = (r, d')" "set obs \<subseteq> set (observers C)" for obs d d'
    using that
  proof (induction obs arbitrary: d)
    case (Cons ob obs)
    obtain r1 d1 where o: "ob_on_monitor_error ob e d = (r1, d1)" by fastforce
    have "R d1 = R d" using on_monitor_error[OF _ o] Cons.prems(2) by simp
    moreover have "R d' = R d1" using Cons o by (cases r1) auto
    ultimately show ?case by simp
  qed simp
  then show ?thesis
    using assms by (auto simp: event_on_monitor_error_def on_backend_def split: prod.splits)
qed

lemma coherent_monitor_flush:
  assumes co: "coherent C R vok s m" and run: "monitor_flush C s = (r, t)" "r \<noteq> Wait"
  shows "coherent C R vok t m \<and> (r = Ok () \<and> error t = None \<longrightarrow> written R t m)"
proof -
  have told: ?thesis if "event_on_monitor_error C e (s1\<lparr>error := Some e\<rparr>) = (r, t)" "coherent C R vok s1 m" for e s1
  proof -
    have "t = s1\<lparr>error := Some e, backend := backend t\<rparr>" using event_on_monitor_error_fields[OF that(1)] by simp
    moreover have "R (backend t) = R (backend s1)" using event_on_monitor_error_R[OF that(1)] by simp
    ultimately show ?thesis
      using that(2) unfolding coherent_def stored_ok_def view_holds_def by (metis (no_types, lifting)
          cache.select_convs(1,2,3) cache.surjective cache.update_convs(1,4) option.distinct(1))
  qed
  show ?thesis
  proof (cases "error s")
    case (Some e)
    have "flush C s = (Fail e, s\<lparr>error := None\<rparr>)" by (rule error_first(5)[OF Some])
    then show ?thesis using told[of e "s\<lparr>error := None\<rparr>"] run(1) co
      by (simp add: monitor_flush_def coherent_error)
  next
    case None
    obtain r1 s1 where f: "flush C s = (r1, s1)" by fastforce
    have "r1 \<noteq> Wait" using run f by (auto simp: monitor_flush_def)
    note c1 = coherent_flush[OF co None orders f this]
    show ?thesis
      by (cases r1) (use run f c1 told[of _ s1] in \<open>auto simp: monitor_flush_def written_def\<close>)
  qed
qed

lemma written_idle: "coherent C R vok s m \<Longrightarrow> updates (pool s) = [] \<Longrightarrow> written R s m"
  by (auto simp: written_def coherent_def stored_ok_def view_holds_def pending_def pool_get_def vok_None)

text \<open>A round keeps the records; after one that had to flush and left no error all are written.\<close>

lemma coherent_monitor_wakes:
  assumes co: "coherent C R vok s m" and run: "monitor_wakes C w s = (r, t)" "r \<noteq> Wait"
  shows "coherent C R vok t m \<and>
    (r = Ok () \<and> error t = None \<and> flush_due C (w \<noteq> WokenTick) (s\<lparr>closed := shutdown s\<rparr>) \<longrightarrow> written R t m)"
proof -
  define s1 where "s1 = s\<lparr>flush_notified := False, cleanup_notified := False, closed := shutdown s\<rparr>"
  have co1: "coherent C R vok s1 m" using co coherent_cong[of s1 s C R vok m] by (simp add: s1_def)
  have head: "coherent C R vok (monitor_head u) m = coherent C R vok u m" "written R (monitor_head u) m = written R u m"
    "error (monitor_head u) = error u" for u
    by (simp_all add: monitor_head_def coherent_def stored_ok_def written_def)
  show ?thesis
  proof (cases "updates (pool s) = [] \<or> \<not> flush_due C (w \<noteq> WokenTick) (s\<lparr>closed := shutdown s\<rparr>)")
    case True
    then have "r = Ok ()" "t = monitor_head s1" using monitor_wakes_idle[OF True] run(1) by (simp_all add: s1_def)
    moreover have "written R s1 m" if "updates (pool s) = []" using written_idle[OF co1] that by (simp add: s1_def)
    ultimately show ?thesis using co1 True head by auto
  next
    case False
    then have eq: "bnd (monitor_flush C) (\<lambda>_. modify monitor_head) s1 = (r, t)"
      using monitor_wakes_due[of s C w] run(1) by (simp add: s1_def)
    obtain r1 u where f: "monitor_flush C s1 = (r1, u)" by fastforce
    have "r1 \<noteq> Wait" using eq f run(2) by auto
    note cu = coherent_monitor_flush[OF co1 f this]
    show ?thesis by (cases r1) (use eq f cu head in auto)
  qed
qed

lemma coherent_monitor_step:
  assumes "coherent C R vok s m" "monitor_step C s t"
  shows "coherent C R vok t m"
  using assms(2)
proof cases
  case monitor_starts
  then show ?thesis using assms(1) by (simp add: monitor_head_def coherent_def stored_ok_def)
next
  case (monitor_turns w)
  then show ?thesis using coherent_monitor_wakes[OF assms(1)] by blast
next
  case (monitor_dies w msg u)
  have "coherent C R vok u m" using coherent_monitor_wakes[OF assms(1) monitor_dies(4)] by simp
  then show ?thesis using monitor_dies(1) by (simp add: coherent_def stored_ok_def)
qed

text \<open>The whole system still behaves like the map, whatever the task does in between.\<close>

lemma coherent_sys_step:
  assumes "sys_step C R (s, n) a (t, n')" "coherent C R vok s m"
  shows "\<exists>m'. coherent C R vok t m' \<and>
    (case a of Client ev \<Rightarrow> map_step (dc_primary_key_of (dc C)) m ev m' | _ \<Rightarrow> m' = m)"
  using assms(1)
proof cases
  case (sys_client ev)
  then show ?thesis using simulation_step[OF orders assms(2)] by fastforce
next
  case (sys_soft_flush r)
  then show ?thesis using assms(2)
    by (auto simp: soft_flush_eq coherent_def stored_ok_def split: option.splits if_splits)
next
  case sys_close_wait
  then show ?thesis using assms(2)
    by (auto simp: close_request_eq coherent_def stored_ok_def split: option.splits if_splits)
next
  case (sys_close_now r)
  then show ?thesis using assms(2)
    by (auto simp: close_request_eq coherent_def stored_ok_def split: option.splits if_splits)
next
  case sys_monitor
  then show ?thesis using coherent_monitor_step[OF assms(2)] by simp
qed (use assms(2) in \<open>simp_all add: coherent_def stored_ok_def\<close>)

lemma sys_simulation:
  assumes "sys_run C R c as c'" "coherent C R vok (fst c) m"
  shows "\<exists>m'. map_run (dc_primary_key_of (dc C)) m (client_events as) m' \<and> coherent C R vok (fst c') m'"
  using assms
proof induction
  case (sys_none c)
  then show ?case by (auto intro: map_none)
next
  case (sys_more c as c1 a c2)
  obtain m1 where m1: "map_run (dc_primary_key_of (dc C)) m (client_events as) m1" "coherent C R vok (fst c1) m1"
    using sys_more by blast
  obtain m2 where m2: "coherent C R vok (fst c2) m2"
    "case a of Client ev \<Rightarrow> map_step (dc_primary_key_of (dc C)) m1 ev m2 | _ \<Rightarrow> m2 = m1"
    using coherent_sys_step[of "fst c1" "snd c1" a "fst c2" "snd c2"] sys_more.hyps(2) m1(2) by fastforce
  have "map_run (dc_primary_key_of (dc C)) m (client_events (as @ [a])) m2"
    using m1(1) m2(2) by (cases a) (auto intro: map_more)
  with m2(1) show ?case by blast
qed

end

end
