(* ===== verification/Iteration.thy ===== *)
theory Iteration
  imports CacheCore "HOL-Library.Sublist"
begin

text \<open>
  Code that uses an iterator: a whole pass over it and its reset, a caller that treats each item
  as it likes, and a \<open>write_back\<close> that confirms its items one by one.
\<close>

section \<open>Whole passes\<close>

text \<open>The context in which a flush of the keys \<open>ks\<close> starts.\<close>

definition flush_start :: "('k, 'u) pool \<Rightarrow> 'k list \<Rightarrow> 'd \<Rightarrow> ('k, 'u, 'd) flush_ctx" where
  "flush_start p ks d = \<lparr>ctx_pool = p, ctx_iter = iter_keys ks, ctx_backend = d\<rparr>"

lemma flush_start_reads [simp]:
  "ctx_pool (flush_start p ks d) = p" "ctx_iter (flush_start p ks d) = iter_keys ks"
  "ctx_backend (flush_start p ks d) = d" "todo (flush_start p ks d) = map (\<lambda>k. (k, None)) ks"
  "flush_inv p [] (flush_start p ks d)"
  by (simp_all add: flush_start_def todo_def iter_keys_def flush_inv_keys[unfolded iter_keys_def])

lemma guards_ok_keys [simp]: "guards_ok p (map (\<lambda>k. (k, None)) ks)"
  by (auto simp: guards_ok_def)

lemma items_of_start:
  assumes "pool_own p" "pool_idle p" "distinct ks"
  shows "items_of (flush_start p ks d) = map (\<lambda>k. (k, the (pool_get p k))) (filter (\<lambda>k. pending p k \<noteq> None) ks)"
  using remaining_keys[OF assms(1,3)] assms(2) by (simp add: items_of_def pool_idle_def)

text \<open>A pass that collects the keys with their updates, and the reset after it.\<close>

definition collect_updates :: "('k, 'u, 'd) flush_ctx \<Rightarrow> ('k \<times> 'u option) list \<times> ('k, 'u, 'd) flush_ctx" where
  "collect_updates c = iter_fold (\<lambda>it u acc. acc @ [(item_key it, u)]) [] c"

lemma fold_snoc: "fold (\<lambda>x acc. acc @ [f x]) xs acc = acc @ map f xs"
  by (induction xs arbitrary: acc) simp_all

lemma collect_updates_start:
  assumes "pool_own p" "pool_idle p" "distinct ks" and run: "collect_updates (flush_start p ks d) = (l, c)"
  shows "l = map (\<lambda>k. (k, pending p k)) (filter (\<lambda>k. pending p k \<noteq> None) ks)"
    and "ctx_pool c = lock_items (items_of (flush_start p ks d)) p"
    and "worked (ctx_iter c) = items_of (flush_start p ks d)" and "ctx_backend c = d"
    and "unprocessed (ctx_iter c) = map (\<lambda>k. (k, None)) ks"
proof -
  define f where "f = (\<lambda>it (u :: 'b option) acc. acc @ [(item_key it :: 'a, u)])"
  have fold: "iter_fold f [] (flush_start p ks d) = (l, c)" using run by (simp add: collect_updates_def f_def)
  note spec = iter_fold_spec[OF fold]
  have "l = fold (\<lambda>it. f it (data (states p (snd it)))) (items_of (flush_start p ks d)) []" using spec by simp
  also have "\<dots> = map (\<lambda>it. (fst it, data (states p (snd it)))) (items_of (flush_start p ks d))"
    by (simp add: fold_snoc f_def item_key_def)
  also have "\<dots> = map (\<lambda>k. (k, pending p k)) (filter (\<lambda>k. pending p k \<noteq> None) ks)"
    unfolding items_of_start[OF assms(1-3)] by (auto simp: pending_def split: option.splits)
  finally show "l = map (\<lambda>k. (k, pending p k)) (filter (\<lambda>k. pending p k \<noteq> None) ks)" .
  show "ctx_pool c = lock_items (items_of (flush_start p ks d)) p"
    "worked (ctx_iter c) = items_of (flush_start p ks d)" "ctx_backend c = d"
    using spec by (simp_all add: iter_keys_def)
  show "unprocessed (ctx_iter c) = map (\<lambda>k. (k, None)) ks"
    using unprocessed_keys_fold[OF fold] by (simp add: iter_keys_def image_subset_iff)
qed

lemma reset_after_pass:
  assumes "pool_own p" "pool_idle p" "distinct ks" and run: "collect_updates (flush_start p ks d) = (l, c)"
  shows "iter_reset c = flush_start p ks d"
proof -
  note spec = collect_updates_start[OF assms]
  have "unlock_items (items_of (flush_start p ks d)) (lock_items (items_of (flush_start p ks d)) p) = p"
    using assms(2) by (intro unlock_lock_items) (simp add: pool_idle_def)
  then show ?thesis
    using spec by (simp add: iter_reset_def Let_def ctx_on_pool_def flush_start_def iter_keys_def)
qed

section \<open>Arbitrary use\<close>

text \<open>What a caller does with an item: it keeps it, drops it, or confirms it.\<close>

datatype fate = Kept | Dropped | Confirmed

fun treat :: "fate \<Rightarrow> 'k \<times> nat \<Rightarrow> ('k, 'u, 'd) flush_ctx \<Rightarrow> ('k, 'u, 'd) flush_ctx" where
  "treat Kept it c = c"
| "treat Dropped it c = item_drop it c"
| "treat Confirmed it c = item_confirm it c"

text \<open>As many calls of \<open>next\<close> as there are fates: the items they yield and the final context.\<close>

fun consume :: "fate list \<Rightarrow> ('k, 'u, 'd) flush_ctx \<Rightarrow> ('k \<times> nat) list \<times> ('k, 'u, 'd) flush_ctx" where
  "consume [] c = ([], c)"
| "consume (f # fs) c = (case iter_next c of
       (None, c1) \<Rightarrow> consume fs c1
     | (Some it, c1) \<Rightarrow> (case consume fs (treat f it c1) of (its, c2) \<Rightarrow> (it # its, c2)))"

lemma todo_item_confirm [simp]: "todo (item_confirm it c) = todo c"
  by (simp add: item_confirm_def)

lemma todo_treat [simp]: "todo (treat f it c) = todo c"
  by (cases f) simp_all

lemma iter_next_keys:
  assumes "iter_next c = (r, c')"
  shows "\<exists>pre. map fst (todo c) = pre @ map fst (todo c') \<and> (\<forall>it. r = Some it \<longrightarrow> fst it \<in> set pre)"
  using assms
proof (induction "length (todo c)" arbitrary: c rule: less_induct)
  case less
  define n where "n = next_idx (ctx_iter c)"
  show ?case
  proof (cases "length (unprocessed (ctx_iter c)) \<le> n")
    case True
    with less.prems show ?thesis
      by (subst (asm) iter_next.simps) (auto simp: Let_def n_def)
  next
    case False
    obtain key guard where kg: "unprocessed (ctx_iter c) ! n = (key, guard)" by fastforce
    then have td: "todo c = (key, guard) # todo (iter_advance c)"
      using False todo_advance[of c] by (simp add: n_def)
    note eq = less.prems[unfolded iter_next.simps[of c], unfolded Let_def, folded n_def]
    have IH: ?thesis if nx: "iter_next c1 = (r, c')" and td1: "todo c1 = todo (iter_advance c)" for c1
    proof -
      have "length (todo c1) < length (todo c)" using td td1 by simp
      then obtain pre where "map fst (todo c1) = pre @ map fst (todo c')" "\<forall>it. r = Some it \<longrightarrow> fst it \<in> set pre"
        using less.hyps[OF _ nx] by blast
      then show ?thesis using td td1 by (intro exI[of _ "key # pre"]) simp
    qed
    have hit: ?thesis if "r = Some (key, i)" "todo c' = todo (iter_advance c)" for i
      using td that by (intro exI[of _ "[key]"]) simp
    have "(\<exists>i. r = Some (key, i) \<and> todo c' = todo (iter_advance c)) \<or>
        (\<exists>c1. iter_next c1 = (r, c') \<and> todo c1 = todo (iter_advance c))"
      using eq False kg by (auto split: option.splits if_splits)
    then show ?thesis using IH hit by blast
  qed
qed

lemma consume_keys: "consume fs c = (its, c') \<Longrightarrow> subseq (map fst its) (map fst (todo c))"
proof (induction fs c arbitrary: its c' rule: consume.induct)
  case (2 f fs c)
  obtain r c1 where nx: "iter_next c = (r, c1)" by fastforce
  obtain pre where pre: "map fst (todo c) = pre @ map fst (todo c1)" "\<forall>it. r = Some it \<longrightarrow> fst it \<in> set pre"
    using iter_next_keys[OF nx] by blast
  show ?case
  proof (cases r)
    case None
    then have "subseq (map fst its) (map fst (todo c1))" using "2.IH"(1)[OF nx[symmetric]] "2.prems" nx by simp
    then show ?thesis using pre(1) by (simp add: subseq_drop_many)
  next
    case (Some it)
    obtain its' where its: "consume fs (treat f it c1) = (its', c')" "its = it # its'"
      using "2.prems" nx Some by (auto split: prod.splits)
    have "subseq (map fst its') (map fst (todo c1))" using "2.IH"(2)[OF nx[symmetric] Some its(1)] by simp
    moreover have "subseq [fst it] pre" using pre(2) Some by (simp add: subseq_singleton_left)
    ultimately show ?thesis using its(2) pre(1) list_emb_append_mono[of "(=)" "[fst it]" pre] by simp
  qed
qed simp

section \<open>Confirmation one by one\<close>

text \<open>The loop \<open>while let Some(item) = updates.next() { item.confirm() }\<close> as a \<open>write_back\<close>.\<close>

function confirm_each :: "(('k, 'u, 'd) flush_ctx, 'e, unit) prog" where
  "confirm_each c = (case iter_next c of
       (None, c1) \<Rightarrow> (Ok (), c1)
     | (Some it, c1) \<Rightarrow> confirm_each (treat Confirmed it c1))"
  by pat_completeness auto
termination
  by (relation "measure (\<lambda>c. length (todo c))") (auto dest!: sym[of _ "iter_next _"] iter_next_todo simp: item_confirm_def)

declare confirm_each.simps [simp del]

lemma remaining_cong:
  assumes "pool_get q = pool_get p"
    and "\<And>j. locked (states q j) \<or> data (states q j) = None \<longleftrightarrow> locked (states p j) \<or> data (states p j) = None"
  shows "remaining q xs = remaining p xs"
  using assms
proof (induction xs arbitrary: p q)
  case (Cons x xs)
  obtain k g where x: "x = (k, g)" by fastforce
  have lock: "remaining (lock_state i q) xs = remaining (lock_state i p) xs" for i
    by (rule Cons.IH) (use Cons.prems in auto)
  show ?case
    using Cons.IH[OF Cons.prems] Cons.prems lock by (cases g) (simp_all add: x split: option.splits)
qed simp

text \<open>The queued guards are not those of an item in hand.\<close>

lemma guards_ok_confirm:
  assumes "flush_inv p0 (it # H) c" "guards_ok (ctx_pool c) (todo c)"
  shows "guards_ok (ctx_pool (item_confirm it c)) (todo c)"
  unfolding guards_ok_def
proof (intro allI impI)
  fix k i assume "(k, Some i) \<in> set (todo c)"
  then have q: "(k, Some i) \<in> set (unprocessed (ctx_iter c))" using in_set_dropD by (fastforce simp: todo_def)
  have "(k, Some i) \<in> set xs \<Longrightarrow> (k, i) \<in> set (List.map_filter (\<lambda>(k, g). map_option (Pair k) g) xs)"
    for xs :: "('a \<times> nat option) list"
    by (induction xs) (auto simp: List.map_filter_simps split: option.splits)
  with q have "(k, i) \<in> set (guards c)" by (simp add: guards_def own_guards_def)
  then have "i \<in> set (map snd (guards c))" by (metis image_eqI list.set_map snd_conv)
  moreover have "snd it \<notin> set (map snd (guards c))"
  proof -
    have "distinct (map snd (guards c) @ snd it # map snd H)" using assms(1) by (simp add: flush_inv_def)
    then show ?thesis by (simp only: distinct_append) force
  qed
  ultimately have "i \<noteq> snd it" by metis
  then show "data (states (ctx_pool (item_confirm it c)) i) \<noteq> None \<and> locked (states (ctx_pool (item_confirm it c)) i)"
    using assms(2) \<open>(k, Some i) \<in> set (todo c)\<close> by (auto simp: item_confirm_def guards_ok_def)
qed

lemma confirm_each_spec:
  fixes r :: "('e, unit) res"
  assumes "confirm_each c = (r, c')" "guards_ok (ctx_pool c) (todo c)" "flush_inv p0 [] c"
  shows "r = Ok () \<and> flush_inv p0 [] c' \<and> worked (ctx_iter c') = worked (ctx_iter c) \<and> todo c' = [] \<and>
    (\<forall>i. data (states (ctx_pool c') i) =
      (if i \<in> snd ` set (items_of c) then None else data (states (ctx_pool c) i)))"
  using assms
proof (induction c arbitrary: r c' rule: confirm_each.induct)
  case (1 c)
  obtain x c1 where nx: "iter_next c = (x, c1)" by fastforce
  note spec = iter_next_spec[OF nx "1.prems"(2)] and inv = iter_next_inv[OF nx "1.prems"(3)]
  show ?case
  proof (cases x)
    case None
    then show ?thesis using "1.prems"(1,3) nx spec inv by (subst (asm) confirm_each.simps) auto
  next
    case (Some it)
    define c2 where "c2 = treat Confirmed it c1"
    have rec: "confirm_each c2 = (r, c')"
      using "1.prems"(1) nx Some by (subst (asm) confirm_each.simps) (simp add: c2_def)
    have its: "items_of c = it # items_of c1" and g1: "guards_ok (ctx_pool c1) (todo c1)"
      and pl: "ctx_pool c1 = lock_state (snd it) (ctx_pool c)" and w: "worked (ctx_iter c1) = worked (ctx_iter c)"
      using spec unfolding Some by (elim conjE; simp)+
    have inv2: "flush_inv p0 [] c2" using inv Some by (auto simp: c2_def intro: item_confirm_inv)
    have other: "snd it \<notin> snd ` set (items_of c1)"
      using items_of_distinct[of p0 "[it]" c1] inv g1 Some by auto
    have dat: "data (states (ctx_pool c2) i) = (if i = snd it then None else data (states (ctx_pool c) i))" for i
      by (simp add: c2_def item_confirm_def pl)
    have td: "todo c2 = todo c1" by (simp add: c2_def)
    have w2: "worked (ctx_iter c2) = worked (ctx_iter c1)" by (simp add: c2_def item_confirm_def)
    have rem: "remaining (ctx_pool c2) (todo c1) = remaining (ctx_pool c1) (todo c1)"
      by (rule remaining_cong) (simp_all add: c2_def item_confirm_def pl)
    have inv1: "flush_inv p0 [it] c1" using inv Some by simp
    have g2: "guards_ok (ctx_pool c2) (todo c2)"
      using guards_ok_confirm[OF inv1 g1] by (simp add: c2_def)
    show ?thesis
      using "1.IH"[OF nx[symmetric] Some, folded c2_def, OF rec g2 inv2] its other rem td w w2
      by (auto simp: items_of_def dat)
  qed
qed

text \<open>
  A flush through such a \<open>write_back\<close> writes every update but keeps every entry of the pool: the
  clean-up only sees the items that came back unconfirmed.
\<close>

lemma iter_reset_start [simp]: "iter_reset (flush_start p ks d) = flush_start p ks d"
  by (simp add: iter_reset_def flush_start_def iter_keys_def ctx_on_pool_def Let_def)

lemma pool_get_iter_drop [simp]: "pool_get (ctx_pool (iter_drop c)) = pool_get (ctx_pool c)"
  by (simp add: iter_drop_def Let_def)

lemma purify_nothing:
  "worked (ctx_iter c) = [] \<Longrightarrow> purify_updates c = (Ok 0, iter_drop c)"
  by (simp add: purify_updates_def)

lemma flush_confirm_each:
  assumes wb: "dc_write_back (dc C) = confirm_each" and obs: "observers C = []" and h: "hash_order_ok C"
    and q: "pool_quiet (pool s)" and er: "error s = None" and run: "flush C s = (r, t)"
  shows "r = Ok 0 \<and> (\<forall>k. pending (pool t) k = None) \<and> pool_get (pool t) = pool_get (pool s)"
proof -
  define ks where "ks = hash_order C (keys_of_pool (pool s))"
  define c0 where "c0 = flush_start (pool s) ks (backend s)"
  have "distinct (keys_of_pool (pool s))" using q by (simp add: pool_quiet_def pool_wf_def hm_wf_def keys_of_pool_def)
  then have ks: "distinct ks" "set ks = set (keys_of_pool (pool s))" using h by (simp_all add: hash_order_ok_def ks_def)
  obtain x c1 where ce: "confirm_each c0 = (x :: ('d, unit) res, c1)" by fastforce
  have spec: "x = Ok ()" "flush_inv (pool s) [] c1" "worked (ctx_iter c1) = []"
    "data (states (ctx_pool c1) i) = (if i \<in> snd ` set (items_of c0) then None else data (states (pool s) i))" for i
    using confirm_each_spec[OF ce, of "pool s"] by (simp_all add: c0_def iter_keys_def)
  have fm: "flush_many_body C c0 = (Ok 0, iter_drop c1)"
    using ce spec(1) purify_nothing[OF spec(3)]
    by (simp add: flush_many_body_def event_on_flush_def obs wb c0_def)
  have "flush_many_raw C ks s = (r, t)" using run er by (simp add: flush_def flush_raw_def ks_def)
  then have rt: "r = Ok 0" "pool t = ctx_pool (iter_drop c1)"
    using fm by (auto simp: flush_many_raw_def with_ctx_def c0_def flush_start_def)
  have get: "pool_get (ctx_pool c1) = pool_get (pool s)" by (rule flush_invD(6)[OF spec(2)])
  have "pending (ctx_pool c1) k = None" for k
  proof (cases "pool_get (pool s) k")
    case (Some i)
    have "k \<in> set ks" using Some ks(2) by (force simp: pool_get_def keys_of_pool_def dest: map_of_SomeD)
    then have "(k, i) \<in> set (items_of c0) \<or> data (states (pool s) i) = None"
      using Some q ks(1) by (auto simp: c0_def items_of_start pool_quiet_def pending_def)
    then show ?thesis using Some get spec(4)[of i] by (force simp: pending_def)
  qed (simp add: pending_def get)
  then show ?thesis using rt get by simp
qed

end
