(* ===== verification/EntryLaws.thy ===== *)
theory EntryLaws
  imports Iteration CacheEntry
begin

text \<open>
  Single operations on entries: a hit, removals, and the operations under secondary keys, for any
  data controller and any moka with the documented laws.
\<close>

section \<open>Hits\<close>

text \<open>A cached record is answered without the backend; the access enters the key into the pool.\<close>

lemma hit_unchanged:
  assumes mo: "moka_ok (mk C)" and hit: "mk_lookup (mk C) (moka s) k = Some (Primary v)"
  shows "\<exists>m. get_and_try_compute_with_primary C k (\<lambda>_. ret Nop) s = (Ok (Unchanged (entry_new k v)), s\<lparr>moka := m\<rparr>)"
proof -
  obtain r m where ap: "mk_apply (mk C) k (Some (Primary v)) Nop (moka s) = (r, m)" by fastforce
  have "r = MokaUnchanged k (Primary v)" using moka_apply_Nop[OF mo ap] by simp
  with ap hit show ?thesis
    by (intro exI[of _ m]) (simp add: get_and_try_compute_with_primary_def maybe_flush_one_def moka_get_def
        moka_and_try_compute_with_def current_entry_def into_value_def apply_user_op_def primary_result_def
        from_primary_entry_def)
qed

lemma hit_entry:
  "error s = None \<Longrightarrow> mk_lookup (mk C) (moka s) k = Some (Primary v) \<Longrightarrow>
     entry C k s = (Ok \<lparr>sel_primary_key = Some k, sel_key = k, sel_primary = True\<rparr>, s)"
  by (simp add: entry_def get_primary_key_from_def moka_get_def)

lemma cached_get:
  assumes mo: "moka_ok (mk C)" and er: "error s = None" and q: "pool_quiet (pool s)"
    and hit: "mk_lookup (mk C) (moka s) k = Some (Primary v)" and pk: "dc_primary_key_of (dc C) v = k"
    and acc: "dc_on_access (dc C) = default_on_access"
  shows "\<exists>t. cache_get C k s = (Ok (Some v), t) \<and> backend t = backend s \<and> pool_quiet (pool t) \<and>
    pending (pool t) = pending (pool s) \<and> pool_get (pool t) k \<noteq> None \<and> error t = None"
proof -
  obtain m where m: "get_and_try_compute_with_primary C k (\<lambda>_. ret Nop) s =
      (Ok (Unchanged (entry_new k v)), s\<lparr>moka := m\<rparr>)"
    using hit_unchanged[OF mo hit] by blast
  define s1 where "s1 = s\<lparr>moka := m\<rparr>"
  have "dc_on_access (dc C) k v (pending (pool s1) k) (backend s1) =
      (Ok (wbdc_response DcNop (pending (pool s) k)), backend s)"
    by (simp add: acc default_on_access_def s1_def)
  then obtain t where t: "on_access C k v s1 = (Ok (), t)"
    "dc_event_ok s1 k (wbdc_response DcNop (pending (pool s) k)) (backend s) t"
    using on_access_Ok[of s1 C v k] q pk by (auto simp: s1_def)
  have "cache_get C k s = (Ok (Some v), t)"
    using er m t(1)[unfolded s1_def] hit_entry[OF er hit]
    by (simp add: cache_get_def and_try_compute_with_def Let_def entry_new_def)
  moreover have "t = s1\<lparr>monitor_task := spawn (monitor_task s1), backend := backend s, pool := pool t\<rparr>"
    using t(2) by (simp add: dc_event_ok_def)
  then have "backend t = backend s" "error t = None"
    by (metis cache.select_convs(4) cache.surjective cache.update_convs(3,4))
      (metis (no_types) \<open>t = s1\<lparr>monitor_task := spawn (monitor_task s1), backend := backend s, pool := pool t\<rparr>\<close>
        er s1_def cache.select_convs(1) cache.surjective cache.update_convs(2,3,4,7))
  ultimately show ?thesis
    using t(2) by (auto simp: dc_event_ok_def wbdc_response_def s1_def)
qed

text \<open>A flush never takes an entry without an update out of the pool: the iterator skips it.\<close>

context flush_client
begin

lemma flush_result:
  assumes q: "pool_quiet (pool s)" and er: "error s = None" and run: "flush C s = (r, t)" "r \<noteq> Wait"
  shows "pool_flushed (pool s) (pool t) \<and> pool_quiet (pool t) \<and> (\<forall>n. r = Ok n \<longrightarrow> n = 0) \<and>
    t = s\<lparr>pool := pool t, backend := backend t, last_flush := last_flush t\<rparr> \<and>
    last_flush t = (if \<exists>n. r = Ok n then clock s else last_flush s)"
proof -
  have w: "pool_wf (pool s)" "pool_own (pool s)" using q by (simp_all add: pool_quiet_def)
  have "flush_many_raw C (hash_order C (keys_of_pool (pool s))) s = (r, t)"
    using run(1) er by (simp add: flush_def flush_raw_def)
  from flush_many_raw_done[OF w this run(2), of "\<lambda>_ _ _. True"] show ?thesis
    using pool_flushed_quiet[OF _ q] by (auto simp: flush_done_def)
qed

lemma flush_keeps_empty:
  assumes "pool_quiet (pool s)" "error s = None" "flush C s = (r, t)" "r \<noteq> Wait"
    and k: "pool_get (pool s) k = Some i" "pending (pool s) k = None"
  shows "pool_get (pool t) k = Some i"
  using flush_result[OF assms(1-4)] k unfolding pool_flushed_def by (auto simp: pending_def)

end

section \<open>Invalidation\<close>

lemma invalidate_all [simp]:
  "for_each (moka_inv C) ks s = (Ok (), s\<lparr>moka := fold (mk_invalidate (mk C)) ks (moka s)\<rparr>)"
  by (induction ks arbitrary: s) (simp_all add: moka_inv_def)

lemma lookup_invalidate_all:
  assumes "moka_ok M"
  shows "mk_lookup M (fold (mk_invalidate M) ks m) \<subseteq>\<^sub>m (mk_lookup M m) |` (- set ks)"
proof (induction ks arbitrary: m)
  case (Cons k ks)
  have "mk_lookup M (mk_invalidate M k m) \<subseteq>\<^sub>m (mk_lookup M m)(k := None)" by (rule moka_invalidate[OF assms])
  then have "mk_lookup M (mk_invalidate M k m) |` (- set ks) \<subseteq>\<^sub>m (mk_lookup M m) |` (- set (k # ks))"
    by (auto simp: map_le_def restrict_map_def dom_def split: if_splits)
  with Cons.IH[of "mk_invalidate M k m"] show ?case by (auto intro: map_le_trans)
qed (simp add: map_le_def)

lemma invalidate_primary:
  assumes mo: "moka_ok (mk C)" and er: "error s = None"
    and hit: "mk_lookup (mk C) (moka s) k = Some (Primary v)"
  shows "\<exists>m. cache_invalidate C k s = (Ok (), s\<lparr>moka := m\<rparr>) \<and>
    mk_lookup (mk C) m \<subseteq>\<^sub>m (mk_lookup (mk C) (moka s)) |` (- insert k (set (dc_secondary_keys_of (dc C) v)))"
proof -
  define m1 where "m1 = fold (mk_invalidate (mk C)) (dc_secondary_keys_of (dc C) v) (moka s)"
  obtain r m where ap: "mk_apply (mk C) k (Some (Primary v)) Remove m1 = (r, m)" by fastforce
  have "mk_lookup (mk C) m \<subseteq>\<^sub>m (mk_lookup (mk C) m1)(k := None)" using moka_apply_cases[OF mo ap] by simp
  moreover have "mk_lookup (mk C) m1 \<subseteq>\<^sub>m (mk_lookup (mk C) (moka s)) |` (- set (dc_secondary_keys_of (dc C) v))"
    unfolding m1_def by (rule lookup_invalidate_all[OF mo])
  ultimately have "mk_lookup (mk C) m \<subseteq>\<^sub>m (mk_lookup (mk C) (moka s)) |` (- insert k (set (dc_secondary_keys_of (dc C) v)))"
    by (auto simp: map_le_def restrict_map_def dom_def split: if_splits) (metis option.distinct(1))+
  moreover have "cache_invalidate C k s = (Ok (), s\<lparr>moka := m\<rparr>)"
    using er hit ap by (simp add: cache_invalidate_def moka_and_try_compute_with_def moka_get_def m1_def)
  ultimately show ?thesis by blast
qed

section \<open>Secondary keys\<close>

text \<open>
  \<open>get_or_try_insert_with_secondary\<close> reads the result from the entry of the secondary key, which
  holds a reference and not a record.
\<close>

lemma moka_compute_Ok:
  assumes "moka_and_try_compute_with C key f s = (Ok r, t)"
  obtains oper s1 m where "f (mk_lookup (mk C) (moka s) key) s = (Ok oper, s1)"
    "mk_apply (mk C) key (mk_lookup (mk C) (moka s) key) oper (moka s1) = (r, m)" "t = s1\<lparr>moka := m\<rparr>"
  using assms by (auto simp: moka_and_try_compute_with_def moka_get_def split: prod.splits)

lemma insert_with_secondary_never_Ok:
  assumes mo: "moka_ok (mk C)"
  shows "get_or_try_insert_with_secondary C key init s \<noteq> (Ok en, t)"
proof
  assume "get_or_try_insert_with_secondary C key init s = (Ok en, t)"
  then show False
    unfolding get_or_try_insert_with_secondary_def
  proof (elim bnd_OkE moka_compute_Ok, goal_cases)
    case (1 r s2 oper s1 m pk s3)
    then have "mk_apply (mk C) key (mk_lookup (mk C) (moka s) key) (Put (Secondary pk)) (moka s1) = (r, m)" by simp
    from moka_apply_Put[OF mo this] 1(1) show False
      by (simp add: into_value_def split: option.splits)
  qed
qed

text \<open>
  A computation under a secondary key that is unknown so far, and whose closure puts a record: the
  record is stored, and then the missing primary key is unwrapped.
\<close>

lemma put_unknown_secondary:
  assumes none: "mk_lookup (mk C) (moka s) key = None"
    and unknown: "dc_get_primary_key_for (dc C) key (backend s) = (Ok None, d)"
    and put: "f None (s\<lparr>backend := d\<rparr>) = (Ok (Put v), s1)"
    and stored: "get_and_try_compute_with_primary C (dc_primary_key_of (dc C) v) (\<lambda>_. ret (Put v)) s1 = (Ok (Inserted en), s2)"
  shows "get_and_try_compute_with_secondary C key f s = (Panic ''called Option::unwrap() on a None value'', s2)"
  using assms
  by (simp add: get_and_try_compute_with_secondary_def moka_get_def primary_of_secondary_def
      get_primary_key_from_def secondary_op_def Let_def)

end
