(* ===== verification/Evaluation.thy ===== *)
theory Evaluation
  imports Entities Monitor Iteration EntryLaws
begin

text \<open>
  Evaluation of a call on a concrete cache. The programs are run from the outside in: a
  continuation is looked at only once the state and the value handed to it are known. That is what
  the congruence rules \<open>eval_cong\<close> say, one for each combinator; \<open>eval_simps\<close> holds the
  equations of the programs.
\<close>

section \<open>The combinators\<close>

lemma bnd_eval: "bnd m f s = (case m s of (r, t) \<Rightarrow> (case r of
    Ok a \<Rightarrow> f a t | Fail e \<Rightarrow> (Fail e, t) | Panic msg \<Rightarrow> (Panic msg, t) | Wait \<Rightarrow> (Wait, t)))"
  by (simp add: bnd_def split: prod.splits res.splits)

lemma on_db_eval: "on_db m s = (case m s of (r, t) \<Rightarrow> (case r of
    Ok a \<Rightarrow> (Ok a, t) | Fail e \<Rightarrow> (Fail (DbError e), t) | Panic msg \<Rightarrow> (Panic msg, t) | Wait \<Rightarrow> (Wait, t)))"
  by (simp add: on_db_def split: prod.splits res.splits)

lemma on_tx_eval: "on_tx m t c = (case m t of (r, t') \<Rightarrow> (case r of
    Ok a \<Rightarrow> (Ok t', c) | Fail e \<Rightarrow> (Fail (DbError e), c) | Panic msg \<Rightarrow> (Panic msg, c) | Wait \<Rightarrow> (Wait, c)))"
  by (simp add: on_tx_def split: prod.splits res.splits)

lemma unwrap_res_eval: "unwrap_res msg m s = (case m s of (r, t) \<Rightarrow> (case r of
    Fail e \<Rightarrow> (Panic msg, t) | Ok a \<Rightarrow> (Ok a, t) | Panic msg' \<Rightarrow> (Panic msg', t) | Wait \<Rightarrow> (Wait, t)))"
  by (simp add: unwrap_res_def split: prod.splits res.splits)

lemma wb_loop_eval: "wb_loop T B st c = (case wb_step T B st c of (r, c') \<Rightarrow> (case r of
    Ok x \<Rightarrow> (case x of Inl t \<Rightarrow> (Ok t, c') | Inr st' \<Rightarrow> wb_loop T B st' c')
  | Fail e \<Rightarrow> (Fail e, c') | Panic msg \<Rightarrow> (Panic msg, c') | Wait \<Rightarrow> (Wait, c')))"
  by (subst wb_loop.simps) (simp split: prod.splits res.splits sum.splits)

lemma monitor_flush_eval: "monitor_flush C s = (case flush C s of (r, t) \<Rightarrow> (case r of
    Ok _ \<Rightarrow> (Ok (), t) | Fail e \<Rightarrow> event_on_monitor_error C e (t\<lparr>error := Some e\<rparr>)
  | Panic msg \<Rightarrow> (Panic msg, t) | Wait \<Rightarrow> (Wait, t)))"
  by (simp add: monitor_flush_def split: prod.splits res.splits)

lemma eval_cong:
  "s = s' \<Longrightarrow> bnd m f s = bnd m f s'"
  "s = s' \<Longrightarrow> on_exit m g s = on_exit m g s'"
  "s = s' \<Longrightarrow> on_err m g s = on_err m g s'"
  "s = s' \<Longrightarrow> unwrap_res msg m s = unwrap_res msg m s'"
  "s = s' \<Longrightarrow> modify h s = modify h s'"
  "s = s' \<Longrightarrow> gets j s = gets j s'"
  "s = s' \<Longrightarrow> on_backend p s = on_backend p s'"
  "s = s' \<Longrightarrow> with_ctx it q s = with_ctx it q s'"
  "s = s' \<Longrightarrow> with_write_guard i m s = with_write_guard i m s'"
  "d = d' \<Longrightarrow> on_db b d = on_db b d'"
  "c = c' \<Longrightarrow> ctx_db b c = ctx_db b c'"
  "c = c' \<Longrightarrow> on_tx u t c = on_tx u t c'"
  "s = s' \<Longrightarrow> on_pool v s = on_pool v s'"
  "s = s' \<Longrightarrow> get_update_state_and_compute C key value w s = get_update_state_and_compute C key value w s'"
  "s = s' \<Longrightarrow> moka_and_try_compute_with C key y s = moka_and_try_compute_with C key y s'"
  "s = s' \<Longrightarrow> moka_or_try_insert_with C key init s = moka_or_try_insert_with C key init s'"
  "s = s' \<Longrightarrow> get_and_try_compute_with_primary C key z s = get_and_try_compute_with_primary C key z s'"
  "s = s' \<Longrightarrow> get_and_try_compute_with_secondary C key z s = get_and_try_compute_with_secondary C key z s'"
  "s = s' \<Longrightarrow> get_or_try_insert_with_primary C key initv s = get_or_try_insert_with_primary C key initv s'"
  "s = s' \<Longrightarrow> get_or_try_insert_with_secondary C key initv s = get_or_try_insert_with_secondary C key initv s'"
  "s = s' \<Longrightarrow> and_try_compute_with C sel z s = and_try_compute_with C sel z s'"
  "s = s' \<Longrightarrow> or_try_insert_with C sel initv s = or_try_insert_with C sel initv s'"
  by simp_all

lemmas program_eval = bnd_eval on_exit_def on_err_def unwrap_res_eval with_ctx_def on_backend_def on_db_eval
  ctx_db_def on_tx_eval with_write_guard_def on_pool_def Let_def

section \<open>The programs\<close>

lemmas pool_eval = guard_get_def guard_set_def guard_take_def us_defs alloc_state_def pool_insert_def pool_remove_def
  pool_get_def strong_count_def lock_state_def unlock_state_def set_data_def hold_state_def release_state_def
  upd_state_def empty_pool_def hm_insert_def hm_remove_def AList.delete_eq

lemmas iterator_eval = iter_keys_def iter_key_guard_def ctx_on_pool_def iter_advance_def iter_next.simps
  item_drop_def items_drop_def item_confirm_def item_key_def item_update_def confirm_all_def unlock_items_def
  iter_reset_def own_guards_def iter_drop_def purify_updates_def List.map_filter_simps

lemmas core_eval = clear_error_def check_error_def moka_get_def get_primary_key_from_def spawn_def check_task_def
  fetch_state_def on_dc_op_def get_update_state_and_compute_def on_new_def on_change_def on_access_def on_delete_def
  event_on_flush_def event_on_flush_one_def event_on_monitor_error_def flush_many_body_def flush_many_raw_def
  flush_raw_def flush_def soft_flush_def flush_one_def maybe_flush_one_def keys_of_pool_def

lemmas entry_eval = moka_and_try_compute_with_def moka_or_try_insert_with_def moka_inv_def current_entry_def
  apply_user_op_def from_primary_entry_def primary_result_def get_and_try_compute_with_primary_def
  entry_value_access_def primary_of_secondary_def secondary_entry_def secondary_op_def unwrap_value_def
  secondary_result_def get_and_try_compute_with_secondary_def get_or_try_insert_with_primary_def cache_insert_def
  get_or_try_insert_with_secondary_def entry_def and_try_compute_with_def or_try_insert_with_def cache_get_def
  cache_delete_def cache_invalidate_def into_value_def entry_new_def

lemmas monitor_eval = initial_setup_def is_shut_down_def flush_due_def monitor_flush_eval monitor_round_def
  monitor_head_def monitor_wakes_def close_request_def close_wait_def

lemmas write_back_eval = wbdbc_on_new_def wbdc_on_delete_def diff_column_def wbdc_on_change_def insert_am_def
  delete_key_def batch_limit_def send_inserts_def send_deletes_def wb_step_def wb_loop_eval wbdc_write_back_def
  cu_replace_def wbdc_response_def find_one_by_def default_get_primary_key_for_def default_secondary_keys_of_def
  default_is_primary_def default_on_access_def

lemma manager_conf_eval:
  "dc (manager_conf D M n i) = D" "mk (manager_conf D M n i) = M" "observers (manager_conf D M n i) = []"
  "max_updates (manager_conf D M n i) = n" "flush_interval (manager_conf D M n i) = i"
  "hash_order (manager_conf D M n i) = (\<lambda>ks. ks)"
  by (simp_all add: manager_conf_def)

lemmas backend_eval = map_moka_def list_orm_def fun_am_def list_rows_def manager_conf_eval

lemmas product_eval = product_manager_def product_common_def product_field_def product_of_def val_defs product_get_for_key_def

lemmas customer_eval = customer_manager_def customer_common_def customer_field_def customer_of_def val_defs
  customer_key_def customer_get_for_key_def customer_get_primary_key_for_def customer_secondary_keys_of_def
  customer_delete_many_condition_def

lemmas eval_simps = program_eval pool_eval iterator_eval core_eval entry_eval monitor_eval write_back_eval backend_eval

text \<open>Rules that look into a program before its state is known.\<close>

lemmas eval_del = bnd_simps bnd_unit_simps on_exit_simps on_err_simps

end
