(* ===== verification/Caches.thy ===== *)
theory Caches
  imports Evaluation
begin

text \<open>
  The caches of the simulation as complete systems: the contract of \<open>Monitor\<close> holds for the
  product, order, session and inventory managers over the database of \<open>SeaOrm\<close>.
\<close>

lemma background_manager_conf:
  assumes "write_behind (manager_conf D M n i) R vok"
  shows "background (manager_conf D M n i) R vok"
  using assms by (simp add: background_def background_axioms_def) (simp add: manager_conf_def)

interpretation product_system: background
    "manager_conf (product_manager (list_orm product_field prod_id product_of) (fun_am product_field)) map_moka n i"
    "list_rows prod_id" "update_view (fun_am product_field) product_field prod_id (\<lambda>_. True)" for n i
  by (rule background_manager_conf) unfold_locales

interpretation order_system: background
    "manager_conf (order_manager (list_orm order_field ord_id order_of) (fun_am order_field)) map_moka n i"
    "list_rows ord_id" "update_view (fun_am order_field) order_field ord_id (\<lambda>_. True)" for n i
  by (rule background_manager_conf) unfold_locales

interpretation session_system: background
    "manager_conf (session_manager (list_orm session_field sess_id session_of) (fun_am session_field)) map_moka n i"
    "list_rows sess_id" "update_view (fun_am session_field) session_field sess_id (\<lambda>_. True)" for n i
  by (rule background_manager_conf) unfold_locales

interpretation inventory_system: background
    "manager_conf (inventory_manager (list_orm inventory_field inv_product_id inventory_of) (fun_am inventory_field)) map_moka n i"
    "list_rows inv_product_id" "update_view (fun_am inventory_field) inventory_field inv_product_id (\<lambda>_. True)" for n i
  by (rule background_manager_conf) unfold_locales

section \<open>A small shop\<close>

text \<open>A product cache over an empty table, flushed after more than two updates or ten ticks.\<close>

type_synonym product_am = "product_column \<Rightarrow> db_value active_value"

definition shop_conf ::
  "(int, product, product_am cache_updates, db_err sim_error, int \<rightharpoonup> (int, product) value_state, product list) conf" where
  "shop_conf = manager_conf (product_manager (list_orm product_field prod_id product_of) (fun_am product_field)) map_moka 2 10"

definition shop ::
  "(int, product_am cache_updates, db_err sim_error, int \<rightharpoonup> (int, product) value_state, product list) cache" where
  "shop = initial_setup (\<lambda>_. None) [] 0"

definition tea :: product where
  "tea = \<lparr>prod_id = 1, prod_name = ''tea'', prod_price = 3, prod_views = 0\<rparr>"

abbreviation shop_rows :: "product list \<Rightarrow> int \<rightharpoonup> product" where
  "shop_rows \<equiv> list_rows prod_id"

abbreviation shop_view :: "int \<Rightarrow> product_am cache_updates option \<Rightarrow> product option \<Rightarrow> product option \<Rightarrow> bool" where
  "shop_view \<equiv> update_view (fun_am product_field) product_field prod_id (\<lambda>_. True)"

lemma shop_background: "background shop_conf shop_rows shop_view"
  unfolding shop_conf_def by (rule product_system.background_axioms)

lemma coherent_initial:
  assumes "write_behind C R vok" "mk_lookup (mk C) mo = (\<lambda>_. None)" "\<And>k v. R d k = Some v \<Longrightarrow> dc_primary_key_of (dc C) v = k"
  shows "coherent C R vok (initial_setup mo d now) (R d)"
  using assms(2,3) write_behind.vok_None[OF assms(1)]
  by (simp add: coherent_def stored_ok_def cached_ok_def initial_setup_def view_holds_def pending_def
      pool_get_def empty_pool_def) (metis empty_pool_def pool_quiet_empty)

lemma shop_coherent: "coherent shop_conf shop_rows shop_view shop (\<lambda>_. None)"
proof -
  have "coherent shop_conf shop_rows shop_view shop (shop_rows [])"
    unfolding shop_def
    by (rule coherent_initial) (use shop_background in \<open>simp_all add: background_def shop_conf_def manager_conf_def map_moka_def\<close>)
  then show ?thesis by simp
qed

text \<open>The shop after its first insert.\<close>

definition shop1 where
  "shop1 = shop\<lparr>moka := [1 \<mapsto> Primary tea], monitor_task := Some Spawned,
     pool := \<lparr>updates = [(1, 0)],
       states = (\<lambda>_. \<lparr>data = None, locked = False, holders = 0\<rparr>)
         (0 := \<lparr>data = Some (CuInsert (am_from (fun_am product_field) tea)), locked = False, holders = 0\<rparr>),
       fresh = 1\<rparr>\<rparr>"

lemmas shop_eval = shop_conf_def shop_def tea_def product_eval

lemma shop1_run: "cache_insert shop_conf tea shop = (Ok (Some tea), shop1)"
  by (simp add: eval_simps shop_eval shop1_def cong: eval_cong del: eval_del)

lemma shop1_fields:
  "error shop1 = None" "pending (pool shop1) 1 \<noteq> None" "backend shop1 = []" "monitor_task shop1 = Some Spawned"
  "shutdown shop1 = False" "closed shop1 = False"
  by (simp_all add: shop1_def shop_def initial_setup_def pending_def pool_get_def)

lemma shop1_quiet: "pool_quiet (pool shop1)"
  by (simp add: shop1_def pool_quiet_def pool_wf_def pool_own_def pool_idle_def pool_get_def hm_wf_def)

lemma shop1_step: "client_step shop_conf shop_rows shop (EvInsert tea) shop1"
  by (rule step_insert[OF _ shop1_run]) (simp add: shop_def initial_setup_def)

text \<open>The shop after a flush.\<close>

definition shop2 where
  "shop2 = shop1\<lparr>backend := [tea],
     pool := \<lparr>updates = [], states = (states (pool shop1))(0 := \<lparr>data = None, locked = False, holders = 0\<rparr>), fresh = 1\<rparr>\<rparr>"

lemma shop2_run: "flush shop_conf shop1 = (Ok 0, shop2)"
  by (simp add: eval_simps shop_eval shop1_def shop2_def cong: eval_cong del: eval_del)

lemma shop1_coherent: "coherent shop_conf shop_rows shop_view shop1 [1 \<mapsto> tea]"
proof -
  have "\<exists>m'. map_step (dc_primary_key_of (dc shop_conf)) (\<lambda>_. None) (EvInsert tea) m' \<and>
      coherent shop_conf shop_rows shop_view shop1 m'"
    using write_behind.simulation_step[OF _ _ shop_coherent shop1_step] shop_background background.orders
    by (auto simp: background_def)
  then show ?thesis
    by (auto simp: shop_conf_def manager_conf_def product_manager_def tea_def)
qed

lemma shop1_view: "shop_view k (pending (pool shop1) k) (shop_rows [] k) ([1 \<mapsto> tea] k)"
  using shop1_coherent shop1_fields(3) by (simp add: coherent_def stored_ok_def view_holds_def)

text \<open>The same shop over a database that cannot be reached.\<close>

definition down_orm :: "('d, 't, 'am, 'c, 'x, 'v, db_err) orm \<Rightarrow> ('d, 't, 'am, 'c, 'x, 'v, db_err) orm" where
  "down_orm B = B\<lparr>or_connection := (\<lambda>d. (Fail RecordNotInserted, d))\<rparr>"

lemma orm_ok_down: "orm_ok B A fld pk RD RT \<Longrightarrow> orm_ok (down_orm B) A fld pk RD RT"
  by (simp add: orm_ok_def down_orm_def orm_answers_def answers_def orm_reads_def keeps_def
      orm_transactions_def orm_inserts_def orm_updates_def orm_deletes_def)

definition down_conf ::
  "(int, product, product_am cache_updates, db_err sim_error, int \<rightharpoonup> (int, product) value_state, product list) conf" where
  "down_conf = manager_conf (product_manager (down_orm (list_orm product_field prod_id product_of)) (fun_am product_field)) map_moka 2 10"

lemma down_background: "background down_conf shop_rows shop_view"
proof -
  have "orm_ok (list_orm product_field prod_id product_of) (fun_am product_field) product_field prod_id shop_rows shop_rows"
    by (rule orm_ok_list) simp
  from orm_ok_down[OF this] show ?thesis
    unfolding down_conf_def
    by (intro background_manager_conf product_write_behind[where RT = shop_rows])
      (simp_all add: am_ok_fun_am manager_conf_def moka_ok_map_moka)
qed

text \<open>The insert does not need the database; the flush fails and changes nothing.\<close>

lemma down_insert: "cache_insert down_conf tea shop = (Ok (Some tea), shop1)"
  by (simp add: eval_simps shop_eval down_conf_def down_orm_def shop1_def cong: eval_cong del: eval_del)

lemma down_flush: "flush down_conf shop1 = (Fail (DbError RecordNotInserted), shop1)"
  by (simp add: eval_simps shop_eval down_conf_def down_orm_def shop1_def cong: eval_cong del: eval_del)

lemma down_coherent: "coherent down_conf shop_rows shop_view shop1 [1 \<mapsto> tea]"
proof -
  have wb: "write_behind down_conf shop_rows shop_view" using down_background by (simp add: background_def)
  have co: "coherent down_conf shop_rows shop_view shop (shop_rows [])"
    unfolding shop_def by (rule coherent_initial[OF wb]) (simp_all add: down_conf_def manager_conf_def map_moka_def)
  have st: "client_step down_conf shop_rows shop (EvInsert tea) shop1"
    by (rule step_insert[OF _ down_insert]) (simp add: shop_def initial_setup_def)
  from write_behind.simulation_step[OF wb background.orders[OF down_background] co st]
  show "coherent down_conf shop_rows shop_view shop1 [1 \<mapsto> tea]"
    by (auto simp: down_conf_def manager_conf_def product_manager_def tea_def)
qed

text \<open>The shop with a monitor that waits, while it is being closed, and when it has been.\<close>

definition shop_waiting where "shop_waiting = monitor_head shop1"
definition shop_closing where "shop_closing = shop_waiting\<lparr>shutdown := True, cleanup_notified := True\<rparr>"
definition shop_closed where "shop_closed = shop2\<lparr>shutdown := True, closed := True, monitor_task := Some Finished\<rparr>"

section \<open>A small customer base\<close>

text \<open>A customer cache over a table with one customer.\<close>

type_synonym customer_am = "customer_column \<Rightarrow> db_value active_value"

definition crm_conf ::
  "(customer_by, customer, customer_am cache_updates, db_err sim_error,
    customer_by \<rightharpoonup> (customer_by, customer) value_state, customer list) conf" where
  "crm_conf = manager_conf (customer_manager (list_orm customer_field customer_key customer_of) (fun_am customer_field)) map_moka 2 10"

definition ann :: customer where
  "ann = \<lparr>cust_id = 7, cust_email = ''ann'', cust_first_name = ''A'', cust_last_name = ''N'', cust_registered_on = 1\<rparr>"

definition crm ::
  "(customer_by, customer_am cache_updates, db_err sim_error, customer_by \<rightharpoonup> (customer_by, customer) value_state,
    customer list) cache" where
  "crm = initial_setup (\<lambda>_. None) [ann] 0"

text \<open>The first \<open>get\<close> by e-mail puts one update state under both keys of the customer.\<close>

definition crm1 where
  "crm1 = crm\<lparr>moka := [ById 7 \<mapsto> Primary ann, ByEmail ''ann'' \<mapsto> Secondary (ById 7)], monitor_task := Some Spawned,
     pool := \<lparr>updates = [(ById 7, 0), (ByEmail ''ann'', 0)],
       states = (\<lambda>_. \<lparr>data = None, locked = False, holders = 0\<rparr>)(0 := \<lparr>data = None, locked = False, holders = 0\<rparr>),
       fresh = 1\<rparr>\<rparr>"

lemmas crm_eval = crm_conf_def crm_def ann_def customer_eval

lemma crm1_run: "cache_get crm_conf (ByEmail ''ann'') crm = (Ok (Some ann), crm1)"
  by (simp add: eval_simps crm_eval crm1_def cong: eval_cong del: eval_del)

text \<open>A change of the cached customer: the database gets it with the flush, moka keeps the old record.\<close>

definition ann2 :: customer where
  "ann2 = ann\<lparr>cust_first_name := ''B''\<rparr>"

definition crm2 where
  "crm2 = crm1\<lparr>backend := [ann2, ann]\<rparr>"

definition change_ann ::
  "((customer_by, customer_am cache_updates, db_err sim_error, customer_by \<rightharpoonup> (customer_by, customer) value_state,
    customer list) cache, db_err sim_error, (customer_by, customer) comp_result) prog" where
  "change_ann = get_and_try_compute_with_primary crm_conf (ById 7) (\<lambda>_. ret (Put ann2))"

lemma crm2_run: "bnd change_ann (\<lambda>_. flush crm_conf) crm1 = (Ok 0, crm2)"
  by (simp add: eval_simps crm_eval crm1_def ann2_def crm2_def change_ann_def cong: eval_cong del: eval_del)

lemma crm2_get: "fst (cache_get crm_conf (ById 7) crm2) = Ok (Some ann)"
  by (simp add: eval_simps crm_eval crm1_def ann2_def crm2_def cong: eval_cong del: eval_del)

text \<open>A customer cache whose data controller asks for new records to be cached.\<close>

definition caching_crm where
  "caching_crm = crm_conf\<lparr>dc := (dc crm_conf)\<lparr>dc_on_new :=
     (\<lambda>_ v. ret (wbdc_response DcInsert (Some (CuInsert (am_from (fun_am customer_field) v)))))\<rparr>\<rparr>"

section \<open>A shop with a record in the database\<close>

definition coffee :: product where
  "coffee = \<lparr>prod_id = 1, prod_name = ''coffee'', prod_price = 5, prod_views = 0\<rparr>"

definition stocked ::
  "(int, product_am cache_updates, db_err sim_error, int \<rightharpoonup> (int, product) value_state, product list) cache" where
  "stocked = initial_setup (\<lambda>_. None) [tea] 0"

text \<open>The tea is deleted, then a coffee is inserted under its key.\<close>

definition restocked where
  "restocked = stocked\<lparr>moka := [1 \<mapsto> Primary coffee], monitor_task := Some Spawned,
     pool := \<lparr>updates = [(1, 0)],
       states = (\<lambda>_. \<lparr>data = None, locked = False, holders = 0\<rparr>)
         (0 := \<lparr>data = Some (CuInsert (am_from (fun_am product_field) coffee)), locked = False, holders = 0\<rparr>),
       fresh = 1\<rparr>\<rparr>"

lemma restocked_run:
  "bnd (cache_delete shop_conf 1) (\<lambda>x. bnd (cache_insert shop_conf coffee) (\<lambda>y. ret (x, y))) stocked =
     (Ok (None, Some coffee), restocked)"
  by (simp add: eval_simps shop_eval stocked_def coffee_def restocked_def cong: eval_cong del: eval_del)

lemma restocked_flush: "flush shop_conf restocked = (Fail (DbError RecordNotInserted), restocked)"
  by (simp add: eval_simps shop_eval stocked_def coffee_def restocked_def cong: eval_cong del: eval_del)

text \<open>The stocked shop with the delete of its tea pending.\<close>

definition emptied where
  "emptied = stocked\<lparr>pool := \<lparr>updates = [(1, 0)],
     states = (\<lambda>_. \<lparr>data = None, locked = False, holders = 0\<rparr>)(0 := \<lparr>data = Some CuDelete, locked = False, holders = 0\<rparr>),
     fresh = 1\<rparr>\<rparr>"

end
