(* ===== verification/Interleaving.thy ===== *)
theory Interleaving
  imports CacheCore
begin

text \<open>
  Calls and flushes that overlap. A change of a key (\<open>get_update_state_and_compute\<close> of
  \<open>src/cache.rs\<close>) is cut where it lets go of its locks, and a flush of many keys at every
  operation of its iterator; any number of both take turns in any order. The data controller runs
  under the lock of one update state, so its call is one turn.
\<close>

section \<open>Turns\<close>

text \<open>What a change asks of the update state.\<close>

datatype 'v duty = OnNew 'v | OnChange 'v 'v | OnAccess 'v | OnDelete "'v option"

fun duty_value :: "'v duty \<Rightarrow> 'v option" where
  "duty_value (OnNew v) = Some v"
| "duty_value (OnChange v _) = Some v"
| "duty_value (OnAccess v) = Some v"
| "duty_value (OnDelete v) = v"

fun duty_run ::
  "('k, 'v, 'u, 'e, 'm, 'd) conf \<Rightarrow> 'k \<Rightarrow> 'v duty \<Rightarrow> nat \<Rightarrow> (('k, 'u, 'e, 'm, 'd) cache, 'e, dc_op) prog" where
  "duty_run C key (OnNew v) i = us_on_new C i key v"
| "duty_run C key (OnChange v old) i = us_on_change C i key v old"
| "duty_run C key (OnAccess v) i = us_on_access C i key v"
| "duty_run C key (OnDelete _) i = us_on_delete C i key"

datatype phase = Fetched | Answered dc_op | Reinserted dc_op

record ('k, 'v) call =
  call_key :: 'k
  call_duty :: "'v duty"
  call_state :: nat
  call_phase :: phase

text \<open>What a turn does to the pending updates.\<close>

datatype ('k, 'v, 'u) mark = Began 'k "'v duty" | Answer 'k "'u option" dc_op | Gone "'k list" | Crashed | Quiet

text \<open>The first part of a change: the reference to the update state.\<close>

definition call_start ::
  "('k, 'v, 'u, 'e, 'm, 'd) conf \<Rightarrow> 'k \<Rightarrow> 'v option \<Rightarrow> (('k, 'u, 'e, 'm, 'd) cache, 'e, nat) prog" where
  "call_start C key value =
     bnd check_task (\<lambda>_. bnd (fetch_state C key value) (\<lambda>i. bnd (on_pool (hold_state i)) (\<lambda>_. ret i)))"

text \<open>A flush holds its iterator and the items handed out; the cache holds the rest of its context.\<close>

type_synonym 'k running = "'k update_iterator \<times> ('k \<times> nat) list"

definition flush_view :: "('k, 'u, 'e, 'm, 'd) cache \<Rightarrow> 'k update_iterator \<Rightarrow> ('k, 'u, 'd) flush_ctx" where
  "flush_view s it = \<lparr>ctx_pool = pool s, ctx_iter = it, ctx_backend = backend s\<rparr>"

definition take_view :: "('k, 'u, 'd) flush_ctx \<Rightarrow> ('k, 'u, 'e, 'm, 'd) cache \<Rightarrow> ('k, 'u, 'e, 'm, 'd) cache" where
  "take_view c s = s\<lparr>pool := ctx_pool c, backend := ctx_backend c\<rparr>"

text \<open>
  What the code of a flush may do: with \<open>ks\<close> the keys whose update goes. A data controller
  writes to its backend at any time.
\<close>

inductive flush_move ::
  "('k \<times> nat) list \<Rightarrow> ('k, 'u, 'd) flush_ctx \<Rightarrow> 'k list \<Rightarrow> ('k \<times> nat) list \<Rightarrow> ('k, 'u, 'd) flush_ctx \<Rightarrow> bool" where
  move_next: "iter_next c = (Some x, c') \<Longrightarrow> flush_move H c [] (x # H) c'"
| move_end: "iter_next c = (None, c') \<Longrightarrow> flush_move H c [] H c'"
| move_drop: "flush_move (H1 @ x # H2) c [] (H1 @ H2) (item_drop x c)"
| move_confirm: "flush_move (H1 @ x # H2) c [item_key x] (H1 @ H2) (item_confirm x c)"
| move_confirm_all: "flush_move H c (map fst (worked (ctx_iter c))) H (confirm_all c)"
| move_reset: "flush_move H c [] H (iter_reset c)"
| move_write: "flush_move H c [] H (c\<lparr>ctx_backend := d\<rparr>)"

inductive turn ::
  "('k, 'v, 'u, 'e, 'm, 'd) conf \<Rightarrow>
   ('k, 'u, 'e, 'm, 'd) cache \<times> ('k, 'v) call list \<times> 'k running list \<Rightarrow> ('k, 'v, 'u) mark \<Rightarrow>
   ('k, 'u, 'e, 'm, 'd) cache \<times> ('k, 'v) call list \<times> 'k running list \<Rightarrow> bool"
  for C where
  call_begins: "call_start C key (duty_value a) s = (Ok i, s') \<Longrightarrow>
    turn C (s, cs, fs) (Began key a)
      (s', \<lparr>call_key = key, call_duty = a, call_state = i, call_phase = Fetched\<rparr> # cs, fs)"
| call_answers: "call_phase c = Fetched \<Longrightarrow> duty_run C (call_key c) (call_duty c) (call_state c) s = (Ok oper, s') \<Longrightarrow>
    turn C (s, xs @ c # ys, fs) (Answer (call_key c) (data (states (pool s') (call_state c))) oper)
      (s', xs @ c\<lparr>call_phase := Answered oper\<rparr> # ys, fs)"
| call_breaks: "call_phase c = Fetched \<Longrightarrow> duty_run C (call_key c) (call_duty c) (call_state c) s = (r, s') \<Longrightarrow>
    (\<exists>e. r = Fail e) \<or> (\<exists>msg. r = Panic msg) \<Longrightarrow>
    turn C (s, xs @ c # ys, fs) (Answer (call_key c) (data (states (pool s') (call_state c))) DcNop)
      (s'\<lparr>pool := release_state (call_state c) (pool s')\<rparr>, xs @ ys, fs)"
| call_reinserts: "call_phase c = Answered oper \<Longrightarrow> on_pool (pool_insert (call_key c) (call_state c)) s = (Ok (), s') \<Longrightarrow>
    turn C (s, xs @ c # ys, fs) Quiet (s', xs @ c\<lparr>call_phase := Reinserted oper\<rparr> # ys, fs)"
| call_ends: "call_phase c = Reinserted oper \<Longrightarrow>
    (on_dc_op oper (call_key c) (duty_value (call_duty c)) ::
       (('k, 'u, 'e, 'm, 'd) cache, 'e, ('k, 'v) value_state op) prog) s = (Ok mo, s') \<Longrightarrow>
    turn C (s, xs @ c # ys, fs) Quiet (s'\<lparr>pool := release_state (call_state c) (pool s')\<rparr>, xs @ ys, fs)"
| flush_begins: "turn C (s, cs, fs) Quiet (s, cs, (iter_keys keys, []) # fs)"
| flush_moves: "flush_move H (flush_view s it) ks H' c' \<Longrightarrow>
    turn C (s, cs, xs @ (it, H) # ys) (Gone ks) (take_view c' s, cs, xs @ (ctx_iter c', H') # ys)"
| flush_ends: "(purify_updates :: (('k, 'u, 'd) flush_ctx, 'e, nat) prog) (flush_view s it) = (Ok n, c') \<Longrightarrow>
    turn C (s, cs, xs @ (it, []) # ys) Quiet ((take_view c' s)\<lparr>last_flush := clock s\<rparr>, cs, xs @ ys)"
| flush_crashes: "(purify_updates :: (('k, 'u, 'd) flush_ctx, 'e, nat) prog) (flush_view s it) = (Panic msg, c') \<Longrightarrow>
    turn C (s, cs, xs @ (it, []) # ys) Crashed (take_view c' s, cs, xs @ ys)"
| flush_fails: "turn C (s, cs, xs @ (it, []) # ys) Quiet (take_view (iter_drop (flush_view s it)) s, cs, xs @ ys)"

inductive turns ::
  "('k, 'v, 'u, 'e, 'm, 'd) conf \<Rightarrow>
   ('k, 'u, 'e, 'm, 'd) cache \<times> ('k, 'v) call list \<times> 'k running list \<Rightarrow> ('k, 'v, 'u) mark list \<Rightarrow>
   ('k, 'u, 'e, 'm, 'd) cache \<times> ('k, 'v) call list \<times> 'k running list \<Rightarrow> bool"
  for C where
  no_turn: "turns C w [] w"
| more_turns: "turns C w ns w1 \<Longrightarrow> turn C w1 n w2 \<Longrightarrow> turns C w (ns @ [n]) w2"

text \<open>The specification: the pending updates as a map, changed at one turn each.\<close>

fun effect :: "('k, 'v, 'u) mark \<Rightarrow> ('k \<rightharpoonup> 'u) \<Rightarrow> ('k \<rightharpoonup> 'u)" where
  "effect (Answer k u oper) m = m(k := if oper = DcDrop then None else u)"
| "effect (Gone ks) m = m |` (- set ks)"
| "effect _ m = m"

text \<open>A mark is tame when its call is for the primary key of its value and is not answered \<open>Drop\<close>.\<close>

fun tame :: "('k, 'v, 'u, 'e, 'm, 'd) conf \<Rightarrow> ('k, 'v, 'u) mark \<Rightarrow> bool" where
  "tame C (Began k a) \<longleftrightarrow> aligned C k (duty_value a)"
| "tame C (Answer k u oper) \<longleftrightarrow> oper \<noteq> DcDrop"
| "tame C _ \<longleftrightarrow> True"

section \<open>The invariant\<close>

definition all_guards :: "'k running list \<Rightarrow> ('k \<times> nat) list" where
  "all_guards fs = concat (map (\<lambda>(it, H). own_guards it @ H) fs)"

lemma all_guards_simps [simp]:
  "all_guards [] = []" "all_guards ((it, H) # fs) = own_guards it @ H @ all_guards fs"
  "all_guards (fs @ fs') = all_guards fs @ all_guards fs'"
  by (simp_all add: all_guards_def)

text \<open>
  The state of every running call is in the pool under its key, references and locks are those of
  the calls and of the flushes, and no call is about to drop its key.
\<close>

definition turns_ok :: "('k, 'u, 'e, 'm, 'd) cache \<times> ('k, 'v) call list \<times> 'k running list \<Rightarrow> bool" where
  "turns_ok w = (case w of (s, cs, fs) \<Rightarrow>
     pool_wf (pool s) \<and> pool_own (pool s) \<and>
     (\<forall>c \<in> set cs. pool_get (pool s) (call_key c) = Some (call_state c)) \<and>
     (\<forall>c \<in> set cs. call_phase c \<noteq> Answered DcDrop \<and> call_phase c \<noteq> Reinserted DcDrop) \<and>
     (\<forall>i. holders (states (pool s) i) = length (filter (\<lambda>c. call_state c = i) cs)) \<and>
     (\<forall>i. locked (states (pool s) i) \<longleftrightarrow> i \<in> snd ` set (all_guards fs)) \<and>
     (\<forall>(k, i) \<in> set (all_guards fs). pool_get (pool s) k = Some i) \<and>
     distinct (map snd (all_guards fs)))"

lemma turns_okD:
  assumes "turns_ok (s, cs, fs)"
  shows "pool_wf (pool s)" "pool_own (pool s)"
    and "\<And>c. c \<in> set cs \<Longrightarrow> pool_get (pool s) (call_key c) = Some (call_state c)"
    and "\<And>c. c \<in> set cs \<Longrightarrow> call_phase c \<noteq> Answered DcDrop \<and> call_phase c \<noteq> Reinserted DcDrop"
    and "\<And>i. holders (states (pool s) i) = length (filter (\<lambda>c. call_state c = i) cs)"
    and "\<And>i. locked (states (pool s) i) \<longleftrightarrow> i \<in> snd ` set (all_guards fs)"
    and "\<And>k i. (k, i) \<in> set (all_guards fs) \<Longrightarrow> pool_get (pool s) k = Some i"
    and "distinct (map snd (all_guards fs))"
  using assms unfolding turns_ok_def by fast+

lemma turns_ok_quiet: "turns_ok (s, [], []) \<longleftrightarrow> pool_quiet (pool s)"
  by (auto simp: turns_ok_def pool_quiet_def pool_idle_def)

section \<open>Calls\<close>

lemma duty_run_effect:
  assumes "duty_run C k a i s = (r, s')" "r \<noteq> Wait"
  shows "\<not> locked (states (pool s) i) \<and> (\<exists>x d. s' = s\<lparr>pool := set_data i x (pool s), backend := d\<rparr>)"
proof -
  have same: "pool s = set_data i (data (states (pool s) i)) (pool s)" by (simp add: set_data_same)
  have free: "\<not> locked (states (pool s) i)"
    using assms by (cases a) (auto simp: us_locked)
  have keep: "\<exists>x d. s\<lparr>backend := b\<rparr> = s\<lparr>pool := set_data i x (pool s), backend := d\<rparr>" for b
    by (rule exI[of _ "data (states (pool s) i)"], rule exI[of _ b]) (simp add: set_data_same)
  have new: "\<exists>x d. s\<lparr>backend := b, pool := set_data i y (pool s)\<rparr> = s\<lparr>pool := set_data i x (pool s), backend := d\<rparr>" for b y
    by (rule exI[of _ y], rule exI[of _ b]) simp
  note defs = us_defs with_write_guard_def guard_get_def guard_set_def guard_take_def on_pool_def pool_simps
  have "\<exists>x d. s' = s\<lparr>pool := set_data i x (pool s), backend := d\<rparr>"
  proof (cases a)
    case (OnNew v)
    obtain q d where q: "dc_on_new (dc C) k v (backend s) = (q, d)" by fastforce
    with assms free OnNew show ?thesis by (cases q) (use keep new in \<open>auto simp: defs\<close>)
  next
    case (OnChange v old)
    obtain q d where q: "dc_on_change (dc C) k v old (data (states (pool s) i)) (backend s) = (q, d)" by fastforce
    with assms free OnChange show ?thesis by (cases q) (use keep new in \<open>auto simp: defs\<close>)
  next
    case (OnAccess v)
    obtain q d where q: "dc_on_access (dc C) k v (data (states (pool s) i)) (backend s) = (q, d)" by fastforce
    with assms free OnAccess show ?thesis by (cases q) (use keep new in \<open>auto simp: defs\<close>)
  next
    case (OnDelete v)
    obtain q d where q: "dc_on_delete (dc C) k (data (states (pool s) i)) (backend s) = (q, d)" by fastforce
    with assms free OnDelete show ?thesis by (cases q) (use keep new in \<open>auto simp: defs\<close>)
  qed
  with free show ?thesis by blast
qed

lemma begins_effect:
  assumes run: "call_start C key value s = (Ok i, s')"
    and al: "aligned C key value"
  shows "\<exists>p. s' = s\<lparr>monitor_task := spawn (monitor_task s), pool := hold_state i p\<rparr> \<and> pool_get p key = Some i \<and>
    (pool_get (pool s) key = Some i \<and> p = pool s \<or>
     pool_get (pool s) key = None \<and> i = fresh (pool s) \<and> p = pool_insert key i (snd (alloc_state (pool s))))"
proof -
  have key: "(case value of Some v \<Rightarrow> dc_primary_key_of (dc C) v | None \<Rightarrow> key) = key"
    using al by (auto simp: aligned_def split: option.splits)
  show ?thesis
  proof (cases "pool_get (pool s) key")
    case None
    with run show ?thesis
      by (auto simp: call_start_def fetch_state_def Let_def key on_pool_def alloc_state_def fun_upd_def[symmetric])
  next
    case (Some j)
    with run show ?thesis
      by (intro exI[of _ "pool s"]) (auto simp: call_start_def fetch_state_def Let_def key on_pool_def)
  qed
qed

section \<open>Flushes\<close>

lemma flush_view_reads [simp]:
  "ctx_pool (flush_view s it) = pool s" "ctx_iter (flush_view s it) = it" "ctx_backend (flush_view s it) = backend s"
  "guards (flush_view s it) = own_guards it"
  by (simp_all add: flush_view_def guards_def)

lemma take_view_reads [simp]: "pool (take_view c s) = ctx_pool c" "clock (take_view c s) = clock s"
  by (simp_all add: take_view_def)

text \<open>
  A running flush seen from inside: it began with a pool in which only the locks of the other
  flushes were taken. Everything known of a single flush applies to it.
\<close>

lemma local_view:
  assumes ok: "turns_ok (s, cs, xs @ (it, H) # ys)"
  obtains p0 where "flush_inv p0 H (flush_view s it)" "pool_wf p0" "pool_own p0"
    "\<And>i. locked (states p0 i) \<longleftrightarrow> i \<in> snd ` set (all_guards (xs @ ys))"
proof -
  define own where "own = own_guards it @ H"
  define p0 where "p0 = (pool s)\<lparr>states := \<lambda>i. if i \<in> snd ` set own
      then (states (pool s) i)\<lparr>locked := False, data := Some (case data (states (pool s) i) of None \<Rightarrow> undefined | Some u \<Rightarrow> u)\<rparr>
      else states (pool s) i\<rparr>"
  note D = turns_okD[OF ok]
  have d: "distinct (map snd own)" "snd ` set own \<inter> snd ` set (all_guards (xs @ ys)) = {}"
    using D(8) by (auto simp: own_def)
  have st: "states p0 i = (if i \<in> snd ` set own
      then (states (pool s) i)\<lparr>locked := False, data := Some (case data (states (pool s) i) of None \<Rightarrow> undefined | Some u \<Rightarrow> u)\<rparr>
      else states (pool s) i)" and up: "updates p0 = updates (pool s)" "fresh p0 = fresh (pool s)" for i
    by (simp_all add: p0_def)
  have get: "pool_get p0 = pool_get (pool s)" by (simp add: pool_get_def up fun_eq_iff)
  have lock: "locked (states (pool s) i) \<longleftrightarrow> i \<in> snd ` set own \<or> i \<in> snd ` set (all_guards (xs @ ys))" for i
    using D(6)[of i] by (auto simp: own_def)
  have lock0: "locked (states p0 i) \<longleftrightarrow> i \<in> snd ` set (all_guards (xs @ ys))" for i
    using lock[of i] d(2) by (auto simp: st)
  have mem: "pool_get (pool s) k = Some i" if "(k, i) \<in> set own" for k i
    using that D(7) by (auto simp: own_def)
  define S where "S = snd ` set own"
  define T where "T = snd ` set (all_guards (xs @ ys))"
  have "i \<in> S" if "(k, i) \<in> set own" for k i using that by (force simp: S_def)
  then have item: "pool_get (pool s) k = Some i \<and> i \<in> S \<and> i \<notin> T" if "(k, i) \<in> set own" for k i
    using that mem[OF that] d(2) by (auto simp: S_def T_def)
  have "\<forall>(k, i) \<in> set own. pool_get p0 k = Some i \<and> \<not> locked (states p0 i) \<and> data (states p0 i) \<noteq> None"
    using item by (auto simp: get st S_def[symmetric])
  moreover have "\<forall>i. data (states (pool s) i) = data (states p0 i) \<or> data (states (pool s) i) = None"
    by (auto simp: st split: option.splits)
  ultimately have "flush_inv p0 H (flush_view s it)"
    unfolding flush_inv_def flush_view_reads own_def[symmetric]
    using d(1) lock lock0 up by (auto simp: st)
  moreover have "pool_wf p0" using D(1) by (auto simp: pool_wf_def up get st)
  moreover have "pool_own p0" using D(2) by (simp add: pool_own_def get)
  ultimately show ?thesis using that lock0 by blast
qed

lemma turns_ok_view:
  assumes ok: "turns_ok (s, cs, xs @ (it, H) # ys)" and inv0: "flush_inv p0 H (flush_view s it)"
    and others: "\<And>i. locked (states p0 i) \<longleftrightarrow> i \<in> snd ` set (all_guards (xs @ ys))"
    and wf: "pool_wf p0" and inv: "flush_inv p0 H' c'"
  shows "turns_ok (take_view c' s, cs, xs @ (ctx_iter c', H') # ys)"
proof -
  note old = turns_okD[OF ok]
  have get: "pool_get (ctx_pool c') = pool_get (pool s)"
    using flush_invD(6)[OF inv] flush_invD(6)[OF inv0] by simp
  have hold: "holders (states (ctx_pool c') i) = holders (states (pool s) i)" for i
    using flush_invD(3)[OF inv] flush_invD(3)[OF inv0] by simp
  define own where "own = own_guards (ctx_iter c') @ H'"
  have lock: "locked (states (ctx_pool c') i) \<longleftrightarrow> i \<in> snd ` set (all_guards (xs @ ys)) \<or> i \<in> snd ` set own" for i
    using flush_invD(5)[OF inv, of i] others by (simp add: own_def guards_def)
  have new: "pool_get p0 k = Some i" "i \<notin> snd ` set (all_guards (xs @ ys))" if "(k, i) \<in> set own" for k i
    using flush_inv_guard[OF inv, of k i] that others[of i] by (auto simp: own_def guards_def)
  have dis: "distinct (map snd own)" using inv by (simp add: flush_inv_def own_def guards_def)
  have "snd ` set own \<inter> snd ` set (all_guards (xs @ ys)) = {}"
  proof (rule Int_emptyI)
    fix i assume "i \<in> snd ` set own" "i \<in> snd ` set (all_guards (xs @ ys))"
    then obtain k where "(k, i) \<in> set own" by auto
    with new(2) \<open>i \<in> snd ` set (all_guards (xs @ ys))\<close> show False by blast
  qed
  then have D: "distinct (map snd (all_guards (xs @ (ctx_iter c', H') # ys)))"
    using old(8) dis by (auto simp: own_def)
  have M: "\<forall>(k, i) \<in> set (all_guards (xs @ (ctx_iter c', H') # ys)). pool_get (pool s) k = Some i"
  proof (intro ballI, clarify)
    fix k i assume "(k, i) \<in> set (all_guards (xs @ (ctx_iter c', H') # ys))"
    then have "(k, i) \<in> set own \<or> (k, i) \<in> set (all_guards (xs @ (it, H) # ys))" by (auto simp: own_def)
    then show "pool_get (pool s) k = Some i" using old(7) new(1) flush_invD(6)[OF inv0] by auto
  qed
  have L: "locked (states (ctx_pool c') i) \<longleftrightarrow> i \<in> snd ` set (all_guards (xs @ (ctx_iter c', H') # ys))" for i
    using lock[of i] by (auto simp: own_def)
  have W: "pool_wf (ctx_pool c')" by (rule flush_inv_wf[OF inv wf])
  have O: "pool_own (ctx_pool c')" using old(2) get by (simp add: pool_own_def)
  show ?thesis
    unfolding turns_ok_def prod.case take_view_reads
    using W O D M L get hold old(3,4,5) by simp
qed

text \<open>One operation of a flush: its invariant, and the updates that go with it.\<close>

lemma iter_next_data:
  "iter_next c = (r, c') \<Longrightarrow> data (states (ctx_pool c') i) = data (states (ctx_pool c) i)"
proof (induction "length (todo c)" arbitrary: c rule: less_induct)
  case less
  define n where "n = next_idx (ctx_iter c)"
  show ?case
  proof (cases "length (unprocessed (ctx_iter c)) \<le> n")
    case True
    with less.prems show ?thesis by (subst (asm) iter_next.simps) (auto simp: Let_def n_def)
  next
    case False
    obtain key guard where kg: "unprocessed (ctx_iter c) ! n = (key, guard)" by fastforce
    have td: "length (todo (iter_advance c)) < length (todo c)" using False by (simp add: todo_advance n_def)
    note eq = less.prems[unfolded iter_next.simps[of c], unfolded Let_def, folded n_def]
    have IH: ?thesis if "iter_next c1 = (r, c')" "todo c1 = todo (iter_advance c)"
      "\<And>i. data (states (ctx_pool c1) i) = data (states (ctx_pool c) i)" for c1
      using less.hyps[OF _ that(1)] td that(2,3) by simp
    have "(\<forall>i. data (states (ctx_pool c') i) = data (states (ctx_pool c) i)) \<or>
        (\<exists>c1. iter_next c1 = (r, c') \<and> todo c1 = todo (iter_advance c) \<and>
          (\<forall>i. data (states (ctx_pool c1) i) = data (states (ctx_pool c) i)))"
    proof (cases guard)
      case (Some i)
      then show ?thesis
        using eq False kg by (auto split: if_splits intro!: exI[of _ "ctx_on_pool (unlock_state i) (iter_advance c)"])
    next
      case None
      then have "(\<forall>i. data (states (ctx_pool c') i) = data (states (ctx_pool c) i)) \<or> iter_next (iter_advance c) = (r, c')"
        using eq False kg by (auto split: option.splits if_splits)
      then show ?thesis by (metis iter_advance_reads(1))
    qed
    then show ?thesis using IH by blast
  qed
qed

lemma flush_move_inv: "flush_move H c ks H' c' \<Longrightarrow> flush_inv p0 H c \<Longrightarrow> flush_inv p0 H' c'"
proof (induction rule: flush_move.induct)
  case (move_drop H1 x H2 c)
  then have "flush_inv p0 (x # H1 @ H2) c" by (rule flush_inv_mset) simp_all
  then show ?case by (rule item_drop_inv)
next
  case (move_confirm H1 x H2 c)
  then have "flush_inv p0 (x # H1 @ H2) c" by (rule flush_inv_mset) simp_all
  then show ?case by (rule item_confirm_inv)
qed (auto dest: iter_next_inv simp: confirm_all_inv iter_reset_inv)

lemma pending_confirmed:
  assumes "pool_own p" "pool_get q = pool_get p" "\<forall>(k, i) \<in> D. pool_get p k = Some i"
    and "\<And>i. data (states q i) = (if i \<in> snd ` D then None else data (states p i))"
  shows "pending q = pending p |` (- fst ` D)"
proof
  fix k
  show "pending q k = (pending p |` (- fst ` D)) k"
  proof (cases "pool_get p k")
    case None
    then show ?thesis using assms(2) by (simp add: pending_def restrict_map_def)
  next
    case (Some i)
    have "i \<in> snd ` D \<longleftrightarrow> k \<in> fst ` D"
    proof
      assume "i \<in> snd ` D"
      then obtain k' where "(k', i) \<in> D" by auto
      with assms(1,3) Some have "k' = k" by (force simp: pool_own_def)
      with \<open>(k', i) \<in> D\<close> show "k \<in> fst ` D" by force
    next
      assume "k \<in> fst ` D"
      then obtain j where "(k, j) \<in> D" by auto
      with assms(3) Some have "j = i" by force
      with \<open>(k, j) \<in> D\<close> show "i \<in> snd ` D" by force
    qed
    then show ?thesis using Some assms(2,4) by (simp add: pending_def restrict_map_def)
  qed
qed

lemma restrict_map_UNIV [simp]: "m |` UNIV = m"
  by (simp add: restrict_map_def)

lemma flush_move_pending:
  assumes move: "flush_move H c ks H' c'" and inv: "flush_inv p0 H c" and own: "pool_own p0"
  shows "pending (ctx_pool c') = pending (ctx_pool c) |` (- set ks)"
proof -
  have get: "pool_get (ctx_pool c') = pool_get (ctx_pool c)"
    using flush_invD(6)[OF flush_move_inv[OF move inv]] flush_invD(6)[OF inv] by simp
  have own1: "pool_own (ctx_pool c)" by (rule flush_inv_pool_own[OF inv own])
  have mem: "pool_get (ctx_pool c) k = Some i" if "(k, i) \<in> set (guards c @ H)" for k i
    using flush_inv_guard[OF inv that] flush_invD(6)[OF inv] by simp
  have unchanged: ?thesis if "ks = []" "\<And>i. data (states (ctx_pool c') i) = data (states (ctx_pool c) i)"
    using pending_states[OF get that(2)] that(1) by simp
  show ?thesis
    using move
  proof cases
    case (move_confirm H1 x H2)
    have "pending (ctx_pool c') = pending (ctx_pool c) |` (- fst ` {x})"
      by (rule pending_confirmed[OF own1 get]) (use mem[of "fst x" "snd x"] move_confirm in \<open>auto simp: item_confirm_def\<close>)
    then show ?thesis using move_confirm by (simp add: item_key_def)
  next
    case move_confirm_all
    have "pending (ctx_pool c') = pending (ctx_pool c) |` (- fst ` set (worked (ctx_iter c)))"
      by (rule pending_confirmed[OF own1 get])
        (use mem move_confirm_all in \<open>auto simp: confirm_all_reads guards_def own_guards_def\<close>)
    then show ?thesis using move_confirm_all by simp
  next
    case (move_next x)
    then show ?thesis by (intro unchanged) (auto dest: iter_next_data)
  next
    case move_end
    then show ?thesis by (intro unchanged) (auto dest: iter_next_data)
  next
    case (move_drop H1 x H2)
    then show ?thesis by (intro unchanged) (auto simp: item_drop_def)
  next
    case move_reset
    have "data (states (unlock_items its p) i) = data (states p i)" for its p and i
      unfolding unlock_items_def by (induction its arbitrary: p) simp_all
    then show ?thesis using move_reset by (intro unchanged) (simp_all add: iter_reset_def Let_def)
  next
    case (move_write d)
    then show ?thesis by (intro unchanged) simp_all
  qed
qed

section \<open>Turns keep the invariant and follow the specification\<close>

lemma turns_okI:
  assumes "pool_wf (pool s)" "pool_own (pool s)"
    and "\<And>c. c \<in> set cs \<Longrightarrow> pool_get (pool s) (call_key c) = Some (call_state c)"
    and "\<And>c. c \<in> set cs \<Longrightarrow> call_phase c \<noteq> Answered DcDrop \<and> call_phase c \<noteq> Reinserted DcDrop"
    and "\<And>i. holders (states (pool s) i) = length (filter (\<lambda>c. call_state c = i) cs)"
    and "\<And>i. locked (states (pool s) i) \<longleftrightarrow> i \<in> snd ` set (all_guards fs)"
    and "\<And>k i. (k, i) \<in> set (all_guards fs) \<Longrightarrow> pool_get (pool s) k = Some i"
    and "distinct (map snd (all_guards fs))"
  shows "turns_ok (s, cs, fs)"
  using assms unfolding turns_ok_def by blast

lemma begins_ok:
  assumes ok: "turns_ok (s, cs, fs)" and al: "aligned C key (duty_value a)"
    and run: "call_start C key (duty_value a) s = (Ok i, s')"
  shows "turns_ok (s', \<lparr>call_key = key, call_duty = a, call_state = i, call_phase = Fetched\<rparr> # cs, fs) \<and>
    pending (pool s') = pending (pool s)"
proof -
  note D = turns_okD[OF ok]
  obtain p where s': "s' = s\<lparr>monitor_task := spawn (monitor_task s), pool := hold_state i p\<rparr>" and get: "pool_get p key = Some i"
    and p: "pool_get (pool s) key = Some i \<and> p = pool s \<or>
      pool_get (pool s) key = None \<and> i = fresh (pool s) \<and> p = pool_insert key i (snd (alloc_state (pool s)))"
    using begins_effect[OF run al] by blast
  have fr: "\<not> locked (states (pool s) (fresh (pool s)))" "holders (states (pool s) (fresh (pool s))) = 0"
    using D(1) by (simp_all add: pool_wf_def)
  have wf: "pool_wf p" "pool_own p" using p D(1,2) pool_own_alloc_insert[OF D(1,2)] by auto
  have lo: "locked (states p j) = locked (states (pool s) j)" "holders (states p j) = holders (states (pool s) j)" for j
    using p fr by (auto split: if_splits)
  have keeps: "pool_get p k = Some j" if "pool_get (pool s) k = Some j" for k j using p that by auto
  have pen: "pending p = pending (pool s)"
  proof (cases "pool_get (pool s) key")
    case None
    then have "pending (pool s) key = None" by (simp add: pending_def)
    then show ?thesis using p None pending_alloc[OF D(1)] by auto
  qed (use p in auto)
  have "turns_ok (s', \<lparr>call_key = key, call_duty = a, call_state = i, call_phase = Fetched\<rparr> # cs, fs)"
  proof (rule turns_okI)
    show "pool_wf (pool s')" using wf(1) pool_wf_get[OF wf(1) get] by (simp add: s')
    show "holders (states (pool s') j) =
        length (filter (\<lambda>c. call_state c = j) (\<lparr>call_key = key, call_duty = a, call_state = i, call_phase = Fetched\<rparr> # cs))" for j
      using D(5)[of j] lo(2)[of j] lo(2)[of i] by (auto simp: s')
    show "locked (states (pool s') j) \<longleftrightarrow> j \<in> snd ` set (all_guards fs)" for j
      using D(6)[of j] lo(1) by (simp add: s')
  qed (use wf(2) D(3,4,7,8) keeps get in \<open>auto simp: s'\<close>)
  then show ?thesis using pen by (simp add: s')
qed

lemma leave_ok:
  assumes "turns_ok (s, xs @ c # ys, fs)"
  shows "turns_ok (s\<lparr>pool := release_state (call_state c) (pool s)\<rparr>, xs @ ys, fs)"
  using turns_okD[OF assms] by (intro turns_okI) auto

lemma duty_ok:
  assumes ok: "turns_ok (s, xs @ c # ys, fs)"
    and run: "duty_run C (call_key c) (call_duty c) (call_state c) s = (r, s')" "r \<noteq> Wait"
    and c': "call_key c' = call_key c" "call_state c' = call_state c" "call_phase c' \<noteq> Answered DcDrop" "call_phase c' \<noteq> Reinserted DcDrop"
  shows "turns_ok (s', xs @ c' # ys, fs) \<and>
    pending (pool s') = (pending (pool s))(call_key c := data (states (pool s') (call_state c)))"
proof -
  note D = turns_okD[OF ok]
  obtain x d where s': "s' = s\<lparr>pool := set_data (call_state c) x (pool s), backend := d\<rparr>"
    using duty_run_effect[OF run] by blast
  have get: "pool_get (pool s) (call_key c) = Some (call_state c)" using D(3) by simp
  have "turns_ok (s', xs @ c' # ys, fs)"
    by (rule turns_okI) (use D c' in \<open>auto simp: s'\<close>)
  then show ?thesis using pending_set_data[OF D(2) get] by (simp add: s')
qed

lemma flush_gone_ok:
  "turns_ok (s, cs, xs @ (it, []) # ys) \<Longrightarrow> own_guards it = [] \<Longrightarrow> turns_ok (s, cs, xs @ ys)"
  by (simp add: turns_ok_def)

lemma turns_ok_last_flush [simp]: "turns_ok (s\<lparr>last_flush := n\<rparr>, cs, fs) = turns_ok (s, cs, fs)"
  by (simp add: turns_ok_def)

lemma purify_ok:
  fixes r :: "('e, nat) res"
  assumes ok: "turns_ok (s, cs, xs @ (it, []) # ys)" and run: "purify_updates (flush_view s it) = (r, c')"
  shows "r = Ok 0 \<and> turns_ok (take_view c' s, cs, xs @ ys) \<and> pending (ctx_pool c') = pending (pool s)"
proof -
  note D = turns_okD[OF ok]
  obtain p0 where inv: "flush_inv p0 [] (flush_view s it)" and wf: "pool_wf p0" "pool_own p0"
    and others: "\<And>i. locked (states p0 i) \<longleftrightarrow> i \<in> snd ` set (all_guards (xs @ ys))"
    using local_view[OF ok] by metis
  note spec = purify_updates_spec[OF wf inv run]
  have fl: "pool_flushed p0 (ctx_pool c')" using spec by simp
  have get0: "pool_get p0 = pool_get (pool s)" using flush_invD(6)[OF inv] by simp
  have hold: "holders (states (ctx_pool c') i) = holders (states (pool s) i)" for i
    using fl flush_invD(3)[OF inv] by (simp add: pool_flushed_def)
  have worked: "(k, i) \<in> set (own_guards it)" if "(k, i) \<in> set (worked it)" for k i
    using that by (simp add: own_guards_def)
  have stays: "pool_get (ctx_pool c') k = Some i"
    if g: "pool_get (pool s) k = Some i" and u: "holders (states (pool s) i) > 0 \<or> i \<in> snd ` set (all_guards (xs @ ys))" for k i
  proof -
    have "\<not> purified (worked it) (pool s) k"
    proof
      assume "purified (worked it) (pool s) k"
      then obtain j where j: "(k, j) \<in> set (own_guards it)" "holders (states (pool s) j) = 0"
        using worked by (auto simp: purified_def)
      then have "j = i" using D(7)[of k j] g by simp
      with j u have "i \<in> snd ` set (all_guards (xs @ ys))" "i \<in> snd ` set (own_guards it)" by (auto intro: rev_image_eqI)
      with D(8) show False by auto
    qed
    then show ?thesis using spec g get0 by simp
  qed
  have "turns_ok (take_view c' s, cs, xs @ ys)"
  proof (rule turns_okI)
    show "pool_get (pool (take_view c' s)) (call_key c) = Some (call_state c)" if "c \<in> set cs" for c
    proof -
      have "filter (\<lambda>c'. call_state c' = call_state c) cs \<noteq> []" using that by (auto simp: filter_empty_conv)
      then show ?thesis using stays[OF D(3)[OF that]] D(5)[of "call_state c"] by simp
    qed
    show "pool_get (pool (take_view c' s)) k = Some i" if "(k, i) \<in> set (all_guards (xs @ ys))" for k i
    proof -
      have "i \<in> snd ` set (all_guards (xs @ ys))" using that by force
      then show ?thesis using stays[of k i] D(7)[of k i] that by auto
    qed
    show "distinct (map snd (all_guards (xs @ ys)))" using D(8) by auto
  qed (use fl hold others D in \<open>simp_all add: pool_flushed_def\<close>)
  then show ?thesis using spec by simp
qed

lemma turn_tame:
  assumes ok: "turns_ok (s, cs, fs)" and turn: "turn C (s, cs, fs) n (s', cs', fs')" and tame: "tame C n"
  shows "turns_ok (s', cs', fs') \<and> pending (pool s') = effect n (pending (pool s)) \<and> n \<noteq> Crashed"
  using turn
proof cases
  case (call_begins key a i)
  then show ?thesis using begins_ok[OF ok, of C key a i s'] tame by simp
next
  case (call_answers c oper xs ys)
  then show ?thesis using duty_ok[of s xs c ys fs C "Ok oper" s' "c\<lparr>call_phase := Answered oper\<rparr>"] ok tame by simp
next
  case (call_breaks c r t xs ys)
  have "turns_ok (t, xs @ c # ys, fs) \<and>
      pending (pool t) = (pending (pool s))(call_key c := data (states (pool t) (call_state c)))"
    using duty_ok[of s xs c ys fs C r t c] ok call_breaks turns_okD(4)[of s cs fs c] by auto
  then show ?thesis using leave_ok[of t xs c ys fs] call_breaks by simp
next
  case (call_reinserts c oper xs ys)
  have get: "pool_get (pool s) (call_key c) = Some (call_state c)" using turns_okD(3)[OF ok] call_reinserts by simp
  then have s': "s' = s" using call_reinserts by (simp add: on_pool_def)
  have "oper \<noteq> DcDrop" using turns_okD(4)[OF ok, of c] call_reinserts by auto
  have ok': "turns_ok (s, xs @ c # ys, fs)" using ok call_reinserts by simp
  have "turns_ok (s, xs @ c\<lparr>call_phase := Reinserted oper\<rparr> # ys, fs)"
    using turns_okD[OF ok'] \<open>oper \<noteq> DcDrop\<close> by (intro turns_okI) auto
  then show ?thesis using call_reinserts s' by simp
next
  case (call_ends c oper mo t xs ys)
  have "oper \<noteq> DcDrop" using turns_okD(4)[OF ok, of c] call_ends by auto
  then have "t = s" using call_ends by (cases oper) (auto simp: on_dc_op_def)
  then show ?thesis using leave_ok[of s xs c ys fs] ok call_ends by simp
next
  case (flush_begins keys)
  then show ?thesis using ok by (simp add: turns_ok_def)
next
  case (flush_moves H it ks H' c' xs ys)
  obtain p0 where inv: "flush_inv p0 H (flush_view s it)" and wf: "pool_wf p0" "pool_own p0"
    and others: "\<And>i. locked (states p0 i) \<longleftrightarrow> i \<in> snd ` set (all_guards (xs @ ys))"
    using local_view[of s cs xs it H ys] ok flush_moves by metis
  note inv' = flush_move_inv[OF flush_moves(6) inv]
  show ?thesis
    using turns_ok_view[OF _ inv others wf(1) inv', of cs] ok flush_moves flush_move_pending[OF flush_moves(6) inv wf(2)] by simp
next
  case (flush_ends it m c' xs ys)
  then show ?thesis using purify_ok[OF _ flush_ends(6), of cs xs ys] ok by simp
next
  case (flush_crashes it msg c' xs ys)
  then show ?thesis using purify_ok[OF _ flush_crashes(6), of cs xs ys] ok by simp
next
  case (flush_fails xs it ys)
  obtain p0 where inv: "flush_inv p0 [] (flush_view s it)" and wf: "pool_wf p0" "pool_own p0"
    and others: "\<And>i. locked (states p0 i) \<longleftrightarrow> i \<in> snd ` set (all_guards (xs @ ys))"
    using local_view[of s cs xs it "[]" ys] ok flush_fails by metis
  have "turns_ok (take_view (iter_drop (flush_view s it)) s, cs, xs @ (ctx_iter (iter_drop (flush_view s it)), []) # ys)"
    using turns_ok_view[OF _ inv others wf(1) iter_drop_inv[OF inv], of cs] ok flush_fails by simp
  then have "turns_ok (take_view (iter_drop (flush_view s it)) s, cs, xs @ ys)"
    by (rule flush_gone_ok) (use guards_iter_drop in \<open>simp add: guards_def\<close>)
  then show ?thesis using flush_fails by simp
qed

lemma turns_tame:
  assumes "turns C w ns w'" "turns_ok w" "\<forall>n \<in> set ns. tame C n"
  shows "turns_ok w' \<and> pending (pool (fst w')) = fold effect ns (pending (pool (fst w))) \<and> Crashed \<notin> set ns"
  using assms
proof induction
  case (more_turns w ns w1 n w2)
  obtain s cs fs s' cs' fs' where w: "w1 = (s, cs, fs)" "w2 = (s', cs', fs')" by (metis prod.collapse)
  show ?case using more_turns turn_tame[of s cs fs C n s' cs' fs'] by (auto simp: w)
qed simp

section \<open>A call by itself\<close>

text \<open>Four turns of one call in a row are the call of \<open>CacheCore\<close>.\<close>

lemma call_in_turns:
  fixes C :: "('k, 'v, 'u, 'e, 'm, 'd) conf"
  assumes "get_update_state_and_compute C key (duty_value a) (duty_run C key a) s = (Ok mo, s')"
  shows "\<exists>u oper. turns C (s, cs, fs) [Began key a, Answer key u oper, Quiet, Quiet] (s', cs, fs)"
proof -
  obtain i s1 s2 s3 s4 oper where b: "call_start C key (duty_value a) s = (Ok i, s1)" and d: "duty_run C key a i s1 = (Ok oper, s2)"
    and r: "on_pool (pool_insert key i) s2 = (Ok (), s3)" and e: "on_dc_op oper key (duty_value a) s3 = (Ok mo, s4)"
    and s': "s' = s4\<lparr>pool := release_state i (pool s4)\<rparr>"
    using assms unfolding get_update_state_and_compute_def call_start_def
    by (auto simp: bnd_Ok_iff on_exit_Ok_iff)
  define c where "c = \<lparr>call_key = key, call_duty = a, call_state = i, call_phase = Fetched\<rparr>"
  have t1: "turn C (s, cs, fs) (Began key a) (s1, c # cs, fs)"
    unfolding c_def by (rule call_begins[OF b])
  have t2: "turn C (s1, c # cs, fs) (Answer key (data (states (pool s2) i)) oper) (s2, c\<lparr>call_phase := Answered oper\<rparr> # cs, fs)"
    using call_answers[of c C s1 oper s2 "[]" cs fs] d by (simp add: c_def)
  have t3: "turn C (s2, c\<lparr>call_phase := Answered oper\<rparr> # cs, fs) Quiet (s3, c\<lparr>call_phase := Reinserted oper\<rparr> # cs, fs)"
    using call_reinserts[of "c\<lparr>call_phase := Answered oper\<rparr>" oper s2 s3 C "[]" cs fs] r by (simp add: c_def)
  have t4: "turn C (s3, c\<lparr>call_phase := Reinserted oper\<rparr> # cs, fs) Quiet (s', cs, fs)"
    using call_ends[of "c\<lparr>call_phase := Reinserted oper\<rparr>" oper s3 mo s4 C "[]" cs fs] e by (simp add: c_def s')
  have "turns C (s, cs, fs) (((([] @ [Began key a]) @ [Answer key (data (states (pool s2) i)) oper]) @ [Quiet]) @ [Quiet]) (s', cs, fs)"
    by (rule more_turns more_turns[OF _ t2] t1 t3 t4 no_turn)+
  then show ?thesis by auto
qed

section \<open>Turns as a function\<close>

text \<open>A schedule names the call or the flush that moves next, by its place in its list.\<close>

datatype ('k, 'v) move =
  StartCall 'k "'v duty" | MoveCall nat | StartFlush "'k list" | TakeItem nat | DropItem nat | ConfirmAll nat | EndFlush nat

definition without :: "nat \<Rightarrow> 'x list \<Rightarrow> 'x list" where
  "without n xs = take n xs @ drop (Suc n) xs"

fun move_call ::
  "('k, 'v, 'u, 'e, 'm, 'd) conf \<Rightarrow> nat \<Rightarrow>
   ('k, 'u, 'e, 'm, 'd) cache \<times> ('k, 'v) call list \<times> 'k running list \<Rightarrow>
   (('k, 'v, 'u) mark \<times> ('k, 'u, 'e, 'm, 'd) cache \<times> ('k, 'v) call list \<times> 'k running list) option" where
  "move_call C n (s, cs, fs) = (let c = cs ! n; i = call_state c in case call_phase c of
       Fetched \<Rightarrow> (case duty_run C (call_key c) (call_duty c) i s of (r, s') \<Rightarrow> (case r of
           Ok oper \<Rightarrow> Some (Answer (call_key c) (data (states (pool s') i)) oper, s', cs[n := c\<lparr>call_phase := Answered oper\<rparr>], fs)
         | _ \<Rightarrow> None))
     | Answered oper \<Rightarrow> (case on_pool (pool_insert (call_key c) i) s of (r, s') \<Rightarrow>
           Some (Quiet, s', cs[n := c\<lparr>call_phase := Reinserted oper\<rparr>], fs))
     | Reinserted oper \<Rightarrow>
         (case (on_dc_op oper (call_key c) (duty_value (call_duty c)) ::
             (('k, 'u, 'e, 'm, 'd) cache, 'e, ('k, 'v) value_state op) prog) s of (r, s') \<Rightarrow> (case r of
           Ok _ \<Rightarrow> Some (Quiet, s'\<lparr>pool := release_state i (pool s')\<rparr>, without n cs, fs)
         | _ \<Rightarrow> None)))"

fun end_flush ::
  "nat \<Rightarrow> ('k, 'u, 'e, 'm, 'd) cache \<times> ('k, 'v) call list \<times> 'k running list \<Rightarrow>
   (('k, 'v, 'u) mark \<times> ('k, 'u, 'e, 'm, 'd) cache \<times> ('k, 'v) call list \<times> 'k running list) option" where
  "end_flush n (s, cs, fs) = (case fs ! n of (it, H) \<Rightarrow>
     if H \<noteq> [] then None
     else (case (purify_updates :: (('k, 'u, 'd) flush_ctx, 'e, nat) prog) (flush_view s it) of (r, c') \<Rightarrow> (case r of
         Ok _ \<Rightarrow> Some (Quiet, (take_view c' s)\<lparr>last_flush := clock s\<rparr>, cs, without n fs)
       | Panic _ \<Rightarrow> Some (Crashed, take_view c' s, cs, without n fs)
       | _ \<Rightarrow> None)))"

fun take_turn ::
  "('k, 'v, 'u, 'e, 'm, 'd) conf \<Rightarrow> ('k, 'v) move \<Rightarrow>
   ('k, 'u, 'e, 'm, 'd) cache \<times> ('k, 'v) call list \<times> 'k running list \<Rightarrow>
   (('k, 'v, 'u) mark \<times> ('k, 'u, 'e, 'm, 'd) cache \<times> ('k, 'v) call list \<times> 'k running list) option" where
  "take_turn C (StartCall k a) (s, cs, fs) = (case call_start C k (duty_value a) s of (r, s') \<Rightarrow> (case r of
       Ok i \<Rightarrow> Some (Began k a, s', \<lparr>call_key = k, call_duty = a, call_state = i, call_phase = Fetched\<rparr> # cs, fs)
     | _ \<Rightarrow> None))"
| "take_turn C (MoveCall n) (s, cs, fs) = (if n < length cs then move_call C n (s, cs, fs) else None)"
| "take_turn C (StartFlush ks) (s, cs, fs) = Some (Quiet, s, cs, (iter_keys ks, []) # fs)"
| "take_turn C (TakeItem n) (s, cs, fs) = (if n < length fs then
       (case fs ! n of (it, H) \<Rightarrow> (case iter_next (flush_view s it) of (x, c') \<Rightarrow>
          Some (Gone [], take_view c' s, cs, fs[n := (ctx_iter c', case x of None \<Rightarrow> H | Some y \<Rightarrow> y # H)])))
     else None)"
| "take_turn C (DropItem n) (s, cs, fs) = (if n < length fs then
       (case fs ! n of (it, H) \<Rightarrow> (case H of [] \<Rightarrow> None | x # H' \<Rightarrow>
          (let c' = item_drop x (flush_view s it) in Some (Gone [], take_view c' s, cs, fs[n := (ctx_iter c', H')]))))
     else None)"
| "take_turn C (ConfirmAll n) (s, cs, fs) = (if n < length fs then
       (case fs ! n of (it, H) \<Rightarrow> (let c' = confirm_all (flush_view s it) in
          Some (Gone (map fst (worked it)), take_view c' s, cs, fs[n := (ctx_iter c', H)])))
     else None)"
| "take_turn C (EndFlush n) (s, cs, fs) = (if n < length fs then end_flush n (s, cs, fs) else None)"

declare move_call.simps [simp del] end_flush.simps [simp del]

lemma list_at: "n < length xs \<Longrightarrow> take n xs @ xs ! n # drop (Suc n) xs = xs"
  by (simp add: id_take_nth_drop[symmetric])

lemma move_call_sound:
  assumes n: "n < length cs" and run: "move_call C n (s, cs, fs) = Some (m, w')"
  shows "turn C (s, cs, fs) m w'"
proof -
  define c where "c = cs ! n"
  have cs: "take n cs @ c # drop (Suc n) cs = cs" using list_at[OF n] by (simp add: c_def)
  have up: "cs[n := c'] = take n cs @ c' # drop (Suc n) cs" for c' by (rule upd_conv_take_nth_drop[OF n])
  show ?thesis
  proof (cases "call_phase c")
    case Fetched
    with run call_answers[of c C s _ _ "take n cs" "drop (Suc n) cs" fs] cs up show ?thesis
      by (auto simp: move_call.simps Let_def c_def[symmetric] split: prod.splits res.splits)
  next
    case (Answered oper)
    with run call_reinserts[of c oper s _ C "take n cs" "drop (Suc n) cs" fs] cs up show ?thesis
      by (auto simp: move_call.simps Let_def c_def[symmetric] on_pool_def split: prod.splits res.splits)
  next
    case (Reinserted oper)
    with run call_ends[of c oper s _ _ C "take n cs" "drop (Suc n) cs" fs] cs show ?thesis
      by (auto simp: move_call.simps Let_def c_def[symmetric] without_def split: prod.splits res.splits)
  qed
qed

lemma end_flush_sound:
  assumes n: "n < length fs" and run: "end_flush n (s, cs, fs) = Some (m, w')"
  shows "turn C (s, cs, fs) m w'"
proof -
  obtain it H where f: "fs ! n = (it, H)" by fastforce
  have fs: "take n fs @ (it, H) # drop (Suc n) fs = fs" using list_at[OF n] f by simp
  from run f fs flush_ends[of s it _ _ C cs "take n fs" "drop (Suc n) fs"]
    flush_crashes[of s it _ _ C cs "take n fs" "drop (Suc n) fs"]
  show ?thesis by (auto simp: end_flush.simps without_def split: if_splits prod.splits res.splits)
qed

lemma take_turn_sound:
  assumes "take_turn C mv (s, cs, fs) = Some (m, w')"
  shows "turn C (s, cs, fs) m w'"
proof -
  have flush: "turn C (s, cs, fs) (Gone ks) (take_view c' s, cs, fs[n := (ctx_iter c', H')])"
    if n: "n < length fs" and "fs ! n = (it, H)" "flush_move H (flush_view s it) ks H' c'" for n it H ks H' c'
    using flush_moves[OF that(3), of C cs "take n fs" "drop (Suc n) fs"] list_at[OF n] that(2) upd_conv_take_nth_drop[OF n]
    by simp
  show ?thesis
  proof (cases mv)
    case (StartCall k a)
    then show ?thesis using assms by (auto intro: call_begins split: prod.splits res.splits)
  next
    case (MoveCall n)
    then show ?thesis using assms move_call_sound[of n cs C s fs m w'] by (simp split: if_splits)
  next
    case (StartFlush ks)
    then show ?thesis using assms by (auto intro: flush_begins)
  next
    case (TakeItem n)
    then show ?thesis using assms flush[OF _ _ move_next] flush[OF _ _ move_end]
      by (auto split: if_splits prod.splits option.splits)
  next
    case (DropItem n)
    then show ?thesis using assms flush[OF _ _ move_drop[of "[]", simplified]]
      by (auto simp: Let_def split: if_splits prod.splits list.splits)
  next
    case (ConfirmAll n)
    then show ?thesis using assms flush[OF _ _ move_confirm_all] by (auto simp: Let_def split: if_splits prod.splits)
  next
    case (EndFlush n)
    then show ?thesis using assms end_flush_sound[of n fs s cs m w' C] by (simp split: if_splits)
  qed
qed

text \<open>A whole schedule, and the marks it leaves.\<close>

fun play ::
  "('k, 'v, 'u, 'e, 'm, 'd) conf \<Rightarrow> ('k, 'v) move list \<Rightarrow>
   ('k, 'u, 'e, 'm, 'd) cache \<times> ('k, 'v) call list \<times> 'k running list \<Rightarrow>
   (('k, 'v, 'u) mark list \<times> ('k, 'u, 'e, 'm, 'd) cache \<times> ('k, 'v) call list \<times> 'k running list) option" where
  "play C [] w = Some ([], w)"
| "play C (mv # mvs) w = (case take_turn C mv w of None \<Rightarrow> None | Some (m, w1) \<Rightarrow>
     (case play C mvs w1 of None \<Rightarrow> None | Some (ms, w2) \<Rightarrow> Some (m # ms, w2)))"

lemma turns_first: "turns C w1 ns w2 \<Longrightarrow> turn C w n w1 \<Longrightarrow> turns C w (n # ns) w2"
proof (induction rule: turns.induct)
  case (no_turn w1)
  then show ?case using turns.more_turns[OF turns.no_turn] by fastforce
next
  case (more_turns w1 ns w2 m w3)
  then show ?case using turns.more_turns[of C w "n # ns" w2 m w3] by simp
qed

lemma play_sound: "play C mvs w = Some (ns, w') \<Longrightarrow> turns C w ns w'"
proof (induction mvs arbitrary: w ns)
  case (Cons mv mvs)
  obtain s cs fs where w: "w = (s, cs, fs)" by (cases w)
  from Cons.prems obtain m w1 ms where "take_turn C mv (s, cs, fs) = Some (m, w1)" "play C mvs w1 = Some (ms, w')" "ns = m # ms"
    by (auto simp: w split: option.splits)
  with Cons.IH show ?case using turns_first take_turn_sound w by blast
qed (simp add: no_turn)

end
