(* ===== verification/OneFlushes.thy ===== *)
theory OneFlushes
  imports Interleaving DCCommon
begin

text \<open>
  Overlapping calls and flushes with \<open>flush_one\<close> of \<open>src/cache.rs\<close> among them: it is cut where it
  waits for the lock of its update state, and at every operation of its iterator. It keeps its
  reference to the update state until it returns.
\<close>

section \<open>Turns\<close>

text \<open>A running \<open>flush_one\<close>: its key, the update state in its hand and, once it has the lock, its iterator.\<close>

record 'k one =
  one_key :: 'k
  one_state :: nat
  one_run :: "'k running option"

text \<open>The first part: the reference to the update state, when the key has one.\<close>

definition one_start ::
  "('k, 'v, 'u, 'e, 'm, 'd) conf \<Rightarrow> 'k \<Rightarrow> (('k, 'u, 'e, 'm, 'd) cache, 'e, nat option) prog" where
  "one_start C key =
     bnd check_error (\<lambda>_.
     bnd (gets (\<lambda>s. pool_get (pool s) key)) (\<lambda>upd. case upd of
       None \<Rightarrow> ret None
     | Some i \<Rightarrow> bnd (on_pool (hold_state i)) (\<lambda>_. ret (Some i))))"

type_synonym ('k, 'v, 'u, 'e, 'm, 'd) busy =
  "('k, 'u, 'e, 'm, 'd) cache \<times> ('k, 'v) call list \<times> 'k running list \<times> 'k one list"

text \<open>
  The observers are told under the lock, before the data controller is asked; they write to the
  backend only, and when one fails the lock goes back as when the controller fails.
\<close>

inductive any_turn ::
  "('k, 'v, 'u, 'e, 'm, 'd) conf \<Rightarrow> ('k, 'v, 'u, 'e, 'm, 'd) busy \<Rightarrow> ('k, 'v, 'u) mark \<Rightarrow>
   ('k, 'v, 'u, 'e, 'm, 'd) busy \<Rightarrow> bool"
  for C where
  other_turn: "turn C (s, cs, fs) n (s', cs', fs') \<Longrightarrow> any_turn C (s, cs, fs, os) n (s', cs', fs', os)"
| one_begins: "one_start C key s = (Ok (Some i), s') \<Longrightarrow>
    any_turn C (s, cs, fs, os) Quiet (s', cs, fs, \<lparr>one_key = key, one_state = i, one_run = None\<rparr> # os)"
| one_skips: "one_run f = None \<Longrightarrow> \<not> locked (states (pool s) (one_state f)) \<Longrightarrow>
    data (states (pool s) (one_state f)) = None \<Longrightarrow>
    any_turn C (s, cs, fs, xs @ f # ys) Quiet (s\<lparr>pool := release_state (one_state f) (pool s)\<rparr>, cs, fs, xs @ ys)"
| one_locks: "one_run f = None \<Longrightarrow> \<not> locked (states (pool s) (one_state f)) \<Longrightarrow>
    data (states (pool s) (one_state f)) \<noteq> None \<Longrightarrow>
    any_turn C (s, cs, fs, xs @ f # ys) Quiet
      (s\<lparr>pool := lock_state (one_state f) (pool s)\<rparr>, cs, fs,
       xs @ f\<lparr>one_run := Some (iter_key_guard (one_key f, one_state f), [])\<rparr> # ys)"
| one_moves: "one_run f = Some (it, H) \<Longrightarrow> flush_move H (flush_view s it) ks H' c' \<Longrightarrow>
    any_turn C (s, cs, fs, xs @ f # ys) (Gone ks)
      (take_view c' s, cs, fs, xs @ f\<lparr>one_run := Some (ctx_iter c', H')\<rparr> # ys)"
| one_ends: "one_run f = Some (it, []) \<Longrightarrow>
    (purify_updates :: (('k, 'u, 'd) flush_ctx, 'e, nat) prog) (flush_view s it) = (Ok n, c') \<Longrightarrow>
    any_turn C (s, cs, fs, xs @ f # ys) Quiet
      (take_view (c'\<lparr>ctx_pool := release_state (one_state f) (ctx_pool c')\<rparr>) s, cs, fs, xs @ ys)"
| one_crashes: "one_run f = Some (it, []) \<Longrightarrow>
    (purify_updates :: (('k, 'u, 'd) flush_ctx, 'e, nat) prog) (flush_view s it) = (Panic msg, c') \<Longrightarrow>
    any_turn C (s, cs, fs, xs @ f # ys) Crashed
      (take_view (c'\<lparr>ctx_pool := release_state (one_state f) (ctx_pool c')\<rparr>) s, cs, fs, xs @ ys)"
| one_fails: "one_run f = Some (it, []) \<Longrightarrow> c' = iter_drop (flush_view s it) \<Longrightarrow>
    any_turn C (s, cs, fs, xs @ f # ys) Quiet
      (take_view (c'\<lparr>ctx_pool := release_state (one_state f) (ctx_pool c')\<rparr>) s, cs, fs, xs @ ys)"

inductive any_turns ::
  "('k, 'v, 'u, 'e, 'm, 'd) conf \<Rightarrow> ('k, 'v, 'u, 'e, 'm, 'd) busy \<Rightarrow> ('k, 'v, 'u) mark list \<Rightarrow>
   ('k, 'v, 'u, 'e, 'm, 'd) busy \<Rightarrow> bool"
  for C where
  no_any_turn: "any_turns C w [] w"
| more_any_turns: "any_turns C w ns w1 \<Longrightarrow> any_turn C w1 n w2 \<Longrightarrow> any_turns C w (ns @ [n]) w2"

section \<open>The invariant\<close>

text \<open>
  For the invariant a running \<open>flush_one\<close> is a call, for its reference, and a flush, for its lock.
\<close>

definition as_call :: "'k one \<Rightarrow> ('k, 'v) call" where
  "as_call f = \<lparr>call_key = one_key f, call_duty = OnDelete None, call_state = one_state f, call_phase = Fetched\<rparr>"

lemma as_call_reads [simp]:
  "call_key (as_call f) = one_key f" "call_state (as_call f) = one_state f" "call_phase (as_call f) = Fetched"
  "as_call (f\<lparr>one_run := r\<rparr>) = as_call f"
  by (simp_all add: as_call_def)

definition as_runs :: "'k one list \<Rightarrow> 'k running list" where
  "as_runs os = concat (map (\<lambda>f. case one_run f of None \<Rightarrow> [] | Some r \<Rightarrow> [r]) os)"

lemma as_runs_simps [simp]:
  "as_runs [] = []" "as_runs (f # os) = (case one_run f of None \<Rightarrow> as_runs os | Some r \<Rightarrow> r # as_runs os)"
  "as_runs (os @ os') = as_runs os @ as_runs os'"
  by (simp_all add: as_runs_def split: option.splits)

definition busy_ok :: "('k, 'v, 'u, 'e, 'm, 'd) busy \<Rightarrow> bool" where
  "busy_ok w = (case w of (s, cs, fs, os) \<Rightarrow> turns_ok (s, cs @ map as_call os, fs @ as_runs os))"

text \<open>A turn does not look at the calls and flushes that wait.\<close>

lemma turn_frame:
  assumes "turn C (s, cs, fs) n (s', cs', fs')"
  shows "turn C (s, cs @ ds, fs @ gs) n (s', cs' @ ds, fs' @ gs)"
  using assms
proof cases
  case (call_begins key a i)
  then show ?thesis using turn.call_begins[of C key a s i s' "cs @ ds" "fs @ gs"] by simp
next
  case (call_answers c oper xs ys)
  then show ?thesis using turn.call_answers[of c C s oper s' xs "ys @ ds" "fs @ gs"] by simp
next
  case (call_breaks c r t xs ys)
  then show ?thesis using turn.call_breaks[of c C s r t xs "ys @ ds" "fs @ gs"] by simp
next
  case (call_reinserts c oper xs ys)
  then show ?thesis using turn.call_reinserts[of c oper s s' C xs "ys @ ds" "fs @ gs"] by simp
next
  case (call_ends c oper mo t xs ys)
  then show ?thesis using turn.call_ends[of c oper s mo t C xs "ys @ ds" "fs @ gs"] by simp
next
  case (flush_begins keys)
  then show ?thesis using turn.flush_begins[of C s "cs @ ds" "fs @ gs" keys] by simp
next
  case (flush_moves H it ks H' c' xs ys)
  then show ?thesis using turn.flush_moves[of H s it ks H' c' C "cs @ ds" xs "ys @ gs"] by simp
next
  case (flush_ends it m c' xs ys)
  then show ?thesis using turn.flush_ends[of s it m c' C "cs @ ds" xs "ys @ gs"] by simp
next
  case (flush_crashes it msg c' xs ys)
  then show ?thesis using turn.flush_crashes[of s it msg c' C "cs @ ds" xs "ys @ gs"] by simp
next
  case (flush_fails xs it ys)
  then show ?thesis using turn.flush_fails[of C s "cs @ ds" xs it "ys @ gs"] by simp
qed

section \<open>Turns keep the invariant and follow the specification\<close>

lemma one_begins_ok:
  assumes ok: "turns_ok (s, cs, fs)" and run: "one_start C key s = (Ok (Some i), s')"
    and c: "call_key c = key" "call_state c = i" "call_phase c = Fetched"
  shows "turns_ok (s', c # cs, fs) \<and> pending (pool s') = pending (pool s)"
proof -
  have s': "s' = s\<lparr>pool := hold_state i (pool s)\<rparr>" and get: "pool_get (pool s) key = Some i"
    using run by (auto simp: one_start_def check_error_def clear_error_def bnd_def on_pool_def
        split: option.splits if_splits prod.splits res.splits)
  note D = turns_okD[OF ok]
  have "turns_ok (s', c # cs, fs)"
    by (rule turns_okI) (use D c get pool_wf_get[OF D(1) get] in \<open>auto simp: s'\<close>)
  then show ?thesis by (simp add: s')
qed

lemma one_locks_ok:
  assumes ok: "turns_ok (s, cs, xs @ ys)" and c: "c \<in> set cs" and free: "\<not> locked (states (pool s) (call_state c))"
  shows "turns_ok (s\<lparr>pool := lock_state (call_state c) (pool s)\<rparr>, cs, xs @ (iter_key_guard (call_key c, call_state c), []) # ys)"
proof -
  note D = turns_okD[OF ok]
  have own: "own_guards (iter_key_guard (call_key c, call_state c)) = [(call_key c, call_state c)]"
    by (simp add: own_guards_def iter_key_guard_def)
  have get: "pool_get (pool s) (call_key c) = Some (call_state c)" by (rule D(3)[OF c])
  have "call_state c \<notin> snd ` set (all_guards (xs @ ys))" using D(6)[of "call_state c"] free by simp
  then show ?thesis
    by (intro turns_okI) (use D get pool_wf_get[OF D(1) get] in \<open>auto simp: own image_iff\<close>)
qed

text \<open>The end of a running \<open>flush_one\<close>: its iterator has gone, then its reference goes.\<close>

lemma one_leaves_ok:
  assumes "turns_ok (take_view c' s, cs @ map as_call (xs @ f # ys), fs @ as_runs xs @ as_runs ys)"
  shows "busy_ok (take_view (c'\<lparr>ctx_pool := release_state (one_state f) (ctx_pool c')\<rparr>) s, cs, fs, xs @ ys)"
  using leave_ok[of "take_view c' s" "cs @ map as_call xs" "as_call f" "map as_call ys" "fs @ as_runs xs @ as_runs ys"] assms
  by (cases s, cases c') (simp add: busy_ok_def take_view_def)

lemma any_turn_tame:
  assumes ok: "busy_ok (s, cs, fs, os)" and turn: "any_turn C (s, cs, fs, os) n (s', cs', fs', os')" and tame: "tame C n"
  shows "busy_ok (s', cs', fs', os') \<and> pending (pool s') = effect n (pending (pool s)) \<and> n \<noteq> Crashed"
  using turn
proof cases
  case other_turn
  then show ?thesis
    using turn_tame[OF _ turn_frame[of C s cs fs n s' cs' fs' "map as_call os" "as_runs os"] tame] ok
    by (simp add: busy_ok_def)
next
  case (one_begins key i)
  let ?c = "as_call \<lparr>one_key = key, one_state = i, one_run = None\<rparr>"
  have "turns_ok (s', ?c # cs @ map as_call os, fs @ as_runs os) \<and> pending (pool s') = pending (pool s)"
    by (rule one_begins_ok) (use ok one_begins in \<open>auto simp: busy_ok_def\<close>)
  then show ?thesis using one_begins by (simp add: busy_ok_def turns_ok_def)
next
  case (one_skips f xs ys)
  have "take_view (flush_view s it) s = s" for it by (simp add: take_view_def flush_view_def)
  then show ?thesis
    using one_leaves_ok[of "flush_view s undefined" s cs xs f ys fs] ok one_skips
    by (simp add: busy_ok_def take_view_def flush_view_def)
next
  case (one_locks f xs ys)
  then show ?thesis
    using one_locks_ok[of s "cs @ map as_call os" "fs @ as_runs xs" "as_runs ys" "as_call f"] ok by (simp add: busy_ok_def)
next
  case (one_moves f it H ks H' c' xs ys)
  have "turn C (s, cs @ map as_call os, (fs @ as_runs xs) @ (it, H) # as_runs ys) (Gone ks)
      (take_view c' s, cs @ map as_call os, (fs @ as_runs xs) @ (ctx_iter c', H') # as_runs ys)"
    by (rule turn.flush_moves) (use one_moves in simp)
  from turn_tame[OF _ this] show ?thesis using ok one_moves by (simp add: busy_ok_def)
next
  case (one_ends f it m c' xs ys)
  then show ?thesis
    using purify_ok[OF _ one_ends(8), of "cs @ map as_call os" "fs @ as_runs xs" "as_runs ys"] ok
      one_leaves_ok[of c' s cs xs f ys fs] by (simp add: busy_ok_def)
next
  case (one_crashes f it msg c' xs ys)
  then show ?thesis
    using purify_ok[OF _ one_crashes(8), of "cs @ map as_call os" "fs @ as_runs xs" "as_runs ys"] ok by (simp add: busy_ok_def)
next
  case (one_fails f it c' xs ys)
  have "turn C (s, cs @ map as_call os, (fs @ as_runs xs) @ (it, []) # as_runs ys) Quiet
      (take_view (iter_drop (flush_view s it)) s, cs @ map as_call os, (fs @ as_runs xs) @ as_runs ys)"
    by (rule turn.flush_fails)
  from turn_tame[OF _ this] show ?thesis
    using ok one_fails one_leaves_ok[of c' s cs xs f ys fs] by (simp add: busy_ok_def)
qed

lemma any_turns_tame:
  assumes "any_turns C w ns w'" "busy_ok w" "\<forall>n \<in> set ns. tame C n"
  shows "busy_ok w' \<and> pending (pool (fst w')) = fold effect ns (pending (pool (fst w))) \<and> Crashed \<notin> set ns"
  using assms
proof induction
  case (more_any_turns w ns w1 n w2)
  obtain s cs fs os s' cs' fs' os' where w: "w1 = (s, cs, fs, os)" "w2 = (s', cs', fs', os')" by (metis prod.collapse)
  show ?case using more_any_turns any_turn_tame[of s cs fs os C n s' cs' fs' os'] by (auto simp: w)
qed simp

lemma busy_ok_quiet: "busy_ok (s, [], [], []) \<longleftrightarrow> pool_quiet (pool s)"
  by (simp add: busy_ok_def turns_ok_quiet)


section \<open>What runs on an iterator is a series of moves\<close>

text \<open>A series of moves, with the keys each of them confirms.\<close>

inductive moved ::
  "('k \<times> nat) list \<Rightarrow> ('k, 'u, 'd) flush_ctx \<Rightarrow> 'k list list \<Rightarrow> ('k \<times> nat) list \<Rightarrow> ('k, 'u, 'd) flush_ctx \<Rightarrow> bool"
  for H c where
  moved_none: "moved H c [] H c"
| moved_more: "moved H c kss H1 c1 \<Longrightarrow> flush_move H1 c1 ks H2 c2 \<Longrightarrow> moved H c (kss @ [ks]) H2 c2"

lemma moved_trans: "moved H1 c1 ls H2 c2 \<Longrightarrow> moved H c kss H1 c1 \<Longrightarrow> moved H c (kss @ ls) H2 c2"
proof (induction rule: moved.induct)
  case (moved_more ls H2 c2 ks H3 c3)
  then show ?case using moved.moved_more[of H c "kss @ ls" H2 c2 ks H3 c3] by simp
qed simp

text \<open>A program that only makes moves and gives every item back.\<close>

definition moves_only :: "(('k, 'u, 'd) flush_ctx, 'e, 'a) prog \<Rightarrow> bool" where
  "moves_only m \<longleftrightarrow> (\<forall>c a c'. m c = (Ok a, c') \<longrightarrow> (\<exists>kss. moved [] c kss [] c'))"

lemma moves_only_ret: "moves_only (ret a)"
  by (auto simp: moves_only_def intro: moved_none)

lemma moves_only_bnd: "moves_only m \<Longrightarrow> (\<And>a. moves_only (f a)) \<Longrightarrow> moves_only (bnd m f)"
  by (fastforce simp: moves_only_def bnd_Ok_iff intro: moved_trans)

lemma moves_only_for_each: "(\<And>x. x \<in> set xs \<Longrightarrow> moves_only (f x)) \<Longrightarrow> moves_only (for_each f xs)"
  by (induction xs) (auto intro: moves_only_bnd moves_only_ret)

lemma moves_only_reset: "moves_only (modify iter_reset)"
  unfolding moves_only_def using moved_more[OF moved_none move_reset] by auto

lemmas moves_only_intros = moves_only_ret moves_only_bnd moves_only_for_each moves_only_reset

text \<open>The items in hand, in any order, and a context that moves have led to.\<close>

definition came_from :: "('k, 'u, 'd) flush_ctx \<Rightarrow> ('k \<times> nat) list \<Rightarrow> ('k, 'u, 'd) flush_ctx \<Rightarrow> bool" where
  "came_from c0 H c \<longleftrightarrow> (\<exists>kss H1. moved [] c0 kss H1 c \<and> mset H1 = mset H)"

lemma came_from_move:
  assumes "came_from c0 H c" "\<And>H1. mset H1 = mset H \<Longrightarrow> \<exists>ks H2. flush_move H1 c ks H2 c' \<and> mset H2 = mset H'"
  shows "came_from c0 H' c'"
  using assms unfolding came_from_def by (meson moved_more)

interpretation moved_use: item_use "came_from c0" for c0
proof
  fix c c' :: "('a, 'b cache_updates, 'c) flush_ctx" and r it and H H' :: "('a \<times> nat) list" and d
  show "case r of None \<Rightarrow> came_from c0 H c' | Some it \<Rightarrow> came_from c0 (it # H) c'"
    if "iter_next c = (r, c')" "came_from c0 H c"
  proof (cases r)
    case None
    then have "\<exists>ks H2. flush_move H1 c ks H2 c' \<and> mset H2 = mset H" if "mset H1 = mset H" for H1
      using \<open>iter_next c = (r, c')\<close> that by (intro exI[of _ "[]"] exI[of _ H1]) (simp add: move_end)
    then show ?thesis using None came_from_move[OF that(2)] by simp
  next
    case (Some x)
    have "\<exists>ks H2. flush_move H1 c ks H2 c' \<and> mset H2 = mset (x # H)" if "mset H1 = mset H" for H1
      using \<open>iter_next c = (r, c')\<close> Some that by (intro exI[of _ "[]"] exI[of _ "x # H1"]) (simp add: move_next)
    then show ?thesis using Some came_from_move[OF that(2)] by simp
  qed
  show "came_from c0 H (item_drop it c)" if "came_from c0 (it # H) c"
  proof (rule came_from_move[OF that])
    fix H1 assume m: "mset H1 = mset (it # H)"
    then have "it \<in> set H1" by (metis list.set_intros(1) set_mset_mset)
    then obtain A B where H1: "H1 = A @ it # B" by (meson split_list)
    show "\<exists>ks H2. flush_move H1 c ks H2 (item_drop it c) \<and> mset H2 = mset H"
      unfolding H1 using move_drop[of A it B c] m by (intro exI[of _ "[]"] exI[of _ "A @ B"]) (simp add: H1)
  qed
  show "came_from c0 H (confirm_all c)" if "came_from c0 H c"
    by (rule came_from_move[OF that]) (blast intro: move_confirm_all)
  show "came_from c0 H (c\<lparr>ctx_backend := d\<rparr>)" if "came_from c0 H c"
    by (rule came_from_move[OF that]) (blast intro: move_write)
  show "came_from c0 H' c" if "came_from c0 H c" "mset H' = mset H"
    using that by (auto simp: came_from_def)
qed

lemma wbdc_write_back_moves: "moves_only (wbdc_write_back T B)"
proof (unfold moves_only_def, intro allI impI)
  fix c a c' assume run: "wbdc_write_back T B c = (Ok a, c')"
  have "came_from c [] c" by (auto simp: came_from_def intro: moved_none)
  from moved_use.wbdc_write_back_keeps[OF this run] show "\<exists>kss. moved [] c kss [] c'"
    by (auto simp: came_from_def)
qed

section \<open>Whole operations as turns\<close>

lemma any_turns_trans: "any_turns C w1 ms w2 \<Longrightarrow> any_turns C w ns w1 \<Longrightarrow> any_turns C w (ns @ ms) w2"
proof (induction rule: any_turns.induct)
  case (more_any_turns w1 ms w2 m w3)
  then show ?case using any_turns.more_any_turns[of C w "ns @ ms" w2 m w3] by simp
qed simp

lemma turns_trans: "turns C w1 ms w2 \<Longrightarrow> turns C w ns w1 \<Longrightarrow> turns C w (ns @ ms) w2"
proof (induction rule: turns.induct)
  case (more_turns w1 ms w2 m w3)
  then show ?case using turns.more_turns[of C w "ns @ ms" w2 m w3] by simp
qed simp

lemma any_turns_one: "any_turn C w n w' \<Longrightarrow> any_turns C w [n] w'"
  using more_any_turns[OF no_any_turn] by fastforce

lemma other_turns:
  assumes "turns C (s, cs, fs) ns (s', cs', fs')"
  shows "any_turns C (s, cs, fs, os) ns (s', cs', fs', os)"
proof -
  have "any_turns C (case w of (s, cs, fs) \<Rightarrow> (s, cs, fs, os)) ns (case w' of (s, cs, fs) \<Rightarrow> (s, cs, fs, os))"
    if "turns C w ns w'" for w w'
    using that by (induction rule: turns.induct) (auto intro: no_any_turn more_any_turns other_turn split: prod.splits)
  from this[OF assms] show ?thesis by simp
qed

lemma view_again [simp]:
  "flush_view (take_view c s) (ctx_iter c) = c" "take_view c' (take_view c s) = take_view c' s"
  "take_view (flush_view s it) s = s"
  by (simp_all add: flush_view_def take_view_def)

lemma moved_turns:
  assumes "moved [] (flush_view s it) kss H c"
  shows "any_turns C (s, cs, fs, f\<lparr>one_run := Some (it, [])\<rparr> # os) (map Gone kss)
    (take_view c s, cs, fs, f\<lparr>one_run := Some (ctx_iter c, H)\<rparr> # os)"
  using assms
proof induction
  case moved_none
  then show ?case using no_any_turn by (simp add: take_view_def)
next
  case (moved_more kss H1 c1 ks H2 c2)
  have "any_turn C (take_view c1 s, cs, fs, [] @ f\<lparr>one_run := Some (ctx_iter c1, H1)\<rparr> # os) (Gone ks)
      (take_view c2 (take_view c1 s), cs, fs, [] @ f\<lparr>one_run := Some (ctx_iter c1, H1)\<rparr>\<lparr>one_run := Some (ctx_iter c2, H2)\<rparr> # os)"
    by (rule one_moves[where it = "ctx_iter c1" and H = H1]) (use moved_more.hyps(2) in \<open>simp_all\<close>)
  then show ?case using more_any_turns[OF moved_more.IH] by simp
qed

lemma moved_flush_turns:
  assumes "moved [] (flush_view s it) kss H c"
  shows "turns C (s, cs, (it, []) # fs) (map Gone kss) (take_view c s, cs, (ctx_iter c, H) # fs)"
  using assms
proof induction
  case moved_none
  then show ?case using no_turn by (simp add: take_view_def)
next
  case (moved_more kss H1 c1 ks H2 c2)
  have "turn C (take_view c1 s, cs, [] @ (ctx_iter c1, H1) # fs) (Gone ks)
      (take_view c2 (take_view c1 s), cs, [] @ (ctx_iter c2, H2) # fs)"
    by (rule flush_moves) (use moved_more.hyps(2) in \<open>simp\<close>)
  then show ?case using more_turns[OF moved_more.IH] by simp
qed

text \<open>The controller and the observers make moves only, as those of the simulation's controllers do.\<close>

definition conf_moves :: "('k, 'v, 'u, 'e, 'm, 'd) conf \<Rightarrow> bool" where
  "conf_moves C \<longleftrightarrow> moves_only (dc_write_back (dc C)) \<and> (\<forall>ob \<in> set (observers C). moves_only (ob_on_flush ob))"

lemma drop_after_purify:
  "purify_updates c = (r, c') \<Longrightarrow> r \<noteq> Wait \<Longrightarrow> iter_drop c' = c'"
  unfolding purify_updates_def on_exit_def
  by (auto simp: iter_drop_def Let_def own_guards_def unlock_items_def ctx_on_pool_def List.map_filter_simps
      split: prod.splits res.splits)

lemma with_ctx_view: "with_ctx it m s = (case m (flush_view s it) of (r, c) \<Rightarrow> (r, take_view c s))"
  by (simp add: with_ctx_def flush_view_def take_view_def)

lemma flush_in_turns:
  fixes C :: "('k, 'v, 'u, 'e, 'm, 'd) conf"
  assumes C: "conf_moves C" and run: "flush_many_raw C keys s = (Ok n, s')"
  shows "\<exists>kss. turns C (s, cs, fs) (Quiet # map Gone kss @ [Quiet]) (s', cs, fs)"
proof -
  obtain c where body: "on_exit (flush_many_body C) iter_drop (flush_view s (iter_keys keys)) = (Ok n, c)"
    and s': "s' = (take_view c s)\<lparr>last_flush := clock s\<rparr>"
    using run by (auto simp: flush_many_raw_def with_ctx_view bnd_Ok_iff split: prod.splits)
  define m where "m = bnd (event_on_flush C) (\<lambda>_. bnd (modify iter_reset) (\<lambda>_. dc_write_back (dc C)))"
  have "\<exists>c1 c2. m (flush_view s (iter_keys keys)) = (Ok (), c1) \<and> purify_updates c1 = ((Ok n :: ('e, nat) res), c2) \<and> c = iter_drop c2"
    using body by (auto simp: flush_many_body_def on_exit_Ok_iff bnd_Ok_iff m_def)
  then obtain c1 c2 where ms: "m (flush_view s (iter_keys keys)) = (Ok (), c1)"
    and pur: "purify_updates c1 = ((Ok n :: ('e, nat) res), c2)" and c: "c = iter_drop c2" by blast
  have "moves_only m"
    using C by (auto simp: m_def conf_moves_def event_on_flush_def intro!: moves_only_intros)
  then obtain kss where moved: "moved [] (flush_view s (iter_keys keys)) kss [] c1"
    using ms by (force simp: moves_only_def)
  have c2: "c = c2" using drop_after_purify[OF pur] c by simp
  have "turns C (s, cs, fs) ([] @ [Quiet]) (s, cs, (iter_keys keys, []) # fs)"
    by (rule more_turns[OF no_turn flush_begins])
  from turns_trans[OF moved_flush_turns[OF moved] this]
  have "turns C (s, cs, fs) ([Quiet] @ map Gone kss) (take_view c1 s, cs, (ctx_iter c1, []) # fs)" by simp
  moreover have "turn C (take_view c1 s, cs, [] @ (ctx_iter c1, []) # fs) Quiet
      ((take_view c2 (take_view c1 s))\<lparr>last_flush := clock (take_view c1 s)\<rparr>, cs, [] @ fs)"
    by (rule flush_ends) (use pur in simp)
  ultimately have "turns C (s, cs, fs) (([Quiet] @ map Gone kss) @ [Quiet]) (s', cs, fs)"
    using more_turns by (fastforce simp: s' c2)
  then show ?thesis by auto
qed

lemma one_in_turns:
  fixes C :: "('k, 'v, 'u, 'e, 'm, 'd) conf"
  assumes C: "conf_moves C" and run: "flush_one C key s = (Ok n, s')"
  shows "\<exists>ns. any_turns C (s, cs, fs, os) ns (s', cs, fs, os) \<and> set ns \<subseteq> insert Quiet (range Gone)"
proof (cases "pool_get (pool s) key")
  case None
  then have "s' = s" using run
    by (auto simp: flush_one_def check_error_def clear_error_def bnd_Ok_iff split: option.splits)
  then show ?thesis by (intro exI[of _ "[]"]) (simp add: no_any_turn)
next
  case (Some i)
  define s1 where "s1 = s\<lparr>pool := hold_state i (pool s)\<rparr>"
  define f where "f = \<lparr>one_key = key, one_state = i, one_run = None :: 'k running option\<rparr>"
  have err: "error s = None" using run
    by (auto simp: flush_one_def check_error_def clear_error_def bnd_Ok_iff split: option.splits)
  have start: "one_start C key s = (Ok (Some i), s1)"
    using err Some by (simp add: one_start_def on_pool_def s1_def)
  have t1: "any_turn C (s, cs, fs, os) Quiet (s1, cs, fs, f # os)"
    unfolding f_def by (rule one_begins[OF start])
  obtain s2 where in2: "(if locked (states (pool s1) i) then waits else
        bnd (on_pool (lock_state i)) (\<lambda>_. bnd (guard_get i) (\<lambda>g. case g of
          None \<Rightarrow> bnd (on_pool (unlock_state i)) (\<lambda>_. ret 0)
        | Some u \<Rightarrow> bnd (on_err (event_on_flush_one C key u) (\<lambda>s. s\<lparr>pool := unlock_state i (pool s)\<rparr>)) (\<lambda>_.
            with_ctx (iter_key_guard (key, i)) (on_exit (bnd (dc_write_back (dc C)) (\<lambda>_. purify_updates)) iter_drop))))) s1 = (Ok n, s2)"
    and s': "s' = s2\<lparr>pool := release_state i (pool s2)\<rparr>"
    using run err Some by (auto simp: flush_one_def on_pool_def s1_def on_exit_Ok_iff)
  have unl: "\<not> locked (states (pool s1) i)" using in2 by (auto split: if_splits)
  show ?thesis
  proof (cases "data (states (pool s1) i)")
    case None
    then have "s2 = s1" using in2 unl by (auto simp: on_pool_def guard_get_def pool_simps)
    moreover have "any_turn C (s1, cs, fs, [] @ f # os) Quiet
        (s1\<lparr>pool := release_state (one_state f) (pool s1)\<rparr>, cs, fs, [] @ os)"
      by (rule one_skips) (use None unl in \<open>simp_all add: f_def\<close>)
    ultimately have "any_turn C (s1, cs, fs, f # os) Quiet (s', cs, fs, os)" by (simp add: s' f_def)
    from any_turns_trans[OF any_turns_one[OF this] any_turns_one[OF t1]] show ?thesis by fastforce
  next
    case (Some u)
    define s3 where "s3 = s1\<lparr>pool := lock_state i (pool s1)\<rparr>"
    have "\<exists>d c1 c2. for_each (\<lambda>ob. ob_on_flush_one ob key u) (observers C) (backend s3) = (Ok (), d) \<and>
        dc_write_back (dc C) (flush_view (s3\<lparr>backend := d\<rparr>) (iter_key_guard (key, i))) = (Ok (), c1) \<and>
        purify_updates c1 = ((Ok n :: ('e, nat) res), c2) \<and> s2 = take_view (iter_drop c2) (s3\<lparr>backend := d\<rparr>)"
      using in2 unl Some
      by (auto simp: on_pool_def guard_get_def bnd_Ok_iff on_err_Ok_iff on_exit_Ok_iff event_on_flush_one_def
          on_backend_def with_ctx_view s3_def split: prod.splits)
    then obtain d c1 c2 where wb: "dc_write_back (dc C) (flush_view (s3\<lparr>backend := d\<rparr>) (iter_key_guard (key, i))) = (Ok (), c1)"
      and pur: "purify_updates c1 = ((Ok n :: ('e, nat) res), c2)" and s2: "s2 = take_view (iter_drop c2) (s3\<lparr>backend := d\<rparr>)" by blast
    let ?it = "iter_key_guard (key, i)"
    let ?f = "f\<lparr>one_run := Some (?it, [])\<rparr>"
    have t2: "any_turn C (s1, cs, fs, f # os) Quiet (s3, cs, fs, ?f # os)"
      using one_locks[of f s1 C cs fs "[]" os] unl Some by (simp add: f_def s3_def)
    have w: "moved [] (flush_view s3 ?it) [[]] [] (flush_view (s3\<lparr>backend := d\<rparr>) ?it)"
      using moved_more[OF moved_none move_write, of "[]" "flush_view s3 ?it" d] by (simp add: flush_view_def)
    obtain kss where "moved [] (flush_view (s3\<lparr>backend := d\<rparr>) ?it) kss [] c1"
      using C wb by (force simp: conf_moves_def moves_only_def)
    from moved_trans[OF this w] have m: "moved [] (flush_view s3 ?it) ([] # kss) [] c1" by simp
    have t4: "any_turn C (take_view c1 s3, cs, fs, [] @ f\<lparr>one_run := Some (ctx_iter c1, [])\<rparr> # os) Quiet
        (take_view (c2\<lparr>ctx_pool := release_state i (ctx_pool c2)\<rparr>) (take_view c1 s3), cs, fs, [] @ os)"
      using one_ends[of "f\<lparr>one_run := Some (ctx_iter c1, [])\<rparr>" "ctx_iter c1" "take_view c1 s3" n c2 C cs fs "[]" os] pur
      by (simp add: f_def)
    have "s' = take_view (c2\<lparr>ctx_pool := release_state i (ctx_pool c2)\<rparr>) (take_view c1 s3)"
      using drop_after_purify[OF pur] s' s2 by (simp add: take_view_def)
    then have "any_turns C (s, cs, fs, os) (([Quiet] @ [Quiet]) @ map Gone ([] # kss) @ [Quiet]) (s', cs, fs, os)"
      using any_turns_trans[OF any_turns_trans[OF any_turns_one[OF t4[simplified]] moved_turns[OF m]]
          any_turns_trans[OF any_turns_one[OF t2] any_turns_one[OF t1]]] by simp
    then show ?thesis by (intro exI[of _ "([Quiet] @ [Quiet]) @ map Gone ([] # kss) @ [Quiet]"]) auto
  qed
qed
end
