(* ===== verification/Races.thy ===== *)
theory Races
  imports Caches OneFlushes
begin

text \<open>
  Overlaps of calls on the shop of \<open>Caches\<close> that go wrong, as schedules played turn by turn. In
  each a call is answered \<open>Drop\<close> while another call or a flush works on the same key.
\<close>

lemmas play_eval = call_start_def flush_view_def take_view_def move_call.simps end_flush.simps without_def nth_Cons

text \<open>
  The insert of tea is pending. A delete of it has been answered when a flush takes the update;
  the delete then takes the key out of the pool, and the clean-up of the flush misses it.
\<close>

definition crash_schedule :: "(int, product) move list" where
  "crash_schedule = [StartCall 1 (OnDelete (Some tea)), MoveCall 0, StartFlush [1], TakeItem 0,
     MoveCall 0, MoveCall 0, DropItem 0, ConfirmAll 0, EndFlush 0]"

text \<open>
  A \<open>get\<close> of tea has the update state in hand while a delete drops the key and an insert makes
  a new state for it; the \<open>get\<close> then puts the old state back over the new one.
\<close>

definition lost_schedule :: "(int, product) move list" where
  "lost_schedule = [StartCall 1 (OnAccess tea),
     StartCall 1 (OnDelete (Some tea)), MoveCall 0, MoveCall 0, MoveCall 0,
     StartCall 1 (OnNew coffee), MoveCall 0, MoveCall 0, MoveCall 0,
     MoveCall 0, MoveCall 0, MoveCall 0]"

lemma crash_play:
  "\<exists>ns w. play shop_conf crash_schedule (shop1, [], []) = Some (ns, w) \<and> Crashed \<in> set ns"
  by (simp add: eval_simps play_eval shop_eval shop1_def crash_schedule_def cong: eval_cong del: eval_del)

text \<open>The shop when the insert has returned, and when the \<open>get\<close> has.\<close>

definition coffee_state :: "nat \<Rightarrow> product_am cache_updates update_state" where
  "coffee_state = (\<lambda>_. \<lparr>data = None, locked = False, holders = 0\<rparr>)
     (0 := \<lparr>data = Some CuDelete, locked = False, holders = 1\<rparr>,
      1 := \<lparr>data = Some (CuInsert (am_from (fun_am product_field) coffee)), locked = False, holders = 0\<rparr>)"

definition lost1 where
  "lost1 = shop1\<lparr>pool := \<lparr>updates = [(1, 1)], states = coffee_state, fresh = 2\<rparr>\<rparr>"

definition lost2 where
  "lost2 = shop1\<lparr>pool := \<lparr>updates = [(1, 0)],
     states = coffee_state(0 := \<lparr>data = Some CuDelete, locked = False, holders = 0\<rparr>), fresh = 2\<rparr>\<rparr>"

definition get_call :: "(int, product) call" where
  "get_call = \<lparr>call_key = 1, call_duty = OnAccess tea, call_state = 0, call_phase = Fetched\<rparr>"

lemma lost_play1:
  "\<exists>ns. play shop_conf (take 9 lost_schedule) (shop1, [], []) = Some (ns, lost1, [get_call], [])"
  by (simp add: eval_simps play_eval shop_eval shop1_def lost_schedule_def coffee_def lost1_def coffee_state_def get_call_def
      fun_upd_twist cong: eval_cong del: eval_del)

lemma lost_play2:
  "\<exists>ns. play shop_conf (drop 9 lost_schedule) (lost1, [get_call], []) = Some (ns, lost2, [], [])"
  by (simp add: eval_simps play_eval shop_eval shop1_def lost_schedule_def coffee_def lost1_def lost2_def coffee_state_def
      get_call_def fun_upd_twist cong: eval_cong del: eval_del)

text \<open>
  A change of tea that has its update state in hand when a flush writes and confirms the pending
  insert: the clean-up leaves the state in the pool, and the change is pending afterwards.
\<close>

definition dearer :: product where
  "dearer = \<lparr>prod_id = 1, prod_name = ''tea'', prod_price = 4, prod_views = 0\<rparr>"

definition calm_schedule :: "(int, product) move list" where
  "calm_schedule = [StartCall 1 (OnChange dearer tea), StartFlush [1], TakeItem 0, DropItem 0, ConfirmAll 0, EndFlush 0,
     MoveCall 0, MoveCall 0, MoveCall 0]"

lemma calm_play:
  "\<exists>ns s. play shop_conf calm_schedule (shop1, [], []) = Some (ns, s, [], []) \<and>
     (\<forall>n \<in> set ns. tame shop_conf n) \<and> pending (pool s) 1 \<noteq> None \<and> set ns \<inter> {Gone [1]} \<noteq> {}"
  by (simp add: eval_simps play_eval shop_eval shop1_def calm_schedule_def dearer_def pending_def aligned_def
      cong: eval_cong del: eval_del)

text \<open>The shop's controller makes moves only; a \<open>flush_one\<close> writes the insert while the
  change is under way.\<close>

lemma shop_moves: "conf_moves shop_conf"
  by (simp add: conf_moves_def shop_conf_def manager_conf_def product_manager_def wbdc_write_back_moves)

lemma change_flush_one:
  "\<exists>ns s c n t ms u. play shop_conf [StartCall 1 (OnChange dearer tea)] (shop1, [], []) = Some (ns, s, [c], []) \<and>
     flush_one shop_conf 1 s = (Ok n, t) \<and>
     play shop_conf [MoveCall 0, MoveCall 0, MoveCall 0] (t, [c], []) = Some (ms, u, [], []) \<and>
     (\<forall>n \<in> set (ns @ ms). tame shop_conf n) \<and> pending (pool t) 1 = None \<and> pending (pool u) 1 \<noteq> None"
  by (simp add: eval_simps play_eval shop_eval shop1_def dearer_def pending_def aligned_def
      cong: eval_cong del: eval_del)

end
