(* ===== verification/Outcomes.thy ===== *)
theory Outcomes
  imports EntryLaws DCCommon
begin

text \<open>
  Whole calls in one case each: the delete of a cached record, a flush that an observer refuses,
  and an insert that is deleted before it was written.
\<close>

lemma dc_event_okD:
  assumes "dc_event_ok s k resp d t"
  shows "pool_quiet (pool t)" "moka t = moka s" "backend t = d" "error t = error s"
    and "pending (pool t) = (pending (pool s))(k := if resp_op resp = DcDrop then None else resp_update resp)"
proof -
  have e: "t = s\<lparr>monitor_task := spawn (monitor_task s), backend := d, pool := pool t\<rparr>"
    using assms by (simp add: dc_event_ok_def)
  show "moka t = moka s" "backend t = d" "error t = error s"
    using arg_cong[OF e, of moka] arg_cong[OF e, of backend] arg_cong[OF e, of error] by simp_all
qed (use assms in \<open>simp_all add: dc_event_ok_def\<close>)

section \<open>Deleting a cached record\<close>

lemma delete_cached:
  assumes mo: "moka_ok (mk C)" and er: "error s = None" and q: "pool_quiet (pool s)"
    and hit: "mk_lookup (mk C) (moka s) k = Some (Primary v)" and pk: "dc_primary_key_of (dc C) v = k"
    and del: "dc_on_delete (dc C) k (pending (pool s) k) (backend s) = (Ok resp, d)"
    and op: "resp_op resp = DcRevoke \<or> resp_op resp = DcDrop"
  shows "\<exists>x t. cache_delete C k s = (Ok x, t) \<and> (x = Some v \<or> x = None) \<and> backend t = d \<and> pool_quiet (pool t) \<and>
    pending (pool t) = (pending (pool s))(k := if resp_op resp = DcDrop then None else resp_update resp) \<and>
    mk_lookup (mk C) (moka t) \<subseteq>\<^sub>m (mk_lookup (mk C) (moka s)) |` (- insert k (set (dc_secondary_keys_of (dc C) v)))"
proof -
  define M where "M = mk C"
  define m1 where "m1 = fold (mk_invalidate M) (dc_secondary_keys_of (dc C) v) (moka s)"
  have m1: "mk_lookup M m1 \<subseteq>\<^sub>m (mk_lookup M (moka s)) |` (- set (dc_secondary_keys_of (dc C) v))"
    unfolding m1_def M_def by (rule lookup_invalidate_all[OF mo])
  define s1 where "s1 = s\<lparr>moka := m1\<rparr>"
  obtain t1 where t1: "on_delete C k (Some v) s1 = (Ok Remove, t1)" "dc_event_ok s1 k resp d t1"
    using on_delete_Ok[of s1 C k "Some v" resp d] q pk del op by (auto simp: s1_def op_of_dc_def)
  have mok: "moka t1 = m1" and t1f: "backend t1 = d" "pool_quiet (pool t1)"
    "pending (pool t1) = (pending (pool s))(k := if resp_op resp = DcDrop then None else resp_update resp)"
    using dc_event_okD[OF t1(2)] by (simp_all add: s1_def)
  obtain r m2 where ap: "mk_apply M k (Some (Primary v)) Remove m1 = (r, m2)" by fastforce
  have r: "r = MokaStillNone k \<or> r = MokaRemoved k (Primary v)"
  proof -
    have "x = Primary v" if "mk_lookup M m1 k = Some x" for x
    proof -
      have "((mk_lookup M (moka s)) |` (- set (dc_secondary_keys_of (dc C) v))) k = Some x"
        using m1 that by (auto simp: map_le_def dom_def)
      then show ?thesis using hit by (simp add: restrict_map_def M_def split: if_splits)
    qed
    then show ?thesis using moka_apply_Remove[OF mo, folded M_def, OF ap] by auto
  qed
  have "mk_lookup M m2 \<subseteq>\<^sub>m (mk_lookup M m1)(k := None)" using moka_apply_cases[OF mo, folded M_def, OF ap] by simp
  with m1 have look: "mk_lookup M m2 \<subseteq>\<^sub>m (mk_lookup M (moka s)) |` (- insert k (set (dc_secondary_keys_of (dc C) v)))"
    by (auto simp: map_le_def restrict_map_def dom_def split: if_splits) (metis option.distinct(1))+
  have "get_and_try_compute_with_primary C k (\<lambda>en. ret (if en \<noteq> None then Remove else Nop)) s =
      bnd (\<lambda>t. (Ok r, t)) primary_result (t1\<lparr>moka := m2\<rparr>)"
    using hit t1(1) ap
    by (simp add: get_and_try_compute_with_primary_def maybe_flush_one_def moka_get_def moka_and_try_compute_with_def
        current_entry_def into_value_def apply_user_op_def M_def m1_def s1_def mok)
  then have "\<exists>x. cache_delete C k s = (Ok x, t1\<lparr>moka := m2\<rparr>) \<and> (x = Some v \<or> x = None)"
    using r er hit_entry[OF er hit]
    by (auto simp: cache_delete_def and_try_compute_with_def primary_result_def from_primary_entry_def into_value_def
        entry_new_def bnd_def)
  with look t1f show ?thesis by (auto simp: M_def)
qed

section \<open>A flush that an observer refuses\<close>

lemma observer_veto:
  assumes "error s = None"
    and "event_on_flush C (flush_start (pool s) (hash_order C (keys_of_pool (pool s))) (backend s)) = (Fail e, c)"
  shows "flush C s = (Fail e, s\<lparr>pool := ctx_pool (iter_drop c), backend := ctx_backend c\<rparr>)"
  using assms
  by (simp add: flush_def flush_raw_def flush_many_raw_def flush_many_body_def with_ctx_def flush_start_def)

section \<open>An insert that is deleted before it was written\<close>

lemma insert_then_delete:
  fixes C :: "('k, 'v, 'am cache_updates, 'b sim_error, 'm, 'd) conf"
  assumes new: "dc_on_new (dc C) = (\<lambda>_ v. wbdbc_on_new T (am_from A v))"
    and del: "dc_on_delete (dc C) = (\<lambda>_ upd. wbdc_on_delete T upd)" and imm: "dcc_immutable T"
    and q: "pool_quiet (pool s)" and pk: "dc_primary_key_of (dc C) v = k"
  shows "\<exists>s1 s2. on_new C k v s = (Ok (Put (Primary v)), s1) \<and> pending (pool s1) k = Some (CuInsert (am_from A v)) \<and>
    on_delete C k (Some v) s1 = (Ok Remove, s2) \<and> pending (pool s2) = (pending (pool s))(k := None) \<and>
    backend s2 = backend s \<and> pool_quiet (pool s2)"
proof -
  obtain s1 where s1: "on_new C k v s = (Ok (Put (Primary v)), s1)"
    "dc_event_ok s k (wbdc_response DcInsert (Some (CuInsert (am_from A v)))) (backend s) s1"
    using on_new_Ok[OF q pk, of "wbdc_response DcInsert (Some (CuInsert (am_from A v)))" "backend s"]
    by (auto simp: new wbdbc_on_new_def imm wbdc_response_def op_of_dc_def)
  have p1: "pool_quiet (pool s1)" "pending (pool s1) = (pending (pool s))(k := Some (CuInsert (am_from A v)))"
    and b1: "backend s1 = backend s"
    using dc_event_okD[OF s1(2)] by (simp_all add: wbdc_response_def)
  obtain s2 where s2: "on_delete C k (Some v) s1 = (Ok Remove, s2)"
    "dc_event_ok s1 k (wbdc_response DcDrop (Some CuDelete)) (backend s1) s2"
    using on_delete_Ok[OF p1(1), of C k "Some v" "wbdc_response DcDrop (Some CuDelete)" "backend s1"] pk
    by (auto simp: del wbdc_on_delete_def imm wbdc_response_def op_of_dc_def p1(2))
  have "pool_quiet (pool s2)" "pending (pool s2) = (pending (pool s))(k := None)" "backend s2 = backend s"
    using dc_event_okD[OF s2(2)] by (simp_all add: wbdc_response_def p1(2) b1)
  with s1(1) s2(1) p1(2) show ?thesis by simp
qed

section \<open>Changing a cached record of a mutable table\<close>

lemma mutable_change_response:
  assumes "\<not> dcc_immutable T" "prev \<noteq> Some CuDelete"
  shows "\<exists>upd. wbdc_on_change A T v old prev d = (Ok \<lparr>resp_op = DcNop, resp_update = upd\<rparr>, d)"
  using assms
  by (auto simp: wbdc_on_change_def wbdc_response_def Let_def split: option.splits cache_updates.splits prod.splits)

lemma mutable_change_stale:
  fixes C :: "('k, 'v, 'am cache_updates, 'b sim_error, 'm, 'd) conf"
  assumes chg: "dc_on_change (dc C) = (\<lambda>_ v old prev. wbdc_on_change A T v old prev)" and mut: "\<not> dcc_immutable T"
    and mo: "moka_ok (mk C)" and q: "pool_quiet (pool s)" and nd: "pending (pool s) k \<noteq> Some CuDelete"
    and hit: "mk_lookup (mk C) (moka s) k = Some (Primary old)" and pk: "dc_primary_key_of (dc C) v = k"
  shows "\<exists>upd t. get_and_try_compute_with_primary C k (\<lambda>_. ret (Put v)) s = (Ok (Unchanged (entry_new k old)), t) \<and>
    wbdc_on_change A T v old (pending (pool s) k) (backend s) =
      (Ok \<lparr>resp_op = DcNop, resp_update = upd\<rparr> :: ('b sim_error, 'am cache_updates dc_response) res, backend s) \<and>
    pending (pool t) = (pending (pool s))(k := upd) \<and> mk_lookup (mk C) (moka t) \<subseteq>\<^sub>m mk_lookup (mk C) (moka s)"
proof -
  obtain upd where u: "wbdc_on_change A T v old (pending (pool s) k) (backend s) =
      (Ok \<lparr>resp_op = DcNop, resp_update = upd\<rparr> :: ('b sim_error, 'am cache_updates dc_response) res, backend s)"
    using mutable_change_response[OF mut nd, of A v old "backend s"] by blast
  obtain t where t: "on_change C k v old s = (Ok Nop, t)"
    "dc_event_ok s k \<lparr>resp_op = DcNop, resp_update = upd\<rparr> (backend s) t"
    using on_change_Ok[OF q pk, of old "\<lparr>resp_op = DcNop, resp_update = upd\<rparr>" "backend s"] u
    by (auto simp: chg op_of_dc_def)
  note D = dc_event_okD[OF t(2)]
  obtain r m where ap: "mk_apply (mk C) k (Some (Primary old)) Nop (moka t) = (r, m)" by fastforce
  have r: "r = MokaUnchanged k (Primary old)" using moka_apply_Nop[OF mo ap] by simp
  have "mk_lookup (mk C) m \<subseteq>\<^sub>m mk_lookup (mk C) (moka t)" using moka_apply_cases[OF mo ap] by simp
  moreover have "get_and_try_compute_with_primary C k (\<lambda>_. ret (Put v)) s = (Ok (Unchanged (entry_new k old)), t\<lparr>moka := m\<rparr>)"
    using hit t(1) ap r
    by (simp add: get_and_try_compute_with_primary_def maybe_flush_one_def moka_get_def moka_and_try_compute_with_def
        current_entry_def into_value_def apply_user_op_def primary_result_def from_primary_entry_def)
  ultimately show ?thesis using D u by (intro exI[of _ upd] exI[of _ "t\<lparr>moka := m\<rparr>"]) simp
qed

end
