(* ===== verification/Stores.thy ===== *)
theory Stores
  imports Caches Frames
begin

text \<open>
  Several tables in one database, and a database inside a larger state. An ORM over a part of a
  state is an ORM over the state (\<open>lift_orm\<close>); an ORM that works on its own table leaves what is
  read from elsewhere (\<open>orm_apart\<close>), and so do the managers over it: the locale \<open>store_framing\<close>,
  an instance of \<open>framing\<close> with the backend alone in view.
\<close>

section \<open>A part of a state\<close>

text \<open>A program on the part \<open>get\<close> of a state, which \<open>put\<close> stores back.\<close>

definition on_part :: "('s \<Rightarrow> 'd) \<Rightarrow> ('d \<Rightarrow> 's \<Rightarrow> 's) \<Rightarrow> ('d, 'e, 'a) prog \<Rightarrow> ('s, 'e, 'a) prog" where
  "on_part get put m = (\<lambda>s. case m (get s) of (r, d) \<Rightarrow> (r, put d s))"

definition then_map :: "('a \<Rightarrow> 'b) \<Rightarrow> ('s, 'e, 'a) prog \<Rightarrow> ('s, 'e, 'b) prog" where
  "then_map f m = bnd m (\<lambda>a. ret (f a))"

text \<open>The ORM of a part; its transactions are kept in a larger type.\<close>

definition lift_orm ::
  "('s \<Rightarrow> 'd) \<Rightarrow> ('d \<Rightarrow> 's \<Rightarrow> 's) \<Rightarrow> ('t \<Rightarrow> 'tt) \<Rightarrow> ('tt \<Rightarrow> 't) \<Rightarrow> ('d, 't, 'am, 'c, 'x, 'v, 'b) orm \<Rightarrow>
     ('s, 'tt, 'am, 'c, 'x, 'v, 'b) orm" where
  "lift_orm get put emb prj B = \<lparr>
     or_connection = on_part get put (or_connection B),
     or_begin = on_part get put (then_map emb (or_begin B)),
     or_insert_many = (\<lambda>ams. on_part prj (\<lambda>t _. emb t) (or_insert_many B ams)),
     or_update = (\<lambda>am. on_part prj (\<lambda>t _. emb t) (or_update B am)),
     or_delete_many = (\<lambda>c. on_part prj (\<lambda>t _. emb t) (or_delete_many B c)),
     or_commit = (\<lambda>t. on_part get put (or_commit B (prj t))),
     or_find_one = (\<lambda>c. on_part get put (or_find_one B c))\<rparr>"

lemma on_part_eq: "on_part get put m s = (r, s') \<longleftrightarrow> (\<exists>d. m (get s) = (r, d) \<and> s' = put d s)"
  by (auto simp: on_part_def split: prod.splits)

lemma then_map_eq: "then_map f m s = (r, s') \<longleftrightarrow> (\<exists>r'. m s = (r', s') \<and>
    r = (case r' of Ok a \<Rightarrow> Ok (f a) | Fail e \<Rightarrow> Fail e | Panic msg \<Rightarrow> Panic msg | Wait \<Rightarrow> Wait))"
  by (auto simp: then_map_def bnd_def split: prod.splits res.splits)

lemma answers_on_part [simp]: "answers m \<Longrightarrow> answers (on_part get put m)"
  unfolding answers_def on_part_def by (metis (mono_tags, lifting) prod.simps(2))

lemma answers_then_map [simp]: "answers m \<Longrightarrow> answers (then_map f m)"
  unfolding answers_def
proof (intro allI)
  fix s assume a: "\<forall>s. (\<exists>a s'. m s = (Ok a, s')) \<or> (\<exists>e s'. m s = (Fail e, s'))"
  show "(\<exists>a s'. then_map f m s = (Ok a, s')) \<or> (\<exists>e s'. then_map f m s = (Fail e, s'))"
    using a[rule_format, of s] by (auto simp: then_map_def)
qed

lemma keeps_on_part:
  "keeps R m \<Longrightarrow> (\<And>d s. get (put d s) = d) \<Longrightarrow> keeps (\<lambda>s. R (get s)) (on_part get put m)"
  by (simp add: keeps_def on_part_def split: prod.splits)

lemma keeps_on_part_other: "(\<And>d s. Q (put d s) = Q s) \<Longrightarrow> keeps Q (on_part get put m)"
  by (simp add: keeps_def on_part_def split: prod.splits)

lemma keeps_then_map: "keeps R m \<Longrightarrow> keeps R (then_map f m)"
  unfolding keeps_def by (auto simp: then_map_eq)

lemma orm_ok_lift:
  assumes orm: "orm_ok B A fld pk RD RT" and gp: "\<And>d s. get (put d s) = d" and pe: "\<And>t. prj (emb t) = t"
  shows "orm_ok (lift_orm get put emb prj B) A fld pk (\<lambda>s. RD (get s)) (\<lambda>t. RT (prj t))"
proof -
  note o = orm_okD[OF orm]
  show ?thesis
    unfolding orm_ok_def
  proof (intro conjI)
    show "orm_answers (lift_orm get put emb prj B)"
      using o(1) by (simp add: orm_answers_def lift_orm_def)
    show "orm_reads (lift_orm get put emb prj B) fld pk (\<lambda>s. RD (get s))"
      using o(2) gp unfolding orm_reads_def lift_orm_def
      by (simp add: keeps_on_part) (simp add: on_part_eq, metis)
    show "orm_transactions (lift_orm get put emb prj B) (\<lambda>s. RD (get s)) (\<lambda>t. RT (prj t))"
    proof -
      have "RD d' = RD d \<and> (\<forall>t. r = Ok t \<longrightarrow> RT (prj t) = RD d)" if tm: "then_map emb (or_begin B) d = (r, d')" for d r d'
      proof -
        obtain r1 where b: "or_begin B d = (r1, d')" using tm unfolding then_map_eq by blast
        note ob = orm_ok_begin[OF o(3) b]
        show ?thesis by (cases r1) (use tm b ob pe in \<open>auto simp: then_map_def\<close>)
      qed
      then show ?thesis
        using orm_ok_commit[OF o(3)] gp unfolding orm_transactions_def lift_orm_def
        by (fastforce simp: on_part_eq)
    qed
    have tx: "\<exists>t1. m (prj t) = (r, t1) \<and> prj t' = t1" if "on_part prj (\<lambda>t _. emb t) m t = (r, t')" for m t r t'
      using that pe by (auto simp: on_part_eq)
    show "orm_inserts (lift_orm get put emb prj B) A fld pk (\<lambda>t. RT (prj t))"
      unfolding orm_inserts_def lift_orm_def orm.simps using orm_ok_insert[OF o(4)] tx by blast
    show "orm_updates (lift_orm get put emb prj B) A fld pk (\<lambda>t. RT (prj t))"
      unfolding orm_updates_def lift_orm_def orm.simps using orm_ok_update[OF o(5)] tx by blast
    show "orm_deletes (lift_orm get put emb prj B) fld (\<lambda>t. RT (prj t))"
      unfolding orm_deletes_def lift_orm_def orm.simps using orm_ok_delete[OF o(6)] tx by blast
    show "orm_keyed pk (\<lambda>s. RD (get s))" "orm_keyed pk (\<lambda>t. RT (prj t))"
      using o(7,8) by (simp_all add: orm_keyed_def)
  qed
qed

section \<open>What other tables see\<close>

definition orm_apart :: "('d, 't, 'am, 'c, 'x, 'v, 'b) orm \<Rightarrow> ('d \<Rightarrow> 'q) \<Rightarrow> bool" where
  "orm_apart B Q \<longleftrightarrow> keeps Q (or_connection B) \<and> keeps Q (or_begin B) \<and> (\<forall>t. keeps Q (or_commit B t)) \<and>
     (\<forall>c. keeps Q (or_find_one B c))"

lemma orm_apart_part: "(\<And>d s. Q (put d s) = Q s) \<Longrightarrow> orm_apart (lift_orm get put emb prj B) Q"
  by (simp add: orm_apart_def lift_orm_def keeps_on_part_other)

lemma orm_apart_lift:
  "orm_apart B Q \<Longrightarrow> (\<And>d s. get (put d s) = d) \<Longrightarrow> orm_apart (lift_orm get put emb prj B) (\<lambda>s. Q (get s))"
  by (auto simp: orm_apart_def lift_orm_def intro: keeps_on_part keeps_then_map)

definition same :: "('d \<Rightarrow> 'q) \<Rightarrow> 'd \<Rightarrow> 'd \<Rightarrow> bool" where
  "same Q d d' \<longleftrightarrow> Q d' = Q d"

lemma framed_same: "framed (same Q) m \<longleftrightarrow> keeps Q m"
  by (simp add: framed_def keeps_def same_def)

section \<open>The backend of a cache within a relation\<close>

locale store_framing = frame_rel G for G :: "'d \<Rightarrow> 'd \<Rightarrow> bool" +
  fixes C :: "('k, 'v, 'u, 'e, 'm, 'd) conf"
  assumes store_dc_frames: "framed G (dc_get_for_key (dc C) k)" "framed G (dc_on_new (dc C) k v)"
      "framed G (dc_on_change (dc C) k v old prev)" "framed G (dc_on_delete (dc C) k prev)"
      "framed G (dc_on_access (dc C) k v prev)" "framed G (dc_get_primary_key_for (dc C) k)"
    and store_write_back: "framed (ctx_frame G) (dc_write_back (dc C))"
    and store_observers: "ob \<in> set (observers C) \<Longrightarrow> framed (ctx_frame G) (ob_on_flush ob)"
      "ob \<in> set (observers C) \<Longrightarrow> framed G (ob_on_flush_one ob k u)"
      "ob \<in> set (observers C) \<Longrightarrow> framed G (ob_on_monitor_error ob e)"
begin

sublocale framing "\<lambda>s t. G (backend s) (backend t)" G C
  by unfold_locales (auto intro: F_refl F_trans store_dc_frames store_write_back store_observers)

lemmas store_flush = framed_flush
lemmas store_flush_one = framed_flush_one
lemmas store_maybe_flush_one = framed_maybe_flush_one
lemmas store_current_entry = framed_primary_parts(1)
lemmas store_compute = framed_compute_primary
lemmas store_insert = framed_insert
lemmas store_get = framed_public(1)
lemmas store_basic = F.framed_bnd F.framed_basic F.framed_option framed_entry framed_selector

end

subsection \<open>The managers of the simulation\<close>

text \<open>A manager moves the backend through its ORM only.\<close>

lemma iter_next_keeps:
  "iter_next c = (r, c') \<Longrightarrow> ctx_backend c' = ctx_backend c \<and> pending (ctx_pool c') = pending (ctx_pool c)"
proof (induction "length (todo c)" arbitrary: c rule: less_induct)
  case less
  define n where "n = next_idx (ctx_iter c)"
  show ?case
  proof (cases "length (unprocessed (ctx_iter c)) \<le> n")
    case True
    with less.prems show ?thesis by (subst (asm) iter_next.simps) (auto simp: Let_def n_def)
  next
    case False
    then have td: "length (todo (iter_advance c)) < length (todo c)" by (simp add: todo_advance n_def)
    note eq = less.prems[unfolded iter_next.simps[of c], unfolded Let_def, folded n_def]
    have IH: ?thesis if "iter_next c1 = (r, c')" "todo c1 = todo (iter_advance c)" "ctx_backend c1 = ctx_backend c"
        "pending (ctx_pool c1) = pending (ctx_pool c)" for c1
      using less.hyps[OF _ that(1)] td that(2-4) by simp
    show ?thesis using eq False by (auto split: prod.splits option.splits if_splits dest: IH)
  qed
qed

lemma item_drop_keeps [simp]:
  "ctx_backend (item_drop it c) = ctx_backend c" "pending (ctx_pool (item_drop it c)) = pending (ctx_pool c)"
  by (simp_all add: item_drop_def)

lemma items_drop_backend [simp]: "ctx_backend (items_drop its c) = ctx_backend c"
  unfolding items_drop_def by (induction its arbitrary: c) simp_all

lemma wb_step_backend:
  assumes "wb_step T B st c = (r, c')"
  shows "ctx_backend c' = ctx_backend c"
proof -
  obtain ins dels t where st: "st = (ins, dels, t)" by (cases st)
  obtain item c1 where nx: "iter_next c = (item, c1)" by fastforce
  have "ctx_backend c' = ctx_backend c1"
    using assms nx
    by (cases item) (auto simp: wb_step_def st Let_def bnd_def on_err_def item_drop_def
        split: prod.splits res.splits cache_updates.splits if_splits
        dest!: send_inserts_Ok send_deletes_Ok send_inserts_bad send_deletes_bad item_update_state on_tx_state)
  with iter_next_keeps[OF nx] show ?thesis by simp
qed

lemma wb_loop_backend: "wb_loop T B st c = (r, c') \<Longrightarrow> ctx_backend c' = ctx_backend c"
proof (induction "length (todo c)" arbitrary: st c rule: less_induct)
  case less
  obtain r1 c1 where run: "wb_step T B st c = (r1, c1)" by fastforce
  note b = wb_step_backend[OF run] and eq = less.prems[unfolded wb_loop.simps[of T B st c] run]
  show ?case
  proof (cases "\<exists>st'. r1 = Ok (Inr st')")
    case True
    then obtain st' where r1: "r1 = Ok (Inr st')" by blast
    then have "wb_loop T B st' c1 = (r, c')" using eq by simp
    from less.hyps[OF wb_step_todo[OF run[unfolded r1]] this] b show ?thesis by simp
  next
    case False
    then show ?thesis using eq b by (auto split: res.splits sum.splits)
  qed
qed

context frame_rel
begin

lemma framed_on_db [framed_intros]: "framed F m \<Longrightarrow> framed F (on_db m)"
  by (rule framedI) (auto simp: on_db_def dest: framedD split: prod.splits res.splits)

lemma framed_ctx_db [framed_intros]: "framed F m \<Longrightarrow> framed (ctx_frame F) (ctx_db m)"
  using framed_on_db[of m] by (auto intro!: framedI simp: ctx_db_def ctx_frame_def dest: framedD split: prod.splits)

lemma framed_find_one_by [framed_intros]:
  "framed F (or_connection B) \<Longrightarrow> (\<And>c. framed F (or_find_one B c)) \<Longrightarrow> framed F (find_one_by B col x)"
  unfolding find_one_by_def by (intro framed_intros)

lemma framed_table_events [framed_intros]:
  "framed F (wbdbc_on_new T am)" "framed F (wbdc_on_delete T upd)" "framed F (wbdc_on_change A T v old prev)"
  unfolding wbdbc_on_new_def wbdc_on_delete_def wbdc_on_change_def Let_def
  by (auto intro!: framed_intros split: option.splits cache_updates.splits prod.splits)

lemma framed_write_back [framed_intros]:
  fixes B :: "('s, 't, 'am, 'c, 'x, 'v, 'b) orm"
  assumes "framed F (or_connection B)" "framed F (or_begin B)" "\<And>t. framed F (or_commit B t)"
  shows "framed (ctx_frame F) (wbdc_write_back T B :: (('k, 'am cache_updates, 's) flush_ctx, 'b sim_error, unit) prog)"
proof -
  have rel: "frame_rel (ctx_frame F :: ('k, 'am cache_updates, 's) flush_ctx \<Rightarrow> _)"
    by unfold_locales (auto simp: ctx_frame_def intro: F_refl F_trans)
  have loop: "framed (ctx_frame F) (wb_loop T B st :: (('k, 'am cache_updates, 's) flush_ctx, 'b sim_error, 't) prog)" for st
    by (rule framedI) (metis wb_loop_backend prod.collapse ctx_frame_def F_refl)
  have confirm: "framed (ctx_frame F) (modify confirm_all :: (('k, 'am cache_updates, 's) flush_ctx, 'b sim_error, unit) prog)"
    by (rule framedI) (simp add: ctx_frame_def confirm_all_def F_refl)
  show ?thesis
    unfolding wbdc_write_back_def
    by (intro frame_rel.framed_bnd[OF rel] framed_ctx_db loop confirm assms)
qed

end

text \<open>
  Each cache of the simulation keeps its backend in the relation that its ORM keeps.
\<close>

definition orm_framed :: "('d \<Rightarrow> 'd \<Rightarrow> bool) \<Rightarrow> ('d, 't, 'am, 'c, 'x, 'v, 'b) orm \<Rightarrow> bool" where
  "orm_framed G B \<longleftrightarrow> framed G (or_connection B) \<and> framed G (or_begin B) \<and> (\<forall>t. framed G (or_commit B t)) \<and>
     (\<forall>c. framed G (or_find_one B c))"

lemma orm_framed_apart: "orm_framed (same Q) B \<longleftrightarrow> orm_apart B Q"
  by (simp add: orm_framed_def orm_apart_def framed_same)

lemma frame_rel_same: "frame_rel (same Q)"
  by unfold_locales (simp_all add: same_def)

lemmas manager_defs = manager_conf_def customer_manager_def product_manager_def order_manager_def session_manager_def
  inventory_manager_def customer_get_for_key_def product_get_for_key_def order_get_for_key_def
  session_get_for_key_def inventory_get_for_key_def customer_get_primary_key_for_def
  default_get_primary_key_for_def default_on_access_def

context frame_rel
begin

lemma framed_cust_by [framed_intros]:
  "(\<And>i. framed F (f i)) \<Longrightarrow> (\<And>e. framed F (g e)) \<Longrightarrow> framed F (case k of ById i \<Rightarrow> f i | ByEmail e \<Rightarrow> g e)"
  by (cases k) simp_all

lemma manager_framing:
  "orm_framed F Bc \<Longrightarrow> store_framing F (manager_conf (customer_manager Bc Ac) Mc n i)"
  "orm_framed F Bp \<Longrightarrow> store_framing F (manager_conf (product_manager Bp Ap) Mp n i)"
  "orm_framed F Bo \<Longrightarrow> store_framing F (manager_conf (order_manager Bo Ao) Mo n i)"
  "orm_framed F Bs \<Longrightarrow> store_framing F (manager_conf (session_manager Bs As) Ms n i)"
  "orm_framed F Bi \<Longrightarrow> store_framing F (manager_conf (inventory_manager Bi Ai) Mi n i)"
  by (unfold_locales, auto simp: orm_framed_def manager_defs intro!: framed_intros)+

end

lemma store_framing_observers:
  assumes "store_framing G C"
    and "\<And>ob. ob \<in> set obs \<Longrightarrow> framed (ctx_frame G) (ob_on_flush ob)"
      "\<And>ob k u. ob \<in> set obs \<Longrightarrow> framed G (ob_on_flush_one ob k u)"
      "\<And>ob e. ob \<in> set obs \<Longrightarrow> framed G (ob_on_monitor_error ob e)"
  shows "store_framing G (C\<lparr>observers := obs\<rparr>)"
  using assms by (simp add: store_framing_def store_framing_axioms_def)

end
