(* ===== verification/WriteBackRuns.thy ===== *)
theory WriteBackRuns
  imports Tables Monitor Iteration
begin

text \<open>
  How \<open>wbdc_write_back\<close> runs: it ends with \<open>Ok\<close> or with an error of the database, and what it
  sends to the database are batches of one to \<open>batch_limit\<close> records.
\<close>

section \<open>The result of a write-back\<close>

definition answered :: "('b sim_error, 'a) res \<Rightarrow> bool" where
  "answered r \<longleftrightarrow> (\<exists>a. r = Ok a) \<or> (\<exists>e. r = Fail (DbError e))"

lemma answered_simps [simp]:
  "answered (Ok a)" "answered (Fail (DbError e))" "\<not> answered (Panic msg)" "\<not> answered Wait"
  by (simp_all add: answered_def)

lemma answered_bnd:
  assumes "bnd m f c = (r, c')" "\<And>r1 c1. m c = (r1, c1) \<Longrightarrow> answered r1"
    and "\<And>a c1. m c = (Ok a, c1) \<Longrightarrow> f a c1 = (r, c') \<Longrightarrow> answered r"
  shows "answered r"
proof -
  obtain r1 c1 where m: "m c = (r1, c1)" by fastforce
  with assms(2)[OF m] show ?thesis using assms(1,3) by (cases r1) (auto simp: answered_def)
qed

lemma answered_on_err:
  "on_err m g c = (r, c') \<Longrightarrow> (\<And>r1 c1. m c = (r1, c1) \<Longrightarrow> answered r1) \<Longrightarrow> answered r"
  by (cases "m c") (auto simp: on_err_def)

lemma answers_res: "answers m \<Longrightarrow> m s = (r, s') \<Longrightarrow> (\<exists>a. r = Ok a) \<or> (\<exists>e. r = Fail e)"
  unfolding answers_def by (drule spec[of _ s]) auto

lemma answered_ctx_db: "answers m \<Longrightarrow> ctx_db m c = (r, c') \<Longrightarrow> answered r"
  by (cases "m (ctx_backend c)", frule (1) answers_res) (auto simp: ctx_db_def on_db_def)

lemma answered_on_tx: "answers m \<Longrightarrow> on_tx m t c = (r, c') \<Longrightarrow> answered r"
  by (cases "m t", frule (1) answers_res) (auto simp: on_tx_def)

text \<open>
  The batches: inserts hold insert updates, deletes hold delete updates, neither is longer than
  the limit.
\<close>

definition batches_ok ::
  "('k \<times> nat) list \<Rightarrow> ('k \<times> nat) list \<Rightarrow> ('k, 'am cache_updates, 'd) flush_ctx \<Rightarrow> bool" where
  "batches_ok ins dels c \<longleftrightarrow> guards_ok (ctx_pool c) (todo c) \<and>
     (\<forall>it \<in> set ins. \<exists>am. data (states (ctx_pool c) (snd it)) = Some (CuInsert am)) \<and>
     (\<forall>it \<in> set dels. data (states (ctx_pool c) (snd it)) = Some CuDelete) \<and>
     length ins \<le> batch_limit \<and> length dels \<le> batch_limit"

lemma insert_am_Ok [simp]:
  "data (states (ctx_pool c) (snd it)) = Some (CuInsert am) \<Longrightarrow> insert_am it c = (Ok am, c)"
  by (simp add: insert_am_def item_update_def)

lemma delete_key_Ok [simp]:
  "data (states (ctx_pool c) (snd it)) = Some CuDelete \<Longrightarrow> delete_key it c = (Ok (item_key it), c)"
  by (simp add: delete_key_def item_update_def)

lemma collect_inserts_answered:
  "\<forall>it \<in> set its. \<exists>am. data (states (ctx_pool c) (snd it)) = Some (CuInsert am) \<Longrightarrow>
     collect insert_am its c = (r, c') \<Longrightarrow> answered r"
proof (induction its arbitrary: r c')
  case (Cons it its)
  then show ?case by (auto elim!: answered_bnd)
qed simp

lemma collect_deletes_answered:
  "\<forall>it \<in> set its. data (states (ctx_pool c) (snd it)) = Some CuDelete \<Longrightarrow>
     collect delete_key its c = (r, c') \<Longrightarrow> answered r"
proof (induction its arbitrary: r c')
  case (Cons it its)
  then show ?case by (auto elim!: answered_bnd)
qed simp

lemma items_drop_pool:
  "\<forall>it \<in> set its. data (states (ctx_pool c) (snd it)) \<noteq> None \<Longrightarrow> ctx_pool (items_drop its c) = ctx_pool c"
  unfolding items_drop_def by (induction its arbitrary: c) (simp_all add: item_drop_def)

lemma batches_ok_next:
  assumes ok: "batches_ok ins dels c" and nx: "iter_next c = (item, c1)"
  shows "batches_ok ins dels c1 \<and> (\<forall>it. item = Some it \<longrightarrow> data (states (ctx_pool c1) (snd it)) \<noteq> None)"
proof -
  have g: "guards_ok (ctx_pool c) (todo c)" using ok by (simp add: batches_ok_def)
  note spec = iter_next_spec[OF nx g]
  have d: "data (states (ctx_pool c1) i) = data (states (ctx_pool c) i)" for i
    using spec by (cases item) auto
  show ?thesis using ok spec d by (auto simp: batches_ok_def split: option.splits)
qed

lemma send_inserts_batches:
  fixes B :: "('d, 't, 'am, 'c, 'x, 'v, 'e) orm" and r :: "('e sim_error, 't \<times> ('k \<times> nat) list) res"
  assumes orm: "orm_answers B" and ok: "batches_ok ins dels c" and run: "send_inserts B l ins t c = (r, c')"
  shows "answered r \<and> (\<forall>t' ins'. r = Ok (t', ins') \<longrightarrow> batches_ok ins' dels c' \<and> length ins' < batch_limit \<and>
    ctx_pool c' = ctx_pool c)"
proof -
  have a: "answers (or_insert_many B ams)" for ams using orm by (simp add: orm_answers_def)
  have ne: "\<forall>it \<in> set ins. data (states (ctx_pool c) (snd it)) \<noteq> None" using ok by (auto simp: batches_ok_def)
  have col: "collect insert_am ins c = (r1, c1) \<Longrightarrow> answered r1" for r1 :: "('e sim_error, 'am list) res" and c1
    using collect_inserts_answered[of ins c] ok by (auto simp: batches_ok_def)
  have "answered r"
    using run col answered_on_tx[OF a] unfolding send_inserts_def
    by (auto split: if_splits elim!: answered_bnd)
  moreover have "batches_ok ins' dels c' \<and> length ins' < batch_limit \<and> ctx_pool c' = ctx_pool c"
    if "r = Ok (t', ins')" for t' ins'
    using send_inserts_Ok[of B l ins t c t' ins' c'] run that ok items_drop_pool[OF ne]
    by (auto simp: batches_ok_def batch_limit_def split: if_splits)
  ultimately show ?thesis by blast
qed

lemma send_deletes_batches:
  fixes B :: "('d, 't, 'am, 'c, 'x, 'v, 'e) orm" and r :: "('e sim_error, 't \<times> ('k \<times> nat) list) res"
  assumes orm: "orm_answers B" and ok: "batches_ok ins dels c" and run: "send_deletes T B l dels t c = (r, c')"
  shows "answered r \<and> (\<forall>t' dels'. r = Ok (t', dels') \<longrightarrow> batches_ok ins dels' c' \<and> length dels' < batch_limit \<and>
    ctx_pool c' = ctx_pool c)"
proof -
  have a: "answers (or_delete_many B cd)" for cd using orm by (simp add: orm_answers_def)
  have ne: "\<forall>it \<in> set dels. data (states (ctx_pool c) (snd it)) \<noteq> None" using ok by (auto simp: batches_ok_def)
  have col: "collect delete_key dels c = (r1, c1) \<Longrightarrow> answered r1" for r1 :: "('e sim_error, 'k list) res" and c1
    using collect_deletes_answered[of dels c] ok by (auto simp: batches_ok_def)
  have "answered r"
    using run col answered_on_tx[OF a] unfolding send_deletes_def
    by (auto split: if_splits elim!: answered_bnd)
  moreover have "batches_ok ins dels' c' \<and> length dels' < batch_limit \<and> ctx_pool c' = ctx_pool c"
    if "r = Ok (t', dels')" for t' dels'
    using send_deletes_Ok[of T B l dels t c t' dels' c'] run that ok items_drop_pool[OF ne]
    by (auto simp: batches_ok_def batch_limit_def split: if_splits)
  ultimately show ?thesis by blast
qed

definition step_answered ::
  "('b sim_error, 't + ('k, 't) wb_state) res \<Rightarrow> ('k, 'am cache_updates, 'd) flush_ctx \<Rightarrow> bool" where
  "step_answered r c \<longleftrightarrow> answered r \<and> (\<forall>ins dels t. r = Ok (Inr (ins, dels, t)) \<longrightarrow> batches_ok ins dels c)"

lemma step_answered_on_err:
  assumes "bnd (on_err m g) f c = (r, c')" "\<And>r1 c1. m c = (r1, c1) \<Longrightarrow> answered r1"
    and "\<And>a c1. m c = (Ok a, c1) \<Longrightarrow> f a c1 = (r, c') \<Longrightarrow> step_answered r c'"
  shows "step_answered r c'"
proof -
  obtain r1 c1 where m: "m c = (r1, c1)" by fastforce
  with assms(2)[OF m] show ?thesis using assms(1,3) by (cases r1) (auto simp: answered_def step_answered_def)
qed

lemma wb_step_answered:
  assumes orm: "orm_answers B" and ok: "batches_ok ins dels c" and run: "wb_step T B (ins, dels, t) c = (r, c')"
  shows "step_answered r c'"
proof -
  obtain item c1 where nx: "iter_next c = (item, c1)" by fastforce
  have ok1: "batches_ok ins dels c1" and hand: "\<And>it. item = Some it \<Longrightarrow> data (states (ctx_pool c1) (snd it)) \<noteq> None"
    using batches_ok_next[OF ok nx] by simp_all
  have up: "answers (or_update B am)" for am using orm by (simp add: orm_answers_def)
  show ?thesis
    using run[unfolded wb_step_def, simplified, unfolded nx, simplified, unfolded Let_def]
  proof (rule step_answered_on_err, goal_cases)
    case (1 r1 c2)
    then show ?case using send_inserts_batches[OF orm ok1] by blast
  next
    case (2 a c2)
    obtain t1 ins1 where a: "a = (t1, ins1)" by fastforce
    have ok2: "batches_ok ins1 dels c2" "length ins1 < batch_limit" "ctx_pool c2 = ctx_pool c1"
      using send_inserts_batches[OF orm ok1 2(1)] a by simp_all
    show ?case
      using 2(2)[unfolded a, simplified]
    proof (rule step_answered_on_err, goal_cases)
      case (1 r1 c3)
      then show ?case using send_deletes_batches[OF orm ok2(1)] by blast
    next
      case (2 a c3)
      obtain t2 dels1 where a: "a = (t2, dels1)" by fastforce
      have ok3: "batches_ok ins1 dels1 c3" "length dels1 < batch_limit" "ctx_pool c3 = ctx_pool c1"
        using send_deletes_batches[OF orm ok2(1) 2(1)] a ok2(3) by simp_all
      show ?case
      proof (cases item)
        case None
        with 2(2) show ?thesis by (auto simp: a step_answered_def)
      next
        case (Some it)
        obtain u where u: "data (states (ctx_pool c3) (snd it)) = Some u" using hand[OF Some] ok3(3) by auto
        show ?thesis
          using 2(2)[unfolded a Some, simplified]
        proof (rule step_answered_on_err, goal_cases)
          case (1 r1 c4)
          then show ?case using u by (auto simp: item_update_def)
        next
          case (2 upd c4)
          then have c4: "c4 = c3" "upd = u" using u by (auto simp: item_update_def)
          show ?case
          proof (cases upd)
            case (CuUpdate am)
            show ?thesis
              using 2(2)[unfolded CuUpdate, simplified]
            proof (rule step_answered_on_err, goal_cases)
              case (1 r1 c5)
              then show ?case by (rule answered_on_tx[OF up])
            next
              case (2 t3 c5)
              have "ctx_pool (item_drop it c3) = ctx_pool c3" using u by (simp add: item_drop_def)
              then show ?case using 2 c4 ok3 by (auto simp: step_answered_def batches_ok_def dest!: on_tx_state)
            qed
          qed (use 2(2) c4 u ok3 ok2(2) in \<open>auto simp: step_answered_def batches_ok_def\<close>)
        qed
      qed
    qed
  qed
qed

lemma wb_loop_answered:
  assumes "orm_answers B" "batches_ok ins dels c" "wb_loop T B (ins, dels, t) c = (r, c')"
  shows "answered r"
  using assms(2,3)
proof (induction "length (todo c)" arbitrary: ins dels t c rule: less_induct)
  case less
  obtain r1 c1 where run: "wb_step T B (ins, dels, t) c = (r1, c1)" by fastforce
  note st = wb_step_answered[OF assms(1) less.prems(1) run]
  note eq = less.prems(2)[unfolded wb_loop.simps[of T B "(ins, dels, t)" c] run]
  show ?case
  proof (cases "\<exists>st'. r1 = Ok (Inr st')")
    case True
    then obtain ins' dels' t' where r1: "r1 = Ok (Inr (ins', dels', t'))" by (metis prod.collapse)
    have lt: "length (todo c1) < length (todo c)" using wb_step_todo run r1 by blast
    show ?thesis using less.hyps[OF lt, of ins' dels' t'] st eq r1 by (simp add: step_answered_def)
  next
    case False
    then show ?thesis using st eq by (cases r1; cases "\<exists>t. r1 = Ok (Inl t)") (auto simp: step_answered_def answered_def split: sum.splits)
  qed
qed

lemma wbdc_write_back_answered:
  assumes orm: "orm_answers B" and start: "wb_start p0 c" and run: "wbdc_write_back T B c = (r, c')"
  shows "answered r"
proof -
  have "batches_ok [] [] c" using start by (simp add: batches_ok_def wb_start_def)
  then have ok: "batches_ok [] [] (c\<lparr>ctx_backend := d\<rparr>)" for d by (simp add: batches_ok_def todo_def)
  have a: "answers (or_connection B)" "answers (or_begin B)" "answers (or_commit B t)" for t
    using orm by (simp_all add: orm_answers_def)
  show ?thesis
    using run unfolding wbdc_write_back_def
  proof (rule answered_bnd, goal_cases)
    case (2 u c1)
    obtain d1 where c1: "c1 = c\<lparr>ctx_backend := d1\<rparr>" using 2(1) by (auto simp: ctx_db_def split: prod.splits)
    show ?case
      using 2(2)
    proof (rule answered_bnd, goal_cases)
      case (2 t c2)
      obtain d2 where c2: "c2 = c\<lparr>ctx_backend := d2\<rparr>" using 2(1) c1 by (auto simp: ctx_db_def split: prod.splits)
      show ?case
        using 2(2)
      proof (rule answered_bnd, goal_cases)
        case (2 t' c3)
        then show ?case by (auto elim!: answered_bnd intro: answered_ctx_db[OF a(3)])
      qed (use wb_loop_answered[OF orm ok] c2 in auto)
    qed (auto intro: answered_ctx_db[OF a(2)])
  qed (auto intro: answered_ctx_db[OF a(1)])
qed

section \<open>What is sent to the database\<close>

text \<open>
  Two ORMs that differ at most in what they make of batches that are empty or longer than the
  limit give the same write-back.
\<close>

definition same_batches ::
  "('k, 'c, 'x) dc_common \<Rightarrow> ('d, 't, 'am, 'c, 'x, 'v, 'b) orm \<Rightarrow> ('d, 't, 'am, 'c, 'x, 'v, 'b) orm \<Rightarrow> bool" where
  "same_batches T B B' \<longleftrightarrow> or_connection B' = or_connection B \<and> or_begin B' = or_begin B \<and>
     or_update B' = or_update B \<and> or_commit B' = or_commit B \<and>
     (\<forall>ams. 0 < length ams \<and> length ams \<le> batch_limit \<longrightarrow> or_insert_many B' ams = or_insert_many B ams) \<and>
     (\<forall>ks. 0 < length ks \<and> length ks \<le> batch_limit \<longrightarrow>
        or_delete_many B' (dcc_delete_many_condition T ks) = or_delete_many B (dcc_delete_many_condition T ks))"

lemma bnd_cong_Ok: "(\<And>a s'. m s = (Ok a, s') \<Longrightarrow> f a s' = g a s') \<Longrightarrow> bnd m f s = bnd m g s"
  by (auto simp: bnd_def split: prod.splits res.splits)

lemma collect_length: "collect f xs c = (Ok ys, c') \<Longrightarrow> length ys = length xs"
  by (induction xs arbitrary: c ys) auto

lemma same_batchesD:
  assumes "same_batches T B B'" "n \<le> batch_limit" "0 < n"
  shows "length ams = n \<Longrightarrow> or_insert_many B' ams = or_insert_many B ams"
    and "length ks = n \<Longrightarrow> or_delete_many B' (dcc_delete_many_condition T ks) = or_delete_many B (dcc_delete_many_condition T ks)"
  using assms unfolding same_batches_def by blast+

lemma send_inserts_same:
  assumes "same_batches T B B'" "length ins \<le> batch_limit"
  shows "send_inserts B' l ins t c = send_inserts B l ins t c"
proof (cases "(l \<and> ins \<noteq> []) \<or> length ins \<ge> batch_limit")
  case True
  then have n: "0 < length ins" by (auto simp: batch_limit_def)
  show ?thesis unfolding send_inserts_def if_P[OF True]
    by (rule bnd_cong_Ok) (simp only: same_batchesD(1)[OF assms n collect_length])
next
  case False
  show ?thesis unfolding send_inserts_def if_not_P[OF False] by (rule refl)
qed

lemma send_deletes_same:
  assumes "same_batches T B B'" "length dels \<le> batch_limit"
  shows "send_deletes T B' l dels t c = send_deletes T B l dels t c"
proof (cases "(l \<and> dels \<noteq> []) \<or> length dels \<ge> batch_limit")
  case True
  then have n: "0 < length dels" by (auto simp: batch_limit_def)
  show ?thesis unfolding send_deletes_def if_P[OF True]
    by (rule bnd_cong_Ok) (simp only: same_batchesD(2)[OF assms n collect_length])
next
  case False
  show ?thesis unfolding send_deletes_def if_not_P[OF False] by (rule refl)
qed

lemma bnd_on_err_same:
  assumes "m s = m' s" "\<And>a s'. m s = (Ok a, s') \<Longrightarrow> f a s' = f' a s'"
  shows "bnd (on_err m g) f s = bnd (on_err m' g) f' s"
proof -
  obtain r s' where m: "m' s = (r, s')" by fastforce
  then have "m s = (r, s')" using assms(1) by simp
  with m assms(2) show ?thesis by (cases r) (simp_all add: bnd_def on_err_def)
qed

lemma wb_step_same_batches:
  assumes sb: "same_batches T B B'" and ok: "length ins \<le> batch_limit" "length dels \<le> batch_limit"
  shows "wb_step T B' (ins, dels, t) c = wb_step T B (ins, dels, t) c"
proof -
  obtain item c1 where nx: "iter_next c = (item, c1)" by fastforce
  have up: "or_update B' = or_update B" using sb by (simp add: same_batches_def)
  show ?thesis
    unfolding wb_step_def prod.case nx Let_def up
    by (rule bnd_on_err_same[OF send_inserts_same[OF sb ok(1)]], clarsimp,
        rule bnd_on_err_same[OF send_deletes_same[OF sb ok(2)]], clarsimp)
qed

lemma wb_loop_same_batches:
  assumes "orm_answers B" "same_batches T B B'" "batches_ok ins dels c"
  shows "wb_loop T B' (ins, dels, t) c = wb_loop T B (ins, dels, t) c"
  using assms(3)
proof (induction "length (todo c)" arbitrary: ins dels t c rule: less_induct)
  case less
  have st: "wb_step T B' (ins, dels, t) c = wb_step T B (ins, dels, t) c"
    by (rule wb_step_same_batches[OF assms(2)]) (use less.prems in \<open>simp_all add: batches_ok_def\<close>)
  obtain r c1 where run: "wb_step T B (ins, dels, t) c = (r, c1)" by fastforce
  have "wb_loop T B' st' c1 = wb_loop T B st' c1" if r: "r = Ok (Inr st')" for st'
  proof -
    obtain ins' dels' t' where st': "st' = (ins', dels', t')" by (metis prod.collapse)
    have lt: "length (todo c1) < length (todo c)" using wb_step_todo run r by blast
    show ?thesis using less.hyps[OF lt] wb_step_answered[OF assms(1) less.prems run] r st' by (simp add: step_answered_def)
  qed
  then show ?case
    unfolding wb_loop.simps[of T _ "(ins, dels, t)" c] st run by (auto split: res.splits sum.splits)
qed

lemma wbdc_write_back_same_batches:
  assumes orm: "orm_answers B" and sb: "same_batches T B B'" and start: "wb_start p0 c"
  shows "wbdc_write_back T B' c = wbdc_write_back T B c"
proof -
  have "batches_ok [] [] c" using start by (simp add: batches_ok_def wb_start_def)
  then have ok: "batches_ok [] [] (c\<lparr>ctx_backend := d\<rparr>)" for d by (simp add: batches_ok_def todo_def)
  have eq: "or_connection B' = or_connection B" "or_begin B' = or_begin B" "or_commit B' = or_commit B"
    using sb by (simp_all add: same_batches_def)
  show ?thesis
    unfolding wbdc_write_back_def eq
  proof (rule bnd_cong_Ok, rule bnd_cong_Ok)
    fix a1 c1 t c2
    assume "ctx_db (or_connection B) c = (Ok a1, c1)" "ctx_db (or_begin B) c1 = (Ok t, c2)"
    then obtain d where c2: "c2 = c\<lparr>ctx_backend := d\<rparr>" by (auto simp: ctx_db_def split: prod.splits)
    show "bnd (wb_loop T B' ([], [], t)) (\<lambda>transaction. bnd (ctx_db (or_commit B transaction)) (\<lambda>_. modify confirm_all)) c2 =
        bnd (wb_loop T B ([], [], t)) (\<lambda>transaction. bnd (ctx_db (or_commit B transaction)) (\<lambda>_. modify confirm_all)) c2"
      using wb_loop_same_batches[OF orm sb ok, of t d] by (simp add: c2 bnd_def)
  qed
qed

section \<open>A whole write-back\<close>

context table_controller
begin

lemma write_back_from_start:
  assumes q: "pool_quiet p" and ks: "distinct ks"
    and view: "\<And>k. update_view A fld pk prim k (pending p k) (RD d k) (m k)"
    and run: "wbdc_write_back T B (flush_start p ks d) = (r, c)"
  shows "if r = Ok () then RD (ctx_backend c) = (\<lambda>k. if k \<in> set ks then m k else RD d k) \<and>
      pending (ctx_pool c) = pending p |` (- set ks)
    else RD (ctx_backend c) = RD d \<and> pending (ctx_pool c) = pending p"
proof -
  have pq: "pool_own p" "pool_idle p" using q by (simp_all add: pool_quiet_def)
  have start: "wb_start p (flush_start p ks d)"
    using wb_start_keys[of "flush_start p ks d" ks] by (simp add: iter_keys_def)
  have st: "pool_stands p (RD (ctx_backend (flush_start p ks d))) m"
    using pending_pool_stands[of m p d] view by (simp add: view_holds_def)
  have keys: "fst ` set (items_of (flush_start p ks d)) = {k \<in> set ks. pending p k \<noteq> None}"
    by (simp add: items_of_start[OF pq ks] image_image)
  have same: "m k = RD d k" if "pending p k = None" for k using view[of k] that by (simp add: update_view_def)
  show ?thesis
    using wbdc_write_back_spec[OF start pq(1) st run] write_back_pending[OF start pq(1) st run]
    by (auto simp: keys same restrict_map_def fun_eq_iff)
qed

end

section \<open>Flushes and rounds return\<close>

lemma flush_answered:
  fixes C :: "('k, 'v, 'am cache_updates, 'b sim_error, 'm, 'd) conf"
  assumes wb: "dc_write_back (dc C) = wbdc_write_back T B" and obs: "observers C = []" and orm: "orm_answers B"
    and q: "pool_quiet (pool s)" and er: "error s = None" and run: "flush C s = (r, t)"
  shows "answered r \<and> (\<forall>n. r = Ok n \<longrightarrow> n = 0)"
proof -
  define ks where "ks = hash_order C (keys_of_pool (pool s))"
  define c0 where "c0 = flush_start (pool s) ks (backend s)"
  have start: "wb_start (pool s) c0"
    using wb_start_keys[of c0 ks] by (simp add: c0_def iter_keys_def)
  obtain r1 c1 where w: "wbdc_write_back T B c0 = (r1, c1)" by fastforce
  have a1: "answered r1" by (rule wbdc_write_back_answered[OF orm start w])
  have body: "flush_many_body C c0 = bnd (wbdc_write_back T B) (\<lambda>_. purify_updates) c0"
    by (simp add: flush_many_body_def event_on_flush_def obs wb c0_def)
  obtain r2 c2 where p2: "purify_updates c1 = (r2 :: ('b sim_error, nat) res, c2)" by fastforce
  have pu: "r2 = Ok 0" if "r1 = Ok ()"
  proof -
    have "flush_inv (pool s) [] c1"
      using ctx_safeD[OF wbdc_write_back_safe _ w, of "pool s"] that by (simp add: c0_def)
    then show ?thesis using purify_updates_spec[OF _ _ _ p2, of "pool s"] q by (simp add: pool_quiet_def)
  qed
  have fm: "flush_many_raw C ks s = (r, t)" using run er by (simp add: flush_def flush_raw_def ks_def)
  show ?thesis
  proof (cases "r1 = Ok ()")
    case True
    then have "flush_many_body C c0 = (Ok 0, c2)" using pu body w p2 by simp
    then show ?thesis using fm by (auto simp: flush_many_raw_def with_ctx_def c0_def flush_start_def)
  next
    case False
    then obtain e where e: "r1 = Fail (DbError e)" using a1 by (auto simp: answered_def)
    then have "flush_many_body C c0 = (Fail (DbError e), c1)" using body w by simp
    then show ?thesis using fm by (auto simp: flush_many_raw_def with_ctx_def c0_def flush_start_def)
  qed
qed

lemma monitor_wakes_returns:
  fixes C :: "('k, 'v, 'am cache_updates, 'b sim_error, 'm, 'd) conf"
  assumes wb: "dc_write_back (dc C) = wbdc_write_back T B" and obs: "observers C = []" and orm: "orm_answers B"
    and q: "pool_quiet (pool s)"
  shows "\<exists>t. monitor_wakes C w s = (Ok (), t)"
proof (cases "updates (pool s) = [] \<or> \<not> flush_due C (w \<noteq> WokenTick) (s\<lparr>closed := shutdown s\<rparr>)")
  case False
  define s1 where "s1 = s\<lparr>flush_notified := False, cleanup_notified := False, closed := shutdown s\<rparr>"
  have ev: "event_on_monitor_error C e u = (Ok (), u)" for e u
    by (simp add: event_on_monitor_error_def obs on_backend_def)
  obtain r t where f: "flush C s1 = (r, t)" by fastforce
  have "\<exists>u. monitor_flush C s1 = (Ok (), u)"
  proof (cases "error s1")
    case None
    from flush_answered[OF wb obs orm _ None f] q show ?thesis
      using f ev by (auto simp: s1_def answered_def monitor_flush_def)
  next
    case (Some e)
    then show ?thesis by (simp add: monitor_flush_def error_first[OF Some] ev)
  qed
  then show ?thesis using monitor_wakes_due[of s C w] False by (auto simp: s1_def)
qed (simp add: monitor_wakes_idle)

end
