(* ===== verification/Company.thy ===== *)
theory Company
  imports Stores WriteBackRuns
begin

text \<open>
  The simulated company of \<open>src/test/simulation/company_cached.rs\<close>: five caches over one
  database, two of them watched by observers that flush the caches whose records theirs refer to,
  and the operations of \<open>TestActor\<close> on them. The company is modelled from the title of the script
  on, which fixes the sizes of its caches; progress reports, messages and time measurements are
  left out, and of an error's text its constant part is kept.
\<close>

section \<open>The state\<close>

type_synonym order_am = "order_column \<Rightarrow> db_value active_value"
type_synonym session_am = "session_column \<Rightarrow> db_value active_value"
type_synonym inventory_am = "inventory_column \<Rightarrow> db_value active_value"

type_synonym ('b, 'm, 'd) customer_store = "(customer_by, customer_am cache_updates, 'b sim_error, 'm, 'd) cache"
type_synonym ('b, 'm, 'd) product_store = "(int, product_am cache_updates, 'b sim_error, 'm, 'd) cache"
type_synonym ('b, 'm, 'd) inventory_store = "(int, inventory_am cache_updates, 'b sim_error, 'm, 'd) cache"
type_synonym ('b, 'm, 'd) order_store = "(128 word, order_am cache_updates, 'b sim_error, 'm, 'd) cache"
type_synonym ('b, 'm, 'd) session_store = "(int, session_am cache_updates, 'b sim_error, 'm, 'd) cache"

text \<open>
  What the company is built on: the ORM of each table, moka for each cache, the two statements of
  \<open>collect_sessions\<close> that go to the database directly, what the driver does before each step of the
  script (nothing, or its checkpoint when one is due), the order in which a \<open>HashSet\<close> yields its
  members, and the numbers of the title.
\<close>

record ('d, 't, 'm, 'b) platform =
  customers_orm :: "('d, 't, customer_am, customer_column, db_value, customer, 'b) orm"
  products_orm :: "('d, 't, product_am, product_column, db_value, product, 'b) orm"
  inventory_orm :: "('d, 't, inventory_am, inventory_column, db_value, inventory, 'b) orm"
  orders_orm :: "('d, 't, order_am, order_column, db_value, order, 'b) orm"
  sessions_orm :: "('d, 't, session_am, session_column, db_value, session, 'b) orm"
  customers_moka :: "('m, customer_by, (customer_by, customer) value_state) moka_ops"
  products_moka :: "('m, int, (int, product) value_state) moka_ops"
  inventory_moka :: "('m, int, (int, inventory) value_state) moka_ops"
  orders_moka :: "('m, 128 word, (128 word, order) value_state) moka_ops"
  sessions_moka :: "('m, int, (int, session) value_state) moka_ops"
  delete_stubs :: "int \<Rightarrow> ('d, 'b, nat) prog"
  user_session_ids :: "('d, 'b, int list) prog"
  db_checkpoint :: "nat \<Rightarrow> ('d, 'b, unit) prog"
  set_order :: "customer_by list \<Rightarrow> customer_by list"
  product_count :: nat
  market_capacity :: nat

text \<open>
  The company holds its caches without a backend: a cache works on the database of the company,
  or, where it calls back into the company, on the company itself.
\<close>

record ('d, 'm, 'b) company =
  co_db :: 'd
  current_day :: int
  inv_check_no :: nat
  updated_from :: "(128 word \<times> order) list"
  customer_cache :: "('b, 'm, unit) customer_store"
  inv_rec_cache :: "('b, 'm, unit) inventory_store"
  order_cache :: "('b, 'm, unit) order_store"
  product_cache :: "('b, 'm, unit) product_store"
  session_cache :: "('b, 'm, unit) session_store"

definition attach :: "'d \<Rightarrow> ('k, 'u, 'e, 'm, 'x) cache \<Rightarrow> ('k, 'u, 'e, 'm, 'd) cache" where
  "attach d s = \<lparr>error = error s, moka = moka s, pool = pool s, backend = d, last_flush = last_flush s,
     clock = clock s, monitor_task = monitor_task s, shutdown = shutdown s, closed = closed s,
     flush_notified = flush_notified s, cleanup_notified = cleanup_notified s\<rparr>"

abbreviation detach :: "('k, 'u, 'e, 'm, 'd) cache \<Rightarrow> ('k, 'u, 'e, 'm, unit) cache" where
  "detach \<equiv> attach ()"

lemma attach_simps [simp]:
  "error (attach d s) = error s" "moka (attach d s) = moka s" "pool (attach d s) = pool s"
  "backend (attach d s) = d" "last_flush (attach d s) = last_flush s" "clock (attach d s) = clock s"
  "monitor_task (attach d s) = monitor_task s" "shutdown (attach d s) = shutdown s" "closed (attach d s) = closed s"
  "flush_notified (attach d s) = flush_notified s" "cleanup_notified (attach d s) = cleanup_notified s"
  by (simp_all add: attach_def)

lemma attach_attach [simp]: "attach d (attach d' s) = attach d s"
  by (simp add: attach_def)

lemma attach_backend [simp]: "attach (backend s) s = s"
  by (simp add: attach_def)

text \<open>A call of one of the caches.\<close>

definition on_customers ::
  "(('b, 'm, 'd) customer_store, 'b sim_error, 'a) prog \<Rightarrow> (('d, 'm, 'b) company, 'b sim_error, 'a) prog" where
  "on_customers p = (\<lambda>co. case p (attach (co_db co) (customer_cache co)) of
     (r, s) \<Rightarrow> (r, co\<lparr>co_db := backend s, customer_cache := detach s\<rparr>))"

definition on_products ::
  "(('b, 'm, 'd) product_store, 'b sim_error, 'a) prog \<Rightarrow> (('d, 'm, 'b) company, 'b sim_error, 'a) prog" where
  "on_products p = (\<lambda>co. case p (attach (co_db co) (product_cache co)) of
     (r, s) \<Rightarrow> (r, co\<lparr>co_db := backend s, product_cache := detach s\<rparr>))"

definition on_inventory ::
  "(('b, 'm, 'd) inventory_store, 'b sim_error, 'a) prog \<Rightarrow> (('d, 'm, 'b) company, 'b sim_error, 'a) prog" where
  "on_inventory p = (\<lambda>co. case p (attach (co_db co) (inv_rec_cache co)) of
     (r, s) \<Rightarrow> (r, co\<lparr>co_db := backend s, inv_rec_cache := detach s\<rparr>))"

text \<open>
  The caches of orders and sessions call the company back, from their observers and, for orders,
  from a closure; none of these calls reaches the cache that makes it.
\<close>

definition on_orders ::
  "(('b, 'm, ('d, 'm, 'b) company) order_store, 'b sim_error, 'a) prog \<Rightarrow>
     (('d, 'm, 'b) company, 'b sim_error, 'a) prog" where
  "on_orders p = (\<lambda>co. case p (attach co (order_cache co)) of
     (r, s) \<Rightarrow> (r, (backend s)\<lparr>order_cache := detach s\<rparr>))"

definition on_sessions ::
  "(('b, 'm, ('d, 'm, 'b) company) session_store, 'b sim_error, 'a) prog \<Rightarrow>
     (('d, 'm, 'b) company, 'b sim_error, 'a) prog" where
  "on_sessions p = (\<lambda>co. case p (attach co (session_cache co)) of
     (r, s) \<Rightarrow> (r, (backend s)\<lparr>session_cache := detach s\<rparr>))"

section \<open>The caches\<close>

text \<open>\<open>build_customer_cache\<close>, \<open>build_product_cache\<close> and \<open>build_inv_rec_cache\<close>; times in seconds.\<close>

definition customer_conf where
  "customer_conf pf = manager_conf (customer_manager (customers_orm pf) (fun_am customer_field)) (customers_moka pf)
     (market_capacity pf) 600"

definition product_conf where
  "product_conf pf = manager_conf (product_manager (products_orm pf) (fun_am product_field)) (products_moka pf)
     (product_count pf) 60"

definition inv_rec_conf where
  "inv_rec_conf pf = manager_conf (inventory_manager (inventory_orm pf) (fun_am inventory_field)) (inventory_moka pf)
     (product_count pf) 600"

text \<open>The database of the company as seen by a cache that works on the company.\<close>

definition company_orm ::
  "('d, 't, 'am, 'c, 'x, 'v, 'b) orm \<Rightarrow> (('d, 'm, 'b) company, 't, 'am, 'c, 'x, 'v, 'b) orm" where
  "company_orm B = lift_orm co_db (\<lambda>d co. co\<lparr>co_db := d\<rparr>) (\<lambda>t. t) (\<lambda>t. t) B"

text \<open>What an observer does during a flush reaches the company through the context.\<close>

definition ctx_company :: "('d, 'e, 'a) prog \<Rightarrow> (('k, 'u, 'd) flush_ctx, 'e, 'a) prog" where
  "ctx_company m = (\<lambda>c. case m (ctx_backend c) of (r, co) \<Rightarrow> (r, c\<lparr>ctx_backend := co\<rparr>))"

text \<open>\<open>OrderObserver\<close>\<close>

definition order_on_flush_one where
  "order_on_flush_one pf update = (let flush_referred = (\<lambda>am.
       bnd (if av_into_value (am OrdCustomerId) \<noteq> None
            then bnd (on_customers (flush (customer_conf pf))) (\<lambda>_. ret ()) else ret ()) (\<lambda>_.
       if av_into_value (am OrdProductId) \<noteq> None
       then bnd (on_products (flush (product_conf pf))) (\<lambda>_. ret ()) else ret ()))
     in case update of
       CuInsert am \<Rightarrow> flush_referred am
     | CuUpdate am \<Rightarrow> flush_referred am
     | CuDelete \<Rightarrow> ret ())"

definition order_observer where
  "order_observer pf = \<lparr>
     ob_on_flush = ctx_company (bnd (on_customers (flush_raw (customer_conf pf))) (\<lambda>_. ret ())),
     ob_on_flush_one = (\<lambda>_ update. order_on_flush_one pf update),
     ob_on_monitor_error = (\<lambda>_. ret ())\<rparr>"

text \<open>\<open>SessionObserver\<close>: the loop over the updates reads each item and drops it.\<close>

definition session_customer :: "session_am \<Rightarrow> customer_by option" where
  "session_customer am = (case av_into_value (am SessCustomerId) of
       Some (ValInt (Some customer_id)) \<Rightarrow> Some (ById customer_id)
     | _ \<Rightarrow> None)"

definition note_customer ::
  "int \<times> nat \<Rightarrow> session_am cache_updates option \<Rightarrow> customer_by list \<Rightarrow> customer_by list" where
  "note_customer _ update customer_ids = (let note_am = (\<lambda>am. case session_customer am of
         Some k \<Rightarrow> List.insert k customer_ids | None \<Rightarrow> customer_ids)
     in case update of
       Some (CuInsert am) \<Rightarrow> note_am am
     | Some (CuUpdate am) \<Rightarrow> note_am am
     | _ \<Rightarrow> customer_ids)"

definition session_on_flush where
  "session_on_flush pf = (\<lambda>c. case iter_fold note_customer [] c of (customer_ids, c') \<Rightarrow>
     ctx_company (bnd (on_customers (flush_many_raw (customer_conf pf) (set_order pf customer_ids))) (\<lambda>_. ret ())) c')"

definition session_on_flush_one where
  "session_on_flush_one pf update = (let flush_referred = (\<lambda>am. case session_customer am of
         Some k \<Rightarrow> bnd (on_customers (flush_one (customer_conf pf) k)) (\<lambda>_. ret ())
       | None \<Rightarrow> ret ())
     in case update of
       CuInsert am \<Rightarrow> flush_referred am
     | CuUpdate am \<Rightarrow> flush_referred am
     | CuDelete \<Rightarrow> ret ())"

definition session_observer where
  "session_observer pf = \<lparr>
     ob_on_flush = session_on_flush pf,
     ob_on_flush_one = (\<lambda>_ update. session_on_flush_one pf update),
     ob_on_monitor_error = (\<lambda>_. ret ())\<rparr>"

text \<open>\<open>build_order_cache\<close> and \<open>build_session_cache\<close>.\<close>

definition order_conf where
  "order_conf pf = (manager_conf (order_manager (company_orm (orders_orm pf)) (fun_am order_field)) (orders_moka pf)
     (market_capacity pf * 100) 600)\<lparr>observers := [order_observer pf]\<rparr>"

definition session_conf where
  "session_conf pf = (manager_conf (session_manager (company_orm (sessions_orm pf)) (fun_am session_field)) (sessions_moka pf)
     (max (market_capacity pf * 100) 100000) 600)\<lparr>observers := [session_observer pf]\<rparr>"

section \<open>The operations\<close>

text \<open>The addition of \<open>i64\<close> numbers, which panics on overflow in the profile of the tests.\<close>

definition i64_add :: "int \<Rightarrow> int \<Rightarrow> ('s, 'e, int) prog" where
  "i64_add a b = (if - (2 ^ 63) \<le> a + b \<and> a + b < 2 ^ 63 then ret (a + b)
     else panic ''attempt to add with overflow'')"

text \<open>\<open>entry(key).and_try_compute_with(f)\<close> on a cache, its result dropped.\<close>

definition compute_entry ::
  "('k, 'v, 'u, 'e, 'm, 'd) conf \<Rightarrow> 'k \<Rightarrow> ('k, 'v, 'u, 'e, 'm, 'd) user_fun \<Rightarrow> (('k, 'u, 'e, 'm, 'd) cache, 'e, unit) prog" where
  "compute_entry C key f = bnd (bnd (entry C key) (\<lambda>sel. and_try_compute_with C sel f)) (\<lambda>_. ret ())"

definition insert_record ::
  "('k, 'v, 'u, 'e, 'm, 'd) conf \<Rightarrow> 'v \<Rightarrow> (('k, 'u, 'e, 'm, 'd) cache, 'e, unit) prog" where
  "insert_record C v = bnd (cache_insert C v) (\<lambda>_. ret ())"

definition flush_cache :: "('k, 'v, 'u, 'e, 'm, 'd) conf \<Rightarrow> (('k, 'u, 'e, 'm, 'd) cache, 'e, unit) prog" where
  "flush_cache C = bnd (flush C) (\<lambda>_. ret ())"

subsection \<open>Adding records\<close>

definition add_customer where
  "add_customer pf customer = bnd (gets current_day) (\<lambda>day.
     on_customers (insert_record (customer_conf pf) (customer\<lparr>cust_registered_on := day\<rparr>)))"

definition add_product where
  "add_product pf product = on_products (insert_record (product_conf pf) product)"

definition add_inventory_record where
  "add_inventory_record pf inventory_record = bnd (on_products (flush_cache (product_conf pf))) (\<lambda>_.
     on_inventory (insert_record (inv_rec_conf pf) inventory_record))"

definition add_session where
  "add_session pf session = on_sessions (insert_record (session_conf pf) session)"

subsection \<open>The inventory\<close>

definition inv_rec_compare :: "inventory option \<Rightarrow> int \<Rightarrow> ('s, 'b sim_error, unit) prog" where
  "inv_rec_compare inventory_record stock = (case inventory_record of
       Some r \<Rightarrow> if inv_stock r \<noteq> stock then throw (SimMsg ''Inventory check failed'') else ret ()
     | None \<Rightarrow> throw (SimMsg ''Inventory record not found''))"

definition check_inventory where
  "check_inventory pf product_id stock =
     bnd (on_inventory (cache_get (inv_rec_conf pf) product_id)) (\<lambda>inventory_record.
     bnd (inv_rec_compare inventory_record stock) (\<lambda>_.
     modify (\<lambda>co. co\<lparr>inv_check_no := inv_check_no co + 1\<rparr>)))"

definition change_stock ::
  "int \<Rightarrow> (int, inventory) entry option \<Rightarrow> ('s, 'b sim_error, inventory op) prog" where
  "change_stock quantity en = (case en of
       Some en \<Rightarrow>
         bnd (i64_add (inv_stock (entry_value en)) quantity) (\<lambda>new_stock.
         if new_stock < 0 then throw (SimMsg ''Not enough stock'')
         else ret (Put ((entry_value en)\<lparr>inv_stock := new_stock\<rparr>)))
     | None \<Rightarrow> throw (SimMsg ''Can't update non-existing inventory record''))"

definition update_inventory_record where
  "update_inventory_record pf product_id quantity =
     on_inventory (compute_entry (inv_rec_conf pf) product_id (change_stock quantity))"

text \<open>\<open>update_inventory\<close>: the order is noted before its record is updated.\<close>

definition settled :: "order_status \<Rightarrow> bool" where
  "settled st \<longleftrightarrow> st = Backordered \<or> st = Refunded \<or> st = Shipped \<or> st = Recheck"

definition update_inventory where
  "update_inventory pf order = (if settled (ord_status order) then ret ()
     else
       bnd (gets updated_from) (\<lambda>noted.
       if map_of noted (ord_id order) \<noteq> None then throw (SimMsg ''Inventory already updated from order'')
       else
         bnd (modify (\<lambda>co. co\<lparr>updated_from := hm_insert (ord_id order) order (updated_from co)\<rparr>)) (\<lambda>_.
         update_inventory_record pf (ord_product_id order) (- ord_quantity order))))"

subsection \<open>Orders, products and sessions\<close>

definition add_order where
  "add_order pf order =
     bnd (update_inventory pf order) (\<lambda>_.
     bnd (gets current_day) (\<lambda>day.
     on_orders (insert_record (order_conf pf) (order\<lparr>ord_purchased_on := day\<rparr>))))"

definition change_order where
  "change_order pf order_update en = (case en of
       Some en \<Rightarrow>
         bnd (on_backend (update_inventory pf order_update)) (\<lambda>_.
         ret (Put ((entry_value en)\<lparr>ord_status := ord_status order_update\<rparr>)))
     | None \<Rightarrow> throw (SimMsg ''Can't update non-existing order''))"

definition update_order where
  "update_order pf order_update =
     on_orders (compute_entry (order_conf pf) (ord_id order_update) (change_order pf order_update))"

definition count_view :: "(int, product) entry option \<Rightarrow> ('s, 'b sim_error, product op) prog" where
  "count_view en = (case en of
       Some en \<Rightarrow>
         bnd (i64_add (prod_views (entry_value en)) 1) (\<lambda>views.
         ret (Put ((entry_value en)\<lparr>prod_views := views\<rparr>)))
     | None \<Rightarrow> throw (SimMsg ''Can't update non-existing product''))"

definition update_product_view_count where
  "update_product_view_count pf product_id =
     on_products (compute_entry (product_conf pf) product_id count_view)"

definition change_session :: "session \<Rightarrow> (int, session) entry option \<Rightarrow> ('s, 'b sim_error, session op) prog" where
  "change_session session_update en = (case en of
       Some en \<Rightarrow> ret (Put ((entry_value en)\<lparr>sess_customer_id := sess_customer_id session_update,
         sess_expires_on := sess_expires_on session_update\<rparr>))
     | None \<Rightarrow> throw (SimMsg ''Can't update non-existing session''))"

definition update_session where
  "update_session pf session_update =
     on_sessions (compute_entry (session_conf pf) (sess_id session_update) (change_session session_update))"

subsection \<open>Days\<close>

definition collect_session_stubs where
  "collect_session_stubs pf = bnd (gets current_day) (\<lambda>day.
     bnd (on_part co_db (\<lambda>d co. co\<lparr>co_db := d\<rparr>) (on_db (delete_stubs pf day))) (\<lambda>_. ret ()))"

definition expire_session :: "int \<Rightarrow> (int, session) entry option \<Rightarrow> ('s, 'b sim_error, session op) prog" where
  "expire_session day en = (case en of
       Some en \<Rightarrow> ret (if sess_expires_on (entry_value en) \<le> day then Remove else Nop)
     | None \<Rightarrow> ret Nop)"

definition collect_sessions where
  "collect_sessions pf =
     bnd (collect_session_stubs pf) (\<lambda>_.
     bnd (on_part co_db (\<lambda>d co. co\<lparr>co_db := d\<rparr>) (on_db (user_session_ids pf))) (\<lambda>user_sessions.
     for_each (\<lambda>session_id. bnd (gets current_day) (\<lambda>day.
         on_sessions (compute_entry (session_conf pf) session_id (expire_session day)))) user_sessions))"

definition set_current_day where
  "set_current_day pf day =
     bnd (if day = 1 then
            bnd (on_customers (flush_cache (customer_conf pf))) (\<lambda>_.
            bnd (on_products (flush_cache (product_conf pf))) (\<lambda>_.
            on_inventory (flush_cache (inv_rec_conf pf))))
          else ret ()) (\<lambda>_.
     bnd (modify (\<lambda>co. co\<lparr>current_day := day\<rparr>)) (\<lambda>_.
     bnd (on_sessions soft_flush) (\<lambda>_.
     on_orders soft_flush)))"

text \<open>
  \<open>Cache::close\<close> as one call: the request, the last round of a monitor that waits, and the wait
  for its end.
\<close>

definition last_round :: "('k, 'v, 'u, 'e, 'm, 'd) conf \<Rightarrow> (('k, 'u, 'e, 'm, 'd) cache, 'e, unit) prog" where
  "last_round C = (\<lambda>s. if monitor_task s = Some Waiting then (case monitor_wakes C WokenCleanup s of
         (Panic _, t) \<Rightarrow> (Ok (), t\<lparr>monitor_task := Some Finished\<rparr>)
       | (r, t) \<Rightarrow> (r, t))
     else (Ok (), s))"

definition close_cache :: "('k, 'v, 'u, 'e, 'm, 'd) conf \<Rightarrow> (('k, 'u, 'e, 'm, 'd) cache, 'e, unit) prog" where
  "close_cache C = bnd close_request (\<lambda>waiting.
     if waiting then bnd (last_round C) (\<lambda>_. close_wait) else ret ())"

definition curtain_call where
  "curtain_call pf =
     bnd (on_customers (close_cache (customer_conf pf))) (\<lambda>_.
     bnd (on_products (close_cache (product_conf pf))) (\<lambda>_.
     bnd (on_inventory (close_cache (inv_rec_conf pf))) (\<lambda>_.
     bnd (on_orders (close_cache (order_conf pf))) (\<lambda>_.
     on_sessions (close_cache (session_conf pf))))))"

end
