(* ===== verification/CompanyCaches.thy ===== *)
theory CompanyCaches
  imports Company
begin

text \<open>
  The caches of the company keep the contract of \<open>Monitor\<close> with their observers in place, and no
  call of one of them disturbs what another holds.
\<close>

section \<open>Observers\<close>

text \<open>Observers that move the backend within what \<open>R\<close> reads keep the contract.\<close>

lemma write_behind_observers:
  assumes wb: "write_behind C R vok"
    and safe: "\<And>ob. ob \<in> set obs \<Longrightarrow> ctx_safe (ob_on_flush ob)"
    and flush: "\<And>ob c r c'. ob \<in> set obs \<Longrightarrow> snd ` set (unprocessed (ctx_iter c)) \<subseteq> {None} \<Longrightarrow>
      ob_on_flush ob c = (r, c') \<Longrightarrow> r \<noteq> Wait \<Longrightarrow> pending (ctx_pool c') = pending (ctx_pool c) \<and>
        R (ctx_backend c') = R (ctx_backend c) \<and> unprocessed (ctx_iter c') = unprocessed (ctx_iter c)"
    and one: "\<And>ob k u. ob \<in> set obs \<Longrightarrow> keeps R (ob_on_flush_one ob k u)"
  shows "write_behind (C\<lparr>observers := obs\<rparr>) R vok"
proof (unfold_locales, goal_cases)
  case 1
  then show ?case using flush_client.write_back_safe[OF write_behind.axioms(1)[OF wb]] by simp
next
  case (2 ob)
  then show ?case using safe by simp
next
  case 3
  then show ?case using write_behind.moka[OF wb] by simp
next
  case (4 v)
  then show ?case using write_behind.secondary_keys[OF wb] by simp
next
  case (5 k d)
  then show ?case using write_behind.primary_key_for[OF wb] by simp
next
  case (6 k ro x)
  then show ?case by (rule write_behind.vok_None[OF wb])
next
  case (7 k d rg d')
  then show ?case using write_behind.get_for_key[OF wb, of k d rg d'] by simp
next
  case (8 v d)
  then show ?case using write_behind.dc_new[OF wb, of v d] by simp
next
  case (9 v k old prev ro d)
  then show ?case using write_behind.dc_change[OF wb, of v k old prev ro d] by simp
next
  case (10 k prev ro x d)
  then show ?case using write_behind.dc_delete[OF wb, of k prev ro x d] by simp
next
  case (11 k v prev d)
  then show ?case using write_behind.dc_access[OF wb] by simp
next
  case (12 p0 c m r c')
  then show ?case using write_behind.write_back[OF wb, of p0 c m r c'] by simp
next
  case (13 ob c m r c')
  then show ?case using flush[of ob c r c'] by (simp add: view_holds_def)
next
  case (14 ob k u d r d')
  then show ?case using one[of ob k u] by (simp add: keeps_def)
qed

lemma background_observers:
  assumes "write_behind (C\<lparr>observers := obs\<rparr>) R vok" "hash_order_ok C"
    and "\<And>ob e. ob \<in> set obs \<Longrightarrow> keeps R (ob_on_monitor_error ob e)"
  shows "background (C\<lparr>observers := obs\<rparr>) R vok"
  using assms by (auto simp: background_def background_axioms_def keeps_def hash_order_ok_def)

lemma ctx_safe_company: "ctx_safe (ctx_company m)"
  by (auto simp: ctx_safe_def ctx_company_def split: prod.splits)

text \<open>A loop over the iterator that reads each item and drops it keeps the discipline of a flush.\<close>

lemma iter_fold_keeps:
  "iter_fold f a c = (a', c') \<Longrightarrow> ctx_backend c' = ctx_backend c \<and> pending (ctx_pool c') = pending (ctx_pool c) \<and>
     (flush_inv p0 [] c \<longrightarrow> flush_inv p0 [] c')"
proof (induction f a c arbitrary: a' c' rule: iter_fold.induct)
  case (1 f a c)
  obtain r c1 where nx: "iter_next c = (r, c1)" by fastforce
  note kept = iter_next_keeps[OF nx] and inv = iter_next_inv[OF nx, of p0 "[]"]
  show ?case
  proof (cases r)
    case None
    with nx "1.prems" inv kept show ?thesis by (subst (asm) iter_fold.simps) auto
  next
    case (Some it)
    have "iter_fold f (f it (data (states (ctx_pool c1) (snd it))) a) (item_drop it c1) = (a', c')"
      using "1.prems" nx Some by (subst (asm) iter_fold.simps) simp
    from "1.IH"[OF nx[symmetric] Some this] kept inv Some item_drop_inv[of p0 it "[]" c1] show ?thesis by auto
  qed
qed

section \<open>What the company rests on\<close>

text \<open>The rows of the tables, as the properties read them.\<close>

record 'd tables =
  row_customers :: "'d \<Rightarrow> customer_by \<rightharpoonup> customer"
  row_products :: "'d \<Rightarrow> int \<rightharpoonup> product"
  row_inventory :: "'d \<Rightarrow> int \<rightharpoonup> inventory"
  row_orders :: "'d \<Rightarrow> 128 word \<rightharpoonup> order"
  row_sessions :: "'d \<Rightarrow> int \<rightharpoonup> session"

text \<open>
  What each cache of the company holds, with the rows it stands for, and what the company notes
  besides.
\<close>

definition product_part where
  "product_part T co = (product_cache co, row_products T (co_db co))"

definition inventory_part where
  "inventory_part T co = (inv_rec_cache co, row_inventory T (co_db co))"

definition order_part where
  "order_part T co = (order_cache co, row_orders T (co_db co))"

definition session_part where
  "session_part T co = (session_cache co, row_sessions T (co_db co))"

definition noted_part :: "('d, 'm, 'b) company \<Rightarrow> (128 word \<times> order) list \<times> int" where
  "noted_part co = (updated_from co, current_day co)"

lemmas part_defs = product_part_def inventory_part_def order_part_def session_part_def noted_part_def

definition products_hold where
  "products_hold pf T co m = coherent (product_conf pf) (row_products T)
     (update_view (fun_am product_field) product_field prod_id (\<lambda>_. True)) (attach (co_db co) (product_cache co)) m"

definition inventory_holds where
  "inventory_holds pf T co m = coherent (inv_rec_conf pf) (row_inventory T)
     (update_view (fun_am inventory_field) inventory_field inv_product_id (\<lambda>_. True)) (attach (co_db co) (inv_rec_cache co)) m"

definition orders_hold where
  "orders_hold pf T co m = coherent (order_conf pf) (\<lambda>co. row_orders T (co_db co))
     (update_view (fun_am order_field) order_field ord_id (\<lambda>_. True)) (attach co (order_cache co)) m"

definition sessions_hold where
  "sessions_hold pf T co m = coherent (session_conf pf) (\<lambda>co. row_sessions T (co_db co))
     (update_view (fun_am session_field) session_field sess_id (\<lambda>_. True)) (attach co (session_cache co)) m"

lemma coherent_attach_cong:
  "R d = R' d' \<Longrightarrow> coherent C R vok (attach d s) m = coherent C R' vok (attach d' s) m"
  by (simp add: coherent_def stored_ok_def view_holds_def)

lemma hold_cong:
  "product_part T co' = product_part T co \<Longrightarrow> products_hold pf T co' m = products_hold pf T co m"
  "inventory_part T co' = inventory_part T co \<Longrightarrow> inventory_holds pf T co' mi = inventory_holds pf T co mi"
  "order_part T co' = order_part T co \<Longrightarrow> orders_hold pf T co' mo = orders_hold pf T co mo"
  "session_part T co' = session_part T co \<Longrightarrow> sessions_hold pf T co' ms = sessions_hold pf T co ms"
  subgoal by (simp add: products_hold_def product_part_def, rule coherent_attach_cong, simp)
  subgoal by (simp add: inventory_holds_def inventory_part_def, rule coherent_attach_cong, simp)
  subgoal by (simp add: orders_hold_def order_part_def, rule coherent_attach_cong, simp)
  subgoal by (simp add: sessions_hold_def session_part_def, rule coherent_attach_cong, simp)
  done

text \<open>
  How a call of the cache of orders may move the company, beside its own part: the caches of
  customers and products are flushed by its observer, all else stays.
\<close>

definition order_moves where
  "order_moves pf T co co' \<longleftrightarrow> same (\<lambda>co. (inventory_part T co, session_part T co, noted_part co)) co co' \<and>
     (\<forall>m. products_hold pf T co m \<longrightarrow> products_hold pf T co' m)"

lemma frame_rel_order_moves: "frame_rel (order_moves pf T)"
  by unfold_locales (auto simp: order_moves_def same_def)

interpretation order_frame: frame_rel "order_moves pf T" for pf T
  by (rule frame_rel_order_moves)

text \<open>A call of the cache of sessions moves only the customers beside its own part.\<close>

definition session_moves where
  "session_moves T = same (\<lambda>co. (product_part T co, inventory_part T co, order_part T co, noted_part co))"

text \<open>A call of a cache, seen from the company.\<close>

lemma on_cache_eq:
  "on_customers pc co = (r, co') \<longleftrightarrow> (\<exists>t. pc (attach (co_db co) (customer_cache co)) = (r, t) \<and>
     co' = co\<lparr>co_db := backend t, customer_cache := detach t\<rparr>)"
  "on_products pp co = (rp, co') \<longleftrightarrow> (\<exists>t. pp (attach (co_db co) (product_cache co)) = (rp, t) \<and>
     co' = co\<lparr>co_db := backend t, product_cache := detach t\<rparr>)"
  "on_inventory pi co = (ri, co') \<longleftrightarrow> (\<exists>t. pi (attach (co_db co) (inv_rec_cache co)) = (ri, t) \<and>
     co' = co\<lparr>co_db := backend t, inv_rec_cache := detach t\<rparr>)"
  "on_orders po co = (ro, co') \<longleftrightarrow> (\<exists>t. po (attach co (order_cache co)) = (ro, t) \<and>
     co' = (backend t)\<lparr>order_cache := detach t\<rparr>)"
  "on_sessions ps co = (rs, co') \<longleftrightarrow> (\<exists>t. ps (attach co (session_cache co)) = (rs, t) \<and>
     co' = (backend t)\<lparr>session_cache := detach t\<rparr>)"
  by (auto simp: on_customers_def on_products_def on_inventory_def on_orders_def on_sessions_def split: prod.splits)

lemma coherent_attach_self:
  assumes "R' x = R (backend t)"
  shows "coherent C R' vok (attach x t) m = coherent C R vok t m"
  using assms by (simp add: coherent_def stored_ok_def view_holds_def)

text \<open>
  The documented behaviour of the database, with the tables apart from each other, and of moka.
\<close>

locale company_platform =
  fixes pf :: "('d, 't, 'm, 'b) platform" and T :: "'d tables"
  assumes customers_db: "\<exists>RT. orm_ok (customers_orm pf) (fun_am customer_field) customer_field customer_key (row_customers T) RT"
    and products_db: "\<exists>RT. orm_ok (products_orm pf) (fun_am product_field) product_field prod_id (row_products T) RT"
    and inventory_db: "\<exists>RT. orm_ok (inventory_orm pf) (fun_am inventory_field) inventory_field inv_product_id (row_inventory T) RT"
    and orders_db: "\<exists>RT. orm_ok (orders_orm pf) (fun_am order_field) order_field ord_id (row_orders T) RT"
    and sessions_db: "\<exists>RT. orm_ok (sessions_orm pf) (fun_am session_field) session_field sess_id (row_sessions T) RT"
    and mokas: "moka_ok (customers_moka pf)" "moka_ok (products_moka pf)" "moka_ok (inventory_moka pf)"
      "moka_ok (orders_moka pf)" "moka_ok (sessions_moka pf)"
    and customers_apart: "orm_apart (customers_orm pf)
      (\<lambda>d. (row_products T d, row_inventory T d, row_orders T d, row_sessions T d))"
    and products_apart: "orm_apart (products_orm pf) (\<lambda>d. (row_customers T d, row_inventory T d, row_orders T d, row_sessions T d))"
    and inventory_apart: "orm_apart (inventory_orm pf) (\<lambda>d. (row_customers T d, row_products T d, row_orders T d, row_sessions T d))"
    and orders_apart: "orm_apart (orders_orm pf) (\<lambda>d. (row_customers T d, row_products T d, row_inventory T d, row_sessions T d))"
    and sessions_apart: "orm_apart (sessions_orm pf) (\<lambda>d. (row_customers T d, row_products T d, row_inventory T d, row_orders T d))"
    and checkpoint_apart: "keeps (\<lambda>d. (row_products T d, row_inventory T d, row_orders T d, row_sessions T d)) (db_checkpoint pf n)"
begin

text \<open>The three caches that work on the database alone.\<close>

lemma products_background: "background (product_conf pf) (row_products T)
    (update_view (fun_am product_field) product_field prod_id (\<lambda>_. True))"
proof -
  from products_db obtain RT where
    "orm_ok (products_orm pf) (fun_am product_field) product_field prod_id (row_products T) RT" ..
  note wb = product_write_behind[OF this am_ok_fun_am]
  show ?thesis
    unfolding product_conf_def by (rule background_manager_conf, rule wb) (simp_all add: manager_conf_def mokas)
qed

lemma inventory_background: "background (inv_rec_conf pf) (row_inventory T)
    (update_view (fun_am inventory_field) inventory_field inv_product_id (\<lambda>_. True))"
proof -
  from inventory_db obtain RT where
    "orm_ok (inventory_orm pf) (fun_am inventory_field) inventory_field inv_product_id (row_inventory T) RT" ..
  note wb = inventory_write_behind[OF this am_ok_fun_am]
  show ?thesis
    unfolding inv_rec_conf_def by (rule background_manager_conf, rule wb) (simp_all add: manager_conf_def mokas)
qed

lemma customer_framing: "store_framing
    (same (\<lambda>d. (row_products T d, row_inventory T d, row_orders T d, row_sessions T d))) (customer_conf pf)"
  unfolding customer_conf_def
  by (rule frame_rel.manager_framing(1)[OF frame_rel_same]) (simp_all add: orm_framed_apart customers_apart)

lemma product_framing: "store_framing
    (same (\<lambda>d. (row_customers T d, row_inventory T d, row_orders T d, row_sessions T d))) (product_conf pf)"
  unfolding product_conf_def
  by (rule frame_rel.manager_framing(2)[OF frame_rel_same]) (simp add: orm_framed_apart products_apart)

lemma inventory_framing: "store_framing
    (same (\<lambda>d. (row_customers T d, row_products T d, row_orders T d, row_sessions T d))) (inv_rec_conf pf)"
  unfolding inv_rec_conf_def
  by (rule frame_rel.manager_framing(5)[OF frame_rel_same]) (simp add: orm_framed_apart inventory_apart)

lemma on_customers_framed:
  "framed (\<lambda>s t. same (\<lambda>d. (row_products T d, row_inventory T d, row_orders T d, row_sessions T d)) (backend s) (backend t)) p \<Longrightarrow>
     framed (same (\<lambda>co. (product_part T co, inventory_part T co, order_part T co, session_part T co, noted_part co))) (on_customers p)"
  by (auto simp: framed_def on_cache_eq same_def part_defs)

lemma on_products_framed:
  "framed (\<lambda>s t. same (\<lambda>d. (row_customers T d, row_inventory T d, row_orders T d, row_sessions T d)) (backend s) (backend t)) p \<Longrightarrow>
     framed (same (\<lambda>co. (inventory_part T co, order_part T co, session_part T co, noted_part co))) (on_products p)"
  by (auto simp: framed_def on_cache_eq same_def part_defs)

lemma on_inventory_framed:
  "framed (\<lambda>s t. same (\<lambda>d. (row_customers T d, row_products T d, row_orders T d, row_sessions T d)) (backend s) (backend t)) p \<Longrightarrow>
     framed (same (\<lambda>co. (product_part T co, order_part T co, session_part T co, noted_part co))) (on_inventory p)"
  by (auto simp: framed_def on_cache_eq same_def part_defs)

subsection \<open>Orders\<close>

lemma products_flush_hold:
  assumes h: "products_hold pf T co m" and run: "on_products (flush (product_conf pf)) co = (r, co')"
  shows "products_hold pf T co' m"
proof -
  define s where "s = attach (co_db co) (product_cache co)"
  obtain t where t: "flush (product_conf pf) s = (r, t)" "co' = co\<lparr>co_db := backend t, product_cache := detach t\<rparr>"
    using run unfolding on_cache_eq s_def by blast
  note wb = background.axioms(1)[OF products_background] and co = h[unfolded products_hold_def, folded s_def]
  have "coherent (product_conf pf) (row_products T) shop_view t m"
  proof (cases "error s")
    case (Some e)
    then have "t = s\<lparr>error := None\<rparr>" using t(1) by (simp add: error_first(5)[OF Some])
    then show ?thesis using co write_behind.coherent_error[OF wb] by metis
  next
    case None
    from products_db obtain RT where
      orm: "orm_ok (products_orm pf) (fun_am product_field) product_field prod_id (row_products T) RT" ..
    have "answered r"
      by (rule conjunct1[OF flush_answered[OF _ _ orm_okD(1)[OF orm] _ None t(1)]])
        (use coherentD(1)[OF co] in \<open>simp_all add: product_conf_def manager_conf_def product_manager_def\<close>)
    then have "r \<noteq> Wait" by (auto simp: answered_def)
    with write_behind.coherent_flush[OF wb co None background.orders[OF products_background] t(1)] show ?thesis by simp
  qed
  then show ?thesis by (simp add: products_hold_def t(2))
qed

lemma order_moves_customers:
  assumes "framed (\<lambda>s t. same (\<lambda>d. (row_products T d, row_inventory T d, row_orders T d, row_sessions T d)) (backend s) (backend t)) p"
  shows "framed (order_moves pf T) (on_customers p)" "keeps (\<lambda>co. row_orders T (co_db co)) (on_customers p)"
    "framed (session_moves T) (on_customers p)" "keeps (\<lambda>co. row_sessions T (co_db co)) (on_customers p)"
proof -
  note fr = framedD[OF on_customers_framed[OF assms]]
  show "framed (order_moves pf T) (on_customers p)"
    unfolding framed_def order_moves_def
  proof (intro allI impI conjI)
    fix co r co' m assume run: "on_customers p co = (r, co')"
    show "same (\<lambda>co. (inventory_part T co, session_part T co, noted_part co)) co co'"
      using fr[OF run] by (simp add: same_def)
    show "products_hold pf T co' m" if "products_hold pf T co m"
      using fr[OF run] that hold_cong(1)[of T co' co pf m] by (simp add: same_def)
  qed
  show "framed (session_moves T) (on_customers p)"
    unfolding framed_def using fr by (auto simp: session_moves_def same_def)
  show "keeps (\<lambda>co. row_orders T (co_db co)) (on_customers p)" "keeps (\<lambda>co. row_sessions T (co_db co)) (on_customers p)"
    unfolding keeps_def using fr by (auto simp: same_def part_defs)
qed

lemma order_moves_products:
  "framed (order_moves pf T) (on_products (flush (product_conf pf)))"
  "keeps (\<lambda>co. row_orders T (co_db co)) (on_products (flush (product_conf pf)))"
proof -
  note fr = framedD[OF on_products_framed[OF store_framing.store_flush(3)[OF product_framing]]]
  show "framed (order_moves pf T) (on_products (flush (product_conf pf)))"
    unfolding framed_def using fr products_flush_hold by (auto simp: order_moves_def same_def)
  show "keeps (\<lambda>co. row_orders T (co_db co)) (on_products (flush (product_conf pf)))"
    unfolding keeps_def using fr by (auto simp: same_def part_defs)
qed

lemma order_observer_moves:
  "framed (order_moves pf T) (order_on_flush_one pf upd)" "keeps (\<lambda>co. row_orders T (co_db co)) (order_on_flush_one pf upd)"
proof -
  note flush = store_framing.store_flush(3)[OF customer_framing]
  have "framed (order_moves pf T) (order_on_flush_one pf upd)"
    unfolding order_on_flush_one_def Let_def
    by (cases upd) (auto intro!: frame_rel.framed_bnd[OF frame_rel_order_moves] frame_rel.framed_basic[OF frame_rel_order_moves]
        order_moves_customers(1)[OF flush] order_moves_products(1))
  moreover have "framed (same (\<lambda>co. row_orders T (co_db co))) (order_on_flush_one pf upd)"
    unfolding order_on_flush_one_def Let_def
    using order_moves_customers(2)[OF flush] order_moves_products(2) unfolding framed_same[symmetric]
    by (cases upd) (auto intro!: frame_rel.framed_bnd[OF frame_rel_same] frame_rel.framed_basic[OF frame_rel_same])
  ultimately show "framed (order_moves pf T) (order_on_flush_one pf upd)" "keeps (\<lambda>co. row_orders T (co_db co)) (order_on_flush_one pf upd)"
    by (simp_all add: framed_same)
qed

lemma order_on_flush_moves:
  defines "m \<equiv> bnd (on_customers (flush_raw (customer_conf pf))) (\<lambda>_. ret ())"
  shows "framed (order_moves pf T) m" "keeps (\<lambda>co. row_orders T (co_db co)) m"
proof -
  note flush = store_framing.store_flush(2)[OF customer_framing]
  show "framed (order_moves pf T) m" unfolding m_def
    by (intro frame_rel.framed_bnd[OF frame_rel_order_moves] frame_rel.framed_basic[OF frame_rel_order_moves] order_moves_customers(1)[OF flush])
  have "framed (same (\<lambda>co. row_orders T (co_db co))) m"
    unfolding m_def using order_moves_customers(2)[OF flush] unfolding framed_same[symmetric]
    by (auto intro!: frame_rel.framed_bnd[OF frame_rel_same] frame_rel.framed_basic[OF frame_rel_same])
  then show "keeps (\<lambda>co. row_orders T (co_db co)) m" by (simp add: framed_same)
qed

lemma orders_background: "background (order_conf pf) (\<lambda>co. row_orders T (co_db co))
    (update_view (fun_am order_field) order_field ord_id (\<lambda>_. True))"
proof -
  from orders_db obtain RT where
    orm: "orm_ok (orders_orm pf) (fun_am order_field) order_field ord_id (row_orders T) RT" ..
  have lift: "orm_ok (company_orm (orders_orm pf)) (fun_am order_field) order_field ord_id (\<lambda>co. row_orders T (co_db co)) RT"
    unfolding company_orm_def using orm_ok_lift[OF orm, of co_db "\<lambda>d co. co\<lparr>co_db := d\<rparr>" "\<lambda>t. t" "\<lambda>t. t"] by simp
  define C :: "(128 word, order, order_am cache_updates, 'b sim_error, 'm, ('d, 'm, 'b) company) conf"
    where "C = manager_conf (order_manager (company_orm (orders_orm pf)) (fun_am order_field)) (orders_moka pf)
     (market_capacity pf * 100) 600"
  have "write_behind C (\<lambda>co. row_orders T (co_db co)) (update_view (fun_am order_field) order_field ord_id (\<lambda>_. True))"
    by (rule order_write_behind[OF lift am_ok_fun_am]) (simp_all add: C_def manager_conf_def mokas)
  then have wb: "write_behind (C\<lparr>observers := [order_observer pf]\<rparr>) (\<lambda>co. row_orders T (co_db co))
      (update_view (fun_am order_field) order_field ord_id (\<lambda>_. True))"
  proof (rule write_behind_observers)
    show "ctx_safe (ob_on_flush ob)" if "ob \<in> set [order_observer pf]" for ob
      using that by (simp add: order_observer_def ctx_safe_company)
    show "keeps (\<lambda>co. row_orders T (co_db co)) (ob_on_flush_one ob k u)" if "ob \<in> set [order_observer pf]" for ob k u
      using that order_observer_moves(2) by (simp add: order_observer_def)
    show "pending (ctx_pool c') = pending (ctx_pool c) \<and>
        row_orders T (co_db (ctx_backend c')) = row_orders T (co_db (ctx_backend c)) \<and>
        unprocessed (ctx_iter c') = unprocessed (ctx_iter c)"
      if "ob \<in> set [order_observer pf]" "ob_on_flush ob c = (r, c')" for ob c r c'
      using that order_on_flush_moves(2) by (auto simp: order_observer_def ctx_company_def keeps_def split: prod.splits)
  qed
  show ?thesis
    unfolding order_conf_def C_def[symmetric]
    by (rule background_observers[OF wb]) (simp_all add: C_def order_observer_def keeps_def)
qed

lemma order_orm_framed: "orm_framed (order_moves pf T) (company_orm (orders_orm pf))"
proof -
  have "order_moves pf T co (co\<lparr>co_db := d\<rparr>)"
    if "(row_products T d, row_inventory T d, row_sessions T d) = (row_products T (co_db co), row_inventory T (co_db co), row_sessions T (co_db co))"
    for co d
    using that hold_cong(1)[of T "co\<lparr>co_db := d\<rparr>" co pf] by (simp add: order_moves_def same_def part_defs)
  then show ?thesis
    using orders_apart unfolding orm_framed_def orm_apart_def company_orm_def lift_orm_def keeps_def
    by (simp add: framed_def on_part_eq then_map_eq) blast
qed

lemma order_framing: "store_framing (order_moves pf T) (order_conf pf)"
  unfolding order_conf_def
proof (rule store_framing_observers)
  show "store_framing (order_moves pf T) (manager_conf (order_manager (company_orm (orders_orm pf)) (fun_am order_field))
     (orders_moka pf) (market_capacity pf * 100) 600)"
    by (rule frame_rel.manager_framing(3)[OF frame_rel_order_moves order_orm_framed])
  show "framed (ctx_frame (order_moves pf T)) (ob_on_flush ob)" if "ob \<in> set [order_observer pf]" for ob
    using that order_on_flush_moves(1)
    by (auto simp: order_observer_def ctx_company_def framed_def ctx_frame_def split: prod.splits)
  show "framed (order_moves pf T) (ob_on_flush_one ob k u)" if "ob \<in> set [order_observer pf]" for ob k u
    using that order_observer_moves(1) by (simp add: order_observer_def)
  show "framed (order_moves pf T) (ob_on_monitor_error ob e)" if "ob \<in> set [order_observer pf]" for ob e
    using that by (simp add: order_observer_def frame_rel.framed_basic[OF frame_rel_order_moves])
qed

subsection \<open>Sessions\<close>

lemma frame_rel_session_moves: "frame_rel (session_moves T)"
  unfolding session_moves_def by (rule frame_rel_same)

lemma session_calls_move:
  fixes p :: "(('b, 'm, 'd) customer_store, 'b sim_error, 'a) prog"
  assumes p: "framed (\<lambda>s t. same (\<lambda>d. (row_products T d, row_inventory T d, row_orders T d, row_sessions T d)) (backend s) (backend t)) p"
  defines "m \<equiv> bnd (on_customers p) (\<lambda>_. ret ())"
  shows "framed (session_moves T) m" "keeps (\<lambda>co. row_sessions T (co_db co)) m"
proof -
  show "framed (session_moves T) m" unfolding m_def
    by (intro frame_rel.framed_bnd[OF frame_rel_session_moves] frame_rel.framed_basic[OF frame_rel_session_moves]
        order_moves_customers(3)[OF p])
  have "framed (same (\<lambda>co. row_sessions T (co_db co))) m"
    unfolding m_def using order_moves_customers(4)[OF p] unfolding framed_same[symmetric]
    by (auto intro!: frame_rel.framed_bnd[OF frame_rel_same] frame_rel.framed_basic[OF frame_rel_same])
  then show "keeps (\<lambda>co. row_sessions T (co_db co)) m" by (simp add: framed_same)
qed

lemma session_observer_moves:
  "framed (session_moves T) (session_on_flush_one pf upd)" "keeps (\<lambda>co. row_sessions T (co_db co)) (session_on_flush_one pf upd)"
proof -
  note calls = session_calls_move[OF store_framing.store_flush_one[OF customer_framing]]
  have idle: "keeps (\<lambda>co. row_sessions T (co_db co)) (ret ())" by (simp add: keeps_def)
  show "framed (session_moves T) (session_on_flush_one pf upd)"
    unfolding session_on_flush_one_def Let_def
    by (cases upd) (auto intro!: calls(1) frame_rel.framed_basic[OF frame_rel_session_moves] split: option.splits)
  show "keeps (\<lambda>co. row_sessions T (co_db co)) (session_on_flush_one pf upd)"
    unfolding session_on_flush_one_def Let_def
    by (cases upd) (auto intro!: calls(2) idle split: option.splits)
qed

lemma session_on_flush_run:
  assumes "session_on_flush pf c = (r, c')" "snd ` set (unprocessed (ctx_iter c)) \<subseteq> {None}"
  shows "pending (ctx_pool c') = pending (ctx_pool c)"
    "row_sessions T (co_db (ctx_backend c')) = row_sessions T (co_db (ctx_backend c))"
    "unprocessed (ctx_iter c') = unprocessed (ctx_iter c)"
proof -
  obtain ids c1 where it: "iter_fold note_customer [] c = (ids, c1)" by fastforce
  define m where "m = bnd (on_customers (flush_many_raw (customer_conf pf) (set_order pf ids))) (\<lambda>_. ret ())"
  obtain r1 co where m: "m (ctx_backend c1) = (r1, co)" by fastforce
  have c': "c' = c1\<lparr>ctx_backend := co\<rparr>"
    using assms(1) it m by (simp add: session_on_flush_def ctx_company_def m_def)
  have "row_sessions T (co_db co) = row_sessions T (co_db (ctx_backend c1))"
    using session_calls_move(2)[OF store_framing.store_flush(1)[OF customer_framing]] m unfolding keeps_def m_def by blast
  then show "pending (ctx_pool c') = pending (ctx_pool c)"
    "row_sessions T (co_db (ctx_backend c')) = row_sessions T (co_db (ctx_backend c))"
    "unprocessed (ctx_iter c') = unprocessed (ctx_iter c)"
    using iter_fold_keeps[OF it] unprocessed_keys_fold[OF it assms(2)] c' by simp_all
qed

lemma session_on_flush_frames:
  "ctx_safe (session_on_flush pf)" "framed (ctx_frame (session_moves T)) (session_on_flush pf)"
proof -
  have "flush_inv p0 [] c \<Longrightarrow> flush_inv p0 [] c'" and "session_moves T (ctx_backend c) (ctx_backend c')"
    if run: "session_on_flush pf c = (r, c')" for p0 c r c'
  proof -
    obtain ids c1 where it: "iter_fold note_customer [] c = (ids, c1)" by fastforce
    define m where "m = bnd (on_customers (flush_many_raw (customer_conf pf) (set_order pf ids))) (\<lambda>_. ret ())"
    obtain r1 co where m: "m (ctx_backend c1) = (r1, co)" by fastforce
    have c': "c' = c1\<lparr>ctx_backend := co\<rparr>"
      using run it m by (simp add: session_on_flush_def ctx_company_def m_def)
    show "flush_inv p0 [] c \<Longrightarrow> flush_inv p0 [] c'" using iter_fold_keeps[OF it] c' by simp
    show "session_moves T (ctx_backend c) (ctx_backend c')"
      using framedD[OF session_calls_move(1)[OF store_framing.store_flush(1)[OF customer_framing]] m[unfolded m_def]]
        iter_fold_keeps[OF it] c' by simp
  qed
  then show "ctx_safe (session_on_flush pf)" "framed (ctx_frame (session_moves T)) (session_on_flush pf)"
    unfolding ctx_safe_def framed_def ctx_frame_def by blast+
qed

lemma sessions_background: "background (session_conf pf) (\<lambda>co. row_sessions T (co_db co))
    (update_view (fun_am session_field) session_field sess_id (\<lambda>_. True))"
proof -
  from sessions_db obtain RT where
    orm: "orm_ok (sessions_orm pf) (fun_am session_field) session_field sess_id (row_sessions T) RT" ..
  have lift: "orm_ok (company_orm (sessions_orm pf)) (fun_am session_field) session_field sess_id (\<lambda>co. row_sessions T (co_db co)) RT"
    unfolding company_orm_def using orm_ok_lift[OF orm, of co_db "\<lambda>d co. co\<lparr>co_db := d\<rparr>" "\<lambda>t. t" "\<lambda>t. t"] by simp
  define C :: "(int, session, session_am cache_updates, 'b sim_error, 'm, ('d, 'm, 'b) company) conf"
    where "C = manager_conf (session_manager (company_orm (sessions_orm pf)) (fun_am session_field)) (sessions_moka pf)
     (max (market_capacity pf * 100) 100000) 600"
  have "write_behind C (\<lambda>co. row_sessions T (co_db co)) (update_view (fun_am session_field) session_field sess_id (\<lambda>_. True))"
    by (rule session_write_behind[OF lift am_ok_fun_am]) (simp_all add: C_def manager_conf_def mokas)
  then have wb: "write_behind (C\<lparr>observers := [session_observer pf]\<rparr>) (\<lambda>co. row_sessions T (co_db co))
      (update_view (fun_am session_field) session_field sess_id (\<lambda>_. True))"
  proof (rule write_behind_observers)
    show "ctx_safe (ob_on_flush ob)" if "ob \<in> set [session_observer pf]" for ob
      using that by (simp add: session_observer_def session_on_flush_frames)
    show "keeps (\<lambda>co. row_sessions T (co_db co)) (ob_on_flush_one ob k u)" if "ob \<in> set [session_observer pf]" for ob k u
      using that session_observer_moves(2) by (simp add: session_observer_def)
    show "pending (ctx_pool c') = pending (ctx_pool c) \<and>
        row_sessions T (co_db (ctx_backend c')) = row_sessions T (co_db (ctx_backend c)) \<and>
        unprocessed (ctx_iter c') = unprocessed (ctx_iter c)"
      if "ob \<in> set [session_observer pf]" "snd ` set (unprocessed (ctx_iter c)) \<subseteq> {None}" "ob_on_flush ob c = (r, c')" for ob c r c'
      using that session_on_flush_run[of c r c'] by (simp add: session_observer_def)
  qed
  show ?thesis
    unfolding session_conf_def C_def[symmetric]
    by (rule background_observers[OF wb]) (simp_all add: C_def session_observer_def keeps_def)
qed

lemma session_orm_framed: "orm_framed (session_moves T) (company_orm (sessions_orm pf))"
proof -
  have "session_moves T co (co\<lparr>co_db := d\<rparr>)"
    if "(row_products T d, row_inventory T d, row_orders T d) = (row_products T (co_db co), row_inventory T (co_db co), row_orders T (co_db co))"
    for co d
    using that by (simp add: session_moves_def same_def part_defs)
  then show ?thesis
    using sessions_apart unfolding orm_framed_def orm_apart_def company_orm_def lift_orm_def keeps_def
    by (simp add: framed_def on_part_eq then_map_eq) blast
qed

lemma session_framing: "store_framing (session_moves T) (session_conf pf)"
  unfolding session_conf_def
proof (rule store_framing_observers)
  show "store_framing (session_moves T) (manager_conf (session_manager (company_orm (sessions_orm pf)) (fun_am session_field))
     (sessions_moka pf) (max (market_capacity pf * 100) 100000) 600)"
    by (rule frame_rel.manager_framing(4)[OF frame_rel_session_moves session_orm_framed])
  show "framed (ctx_frame (session_moves T)) (ob_on_flush ob)" if "ob \<in> set [session_observer pf]" for ob
    using that session_on_flush_frames(2) by (simp add: session_observer_def)
  show "framed (session_moves T) (ob_on_flush_one ob k u)" if "ob \<in> set [session_observer pf]" for ob k u
    using that session_observer_moves(1) by (simp add: session_observer_def)
  show "framed (session_moves T) (ob_on_monitor_error ob e)" if "ob \<in> set [session_observer pf]" for ob e
    using that by (simp add: session_observer_def frame_rel.framed_basic[OF frame_rel_session_moves])
qed

end

end
