(* ===== verification/Actor.thy ===== *)
theory Actor
  imports Entities
begin

text \<open>
  The script and its performance: the steps of \<open>src/test/simulation/scriptwriter/steps.rs\<close> and the
  trait \<open>TestActor\<close> of \<open>src/test/simulation/actor.rs\<close> with its provided method \<open>act\<close>. An actor
  is a record of its methods over a state of its own; the database connection, which the methods
  take from the actor, is part of that state. Progress bars and log messages are left out.
\<close>

section \<open>Scripts\<close>

record script_title =
  title_period :: int
  title_products :: int
  title_market_capacity :: nat

record incoming_shipment =
  shipment_product_id :: int
  batch_size :: int

record inventory_check =
  check_product_id :: int
  check_stock :: int
  check_comment :: string

datatype step =
    Title script_title
  | Day int
  | AddProduct product
  | AddCustomer customer
  | AddOrder order
  | UpdateOrder order
  | AddSession session
  | UpdateSession session
  | CollectSessions
  | AddInventoryRecord inventory
  | AddStock incoming_shipment
  | ViewProduct int
  | CheckInventory inventory_check

section \<open>Actors\<close>

text \<open>
  \<open>ta_checkpoint\<close> is what happens before a step: nothing, or the checkpoint of the driver when
  more than five seconds have passed since the last one.
\<close>

record ('s, 'e) test_actor =
  ta_prelude :: "('s, 'e, unit) prog"
  ta_checkpoint :: "nat \<Rightarrow> ('s, 'e, unit) prog"
  ta_set_title :: "script_title \<Rightarrow> ('s, 'e, unit) prog"
  ta_set_current_day :: "int \<Rightarrow> ('s, 'e, unit) prog"
  ta_add_customer :: "customer \<Rightarrow> ('s, 'e, unit) prog"
  ta_add_inventory_record :: "inventory \<Rightarrow> ('s, 'e, unit) prog"
  ta_add_order :: "order \<Rightarrow> ('s, 'e, unit) prog"
  ta_add_product :: "product \<Rightarrow> ('s, 'e, unit) prog"
  ta_add_session :: "session \<Rightarrow> ('s, 'e, unit) prog"
  ta_check_inventory :: "int \<Rightarrow> int \<Rightarrow> string \<Rightarrow> ('s, 'e, unit) prog"
  ta_update_inventory_record :: "int \<Rightarrow> int \<Rightarrow> ('s, 'e, unit) prog"
  ta_collect_sessions :: "('s, 'e, unit) prog"
  ta_update_order :: "order \<Rightarrow> ('s, 'e, unit) prog"
  ta_update_product_view_count :: "int \<Rightarrow> ('s, 'e, unit) prog"
  ta_update_session :: "session \<Rightarrow> ('s, 'e, unit) prog"
  ta_step_complete :: "nat \<Rightarrow> ('s, 'e, unit) prog"
  ta_curtain_call :: "('s, 'e, unit) prog"

text \<open>The \<open>match\<close> of \<open>act\<close>.\<close>

definition perform :: "('s, 'e) test_actor \<Rightarrow> step \<Rightarrow> ('s, 'e, unit) prog" where
  "perform A st = (case st of
       Title title \<Rightarrow> ta_set_title A title
     | Day day \<Rightarrow> ta_set_current_day A day
     | AddProduct product \<Rightarrow> ta_add_product A product
     | AddInventoryRecord inventory_record \<Rightarrow> ta_add_inventory_record A inventory_record
     | AddCustomer customer \<Rightarrow> ta_add_customer A customer
     | AddOrder order \<Rightarrow> ta_add_order A order
     | AddStock shipment \<Rightarrow> ta_update_inventory_record A (shipment_product_id shipment) (batch_size shipment)
     | UpdateOrder order \<Rightarrow> ta_update_order A order
     | CheckInventory checkpoint \<Rightarrow> ta_check_inventory A (check_product_id checkpoint) (check_stock checkpoint)
         (check_comment checkpoint)
     | AddSession session \<Rightarrow> ta_add_session A session
     | UpdateSession session \<Rightarrow> ta_update_session A session
     | ViewProduct product_id \<Rightarrow> ta_update_product_view_count A product_id
     | CollectSessions \<Rightarrow> ta_collect_sessions A)"

text \<open>The error of a step is kept in \<open>err\<close>; that of a day leaves \<open>act\<close> at once.\<close>

definition attempt :: "('s, 'e, unit) prog \<Rightarrow> ('s, 'e, 'e option) prog" where
  "attempt m = (\<lambda>s. case m s of
       (Ok _, t) \<Rightarrow> (Ok None, t)
     | (Fail e, t) \<Rightarrow> (Ok (Some e), t)
     | (Panic msg, t) \<Rightarrow> (Panic msg, t)
     | (Wait, t) \<Rightarrow> (Wait, t))"

definition take_step :: "('s, 'e) test_actor \<Rightarrow> step \<Rightarrow> ('s, 'e, 'e option) prog" where
  "take_step A st = (case st of
       Day _ \<Rightarrow> bnd (perform A st) (\<lambda>_. ret None)
     | _ \<Rightarrow> attempt (perform A st))"

fun act_loop :: "('s, 'e) test_actor \<Rightarrow> 'e option \<Rightarrow> nat \<Rightarrow> nat \<Rightarrow> step list \<Rightarrow> ('s, 'e, unit) prog" where
  "act_loop A err post_steps step_num [] = ta_curtain_call A"
| "act_loop A err post_steps step_num (st # screenplay) = (case err of
       Some e \<Rightarrow>
         if post_steps < 10 then act_loop A err (post_steps + 1) (step_num + 1) screenplay
         else throw e
     | None \<Rightarrow>
         bnd (ta_checkpoint A step_num) (\<lambda>_.
         bnd (take_step A st) (\<lambda>err'.
         bnd (ta_step_complete A step_num) (\<lambda>_.
         act_loop A err' post_steps (step_num + 1) screenplay))))"

definition act :: "('s, 'e sim_error) test_actor \<Rightarrow> step list \<Rightarrow> ('s, 'e sim_error, unit) prog" where
  "act A screenplay =
     bnd (ta_prelude A) (\<lambda>_.
     case screenplay of
       Title _ # _ \<Rightarrow> act_loop A None 0 0 screenplay
     | _ \<Rightarrow> throw (SimMsg ''Screenplay must start with a title''))"

section \<open>What becomes of an error\<close>

text \<open>The steps of a part of the script, each of which succeeds.\<close>

fun steps_succeed :: "('s, 'e) test_actor \<Rightarrow> nat \<Rightarrow> step list \<Rightarrow> 's \<Rightarrow> 's \<Rightarrow> bool" where
  "steps_succeed A n [] s t \<longleftrightarrow> t = s"
| "steps_succeed A n (st # sts) s t \<longleftrightarrow> (\<exists>s1 s2 s3. ta_checkpoint A n s = (Ok (), s1) \<and> perform A st s1 = (Ok (), s2) \<and>
     ta_step_complete A n s2 = (Ok (), s3) \<and> steps_succeed A (n + 1) sts s3 t)"

lemma take_step_Ok: "perform A st s = (Ok (), t) \<Longrightarrow> take_step A st s = (Ok None, t)"
  by (cases st) (simp_all add: take_step_def attempt_def)

lemma act_loop_succeed:
  "steps_succeed A n pre s t \<Longrightarrow> act_loop A None k n (pre @ rest) s = act_loop A None k (n + length pre) rest t"
  by (induction pre arbitrary: n s) (auto simp: take_step_Ok)

lemma act_loop_error:
  "act_loop A (Some e) k n sts = (if length sts \<le> 10 - k then ta_curtain_call A else throw e)"
  by (induction sts arbitrary: k n) (auto simp: Suc_diff_le)

end
