(* ===== verification/Ledger.thy ===== *)
theory Ledger
  imports CompanyCaches Actor
begin

text \<open>
  What the company's operations come to: a ledger with the records of products, inventory, orders
  and sessions as plain maps, the orders noted as booked and the day. Each operation on the caches
  is shown to act on the ledger that the company holds.
\<close>

text \<open>A call that returns keeps \<open>I\<close>, whatever it returns.\<close>

definition returns_in :: "('s \<Rightarrow> bool) \<Rightarrow> ('s, 'e, 'a) prog \<Rightarrow> bool" where
  "returns_in I m \<longleftrightarrow> (\<forall>s r t. I s \<longrightarrow> m s = (r, t) \<longrightarrow> r \<noteq> Wait \<longrightarrow> I t)"

lemma returns_inI: "(\<And>s r t. I s \<Longrightarrow> m s = (r, t) \<Longrightarrow> r \<noteq> Wait \<Longrightarrow> I t) \<Longrightarrow> returns_in I m"
  by (auto simp: returns_in_def)

lemma returns_inD: "returns_in I m \<Longrightarrow> I s \<Longrightarrow> m s = (r, t) \<Longrightarrow> r \<noteq> Wait \<Longrightarrow> I t"
  by (auto simp: returns_in_def)

lemma returns_in_bnd:
  assumes "returns_in I m" "\<And>a. returns_in I (f a)"
  shows "returns_in I (bnd m f)"
proof (rule returns_inI)
  fix s r t assume s: "I s" "bnd m f s = (r, t)" "r \<noteq> Wait"
  obtain r1 s1 where m: "m s = (r1, s1)" by fastforce
  have "r1 \<noteq> Wait" using s m by auto
  from returns_inD[OF assms(1) s(1) m this] have "I s1" .
  then show "I t"
    using s m returns_inD[OF assms(2)] by (cases r1) auto
qed

section \<open>Calls of one cache\<close>

context background
begin

text \<open>A call that finds an error of the background task only takes it away.\<close>

lemma coherent_noted_error:
  "coherent C R vok s m \<Longrightarrow> error s = Some e \<Longrightarrow> coherent C R vok (s\<lparr>error := None\<rparr>) m"
  by (simp add: coherent_error)

lemma coherent_flush_any:
  assumes co: "coherent C R vok s m" and run: "flush C s = (r, t)" "r \<noteq> Wait"
  shows "coherent C R vok t m"
proof (cases "error s")
  case (Some e)
  with run show ?thesis using coherent_noted_error[OF co Some] by (simp add: error_first(5)[OF Some])
next
  case None
  from coherent_flush[OF co None orders run] show ?thesis by simp
qed

lemma coherent_insert_any:
  assumes co: "coherent C R vok s m" and run: "cache_insert C v s = (r, t)" "r \<noteq> Wait"
    and new: "R (backend s) (dc_primary_key_of (dc C) v) = None"
  shows "(\<exists>x. r = Ok x) \<and> coherent C R vok t (m(dc_primary_key_of (dc C) v \<mapsto> v)) \<or> (\<nexists>x. r = Ok x) \<and> coherent C R vok t m"
proof (cases "error s")
  case (Some e)
  with run show ?thesis using coherent_noted_error[OF co Some] by (auto simp: error_first(2)[OF Some])
next
  case None
  from coherent_insert[OF co None new run(1)] show ?thesis using run(2) by auto
qed

text \<open>A computation on an entry whose closure may move the backend within \<open>G\<close>'s view of it.\<close>

lemma compute_entry_via:
  assumes co: "coherent C R vok s m" and sf: "store_framing G C"
    and f: "\<And>t rf t'. coherent C R vok t m \<Longrightarrow> G (backend s) (backend t) \<Longrightarrow>
        f (map_option (entry_new k) (m k)) t = (rf, t') \<Longrightarrow> rf \<noteq> Wait \<Longrightarrow>
        t' = t\<lparr>backend := backend t'\<rparr> \<and> R (backend t') = R (backend t) \<and> Q rf (backend t') \<and>
        (\<forall>v. rf = Ok (Put v) \<longrightarrow> dc_primary_key_of (dc C) v = k)"
    and run: "compute_entry C k f s = (r, t)" "r \<noteq> Wait"
  shows "(\<exists>oper. r = Ok () \<and> Q (Ok oper) (backend t) \<and> coherent C R vok t (apply_op k oper m)) \<or>
    r \<noteq> Ok () \<and> coherent C R vok t m \<and>
      (G (backend s) (backend t) \<or> (\<exists>e. Q (Fail e) (backend t)) \<or> (\<exists>msg. Q (Panic msg) (backend t)))"
proof (cases "error s")
  case (Some e)
  then have "r = Fail e" "t = s\<lparr>error := None\<rparr>"
    using run(1) by (simp_all add: compute_entry_def error_first(7)[OF Some])
  moreover have "G (backend s) (backend s)" using sf by (simp add: store_framing_def frame_rel_def)
  ultimately show ?thesis using coherent_noted_error[OF co Some] by simp
next
  case None
  obtain r1 t1 where c: "get_and_try_compute_with_primary C k f s = (r1, t1)" by fastforce
  have r1: "r1 \<noteq> Wait" "t = t1" "r = Ok () \<longleftrightarrow> (\<exists>res. r1 = Ok res)"
    using run c entry_spec[OF co None, of k]
    by (cases r1; auto simp: compute_entry_def and_try_compute_with_def)+
  define P where "P = (\<lambda>t :: ('k, 'u, 'e, 'm, 'd) cache. G (backend s) (backend t))"
  have P1: "P t'" if "maybe_flush_one C k s = (x, t')" for x t'
    using framedD[OF store_framing.store_maybe_flush_one[OF sf] that] by (simp add: P_def)
  have P2: "P t'" if "P u" "current_entry C k e u = (x, t')" for e u x t'
    using framedD[OF store_framing.store_current_entry[OF sf] that(2)] that(1) sf
    unfolding P_def store_framing_def frame_rel_def by blast
  have cl: "u' = u\<lparr>backend := backend u'\<rparr> \<and> R (backend u') = R (backend u) \<and> Q rf (backend u') \<and>
      (\<forall>v. rf = Ok (Put v) \<longrightarrow> dc_primary_key_of (dc C) v = k)"
    if "coherent C R vok u m" "error u = None" "P u" "f (map_option (entry_new k) (m k)) u = (rf, u')" "rf \<noteq> Wait" for u rf u'
    by (rule f[OF that(1) _ that(4,5)]) (use that(3) in \<open>simp add: P_def\<close>)
  have "error t1 = None \<and> ((\<nexists>res. r1 = Ok res) \<and> coherent C R vok t1 m \<and>
       (P t1 \<or> (\<exists>e. r1 = Fail e \<and> Q (Fail e) (backend t1)) \<or> (\<exists>msg. r1 = Panic msg \<and> Q (Panic msg) (backend t1))) \<or>
     (\<exists>res oper. r1 = Ok res \<and> Q (Ok oper) (backend t1) \<and> coherent C R vok t1 (apply_op k oper m) \<and> outcome_ok k m oper res))"
    by (rule coherent_compute_via[where P = P and Q = Q and f = f, OF co None _ _ _ c r1(1)]) (use P1 P2 cl in blast)+
  then show ?thesis using r1(2,3) unfolding P_def by blast
qed

lemma coherent_insert_record:
  assumes "coherent C R vok s m" "insert_record C v s = (r, t)" "r \<noteq> Wait"
    and "R (backend s) (dc_primary_key_of (dc C) v) = None"
  shows "\<exists>m'. coherent C R vok t m' \<and> (r = Ok () \<and> m' = m(dc_primary_key_of (dc C) v \<mapsto> v) \<or> r \<noteq> Ok () \<and> m' = m)"
proof -
  obtain r1 t1 where c: "cache_insert C v s = (r1, t1)" by fastforce
  have "t = t1" "r1 \<noteq> Wait" "r = Ok () \<longleftrightarrow> (\<exists>x. r1 = Ok x)"
    using assms(2,3) c by (cases r1; auto simp: insert_record_def)+
  with coherent_insert_any[OF assms(1) c _ assms(4)] show ?thesis by auto
qed

lemma coherent_flush_cache:
  assumes "coherent C R vok s m" "flush_cache C s = (r, t)" "r \<noteq> Wait"
  shows "coherent C R vok t m"
proof -
  obtain r1 t1 where c: "flush C s = (r1, t1)" by fastforce
  have "t = t1" "r1 \<noteq> Wait" using assms(2,3) c by (cases r1; auto simp: flush_cache_def)+
  with coherent_flush_any[OF assms(1) c] show ?thesis by simp
qed

lemma coherent_get_any:
  assumes co: "coherent C R vok s m" and run: "cache_get C k s = (r, t)" "r \<noteq> Wait"
  shows "coherent C R vok t m \<and> (\<forall>x. r = Ok x \<longrightarrow> x = m k)"
proof (cases "error s")
  case (Some e)
  with run show ?thesis using coherent_noted_error[OF co Some] by (auto simp: error_first(1)[OF Some])
next
  case None
  from coherent_get[OF co None run] show ?thesis by simp
qed

lemma coherent_soft_flush:
  assumes "coherent C R vok s m" "soft_flush s = (r, t)"
  shows "coherent C R vok t m"
  using assms by (auto simp: soft_flush_eq coherent_def stored_ok_def split: option.splits if_splits)

lemma store_framing_any: "store_framing (\<lambda>_ _. True) C"
  by unfold_locales (simp_all add: framed_def ctx_frame_def)

lemma compute_entry_pure:
  assumes co: "coherent C R vok s m" and f: "\<And>t. f (map_option (entry_new k) (m k)) t = (g, t)"
    and keyed: "\<And>v. g = Ok (Put v) \<Longrightarrow> dc_primary_key_of (dc C) v = k"
    and run: "compute_entry C k f s = (r, t)" "r \<noteq> Wait"
  shows "(\<exists>oper. g = Ok oper \<and> r = Ok () \<and> coherent C R vok t (apply_op k oper m)) \<or> r \<noteq> Ok () \<and> coherent C R vok t m"
  using compute_entry_via[OF co store_framing_any, where Q = "\<lambda>rf _. rf = g" and f = f and k = k, OF _ run] f keyed by auto

end

text \<open>The closures of the company and the calls that run them stay within any relation.\<close>

context frame_rel
begin

lemma framed_i64_add [framed_intros]: "framed F (i64_add a b)"
  unfolding i64_add_def by (auto intro!: framed_intros)

lemma framed_closures [framed_intros]:
  "framed F (change_stock q en)" "framed F (count_view en')" "framed F (change_session upd es)"
  "framed F (expire_session day es)"
  unfolding change_stock_def count_view_def change_session_def expire_session_def
  by (auto intro!: framed_intros)

end

context framing
begin

lemma framed_records [framed_intros]:
  "(\<And>en. framed F (f en)) \<Longrightarrow> framed F (compute_entry C key f)"
  "framed F (insert_record C v)" "framed F (flush_cache C)"
  unfolding compute_entry_def insert_record_def flush_cache_def by (intro framed_intros; simp)+

end

context store_framing
begin

lemmas store_records = framed_records
lemmas store_closures = F.framed_closures

lemma store_soft_flush: "framed (\<lambda>s t. G (backend s) (backend t)) soft_flush"
  by (rule framedI) (auto simp: soft_flush_eq F_refl split: option.splits)

lemma store_monitor_wakes: "framed (\<lambda>s t. G (backend s) (backend t)) (monitor_wakes C w)"
proof -
  have fl: "framed (\<lambda>s t. G (backend s) (backend t)) (monitor_flush C)"
  proof (rule framedI)
    fix s
    obtain r t where f: "flush C s = (r, t)" by fastforce
    have st: "G (backend s) (backend t)" using framedD[OF framed_flush(3) f] .
    show "G (backend s) (backend (snd (monitor_flush C s)))"
    proof (cases r)
      case (Fail e)
      have "G (backend t) (backend (snd (event_on_monitor_error C e (t\<lparr>error := Some e\<rparr>))))"
        using framedD[OF framed_event_calls(2), of e "t\<lparr>error := Some e\<rparr>"] by (metis cache.select_convs(4) cache.update_convs(1) cache.surjective prod.collapse)
      with st F_trans show ?thesis by (simp add: monitor_flush_def f Fail)
    qed (use st in \<open>simp_all add: monitor_flush_def f\<close>)
  qed
  show ?thesis
    unfolding monitor_wakes_def monitor_round_def
    by (intro framed_intros F.framed_modify fl) (simp_all add: monitor_head_def F_refl)
qed

lemma store_monitor_step:
  assumes "monitor_step C s t"
  shows "G (backend s) (backend t)"
  using assms by cases (auto simp: monitor_head_def F_refl dest: framedD[OF store_monitor_wakes])

end

section \<open>The ledger\<close>

record ledger =
  lg_products :: "int \<rightharpoonup> product"
  lg_inventory :: "int \<rightharpoonup> inventory"
  lg_orders :: "128 word \<rightharpoonup> order"
  lg_sessions :: "int \<rightharpoonup> session"
  lg_booked :: "128 word \<rightharpoonup> order"
  lg_day :: int

text \<open>The company's books: all but the orders, and with them.\<close>

definition books_beside :: "('d, 't, 'm, 'b) platform \<Rightarrow> 'd tables \<Rightarrow> ledger \<Rightarrow> ('d, 'm, 'b) company \<Rightarrow> bool" where
  "books_beside pf T lg co \<longleftrightarrow> products_hold pf T co (lg_products lg) \<and> inventory_holds pf T co (lg_inventory lg) \<and>
     sessions_hold pf T co (lg_sessions lg) \<and> map_of (updated_from co) = lg_booked lg \<and> current_day co = lg_day lg"

definition books :: "('d, 't, 'm, 'b) platform \<Rightarrow> 'd tables \<Rightarrow> ledger \<Rightarrow> ('d, 'm, 'b) company \<Rightarrow> bool" where
  "books pf T lg co \<longleftrightarrow> books_beside pf T lg co \<and> orders_hold pf T co (lg_orders lg)"

text \<open>What the operations do to the ledger when they succeed; \<open>None\<close> where they have to fail.\<close>

definition post_stock :: "int \<Rightarrow> int \<Rightarrow> ledger \<Rightarrow> ledger option" where
  "post_stock product_id quantity lg = (case lg_inventory lg product_id of
       None \<Rightarrow> None
     | Some rec \<Rightarrow>
         if 0 \<le> inv_stock rec + quantity \<and> inv_stock rec + quantity < 2 ^ 63 then
           Some (lg\<lparr>lg_inventory := (lg_inventory lg)(product_id \<mapsto> rec\<lparr>inv_stock := inv_stock rec + quantity\<rparr>)\<rparr>)
         else None)"

definition note_order :: "order \<Rightarrow> ledger \<Rightarrow> ledger" where
  "note_order order lg = lg\<lparr>lg_booked := (lg_booked lg)(ord_id order \<mapsto> order)\<rparr>"

definition post_order :: "order \<Rightarrow> ledger \<Rightarrow> ledger option" where
  "post_order order lg = (if settled (ord_status order) then Some lg
     else if lg_booked lg (ord_id order) \<noteq> None then None
     else post_stock (ord_product_id order) (- ord_quantity order) (note_order order lg))"

text \<open>
  What the answer of the closure of \<open>update_order\<close> says of the books.
\<close>

definition order_change_done where
  "order_change_done pf T lg upd rf co \<longleftrightarrow> (case rf of
      Ok oper \<Rightarrow> (\<exists>old lg'. lg_orders lg (ord_id upd) = Some old \<and> oper = Put (old\<lparr>ord_status := ord_status upd\<rparr>) \<and>
        post_order upd lg = Some lg' \<and> books_beside pf T lg' co)
    | _ \<Rightarrow> books_beside pf T lg co \<or> books_beside pf T (note_order upd lg) co)"

context company_platform
begin

subsection \<open>From a cache to the books\<close>

lemma books_products:
  assumes b: "books pf T lg co" and run: "on_products p co = (r, co')"
    and fr: "framed (\<lambda>s t. same (\<lambda>d. (row_customers T d, row_inventory T d, row_orders T d, row_sessions T d)) (backend s) (backend t)) p"
    and co: "\<And>t. p (attach (co_db co) (product_cache co)) = (r, t) \<Longrightarrow> coherent (product_conf pf) (row_products T)
      (update_view (fun_am product_field) product_field prod_id (\<lambda>_. True)) t m"
  shows "books pf T (lg\<lparr>lg_products := m\<rparr>) co'"
proof -
  obtain t where t: "p (attach (co_db co) (product_cache co)) = (r, t)" "co' = co\<lparr>co_db := backend t, product_cache := detach t\<rparr>"
    using run unfolding on_cache_eq by blast
  have "products_hold pf T co' m" using co[OF t(1)] by (simp add: products_hold_def t(2))
  with b framedD[OF on_products_framed[OF fr] run] hold_cong(2-4)[of T co' co pf] show ?thesis
    by (simp add: books_def books_beside_def same_def noted_part_def)
qed

lemma beside_inventory:
  assumes b: "books_beside pf T lg co" and run: "on_inventory p co = (r, co')"
    and fr: "framed (\<lambda>s t. same (\<lambda>d. (row_customers T d, row_products T d, row_orders T d, row_sessions T d)) (backend s) (backend t)) p"
    and co: "\<And>t. p (attach (co_db co) (inv_rec_cache co)) = (r, t) \<Longrightarrow> coherent (inv_rec_conf pf) (row_inventory T)
      (update_view (fun_am inventory_field) inventory_field inv_product_id (\<lambda>_. True)) t m"
  shows "books_beside pf T (lg\<lparr>lg_inventory := m\<rparr>) co' \<and> order_part T co' = order_part T co"
proof -
  obtain t where t: "p (attach (co_db co) (inv_rec_cache co)) = (r, t)" "co' = co\<lparr>co_db := backend t, inv_rec_cache := detach t\<rparr>"
    using run unfolding on_cache_eq by blast
  have "inventory_holds pf T co' m" using co[OF t(1)] by (simp add: inventory_holds_def t(2))
  with b framedD[OF on_inventory_framed[OF fr] run] hold_cong(1,4)[of T co' co pf] show ?thesis
    by (simp add: books_beside_def same_def noted_part_def)
qed

lemma books_inventory:
  assumes "books pf T lg co" and "on_inventory p co = (r, co')"
    and "framed (\<lambda>s t. same (\<lambda>d. (row_customers T d, row_products T d, row_orders T d, row_sessions T d)) (backend s) (backend t)) p"
    and "\<And>t. p (attach (co_db co) (inv_rec_cache co)) = (r, t) \<Longrightarrow> coherent (inv_rec_conf pf) (row_inventory T)
      (update_view (fun_am inventory_field) inventory_field inv_product_id (\<lambda>_. True)) t m"
  shows "books pf T (lg\<lparr>lg_inventory := m\<rparr>) co'"
  using beside_inventory[OF _ assms(2-4), of lg] assms(1) hold_cong(3)[of T co' co pf] by (simp add: books_def)

lemma books_customers:
  assumes b: "books pf T lg co" and run: "on_customers p co = (r, co')"
    and fr: "framed (\<lambda>s t. same (\<lambda>d. (row_products T d, row_inventory T d, row_orders T d, row_sessions T d)) (backend s) (backend t)) p"
  shows "books pf T lg co'"
  using b framedD[OF on_customers_framed[OF fr] run] hold_cong[of T co' co pf]
  by (simp add: books_def books_beside_def same_def noted_part_def)

lemma beside_moved:
  "books_beside pf T lg co \<Longrightarrow> order_moves pf T co co1 \<Longrightarrow> books_beside pf T lg co1"
  using hold_cong(2,4)[of T co1 co pf] by (simp add: books_beside_def order_moves_def same_def noted_part_def)

lemma books_from_orders:
  assumes "books_beside pf T lg (backend t)"
    and "coherent (order_conf pf) (\<lambda>co. row_orders T (co_db co))
      (update_view (fun_am order_field) order_field ord_id (\<lambda>_. True)) t m"
  shows "books pf T (lg\<lparr>lg_orders := m\<rparr>) ((backend t)\<lparr>order_cache := detach t\<rparr>)"
proof -
  define co' where "co' = (backend t)\<lparr>order_cache := detach t\<rparr>"
  have "product_part T co' = product_part T (backend t)" "inventory_part T co' = inventory_part T (backend t)"
    "session_part T co' = session_part T (backend t)"
    by (simp_all add: part_defs co'_def)
  then show ?thesis
    using assms hold_cong(1,2,4)[of T co' "backend t" pf] unfolding co'_def
    by (simp add: books_def books_beside_def orders_hold_def coherent_attach_self)
qed

lemma books_orders:
  assumes b: "books pf T lg co" and run: "on_orders p co = (r, co')"
    and fr: "framed (\<lambda>s t. order_moves pf T (backend s) (backend t)) p"
    and co: "\<And>t. p (attach co (order_cache co)) = (r, t) \<Longrightarrow> coherent (order_conf pf) (\<lambda>co. row_orders T (co_db co))
      (update_view (fun_am order_field) order_field ord_id (\<lambda>_. True)) t m"
  shows "books pf T (lg\<lparr>lg_orders := m\<rparr>) co'"
proof -
  obtain t where t: "p (attach co (order_cache co)) = (r, t)" "co' = (backend t)\<lparr>order_cache := detach t\<rparr>"
    using run unfolding on_cache_eq by blast
  have "books_beside pf T lg (backend t)"
    by (rule beside_moved[of lg co]) (use b framedD[OF fr t(1)] in \<open>simp_all add: books_def\<close>)
  from books_from_orders[OF this co[OF t(1)]] t(2) show ?thesis by simp
qed

lemma books_sessions:
  assumes b: "books pf T lg co" and run: "on_sessions p co = (r, co')"
    and fr: "framed (\<lambda>s t. session_moves T (backend s) (backend t)) p"
    and co: "\<And>t. p (attach co (session_cache co)) = (r, t) \<Longrightarrow> coherent (session_conf pf) (\<lambda>co. row_sessions T (co_db co))
      (update_view (fun_am session_field) session_field sess_id (\<lambda>_. True)) t m"
  shows "books pf T (lg\<lparr>lg_sessions := m\<rparr>) co'"
proof -
  obtain t where t: "p (attach co (session_cache co)) = (r, t)" "co' = (backend t)\<lparr>session_cache := detach t\<rparr>"
    using run unfolding on_cache_eq by blast
  have mv: "session_moves T co (backend t)" using framedD[OF fr t(1)] by simp
  have "product_part T co' = product_part T (backend t)" "inventory_part T co' = inventory_part T (backend t)"
    "order_part T co' = order_part T (backend t)" "noted_part co' = noted_part (backend t)"
    by (simp_all add: part_defs t(2))
  moreover have "sessions_hold pf T co' m"
    using co[OF t(1)] unfolding sessions_hold_def t(2) by (simp add: coherent_attach_self)
  ultimately show ?thesis
    using b mv hold_cong(1-3)[of T co' "backend t" pf] hold_cong(1-3)[of T "backend t" co pf]
    by (simp add: books_def books_beside_def session_moves_def same_def noted_part_def)
qed

subsection \<open>The inventory\<close>

lemma change_stock_pure: "change_stock q en s = (fst (change_stock q en s0), s)"
  by (simp add: change_stock_def i64_add_def split: option.splits)

lemma change_stock_Ok:
  "fst (change_stock q en s) = Ok oper \<longleftrightarrow> (\<exists>e. en = Some e \<and> 0 \<le> inv_stock (entry_value e) + q \<and>
     inv_stock (entry_value e) + q < 2 ^ 63 \<and>
     oper = Put ((entry_value e)\<lparr>inv_stock := inv_stock (entry_value e) + q\<rparr>))"
  by (cases en) (auto simp: change_stock_def i64_add_def)

lemma beside_stock:
  assumes b: "books_beside pf T lg co" and run: "update_inventory_record pf k q co = (r, co')" "r \<noteq> Wait"
  shows "order_part T co' = order_part T co \<and>
    ((\<exists>lg'. r = Ok () \<and> post_stock k q lg = Some lg' \<and> books_beside pf T lg' co') \<or>
     r \<noteq> Ok () \<and> books_beside pf T lg co')"
proof -
  define p where "p = compute_entry (inv_rec_conf pf) k (change_stock q)"
  define s where "s = attach (co_db co) (inv_rec_cache co)"
  define m where "m = lg_inventory lg"
  obtain t where t: "p s = (r, t)" using run(1) unfolding update_inventory_record_def on_cache_eq p_def s_def by blast
  note bg = inventory_background
  define g :: "('b sim_error, inventory op) res" where "g = fst (change_stock q (map_option (entry_new k) (m k)) s)"
  have co: "coherent (inv_rec_conf pf) (row_inventory T) (update_view (fun_am inventory_field) inventory_field inv_product_id (\<lambda>_. True)) s m"
    using b by (simp add: books_beside_def inventory_holds_def s_def m_def)
  have pk: "dc_primary_key_of (dc (inv_rec_conf pf)) = inv_product_id"
    by (simp add: inv_rec_conf_def manager_conf_def inventory_manager_def)
  have keyed: "dc_primary_key_of (dc (inv_rec_conf pf)) v = k" if "g = Ok (Put v)" for v
    using that coherentD(3)[OF co] unfolding pk by (auto simp: g_def change_stock_Ok entry_new_def)
  have "(\<exists>oper. g = Ok oper \<and> r = Ok () \<and> coherent (inv_rec_conf pf) (row_inventory T)
      (update_view (fun_am inventory_field) inventory_field inv_product_id (\<lambda>_. True)) t (apply_op k oper m)) \<or>
    r \<noteq> Ok () \<and> coherent (inv_rec_conf pf) (row_inventory T)
      (update_view (fun_am inventory_field) inventory_field inv_product_id (\<lambda>_. True)) t m"
    by (rule background.compute_entry_pure[OF bg co _ keyed t[unfolded p_def] run(2)])
      (unfold g_def, rule change_stock_pure)
  then obtain m' where m': "coherent (inv_rec_conf pf) (row_inventory T)
      (update_view (fun_am inventory_field) inventory_field inv_product_id (\<lambda>_. True)) t m'"
    "r = Ok () \<and> post_stock k q lg = Some (lg\<lparr>lg_inventory := m'\<rparr>) \<or> r \<noteq> Ok () \<and> m' = m"
    by (auto simp: g_def change_stock_Ok post_stock_def apply_op_def m_def entry_new_def)
  have fr: "framed (\<lambda>s t. same (\<lambda>d. (row_customers T d, row_products T d, row_orders T d, row_sessions T d)) (backend s) (backend t)) p"
    unfolding p_def
    by (intro store_framing.store_records[OF inventory_framing] store_framing.store_closures[OF inventory_framing])
  have "books_beside pf T (lg\<lparr>lg_inventory := m'\<rparr>) co' \<and> order_part T co' = order_part T co"
    by (rule beside_inventory[OF b _ fr]) (use run(1) t m'(1) in \<open>simp_all add: update_inventory_record_def p_def[symmetric] s_def\<close>)
  with m'(2) show ?thesis by (auto simp: m_def)
qed

lemma beside_update_inventory:
  assumes b: "books_beside pf T lg co" and run: "update_inventory pf order co = (r, co')" "r \<noteq> Wait"
  shows "order_part T co' = order_part T co \<and>
    ((\<exists>lg'. r = Ok () \<and> post_order order lg = Some lg' \<and> books_beside pf T lg' co') \<or>
     r \<noteq> Ok () \<and> (books_beside pf T lg co' \<or> books_beside pf T (note_order order lg) co'))"
proof -
  have noted: "map_of (updated_from co) = lg_booked lg" using b by (simp add: books_beside_def)
  show ?thesis
  proof (cases "settled (ord_status order) \<or> lg_booked lg (ord_id order) \<noteq> None")
    case True
    then show ?thesis using run(1) noted b by (auto simp: update_inventory_def post_order_def split: if_splits)
  next
    case False
    define co1 where "co1 = co\<lparr>updated_from := hm_insert (ord_id order) order (updated_from co)\<rparr>"
    have parts: "product_part T co1 = product_part T co" "inventory_part T co1 = inventory_part T co"
      "session_part T co1 = session_part T co" "order_part T co1 = order_part T co" "current_day co1 = current_day co"
      by (simp_all add: co1_def part_defs)
    have b1: "books_beside pf T (note_order order lg) co1"
      using b hold_cong(1)[OF parts(1), of pf] hold_cong(2)[OF parts(2), of pf] hold_cong(4)[OF parts(3), of pf] parts(5)
      by (simp add: books_beside_def note_order_def) (simp add: co1_def)
    have "update_inventory_record pf (ord_product_id order) (- ord_quantity order) co1 = (r, co')"
      using run(1) False noted by (simp add: update_inventory_def co1_def)
    from beside_stock[OF b1 this run(2)] False parts(4) show ?thesis by (auto simp: post_order_def)
  qed
qed

subsection \<open>Orders\<close>

lemma order_pk: "dc_primary_key_of (dc (order_conf pf)) = ord_id"
  by (simp add: order_conf_def manager_conf_def order_manager_def)

lemma change_order_closure:
  fixes u :: "('b, 'm, ('d, 'm, 'b) company) order_store" and upd :: order
  defines "k \<equiv> ord_id upd"
  assumes bs: "books_beside pf T lg (backend u)" and pk: "\<And>old. lg_orders lg k = Some old \<Longrightarrow> ord_id old = k"
    and run: "change_order pf upd (map_option (entry_new k) (lg_orders lg k)) u = (rf, t)" "rf \<noteq> Wait"
  shows "t = u\<lparr>backend := backend t\<rparr> \<and> row_orders T (co_db (backend t)) = row_orders T (co_db (backend u)) \<and>
    order_change_done pf T lg upd rf (backend t) \<and> (\<forall>v. rf = Ok (Put v) \<longrightarrow> ord_id v = k)"
proof (cases "lg_orders lg k")
  case None
  then show ?thesis using run bs by (auto simp: change_order_def order_change_done_def)
next
  case (Some old)
  obtain r1 co1 where up: "update_inventory pf upd (backend u) = (r1, co1)" by fastforce
  have r1: "r1 \<noteq> Wait" using run up Some by (auto simp: change_order_def)
  have "t = u\<lparr>backend := co1\<rparr>"
    "rf = (case r1 of Ok _ \<Rightarrow> Ok (Put (old\<lparr>ord_status := ord_status upd\<rparr>)) | Fail e \<Rightarrow> Fail e | Panic msg \<Rightarrow> Panic msg | Wait \<Rightarrow> Wait)"
    using run(1) up Some by (cases r1; simp add: change_order_def on_backend_def entry_new_def)+
  with beside_update_inventory[OF bs up r1] Some pk[OF Some] show ?thesis
    by (cases r1) (auto simp: order_change_done_def order_part_def k_def)
qed

lemma update_order_books:
  assumes b: "books pf T lg co" and run: "update_order pf upd co = (r, co')" "r \<noteq> Wait"
  shows "(\<exists>old lg'. r = Ok () \<and> lg_orders lg (ord_id upd) = Some old \<and> post_order upd lg = Some lg' \<and>
      books pf T (lg'\<lparr>lg_orders := (lg_orders lg)(ord_id upd \<mapsto> old\<lparr>ord_status := ord_status upd\<rparr>)\<rparr>) co') \<or>
    r \<noteq> Ok () \<and> (books pf T lg co' \<or> books pf T (note_order upd lg) co')"
proof -
  define k where "k = ord_id upd"
  define m where "m = lg_orders lg"
  define s where "s = attach co (order_cache co)"
  define H where "H = coherent (order_conf pf) (\<lambda>co. row_orders T (co_db co)) (update_view (fun_am order_field) order_field ord_id (\<lambda>_. True))"
  have co: "H s m" and bs: "books_beside pf T lg (backend s)"
    using b by (simp_all add: books_def orders_hold_def s_def m_def H_def)
  obtain t where t: "compute_entry (order_conf pf) k (change_order pf upd) s = (r, t)" "co' = (backend t)\<lparr>order_cache := detach t\<rparr>"
    using run(1) unfolding update_order_def on_cache_eq k_def s_def by blast
  have "(\<exists>oper. r = Ok () \<and> order_change_done pf T lg upd (Ok oper :: ('b sim_error, order op) res) (backend t) \<and> H t (apply_op k oper m)) \<or>
    r \<noteq> Ok () \<and> H t m \<and> (order_moves pf T (backend s) (backend t) \<or> (\<exists>e. order_change_done pf T lg upd (Fail e :: ('b sim_error, order op) res) (backend t)) \<or>
      (\<exists>msg. order_change_done pf T lg upd (Panic msg :: ('b sim_error, order op) res) (backend t)))"
    unfolding H_def
  proof (rule background.compute_entry_via[where Q = "order_change_done pf T lg upd", OF orders_background co[unfolded H_def] order_framing _ t(1) run(2)])
    fix u :: "('b, 'm, ('d, 'm, 'b) company) order_store" and rf t'
    assume u: "order_moves pf T (backend s) (backend u)" "rf \<noteq> Wait"
      "change_order pf upd (map_option (entry_new k) (m k)) u = (rf, t')"
    have keyed: "ord_id old = ord_id upd" if "lg_orders lg (ord_id upd) = Some old" for old
      using coherentD(3)[OF co[unfolded H_def]] that by (simp add: order_pk m_def)
    show "t' = u\<lparr>backend := backend t'\<rparr> \<and> row_orders T (co_db (backend t')) = row_orders T (co_db (backend u)) \<and>
        order_change_done pf T lg upd rf (backend t') \<and> (\<forall>v. rf = Ok (Put v) \<longrightarrow> dc_primary_key_of (dc (order_conf pf)) v = k)"
      unfolding order_pk k_def
      by (rule change_order_closure[OF beside_moved[OF bs u(1)] keyed u(3)[unfolded k_def m_def] u(2)])
  qed
  then consider old lg' where "r = Ok ()" "m k = Some old" "post_order upd lg = Some lg'" "books_beside pf T lg' (backend t)"
      "H t (m(k \<mapsto> old\<lparr>ord_status := ord_status upd\<rparr>))"
    | lg1 where "r \<noteq> Ok ()" "H t m" "lg1 = lg \<or> lg1 = note_order upd lg" "books_beside pf T lg1 (backend t)"
    using beside_moved[OF bs] by (fastforce simp: order_change_done_def apply_op_def m_def k_def)
  then show ?thesis
  proof cases
    case 1
    then show ?thesis using books_from_orders[of lg' t] t(2) unfolding H_def k_def m_def by blast
  next
    case 2
    have "lg1\<lparr>lg_orders := m\<rparr> = lg1" using 2(3) by (auto simp: m_def note_order_def)
    with 2 books_from_orders[OF 2(4) 2(2)[unfolded H_def]] show ?thesis by (auto simp: t(2))
  qed
qed

lemma add_order_books:
  assumes b: "books pf T lg co" and run: "add_order pf order co = (r, co')" "r \<noteq> Wait"
    and new: "row_orders T (co_db co) (ord_id order) = None"
  shows "(\<exists>lg'. r = Ok () \<and> post_order order lg = Some lg' \<and> books pf T (lg'\<lparr>lg_orders :=
      (lg_orders lg)(ord_id order \<mapsto> order\<lparr>ord_purchased_on := lg_day lg\<rparr>)\<rparr>) co') \<or>
    r \<noteq> Ok () \<and> (\<exists>lg'. (lg' = lg \<or> lg' = note_order order lg \<or> post_order order lg = Some lg') \<and> books pf T lg' co')"
proof -
  define v where "v = order\<lparr>ord_purchased_on := current_day co\<rparr>"
  obtain r1 co1 where up: "update_inventory pf order co = (r1, co1)" by fastforce
  have r1: "r1 \<noteq> Wait" using run up by (auto simp: add_order_def)
  have bs: "books_beside pf T lg co" using b by (simp add: books_def)
  note up1 = beside_update_inventory[OF bs up r1]
  have part: "order_part T co1 = order_part T co" using up1 by blast
  have whole: "books pf T lg1 co1" if "books_beside pf T lg1 co1" "lg_orders lg1 = lg_orders lg" for lg1
    using that b hold_cong(3)[OF part, of pf] by (simp add: books_def)
  show ?thesis
  proof (cases "r1 = Ok ()")
    case False
    then have "r \<noteq> Ok ()" "co' = co1" using run up r1 by (cases r1; auto simp: add_order_def)+
    then show ?thesis using up1 whole[of lg] whole[of "note_order order lg"] False by (auto simp: note_order_def)
  next
    case True
    then obtain lg1 where lg1: "post_order order lg = Some lg1" "books_beside pf T lg1 co1" using up1 by blast
    have keep: "lg_orders lg1 = lg_orders lg" "lg_day lg1 = lg_day lg"
      using lg1(1) by (auto simp: post_order_def post_stock_def note_order_def split: if_splits option.splits)
    have day: "current_day co1 = lg_day lg" using lg1(2) keep(2) by (simp add: books_beside_def)
    define w where "w = order\<lparr>ord_purchased_on := lg_day lg\<rparr>"
    define p where "p = insert_record (order_conf pf) w"
    have run2: "on_orders p co1 = (r, co')" using run(1) up True day by (simp add: add_order_def p_def w_def)
    then obtain t where t: "p (attach co1 (order_cache co1)) = (r, t)" unfolding on_cache_eq by blast
    have "row_orders T (co_db co1) (ord_id w) = None" using new part by (simp add: order_part_def w_def)
    with background.coherent_insert_record[OF orders_background _ t[unfolded p_def] run(2), of "lg_orders lg"]
    obtain m' where m': "coherent (order_conf pf) (\<lambda>co. row_orders T (co_db co)) (update_view (fun_am order_field) order_field ord_id (\<lambda>_. True)) t m'"
      "r = Ok () \<and> m' = (lg_orders lg)(ord_id order \<mapsto> w) \<or> r \<noteq> Ok () \<and> m' = lg_orders lg"
      using whole[OF lg1(2) keep(1)] by (auto simp: books_def orders_hold_def keep order_pk w_def)
    have "books pf T (lg1\<lparr>lg_orders := m'\<rparr>) co'"
      by (rule books_orders[OF whole[OF lg1(2) keep(1)] run2])
        (use t m'(1) store_framing.store_records(2)[OF order_framing] in \<open>simp_all add: p_def\<close>)
    moreover have "lg1\<lparr>lg_orders := lg_orders lg\<rparr> = lg1" using keep(1) by simp
    ultimately show ?thesis using m'(2) lg1(1) by (auto simp: w_def)
  qed
qed

subsection \<open>Products, inventory records and sessions\<close>

lemma flush_products_books:
  assumes b: "books pf T lg co" and run: "on_products (flush_cache (product_conf pf)) co = (r, co')" "r \<noteq> Wait"
  shows "books pf T lg co'"
proof -
  have "books pf T (lg\<lparr>lg_products := lg_products lg\<rparr>) co'"
    by (rule books_products[OF b run(1) store_framing.store_records(3)[OF product_framing]],
        rule background.coherent_flush_cache[OF products_background])
      (use b run(2) in \<open>auto simp: books_def books_beside_def products_hold_def\<close>)
  then show ?thesis by simp
qed

lemma add_product_books:
  assumes b: "books pf T lg co" and run: "add_product pf v co = (r, co')" "r \<noteq> Wait"
    and new: "row_products T (co_db co) (prod_id v) = None"
  shows "r = Ok () \<and> books pf T (lg\<lparr>lg_products := (lg_products lg)(prod_id v \<mapsto> v)\<rparr>) co' \<or> r \<noteq> Ok () \<and> books pf T lg co'"
proof -
  define p where "p = insert_record (product_conf pf) v"
  have run2: "on_products p co = (r, co')" using run(1) by (simp add: add_product_def p_def)
  then obtain t where t: "p (attach (co_db co) (product_cache co)) = (r, t)" unfolding on_cache_eq by blast
  have pk: "dc_primary_key_of (dc (product_conf pf)) = prod_id"
    by (simp add: product_conf_def manager_conf_def product_manager_def)
  from background.coherent_insert_record[OF products_background _ t[unfolded p_def] run(2), of "lg_products lg"]
  obtain m' where m': "coherent (product_conf pf) (row_products T) (update_view (fun_am product_field) product_field prod_id (\<lambda>_. True)) t m'"
    "r = Ok () \<and> m' = (lg_products lg)(prod_id v \<mapsto> v) \<or> r \<noteq> Ok () \<and> m' = lg_products lg"
    using b new by (auto simp: books_def books_beside_def products_hold_def pk)
  have "books pf T (lg\<lparr>lg_products := m'\<rparr>) co'"
    by (rule books_products[OF b run2])
      (use t m'(1) store_framing.store_records(2)[OF product_framing] in \<open>simp_all add: p_def\<close>)
  with m'(2) show ?thesis by auto
qed

lemma add_inventory_books:
  assumes b: "books pf T lg co" and run: "add_inventory_record pf v co = (r, co')" "r \<noteq> Wait"
    and new: "row_inventory T (co_db co) (inv_product_id v) = None"
  shows "r = Ok () \<and> books pf T (lg\<lparr>lg_inventory := (lg_inventory lg)(inv_product_id v \<mapsto> v)\<rparr>) co' \<or> r \<noteq> Ok () \<and> books pf T lg co'"
proof -
  obtain r1 co1 where fl: "on_products (flush_cache (product_conf pf)) co = (r1, co1)" by fastforce
  have r1: "r1 \<noteq> Wait" using run fl by (auto simp: add_inventory_record_def)
  note b1 = flush_products_books[OF b fl r1]
  have part: "inventory_part T co1 = inventory_part T co"
    using framedD[OF on_products_framed[OF store_framing.store_records(3)[OF product_framing]] fl] by (simp add: same_def)
  show ?thesis
  proof (cases "r1 = Ok ()")
    case False
    then have "r \<noteq> Ok ()" "co' = co1" using run fl r1 by (cases r1; auto simp: add_inventory_record_def)+
    then show ?thesis using b1 by simp
  next
    case True
    define p where "p = insert_record (inv_rec_conf pf) v"
    have run2: "on_inventory p co1 = (r, co')" using run(1) fl True by (simp add: add_inventory_record_def p_def)
    then obtain t where t: "p (attach (co_db co1) (inv_rec_cache co1)) = (r, t)" unfolding on_cache_eq by blast
    have pk: "dc_primary_key_of (dc (inv_rec_conf pf)) = inv_product_id"
      by (simp add: inv_rec_conf_def manager_conf_def inventory_manager_def)
    from background.coherent_insert_record[OF inventory_background _ t[unfolded p_def] run(2), of "lg_inventory lg"]
    obtain m' where m': "coherent (inv_rec_conf pf) (row_inventory T) (update_view (fun_am inventory_field) inventory_field inv_product_id (\<lambda>_. True)) t m'"
      "r = Ok () \<and> m' = (lg_inventory lg)(inv_product_id v \<mapsto> v) \<or> r \<noteq> Ok () \<and> m' = lg_inventory lg"
      using b1 new part by (auto simp: books_def books_beside_def inventory_holds_def pk inventory_part_def)
    have "books pf T (lg\<lparr>lg_inventory := m'\<rparr>) co'"
      by (rule books_inventory[OF b1 run2])
        (use t m'(1) store_framing.store_records(2)[OF inventory_framing] in \<open>simp_all add: p_def\<close>)
    with m'(2) show ?thesis by auto
  qed
qed

lemma add_session_books:
  assumes b: "books pf T lg co" and run: "add_session pf v co = (r, co')" "r \<noteq> Wait"
    and new: "row_sessions T (co_db co) (sess_id v) = None"
  shows "r = Ok () \<and> books pf T (lg\<lparr>lg_sessions := (lg_sessions lg)(sess_id v \<mapsto> v)\<rparr>) co' \<or> r \<noteq> Ok () \<and> books pf T lg co'"
proof -
  define p where "p = insert_record (session_conf pf) v"
  have run2: "on_sessions p co = (r, co')" using run(1) by (simp add: add_session_def p_def)
  then obtain t where t: "p (attach co (session_cache co)) = (r, t)" unfolding on_cache_eq by blast
  have pk: "dc_primary_key_of (dc (session_conf pf)) = sess_id"
    by (simp add: session_conf_def manager_conf_def session_manager_def)
  from background.coherent_insert_record[OF sessions_background _ t[unfolded p_def] run(2), of "lg_sessions lg"]
  obtain m' where m': "coherent (session_conf pf) (\<lambda>co. row_sessions T (co_db co)) (update_view (fun_am session_field) session_field sess_id (\<lambda>_. True)) t m'"
    "r = Ok () \<and> m' = (lg_sessions lg)(sess_id v \<mapsto> v) \<or> r \<noteq> Ok () \<and> m' = lg_sessions lg"
    using b new by (auto simp: books_def books_beside_def sessions_hold_def pk)
  have "books pf T (lg\<lparr>lg_sessions := m'\<rparr>) co'"
    by (rule books_sessions[OF b run2])
      (use t m'(1) store_framing.store_records(2)[OF session_framing] in \<open>simp_all add: p_def\<close>)
  with m'(2) show ?thesis by auto
qed

text \<open>Changes of a product and of a session.\<close>

lemma view_product_books:
  assumes b: "books pf T lg co" and run: "update_product_view_count pf k co = (r, co')" "r \<noteq> Wait"
  shows "(\<exists>v. r = Ok () \<and> lg_products lg k = Some v \<and> - (2 ^ 63) \<le> prod_views v + 1 \<and> prod_views v + 1 < 2 ^ 63 \<and>
      books pf T (lg\<lparr>lg_products := (lg_products lg)(k \<mapsto> v\<lparr>prod_views := prod_views v + 1\<rparr>)\<rparr>) co') \<or>
    r \<noteq> Ok () \<and> books pf T lg co'"
proof -
  define m where "m = lg_products lg"
  define p where "p = compute_entry (product_conf pf) k count_view"
  define s where "s = attach (co_db co) (product_cache co)"
  have run2: "on_products p co = (r, co')" using run(1) by (simp add: update_product_view_count_def p_def)
  then obtain t where t: "p s = (r, t)" unfolding on_cache_eq s_def by blast
  define g :: "('b sim_error, product op) res" where "g = fst (count_view (map_option (entry_new k) (m k)) s)"
  have co: "coherent (product_conf pf) (row_products T) (update_view (fun_am product_field) product_field prod_id (\<lambda>_. True)) s m"
    using b by (simp add: books_def books_beside_def products_hold_def s_def m_def)
  have pk: "dc_primary_key_of (dc (product_conf pf)) = prod_id"
    by (simp add: product_conf_def manager_conf_def product_manager_def)
  have g: "g = Ok oper \<longleftrightarrow> (\<exists>v. m k = Some v \<and> - (2 ^ 63) \<le> prod_views v + 1 \<and> prod_views v + 1 < 2 ^ 63 \<and>
      oper = Put (v\<lparr>prod_views := prod_views v + 1\<rparr>))" for oper
    by (cases "m k") (auto simp: g_def count_view_def i64_add_def entry_new_def)
  have pure: "count_view (map_option (entry_new k) (m k)) u = (g, u)" for u
    by (cases "m k") (auto simp: g_def count_view_def i64_add_def)
  have "(\<exists>oper. g = Ok oper \<and> r = Ok () \<and> coherent (product_conf pf) (row_products T)
      (update_view (fun_am product_field) product_field prod_id (\<lambda>_. True)) t (apply_op k oper m)) \<or>
    r \<noteq> Ok () \<and> coherent (product_conf pf) (row_products T)
      (update_view (fun_am product_field) product_field prod_id (\<lambda>_. True)) t m"
    by (rule background.compute_entry_pure[OF products_background co pure _ t[unfolded p_def] run(2)])
      (use coherentD(3)[OF co] in \<open>auto simp: g pk\<close>)
  then obtain m' where m': "coherent (product_conf pf) (row_products T)
      (update_view (fun_am product_field) product_field prod_id (\<lambda>_. True)) t m'"
    "(\<exists>v. r = Ok () \<and> m k = Some v \<and> - (2 ^ 63) \<le> prod_views v + 1 \<and> prod_views v + 1 < 2 ^ 63 \<and>
       m' = m(k \<mapsto> v\<lparr>prod_views := prod_views v + 1\<rparr>)) \<or> r \<noteq> Ok () \<and> m' = m"
    by (auto simp: g apply_op_def)
  have fr: "framed (\<lambda>s t. same (\<lambda>d. (row_customers T d, row_inventory T d, row_orders T d, row_sessions T d)) (backend s) (backend t)) p"
    unfolding p_def
    by (intro store_framing.store_records[OF product_framing] store_framing.store_closures[OF product_framing])
  have "books pf T (lg\<lparr>lg_products := m'\<rparr>) co'"
    by (rule books_products[OF b run2 fr]) (use t m'(1) in \<open>simp_all add: s_def\<close>)
  with m'(2) show ?thesis by (auto simp: m_def)
qed

lemma update_session_books:
  assumes b: "books pf T lg co" and run: "update_session pf upd co = (r, co')" "r \<noteq> Wait"
  shows "(\<exists>v. r = Ok () \<and> lg_sessions lg (sess_id upd) = Some v \<and> books pf T (lg\<lparr>lg_sessions := (lg_sessions lg)(sess_id upd \<mapsto>
      v\<lparr>sess_customer_id := sess_customer_id upd, sess_expires_on := sess_expires_on upd\<rparr>)\<rparr>) co') \<or>
    r \<noteq> Ok () \<and> books pf T lg co'"
proof -
  define k where "k = sess_id upd"
  define m where "m = lg_sessions lg"
  define p where "p = compute_entry (session_conf pf) k (change_session upd)"
  define s where "s = attach co (session_cache co)"
  have run2: "on_sessions p co = (r, co')" using run(1) by (simp add: update_session_def p_def k_def)
  then obtain t where t: "p s = (r, t)" unfolding on_cache_eq s_def by blast
  define g :: "('b sim_error, session op) res" where "g = fst (change_session upd (map_option (entry_new k) (m k)) s)"
  have co: "coherent (session_conf pf) (\<lambda>co. row_sessions T (co_db co)) (update_view (fun_am session_field) session_field sess_id (\<lambda>_. True)) s m"
    using b by (simp add: books_def books_beside_def sessions_hold_def s_def m_def)
  have pk: "dc_primary_key_of (dc (session_conf pf)) = sess_id"
    by (simp add: session_conf_def manager_conf_def session_manager_def)
  have g: "g = Ok oper \<longleftrightarrow> (\<exists>v. m k = Some v \<and>
      oper = Put (v\<lparr>sess_customer_id := sess_customer_id upd, sess_expires_on := sess_expires_on upd\<rparr>))" for oper
    by (cases "m k") (auto simp: g_def change_session_def entry_new_def)
  have pure: "change_session upd (map_option (entry_new k) (m k)) u = (g, u)" for u
    by (cases "m k") (auto simp: g_def change_session_def)
  have "(\<exists>oper. g = Ok oper \<and> r = Ok () \<and> coherent (session_conf pf) (\<lambda>co. row_sessions T (co_db co))
      (update_view (fun_am session_field) session_field sess_id (\<lambda>_. True)) t (apply_op k oper m)) \<or>
    r \<noteq> Ok () \<and> coherent (session_conf pf) (\<lambda>co. row_sessions T (co_db co))
      (update_view (fun_am session_field) session_field sess_id (\<lambda>_. True)) t m"
    by (rule background.compute_entry_pure[OF sessions_background co pure _ t[unfolded p_def] run(2)])
      (use coherentD(3)[OF co] in \<open>auto simp: g pk\<close>)
  then obtain m' where m': "coherent (session_conf pf) (\<lambda>co. row_sessions T (co_db co))
      (update_view (fun_am session_field) session_field sess_id (\<lambda>_. True)) t m'"
    "(\<exists>v. r = Ok () \<and> m k = Some v \<and>
       m' = m(k \<mapsto> v\<lparr>sess_customer_id := sess_customer_id upd, sess_expires_on := sess_expires_on upd\<rparr>)) \<or> r \<noteq> Ok () \<and> m' = m"
    by (auto simp: g apply_op_def)
  have fr: "framed (\<lambda>s t. session_moves T (backend s) (backend t)) p"
    unfolding p_def
    by (intro store_framing.store_records[OF session_framing] store_framing.store_closures[OF session_framing])
  have "books pf T (lg\<lparr>lg_sessions := m'\<rparr>) co'"
    by (rule books_sessions[OF b run2 fr]) (use t m'(1) in \<open>simp_all add: s_def\<close>)
  with m'(2) show ?thesis by (auto simp: m_def k_def)
qed

lemma check_inventory_books:
  assumes b: "books pf T lg co" and run: "check_inventory pf k n co = (r, co')" "r \<noteq> Wait"
  shows "books pf T lg co' \<and> (r = Ok () \<longrightarrow> (\<exists>v. lg_inventory lg k = Some v \<and> inv_stock v = n))"
proof -
  define p where "p = cache_get (inv_rec_conf pf) k"
  obtain x co1 where g: "on_inventory p co = (x, co1)" by fastforce
  then obtain t where t: "p (attach (co_db co) (inv_rec_cache co)) = (x, t)" unfolding on_cache_eq by blast
  have x: "x \<noteq> Wait" using run g by (auto simp: check_inventory_def p_def)
  have co: "coherent (inv_rec_conf pf) (row_inventory T) (update_view (fun_am inventory_field) inventory_field inv_product_id (\<lambda>_. True))
      (attach (co_db co) (inv_rec_cache co)) (lg_inventory lg)"
    using b by (simp add: books_def books_beside_def inventory_holds_def)
  note got = background.coherent_get_any[OF inventory_background co t[unfolded p_def] x]
  have "books pf T (lg\<lparr>lg_inventory := lg_inventory lg\<rparr>) co1"
    by (rule books_inventory[OF b g])
      (use t got store_framing.store_get[OF inventory_framing] in \<open>simp_all add: p_def\<close>)
  then have b1: "books pf T lg co1" by simp
  have b2: "books pf T lg (co1\<lparr>inv_check_no := n1\<rparr>)" for n1
    using b1 hold_cong[of T "co1\<lparr>inv_check_no := n1\<rparr>" co1 pf] by (simp add: books_def books_beside_def part_defs)
  show ?thesis
    using run g got b1 b2 x
    by (cases x) (auto simp: check_inventory_def p_def[symmetric] inv_rec_compare_def split: option.splits if_splits)
qed

subsection \<open>Customers, days and turns\<close>

lemma customers_call_books:
  assumes "books pf T lg co" "on_customers p co = (r, co')"
    and "p = insert_record (customer_conf pf) v \<or> p = flush_cache (customer_conf pf)"
  shows "books pf T lg co'"
  by (rule books_customers[OF assms(1,2)]) (use assms(3) store_framing.store_records(2,3)[OF customer_framing] in auto)

lemma flush_inventory_books:
  assumes b: "books pf T lg co" and run: "on_inventory (flush_cache (inv_rec_conf pf)) co = (r, co')" "r \<noteq> Wait"
  shows "books pf T lg co'"
proof -
  have "books pf T (lg\<lparr>lg_inventory := lg_inventory lg\<rparr>) co'"
    by (rule books_inventory[OF b run(1) store_framing.store_records(3)[OF inventory_framing]],
        rule background.coherent_flush_cache[OF inventory_background])
      (use b run(2) in \<open>auto simp: books_def books_beside_def inventory_holds_def\<close>)
  then show ?thesis by simp
qed

lemma soft_flush_books:
  assumes b: "books pf T lg co"
  shows "on_sessions soft_flush co = (r, co') \<Longrightarrow> books pf T lg co'" "on_orders soft_flush co = (r, co') \<Longrightarrow> books pf T lg co'"
proof -
  assume run: "on_sessions soft_flush co = (r, co')"
  have "books pf T (lg\<lparr>lg_sessions := lg_sessions lg\<rparr>) co'"
    by (rule books_sessions[OF b run store_framing.store_soft_flush[OF session_framing]],
        rule background.coherent_soft_flush[OF sessions_background])
      (use b in \<open>auto simp: books_def books_beside_def sessions_hold_def\<close>)
  then show "books pf T lg co'" by simp
next
  assume run: "on_orders soft_flush co = (r, co')"
  have "books pf T (lg\<lparr>lg_orders := lg_orders lg\<rparr>) co'"
    by (rule books_orders[OF b run store_framing.store_soft_flush[OF order_framing]],
        rule background.coherent_soft_flush[OF orders_background])
      (use b in \<open>auto simp: books_def orders_hold_def\<close>)
  then show "books pf T lg co'" by simp
qed

lemma set_current_day_books:
  assumes b: "books pf T lg co" and run: "set_current_day pf day co = (r, co')" "r \<noteq> Wait"
  shows "r = Ok () \<and> books pf T (lg\<lparr>lg_day := day\<rparr>) co' \<or>
    r \<noteq> Ok () \<and> (books pf T lg co' \<or> books pf T (lg\<lparr>lg_day := day\<rparr>) co')"
proof -
  define fl where "fl = (if day = 1 then
            bnd (on_customers (flush_cache (customer_conf pf))) (\<lambda>_.
            bnd (on_products (flush_cache (product_conf pf))) (\<lambda>_.
            on_inventory (flush_cache (inv_rec_conf pf))))
          else ret ())"
  define rest where "rest = bnd (on_sessions soft_flush) (\<lambda>_. on_orders soft_flush :: (('d, 'm, 'b) company, 'b sim_error, unit) prog)"
  obtain r1 co1 where f: "fl co = (r1, co1)" by fastforce
  have r1: "r1 \<noteq> Wait" using run f by (auto simp: set_current_day_def fl_def[symmetric])
  have b1: "books pf T lg co1"
  proof -
    have "returns_in (books pf T lg) fl"
    proof (cases "day = 1")
      case True
      have "returns_in (books pf T lg) (on_customers (flush_cache (customer_conf pf)))"
        "returns_in (books pf T lg) (on_products (flush_cache (product_conf pf)))"
        "returns_in (books pf T lg) (on_inventory (flush_cache (inv_rec_conf pf)))"
        by (rule returns_inI; blast dest: customers_call_books flush_products_books flush_inventory_books)+
      then show ?thesis using True unfolding fl_def by (simp add: returns_in_bnd)
    qed (simp add: fl_def returns_in_def)
    then show ?thesis using b f r1 by (rule returns_inD)
  qed
  define co2 where "co2 = co1\<lparr>current_day := day\<rparr>"
  have b2: "books pf T (lg\<lparr>lg_day := day\<rparr>) co2"
    using b1 hold_cong[of T co2 co1 pf] by (simp add: books_def books_beside_def part_defs co2_def)
  have b3: "books pf T (lg\<lparr>lg_day := day\<rparr>) co3" if "rest co2 = (r2, co3)" for r2 co3
    using that b2 unfolding rest_def
    by (auto simp: bnd_def split: prod.splits res.splits dest: soft_flush_books)
  show ?thesis
  proof (cases "r1 = Ok ()")
    case False
    then have "r \<noteq> Ok ()" "co' = co1" using run f r1 by (cases r1; auto simp: set_current_day_def fl_def[symmetric])+
    then show ?thesis using b1 by simp
  next
    case True
    then have "rest co2 = (r, co')" using run(1) f by (simp add: set_current_day_def fl_def[symmetric] rest_def co2_def)
    then show ?thesis using b3 by (cases "r = Ok ()") auto
  qed
qed

end

end
