(* ===== verification/Simulation.thy ===== *)
theory Simulation
  imports Ledger
begin

text \<open>
  The company as an actor, and its whole performance against the ledger: the steps of a script in
  any order, with any success, and the background tasks of the five caches at work between them.
\<close>

section \<open>The company as an actor\<close>

definition company_actor :: "('d, 't, 'm, 'b) platform \<Rightarrow> (('d, 'm, 'b) company, 'b sim_error) test_actor" where
  "company_actor pf = \<lparr>
     ta_prelude = ret (),
     ta_checkpoint = (\<lambda>n. on_part co_db (\<lambda>d co. co\<lparr>co_db := d\<rparr>) (on_db (db_checkpoint pf n))),
     ta_set_title = (\<lambda>_. ret ()),
     ta_set_current_day = set_current_day pf,
     ta_add_customer = add_customer pf,
     ta_add_inventory_record = add_inventory_record pf,
     ta_add_order = add_order pf,
     ta_add_product = add_product pf,
     ta_add_session = add_session pf,
     ta_check_inventory = (\<lambda>product_id stock _. check_inventory pf product_id stock),
     ta_update_inventory_record = update_inventory_record pf,
     ta_collect_sessions = collect_sessions pf,
     ta_update_order = update_order pf,
     ta_update_product_view_count = update_product_view_count pf,
     ta_update_session = update_session pf,
     ta_step_complete = (\<lambda>_. ret ()),
     ta_curtain_call = curtain_call pf\<rparr>"

section \<open>The effect of a step\<close>

text \<open>The ledger after a step that succeeds; \<open>None\<close> where the step has to fail.\<close>

fun step_effect :: "step \<Rightarrow> ledger \<Rightarrow> ledger option" where
  "step_effect (Title _) lg = Some lg"
| "step_effect (Day day) lg = Some (lg\<lparr>lg_day := day\<rparr>)"
| "step_effect (AddProduct v) lg = Some (lg\<lparr>lg_products := (lg_products lg)(prod_id v \<mapsto> v)\<rparr>)"
| "step_effect (AddCustomer _) lg = Some lg"
| "step_effect (AddOrder order) lg = map_option (\<lambda>lg'. lg'\<lparr>lg_orders :=
     (lg_orders lg)(ord_id order \<mapsto> order\<lparr>ord_purchased_on := lg_day lg\<rparr>)\<rparr>) (post_order order lg)"
| "step_effect (UpdateOrder upd) lg = (case lg_orders lg (ord_id upd) of
       None \<Rightarrow> None
     | Some old \<Rightarrow> map_option (\<lambda>lg'. lg'\<lparr>lg_orders :=
         (lg_orders lg)(ord_id upd \<mapsto> old\<lparr>ord_status := ord_status upd\<rparr>)\<rparr>) (post_order upd lg))"
| "step_effect (AddSession v) lg = Some (lg\<lparr>lg_sessions := (lg_sessions lg)(sess_id v \<mapsto> v)\<rparr>)"
| "step_effect (UpdateSession upd) lg = map_option (\<lambda>v. lg\<lparr>lg_sessions := (lg_sessions lg)(sess_id upd \<mapsto>
     v\<lparr>sess_customer_id := sess_customer_id upd, sess_expires_on := sess_expires_on upd\<rparr>)\<rparr>) (lg_sessions lg (sess_id upd))"
| "step_effect CollectSessions lg = None"
| "step_effect (AddInventoryRecord v) lg = Some (lg\<lparr>lg_inventory := (lg_inventory lg)(inv_product_id v \<mapsto> v)\<rparr>)"
| "step_effect (AddStock shipment) lg = post_stock (shipment_product_id shipment) (batch_size shipment) lg"
| "step_effect (ViewProduct k) lg = (case lg_products lg k of
       None \<Rightarrow> None
     | Some v \<Rightarrow> if - (2 ^ 63) \<le> prod_views v + 1 \<and> prod_views v + 1 < 2 ^ 63
         then Some (lg\<lparr>lg_products := (lg_products lg)(k \<mapsto> v\<lparr>prod_views := prod_views v + 1\<rparr>)\<rparr>) else None)"
| "step_effect (CheckInventory c) lg = (case lg_inventory lg (check_product_id c) of
       None \<Rightarrow> None
     | Some v \<Rightarrow> if inv_stock v = check_stock c then Some lg else None)"

text \<open>What a step that fails may leave: a part of its effect.\<close>

fun leftovers :: "step \<Rightarrow> ledger \<Rightarrow> ledger set" where
  "leftovers (Day day) lg = {lg, lg\<lparr>lg_day := day\<rparr>}"
| "leftovers (AddOrder order) lg = {lg, note_order order lg} \<union> set_option (post_order order lg)"
| "leftovers (UpdateOrder upd) lg = {lg, note_order upd lg}"
| "leftovers _ lg = {lg}"

text \<open>
  The steps considered: a record is added only where its table has none under its key, and
  expired sessions are not collected, a step that changes the database behind the cache.
\<close>

fun admissible :: "'d tables \<Rightarrow> step \<Rightarrow> ('d, 'm, 'b) company \<Rightarrow> bool" where
  "admissible T (AddProduct v) co \<longleftrightarrow> row_products T (co_db co) (prod_id v) = None"
| "admissible T (AddOrder v) co \<longleftrightarrow> row_orders T (co_db co) (ord_id v) = None"
| "admissible T (AddSession v) co \<longleftrightarrow> row_sessions T (co_db co) (sess_id v) = None"
| "admissible T (AddInventoryRecord v) co \<longleftrightarrow> row_inventory T (co_db co) (inv_product_id v) = None"
| "admissible T CollectSessions co \<longleftrightarrow> False"
| "admissible T _ co \<longleftrightarrow> True"

context company_platform
begin

lemma books_cong:
  "product_part T co' = product_part T co \<Longrightarrow> inventory_part T co' = inventory_part T co \<Longrightarrow>
     order_part T co' = order_part T co \<Longrightarrow> session_part T co' = session_part T co \<Longrightarrow>
     noted_part co' = noted_part co \<Longrightarrow> books pf T lg co' = books pf T lg co"
  using hold_cong[of T co' co pf] by (simp add: books_def books_beside_def noted_part_def)

lemma perform_books:
  assumes b: "books pf T lg co" and run: "perform (company_actor pf) st co = (r, co')" "r \<noteq> Wait"
    and ad: "admissible T st co"
  shows "(\<exists>lg'. r = Ok () \<and> step_effect st lg = Some lg' \<and> books pf T lg' co') \<or>
    r \<noteq> Ok () \<and> (\<exists>lg' \<in> leftovers st lg. books pf T lg' co')"
proof -
  note eq = run(1)[unfolded perform_def company_actor_def]
  show ?thesis
  proof (cases st)
    case (Title x)
    then show ?thesis using eq b by simp
  next
    case (Day d)
    then show ?thesis using set_current_day_books[OF b _ run(2), of d] eq by simp
  next
    case (AddProduct v)
    then show ?thesis using add_product_books[OF b _ run(2), of v] eq ad by simp
  next
    case (AddCustomer v)
    have "books pf T lg co'"
      by (rule customers_call_books[OF b _ disjI1[OF refl]]) (use eq AddCustomer in \<open>simp add: add_customer_def\<close>)
    then show ?thesis using AddCustomer by auto
  next
    case (AddOrder v)
    then show ?thesis using add_order_books[OF b _ run(2), of v] eq ad by fastforce
  next
    case (UpdateOrder v)
    then show ?thesis using update_order_books[OF b _ run(2), of v] eq by fastforce
  next
    case (AddSession v)
    then show ?thesis using add_session_books[OF b _ run(2), of v] eq ad by simp
  next
    case (UpdateSession v)
    then show ?thesis using update_session_books[OF b _ run(2), of v] eq by auto
  next
    case CollectSessions
    then show ?thesis using ad by simp
  next
    case (AddInventoryRecord v)
    then show ?thesis using add_inventory_books[OF b _ run(2), of v] eq ad by simp
  next
    case (AddStock v)
    have bs: "books_beside pf T lg co" using b by (simp add: books_def)
    have up: "update_inventory_record pf (shipment_product_id v) (batch_size v) co = (r, co')"
      using eq AddStock by simp
    note st1 = beside_stock[OF bs up run(2)]
    have "lg_orders lg' = lg_orders lg" if "post_stock k q lg = Some lg'" for k q lg'
      using that by (auto simp: post_stock_def split: option.splits if_splits)
    then show ?thesis
      using st1 b hold_cong(3)[of T co' co pf] AddStock by (fastforce simp: books_def)
  next
    case (ViewProduct k)
    then show ?thesis using view_product_books[OF b _ run(2), of k] eq by auto
  next
    case (CheckInventory c)
    then show ?thesis
      using check_inventory_books[OF b _ run(2), of "check_product_id c" "check_stock c"] eq by (cases "r = Ok ()") auto
  qed
qed

end

section \<open>Runs\<close>

text \<open>A turn of the background task of one of the caches.\<close>

inductive company_turn :: "('d, 't, 'm, 'b) platform \<Rightarrow> ('d, 'm, 'b) company \<Rightarrow> ('d, 'm, 'b) company \<Rightarrow> bool" for pf where
  turn_customers: "monitor_step (customer_conf pf) (attach (co_db co) (customer_cache co)) t \<Longrightarrow>
    company_turn pf co (co\<lparr>co_db := backend t, customer_cache := detach t\<rparr>)"
| turn_products: "monitor_step (product_conf pf) (attach (co_db co) (product_cache co)) t \<Longrightarrow>
    company_turn pf co (co\<lparr>co_db := backend t, product_cache := detach t\<rparr>)"
| turn_inventory: "monitor_step (inv_rec_conf pf) (attach (co_db co) (inv_rec_cache co)) t \<Longrightarrow>
    company_turn pf co (co\<lparr>co_db := backend t, inv_rec_cache := detach t\<rparr>)"
| turn_orders: "monitor_step (order_conf pf) (attach co (order_cache co)) t \<Longrightarrow>
    company_turn pf co ((backend t)\<lparr>order_cache := detach t\<rparr>)"
| turn_sessions: "monitor_step (session_conf pf) (attach co (session_cache co)) t \<Longrightarrow>
    company_turn pf co ((backend t)\<lparr>session_cache := detach t\<rparr>)"

text \<open>
  The steps that have been performed, each with its success, while the background tasks take
  their turns and the driver makes its checkpoints.
\<close>

inductive company_run ::
  "('d, 't, 'm, 'b) platform \<Rightarrow> 'd tables \<Rightarrow> ('d, 'm, 'b) company \<Rightarrow> (step \<times> bool) list \<Rightarrow> ('d, 'm, 'b) company \<Rightarrow> bool"
  for pf T co where
  run_none: "company_run pf T co [] co"
| run_step: "company_run pf T co evs co1 \<Longrightarrow> admissible T st co1 \<Longrightarrow> perform (company_actor pf) st co1 = (r, co2) \<Longrightarrow>
    r \<noteq> Wait \<Longrightarrow> company_run pf T co (evs @ [(st, r = Ok ())]) co2"
| run_turn: "company_run pf T co evs co1 \<Longrightarrow> company_turn pf co1 co2 \<Longrightarrow> company_run pf T co evs co2"
| run_checkpoint: "company_run pf T co evs co1 \<Longrightarrow> ta_checkpoint (company_actor pf) n co1 = (r, co2) \<Longrightarrow>
    company_run pf T co evs co2"

inductive ledger_run :: "ledger \<Rightarrow> (step \<times> bool) list \<Rightarrow> ledger \<Rightarrow> bool" for lg where
  posted_none: "ledger_run lg [] lg"
| posted: "ledger_run lg evs lg1 \<Longrightarrow> step_effect st lg1 = Some lg2 \<Longrightarrow> ledger_run lg (evs @ [(st, True)]) lg2"
| posted_in_part: "ledger_run lg evs lg1 \<Longrightarrow> lg2 \<in> leftovers st lg1 \<Longrightarrow> ledger_run lg (evs @ [(st, False)]) lg2"

inductive_cases ledger_run_snocE: "ledger_run lg (evs @ [e]) lg'"

text \<open>One call that does what a turn does, for the frame of a cache.\<close>

definition turn_call :: "'s \<Rightarrow> 's \<Rightarrow> ('s, 'e, unit) prog" where
  "turn_call s t = (\<lambda>u. (Ok (), if u = s then t else u))"

context store_framing
begin

lemma turn_call_framed:
  "monitor_step C s t \<Longrightarrow> framed (\<lambda>s t. G (backend s) (backend t)) (turn_call s t)"
  by (rule framedI) (auto simp: turn_call_def F_refl dest: store_monitor_step)

end

context company_platform
begin

lemma turn_books:
  assumes b: "books pf T lg co" and turn: "company_turn pf co co'"
  shows "books pf T lg co'"
  using turn
proof cases
  case (turn_customers t)
  show ?thesis
    by (rule books_customers[OF b _ store_framing.turn_call_framed[OF customer_framing turn_customers(2)]])
      (simp add: on_cache_eq turn_call_def turn_customers(1))
next
  case (turn_products t)
  have "books pf T (lg\<lparr>lg_products := lg_products lg\<rparr>) co'"
    by (rule books_products[OF b _ store_framing.turn_call_framed[OF product_framing turn_products(2)], where r = "Ok ()"])
      (use b background.coherent_monitor_step[OF products_background _ turn_products(2)] in
        \<open>auto simp: on_cache_eq turn_call_def turn_products(1) books_def books_beside_def products_hold_def\<close>)
  then show ?thesis by simp
next
  case (turn_inventory t)
  have "books pf T (lg\<lparr>lg_inventory := lg_inventory lg\<rparr>) co'"
    by (rule books_inventory[OF b _ store_framing.turn_call_framed[OF inventory_framing turn_inventory(2)], where r = "Ok ()"])
      (use b background.coherent_monitor_step[OF inventory_background _ turn_inventory(2)] in
        \<open>auto simp: on_cache_eq turn_call_def turn_inventory(1) books_def books_beside_def inventory_holds_def\<close>)
  then show ?thesis by simp
next
  case (turn_orders t)
  have "books pf T (lg\<lparr>lg_orders := lg_orders lg\<rparr>) co'"
    by (rule books_orders[OF b _ store_framing.turn_call_framed[OF order_framing turn_orders(2)], where r = "Ok ()"])
      (use b background.coherent_monitor_step[OF orders_background _ turn_orders(2)] in
        \<open>auto simp: on_cache_eq turn_call_def turn_orders(1) books_def orders_hold_def\<close>)
  then show ?thesis by simp
next
  case (turn_sessions t)
  have "books pf T (lg\<lparr>lg_sessions := lg_sessions lg\<rparr>) co'"
    by (rule books_sessions[OF b _ store_framing.turn_call_framed[OF session_framing turn_sessions(2)], where r = "Ok ()"])
      (use b background.coherent_monitor_step[OF sessions_background _ turn_sessions(2)] in
        \<open>auto simp: on_cache_eq turn_call_def turn_sessions(1) books_def books_beside_def sessions_hold_def\<close>)
  then show ?thesis by simp
qed

lemma checkpoint_books:
  assumes b: "books pf T lg co" and run: "ta_checkpoint (company_actor pf) n co = (r, co')"
  shows "books pf T lg co'"
proof -
  define Q where "Q = (\<lambda>d. (row_products T d, row_inventory T d, row_orders T d, row_sessions T d))"
  obtain d where d: "on_db (db_checkpoint pf n) (co_db co) = (r, d)" "co' = co\<lparr>co_db := d\<rparr>"
    using run by (auto simp: company_actor_def on_part_eq)
  have "Q d = Q (co_db co)"
    using framedD[OF frame_rel.framed_on_db[OF frame_rel_same] d(1), of Q] checkpoint_apart[of n]
    by (simp add: framed_same same_def Q_def)
  then have "books pf T lg co' = books pf T lg co"
    by (intro books_cong) (simp_all add: part_defs d(2) Q_def)
  with b show ?thesis by simp
qed

lemma run_books:
  assumes "company_run pf T co evs co'" "books pf T lg co"
  shows "\<exists>lg'. ledger_run lg evs lg' \<and> books pf T lg' co'"
  using assms(1)
proof induction
  case run_none
  with assms(2) show ?case by (auto intro: posted_none)
next
  case (run_step evs co1 st r co2)
  then obtain lg1 where lg1: "ledger_run lg evs lg1" "books pf T lg1 co1" by blast
  from perform_books[OF lg1(2) run_step.hyps(3,4,2)] show ?case
    using posted[OF lg1(1)] posted_in_part[OF lg1(1)] by (cases "r = Ok ()") (simp_all, blast+)
next
  case (run_turn evs co1 co2)
  then show ?case using turn_books by blast
next
  case (run_checkpoint evs co1 n r co2)
  then show ?case using checkpoint_books by blast
qed

end

end
