(* ===== verification/Performances.thy ===== *)
theory Performances
  imports Simulation
begin

text \<open>
  What the ledger tells of a performance: the opening of the books, the stock, the orders booked.
  And a small company on lists, on which whole performances are computed.
\<close>

section \<open>The opening\<close>

text \<open>The company over a database, its caches just built.\<close>

definition opened :: "'m \<Rightarrow> 'd \<Rightarrow> nat \<Rightarrow> ('d, 'm, 'b) company" where
  "opened mo d now = \<lparr>co_db = d, current_day = 0, inv_check_no = 0, updated_from = [],
     customer_cache = initial_setup mo () now, inv_rec_cache = initial_setup mo () now,
     order_cache = initial_setup mo () now, product_cache = initial_setup mo () now,
     session_cache = initial_setup mo () now\<rparr>"

definition first_page :: "'d tables \<Rightarrow> 'd \<Rightarrow> ledger" where
  "first_page T d = \<lparr>lg_products = row_products T d, lg_inventory = row_inventory T d, lg_orders = row_orders T d,
     lg_sessions = row_sessions T d, lg_booked = Map.empty, lg_day = 0\<rparr>"

definition empty_mokas :: "('d, 't, 'm, 'b) platform \<Rightarrow> 'm \<Rightarrow> bool" where
  "empty_mokas pf mo \<longleftrightarrow> mk_lookup (products_moka pf) mo = (\<lambda>_. None) \<and> mk_lookup (inventory_moka pf) mo = (\<lambda>_. None) \<and>
     mk_lookup (orders_moka pf) mo = (\<lambda>_. None) \<and> mk_lookup (sessions_moka pf) mo = (\<lambda>_. None)"

lemma attach_initial: "attach d (initial_setup mo () now) = initial_setup mo d now"
  by (simp add: attach_def initial_setup_def)

context company_platform
begin

lemma rows_keyed:
  "row_products T d k = Some v \<Longrightarrow> prod_id v = k" "row_inventory T d k = Some vi \<Longrightarrow> inv_product_id vi = k"
  "row_orders T d ko = Some vo \<Longrightarrow> ord_id vo = ko" "row_sessions T d ks = Some vs \<Longrightarrow> sess_id vs = ks"
  using products_db inventory_db orders_db sessions_db by (auto dest!: orm_okD(7) simp: orm_keyed_def)

lemma opened_books:
  assumes "empty_mokas pf mo"
  shows "books pf T (first_page T d) (opened mo d now)"
proof -
  note wb = background.axioms(1)
  have "coherent (product_conf pf) (row_products T) (update_view (fun_am product_field) product_field prod_id (\<lambda>_. True))
      (initial_setup mo d now) (row_products T d)"
    by (rule coherent_initial[OF wb[OF products_background]])
      (use assms rows_keyed(1) in \<open>auto simp: empty_mokas_def product_conf_def manager_conf_def product_manager_def\<close>)
  moreover have "coherent (inv_rec_conf pf) (row_inventory T) (update_view (fun_am inventory_field) inventory_field inv_product_id (\<lambda>_. True))
      (initial_setup mo d now) (row_inventory T d)"
    by (rule coherent_initial[OF wb[OF inventory_background]])
      (use assms rows_keyed(2) in \<open>auto simp: empty_mokas_def inv_rec_conf_def manager_conf_def inventory_manager_def\<close>)
  moreover have "coherent (order_conf pf) (\<lambda>co. row_orders T (co_db co)) (update_view (fun_am order_field) order_field ord_id (\<lambda>_. True))
      (initial_setup mo co now) (row_orders T (co_db co))" for co
    by (rule coherent_initial[OF wb[OF orders_background]])
      (use assms rows_keyed(3) in \<open>auto simp: empty_mokas_def order_conf_def manager_conf_def order_manager_def\<close>)
  moreover have "coherent (session_conf pf) (\<lambda>co. row_sessions T (co_db co)) (update_view (fun_am session_field) session_field sess_id (\<lambda>_. True))
      (initial_setup mo co now) (row_sessions T (co_db co))" for co
    by (rule coherent_initial[OF wb[OF sessions_background]])
      (use assms rows_keyed(4) in \<open>auto simp: empty_mokas_def session_conf_def manager_conf_def session_manager_def\<close>)
  ultimately show ?thesis
    by (simp add: books_def books_beside_def products_hold_def inventory_holds_def orders_hold_def sessions_hold_def
        opened_def first_page_def attach_initial)
       (metis company.select_convs(1))
qed

end

section \<open>The stock\<close>

text \<open>What a step that succeeds moves of the stock of a product.\<close>

fun movement :: "int \<Rightarrow> step \<Rightarrow> int" where
  "movement k (AddStock sh) = (if shipment_product_id sh = k then batch_size sh else 0)"
| "movement k (AddOrder ord) = (if ord_product_id ord = k \<and> \<not> settled (ord_status ord) then - ord_quantity ord else 0)"
| "movement k (UpdateOrder ord) = (if ord_product_id ord = k \<and> \<not> settled (ord_status ord) then - ord_quantity ord else 0)"
| "movement k _ = 0"

definition moved :: "int \<Rightarrow> (step \<times> bool) list \<Rightarrow> int" where
  "moved k evs = sum_list (map (\<lambda>(st, ok). if ok then movement k st else 0) evs)"

text \<open>Events that set the stock anew, or that may move it although they failed.\<close>

fun regular :: "int \<Rightarrow> step \<times> bool \<Rightarrow> bool" where
  "regular k (AddInventoryRecord v, ok) \<longleftrightarrow> inv_product_id v \<noteq> k"
| "regular k (AddOrder _, ok) \<longleftrightarrow> ok"
| "regular k _ \<longleftrightarrow> True"

fun stocked_well :: "step \<times> bool \<Rightarrow> bool" where
  "stocked_well (AddInventoryRecord v, _) \<longleftrightarrow> 0 \<le> inv_stock v"
| "stocked_well _ \<longleftrightarrow> True"

definition stock_ok :: "ledger \<Rightarrow> bool" where
  "stock_ok lg \<longleftrightarrow> (\<forall>k v. lg_inventory lg k = Some v \<longrightarrow> 0 \<le> inv_stock v)"

lemma post_stock_inventory:
  "post_stock k q lg = Some lg' \<Longrightarrow> \<exists>r. lg_inventory lg k = Some r \<and> 0 \<le> inv_stock r + q \<and>
     lg' = lg\<lparr>lg_inventory := (lg_inventory lg)(k \<mapsto> r\<lparr>inv_stock := inv_stock r + q\<rparr>)\<rparr>"
  by (auto simp: post_stock_def split: option.splits if_splits)

lemma post_order_cases:
  assumes "post_order ord lg = Some lg'"
  shows "settled (ord_status ord) \<and> lg' = lg \<or>
    \<not> settled (ord_status ord) \<and> lg_booked lg (ord_id ord) = None \<and>
      post_stock (ord_product_id ord) (- ord_quantity ord) (note_order ord lg) = Some lg'"
  using assms by (auto simp: post_order_def split: if_splits)

definition shift_stock :: "int \<Rightarrow> inventory \<Rightarrow> inventory" where
  "shift_stock q v = v\<lparr>inv_stock := inv_stock v + q\<rparr>"

lemma shift_stock_simps [simp]:
  "shift_stock 0 = (\<lambda>v. v)" "shift_stock q (shift_stock p v) = shift_stock (p + q) v"
  "inv_stock (shift_stock q v) = inv_stock v + q" "inv_product_id (shift_stock q v) = inv_product_id v"
  by (simp_all add: shift_stock_def fun_eq_iff)

lemma post_stock_shifts:
  assumes "post_stock j q lg = Some lg'"
  shows "lg_inventory lg' k = map_option (shift_stock (if j = k then q else 0)) (lg_inventory lg k)"
    "stock_ok lg \<Longrightarrow> stock_ok lg'" "lg_booked lg' = lg_booked lg"
  using post_stock_inventory[OF assms] by (auto simp: stock_ok_def option.map_ident split: if_splits) (simp_all add: shift_stock_def)

lemma post_order_shifts:
  assumes "post_order ord lg = Some lg'"
  shows "lg_inventory lg' k = map_option (shift_stock (movement k (AddOrder ord))) (lg_inventory lg k)"
    "stock_ok lg \<Longrightarrow> stock_ok lg'"
    "lg_booked lg' = (if settled (ord_status ord) then lg_booked lg else (lg_booked lg)(ord_id ord \<mapsto> ord))"
    "settled (ord_status ord) \<or> lg_booked lg (ord_id ord) = None"
  using post_order_cases[OF assms]
  by (auto simp: note_order_def stock_ok_def option.map_ident dest!: post_stock_inventory split: if_splits)
    (simp_all add: shift_stock_def)

lemma step_effect_stock:
  assumes "step_effect st lg = Some lg'" "regular k (st, True)"
  shows "lg_inventory lg' k = map_option (shift_stock (movement k st)) (lg_inventory lg k)"
  using assms post_order_shifts(1) post_stock_shifts(1)
  by (cases st) (auto simp: option.map_ident split: option.splits if_splits)

lemma leftovers_stock:
  assumes "lg' \<in> leftovers st lg" "regular k (st, False)"
  shows "lg_inventory lg' k = lg_inventory lg k"
  using assms by (cases st) (auto simp: note_order_def)

lemma step_effect_stock_ok:
  assumes "step_effect st lg = Some lg'" "stocked_well (st, True)" "stock_ok lg"
  shows "stock_ok lg'"
proof -
  have same: "stock_ok (lg1\<lparr>lg_orders := m\<rparr>) = stock_ok lg1" for lg1 m by (simp add: stock_ok_def)
  show ?thesis
    using assms post_order_shifts(2) post_stock_shifts(2)
    by (cases st) (auto simp: same, auto simp: stock_ok_def split: option.splits if_splits)
qed

lemma leftovers_stock_ok:
  "lg' \<in> leftovers st lg \<Longrightarrow> stock_ok lg \<Longrightarrow> stock_ok lg'"
  using post_order_shifts(2) by (cases st) (auto simp: stock_ok_def note_order_def)

lemma ledger_stock_ok:
  "ledger_run lg evs lg' \<Longrightarrow> stock_ok lg \<Longrightarrow> \<forall>ev \<in> set evs. stocked_well ev \<Longrightarrow> stock_ok lg'"
proof (induction rule: ledger_run.induct)
  case (posted evs lg1 st lg2)
  then show ?case using step_effect_stock_ok by simp
next
  case (posted_in_part evs lg1 lg2 st)
  then show ?case using leftovers_stock_ok by simp
qed simp

lemma ledger_stock:
  "ledger_run lg evs lg' \<Longrightarrow> \<forall>ev \<in> set evs. regular k ev \<Longrightarrow>
     lg_inventory lg' k = map_option (shift_stock (moved k evs)) (lg_inventory lg k)"
proof (induction rule: ledger_run.induct)
  case posted_none
  then show ?case by (simp add: moved_def option.map_ident)
next
  case (posted evs lg1 st lg2)
  then show ?case using step_effect_stock[OF posted.hyps(2)] by (simp add: moved_def option.map_comp comp_def)
next
  case (posted_in_part evs lg1 lg2 st)
  then show ?case using leftovers_stock[OF posted_in_part.hyps(2)] by (simp add: moved_def)
qed

section \<open>Orders booked\<close>

fun takes_stock_for :: "128 word \<Rightarrow> step \<Rightarrow> bool" where
  "takes_stock_for k (AddOrder ord) \<longleftrightarrow> ord_id ord = k \<and> \<not> settled (ord_status ord)"
| "takes_stock_for k (UpdateOrder ord) \<longleftrightarrow> ord_id ord = k \<and> \<not> settled (ord_status ord)"
| "takes_stock_for k _ \<longleftrightarrow> False"

lemma step_effect_booked:
  assumes "step_effect st lg = Some lg'"
  shows "if takes_stock_for k st then lg_booked lg k = None \<and> lg_booked lg' k \<noteq> None else lg_booked lg' k = lg_booked lg k"
proof -
  have b: "if takes_stock_for k (AddOrder ord) then lg_booked lg k = None \<and> lg_booked lg1 k \<noteq> None
      else lg_booked lg1 k = lg_booked lg k" if "post_order ord lg = Some lg1" for ord lg1
    using post_order_shifts(3,4)[OF that] by auto
  show ?thesis
    using assms post_stock_shifts(3) b
    by (cases st) (fastforce split: option.splits if_splits)+
qed

lemma leftovers_booked:
  "lg' \<in> leftovers st lg \<Longrightarrow> lg_booked lg k \<noteq> None \<Longrightarrow> lg_booked lg' k \<noteq> None"
  using post_order_shifts(3) by (cases st) (auto simp: note_order_def split: if_splits)

lemma ledger_booked:
  assumes "ledger_run lg evs lg'"
  shows "lg_booked lg k \<noteq> None \<Longrightarrow> lg_booked lg' k \<noteq> None"
    and "length (filter (\<lambda>(st, ok). ok \<and> takes_stock_for k st) evs) \<le> 1 \<and>
      (filter (\<lambda>(st, ok). ok \<and> takes_stock_for k st) evs \<noteq> [] \<longrightarrow> lg_booked lg' k \<noteq> None)"
proof -
  have "(lg_booked lg k \<noteq> None \<longrightarrow> lg_booked lg' k \<noteq> None) \<and>
    length (filter (\<lambda>(st, ok). ok \<and> takes_stock_for k st) evs) \<le> 1 \<and>
      (filter (\<lambda>(st, ok). ok \<and> takes_stock_for k st) evs \<noteq> [] \<longrightarrow> lg_booked lg' k \<noteq> None)"
    using assms
  proof induction
    case (posted evs lg1 st lg2)
    then show ?case using step_effect_booked[OF posted.hyps(2), of k] by (auto split: if_splits)
  next
    case (posted_in_part evs lg1 lg2 st)
    then show ?case using leftovers_booked[OF posted_in_part.hyps(2), of k] by auto
  qed simp
  then show "lg_booked lg k \<noteq> None \<Longrightarrow> lg_booked lg' k \<noteq> None"
    and "length (filter (\<lambda>(st, ok). ok \<and> takes_stock_for k st) evs) \<le> 1 \<and>
      (filter (\<lambda>(st, ok). ok \<and> takes_stock_for k st) evs \<noteq> [] \<longrightarrow> lg_booked lg' k \<noteq> None)"
    by blast+
qed

section \<open>What the caches answer\<close>

context company_platform
begin

lemma inventory_answer:
  assumes "books pf T lg co" "on_inventory (cache_get (inv_rec_conf pf) k) co = (Ok x, co')"
  shows "x = lg_inventory lg k"
proof -
  obtain t where "cache_get (inv_rec_conf pf) k (attach (co_db co) (inv_rec_cache co)) = (Ok x, t)"
    using assms(2) unfolding on_cache_eq by blast
  from background.coherent_get_any[OF inventory_background _ this] assms(1) show ?thesis
    by (auto simp: books_def books_beside_def inventory_holds_def)
qed

lemma order_answer:
  assumes "books pf T lg co" "on_orders (cache_get (order_conf pf) k) co = (Ok x, co')"
  shows "x = lg_orders lg k"
proof -
  obtain t where "cache_get (order_conf pf) k (attach co (order_cache co)) = (Ok x, t)"
    using assms(2) unfolding on_cache_eq by blast
  from background.coherent_get_any[OF orders_background _ this] assms(1) show ?thesis
    by (auto simp: books_def orders_hold_def)
qed

text \<open>Once an order has been tried, whatever came of it, it is noted for good.\<close>


lemma tried_order_noted:
  assumes run: "add_order pf ord co = (r, co')" "r \<noteq> Wait" and fresh: "\<not> settled (ord_status ord)"
  shows "map_of (updated_from co') (ord_id ord) \<noteq> None"
proof -
  obtain r1 co1 where up: "update_inventory pf ord co = (r1, co1)" by fastforce
  have noted: "map_of (updated_from co1) (ord_id ord) \<noteq> None"
    using up fresh
    by (auto simp: update_inventory_def update_inventory_record_def on_inventory_def split: if_splits prod.splits)
  show ?thesis
  proof (cases "r1 = Ok ()")
    case True
    then obtain w where w: "on_orders (insert_record (order_conf pf) w) co1 = (r, co')"
      using run(1) up by (simp add: add_order_def)
    then obtain t where t: "insert_record (order_conf pf) w (attach co1 (order_cache co1)) = (r, t)" "co' = (backend t)\<lparr>order_cache := detach t\<rparr>"
      unfolding on_cache_eq by blast
    from framedD[OF store_framing.store_records(2)[OF order_framing] t(1)] have "updated_from co' = updated_from co1"
      by (simp add: order_moves_def same_def noted_part_def t(2))
    with noted show ?thesis by simp
  next
    case False
    then have "co' = co1" using run up by (cases r1) (auto simp: add_order_def)
    with noted show ?thesis by simp
  qed
qed

lemma tried_orders_noted:
  assumes "company_run pf T co evs co'" "books pf T lg co"
  shows "\<exists>lg'. books pf T lg' co' \<and>
    (\<forall>ord ok. (AddOrder ord, ok) \<in> set evs \<longrightarrow> \<not> settled (ord_status ord) \<longrightarrow> lg_booked lg' (ord_id ord) \<noteq> None)"
  using assms(1)
proof induction
  case run_none
  show ?case using assms(2) by (intro exI[of _ lg]) simp
next
  case (run_step evs co1 st r co2)
  then obtain lg1 where lg1: "books pf T lg1 co1"
    "\<And>ord ok. (AddOrder ord, ok) \<in> set evs \<Longrightarrow> \<not> settled (ord_status ord) \<Longrightarrow> lg_booked lg1 (ord_id ord) \<noteq> None" by blast
  obtain lg2 where lg2: "books pf T lg2 co2" "lg2 \<in> leftovers st lg1 \<or> step_effect st lg1 = Some lg2"
    using perform_books[OF lg1(1) run_step.hyps(3,4,2)] by blast
  have grow: "lg_booked lg2 k \<noteq> None" if "lg_booked lg1 k \<noteq> None" for k
    using lg2(2) leftovers_booked step_effect_booked[of st lg1 lg2 k] that by (auto split: if_splits)
  have "lg_booked lg2 (ord_id ord) \<noteq> None" if "st = AddOrder ord" "\<not> settled (ord_status ord)" for ord
  proof -
    have "add_order pf ord co1 = (r, co2)" using run_step.hyps(3) that(1) by (simp add: perform_def company_actor_def)
    from tried_order_noted[OF this run_step.hyps(4) that(2)] lg2(1) show ?thesis by (simp add: books_def books_beside_def)
  qed
  with lg1(2) grow lg2(1) show ?case by (intro exI[of _ lg2]) auto
next
  case (run_turn evs co1 co2)
  then show ?case using turn_books by blast
next
  case (run_checkpoint evs co1 n r co2)
  then show ?case using checkpoint_books by blast
qed

lemma noted_order_refused:
  assumes "map_of (updated_from co) (ord_id ord) \<noteq> None" "\<not> settled (ord_status ord)"
  shows "add_order pf ord co = (Fail (SimMsg ''Inventory already updated from order''), co)"
  using assms by (simp add: add_order_def update_inventory_def)

end

section \<open>A small company\<close>

record database =
  db_customers :: "customer list"
  db_products :: "product list"
  db_inventory :: "inventory list"
  db_orders :: "order list"
  db_sessions :: "session list"

definition empty_db :: database where
  "empty_db = \<lparr>db_customers = [], db_products = [], db_inventory = [], db_orders = [], db_sessions = []\<rparr>"

text \<open>A transaction on a table is a database of which only that table is used; moka keeps nothing.\<close>

definition town :: "(database, database, unit, db_err) platform" where
  "town = \<lparr>
     customers_orm = lift_orm db_customers (\<lambda>t d. d\<lparr>db_customers := t\<rparr>) (\<lambda>t. empty_db\<lparr>db_customers := t\<rparr>) db_customers
       (list_orm customer_field customer_key customer_of),
     products_orm = lift_orm db_products (\<lambda>t d. d\<lparr>db_products := t\<rparr>) (\<lambda>t. empty_db\<lparr>db_products := t\<rparr>) db_products
       (list_orm product_field prod_id product_of),
     inventory_orm = lift_orm db_inventory (\<lambda>t d. d\<lparr>db_inventory := t\<rparr>) (\<lambda>t. empty_db\<lparr>db_inventory := t\<rparr>) db_inventory
       (list_orm inventory_field inv_product_id inventory_of),
     orders_orm = lift_orm db_orders (\<lambda>t d. d\<lparr>db_orders := t\<rparr>) (\<lambda>t. empty_db\<lparr>db_orders := t\<rparr>) db_orders
       (list_orm order_field ord_id order_of),
     sessions_orm = lift_orm db_sessions (\<lambda>t d. d\<lparr>db_sessions := t\<rparr>) (\<lambda>t. empty_db\<lparr>db_sessions := t\<rparr>) db_sessions
       (list_orm session_field sess_id session_of),
     customers_moka = void_moka, products_moka = void_moka, inventory_moka = void_moka,
     orders_moka = void_moka, sessions_moka = void_moka,
     delete_stubs = (\<lambda>day d. let stub = (\<lambda>v. sess_expires_on v \<le> day \<and> sess_customer_id v = None) in
       (Ok (length (filter stub (db_sessions d))), d\<lparr>db_sessions := filter (\<lambda>v. \<not> stub v) (db_sessions d)\<rparr>)),
     user_session_ids = (\<lambda>d. (Ok (map sess_id (filter (\<lambda>v. sess_customer_id v \<noteq> None) (db_sessions d))), d)),
     db_checkpoint = (\<lambda>_. ret ()),
     set_order = (\<lambda>ks. ks),
     product_count = 10,
     market_capacity = 10\<rparr>"

definition town_tables :: "database tables" where
  "town_tables = \<lparr>row_customers = (\<lambda>d. list_rows customer_key (db_customers d)),
     row_products = (\<lambda>d. list_rows prod_id (db_products d)),
     row_inventory = (\<lambda>d. list_rows inv_product_id (db_inventory d)),
     row_orders = (\<lambda>d. list_rows ord_id (db_orders d)),
     row_sessions = (\<lambda>d. list_rows sess_id (db_sessions d))\<rparr>"

lemma list_table:
  assumes "\<And>v. build (fld v) = v" "\<And>d s. get (put d s) = d" "\<And>t. prj (emb t) = t"
  shows "\<exists>RT. orm_ok (lift_orm get put emb prj (list_orm fld pk build)) (fun_am fld) fld pk (\<lambda>s. list_rows pk (get s)) RT"
  by (rule exI, rule orm_ok_lift[OF orm_ok_list]) (fact assms)+

interpretation town_company: company_platform town town_tables
proof unfold_locales
  note lifted = list_table
  show "\<exists>RT. orm_ok (customers_orm town) (fun_am customer_field) customer_field customer_key (row_customers town_tables) RT"
    by (simp add: town_def town_tables_def) (rule lifted; simp)
  show "\<exists>RT. orm_ok (products_orm town) (fun_am product_field) product_field prod_id (row_products town_tables) RT"
    by (simp add: town_def town_tables_def) (rule lifted; simp)
  show "\<exists>RT. orm_ok (inventory_orm town) (fun_am inventory_field) inventory_field inv_product_id (row_inventory town_tables) RT"
    by (simp add: town_def town_tables_def) (rule lifted; simp)
  show "\<exists>RT. orm_ok (orders_orm town) (fun_am order_field) order_field ord_id (row_orders town_tables) RT"
    by (simp add: town_def town_tables_def) (rule lifted; simp)
  show "\<exists>RT. orm_ok (sessions_orm town) (fun_am session_field) session_field sess_id (row_sessions town_tables) RT"
    by (simp add: town_def town_tables_def) (rule lifted; simp)
qed (simp_all add: town_def town_tables_def orm_apart_part moka_ok_void_moka keeps_def)

interpretation town_orders: store_framing "order_moves town town_tables" "order_conf town"
  by (rule town_company.order_framing)

interpretation town_sessions: store_framing "session_moves town_tables" "session_conf town"
  by (rule town_company.session_framing)

end
