(* ===== verification/Plain.thy ===== *)
theory Plain
  imports Performances
begin

text \<open>
  The other company of the simulation, \<open>src/test/simulation/company_plain.rs\<close>: the same actor
  without caches, each operation a statement on the database. The simulation plays one script on
  both and compares what they leave; here both are compared with the ledger.
\<close>

section \<open>Statements on a table\<close>

text \<open>
  \<open>Entity::insert(am).exec\<close>, \<open>ActiveModel::update\<close> and \<open>Entity::find_by_id\<close>, outside of any
  transaction. An update needs the primary key in the active model and changes the columns that
  are set.
\<close>

record ('d, 'am, 'x, 'v, 'b) statements =
  st_insert :: "'am \<Rightarrow> ('d, 'b, unit) prog"
  st_update :: "'am \<Rightarrow> ('d, 'b, unit) prog"
  st_find :: "'x \<Rightarrow> ('d, 'b, 'v option) prog"

definition statements_ok ::
  "('d, 'am, 'x, 'v, 'b) statements \<Rightarrow> ('am, 'c, 'x, 'v) am_ops \<Rightarrow> ('v \<Rightarrow> 'c \<Rightarrow> 'x) \<Rightarrow> 'c \<Rightarrow> ('v \<Rightarrow> 'k) \<Rightarrow>
     ('d \<Rightarrow> 'k \<rightharpoonup> 'v) \<Rightarrow> bool" where
  "statements_ok S A fld key_column pk R \<longleftrightarrow> orm_keyed pk R \<and>
     (\<forall>am v d d'. st_insert S am d = (Ok (), d') \<longrightarrow> represents A fld am v \<longrightarrow> R d' = (R d)(pk v \<mapsto> v)) \<and>
     (\<forall>am w d d'. st_update S am d = (Ok (), d') \<longrightarrow> av_into_value (am_get A am key_column) = Some (fld w key_column) \<longrightarrow>
        (\<exists>r. R d (pk w) = Some r \<and> (\<forall>v. patches A fld am r v \<longrightarrow> R d' = (R d)(pk w \<mapsto> v)))) \<and>
     (\<forall>w d x d'. st_find S (fld w key_column) d = (Ok x, d') \<longrightarrow> R d' = R d \<and> x = R d (pk w))"

lemma statements_okD:
  assumes "statements_ok S A fld key_column pk R"
  shows "R d k = Some v \<Longrightarrow> pk v = k"
    and "st_insert S am d = (Ok (), d') \<Longrightarrow> represents A fld am v \<Longrightarrow> R d' = (R d)(pk v \<mapsto> v)"
    and "st_update S am d = (Ok (), d') \<Longrightarrow> av_into_value (am_get A am key_column) = Some (fld w key_column) \<Longrightarrow> R d (pk w) \<noteq> None"
    and "st_update S am d = (Ok (), d') \<Longrightarrow> av_into_value (am_get A am key_column) = Some (fld w key_column) \<Longrightarrow>
      R d (pk w) = Some r \<Longrightarrow> patches A fld am r v \<Longrightarrow> R d' = (R d)(pk w \<mapsto> v)"
    and "st_find S (fld w key_column) d = (Ok x, d') \<Longrightarrow> R d' = R d \<and> x = R d (pk w)"
proof -
  note ok = assms[unfolded statements_ok_def orm_keyed_def]
  show "R d k = Some v \<Longrightarrow> pk v = k" using ok by blast
  show "st_insert S am d = (Ok (), d') \<Longrightarrow> represents A fld am v \<Longrightarrow> R d' = (R d)(pk v \<mapsto> v)" using ok by blast
  show "st_update S am d = (Ok (), d') \<Longrightarrow> av_into_value (am_get A am key_column) = Some (fld w key_column) \<Longrightarrow> R d (pk w) \<noteq> None"
    using ok by blast
  show "st_update S am d = (Ok (), d') \<Longrightarrow> av_into_value (am_get A am key_column) = Some (fld w key_column) \<Longrightarrow>
      R d (pk w) = Some r \<Longrightarrow> patches A fld am r v \<Longrightarrow> R d' = (R d)(pk w \<mapsto> v)"
    using ok by (metis option.inject)
  show "st_find S (fld w key_column) d = (Ok x, d') \<Longrightarrow> R d' = R d \<and> x = R d (pk w)" using ok by blast
qed

definition statements_apart :: "('d, 'am, 'x, 'v, 'b) statements \<Rightarrow> ('d \<Rightarrow> 'q) \<Rightarrow> bool" where
  "statements_apart S Q \<longleftrightarrow> (\<forall>am. keeps Q (st_insert S am)) \<and> (\<forall>am. keeps Q (st_update S am)) \<and> (\<forall>x. keeps Q (st_find S x))"

section \<open>The state and the operations\<close>

record ('d, 'b) plain_platform =
  customers_st :: "('d, customer_am, db_value, customer, 'b) statements"
  products_st :: "('d, product_am, db_value, product, 'b) statements"
  inventory_st :: "('d, inventory_am, db_value, inventory, 'b) statements"
  orders_st :: "('d, order_am, db_value, order, 'b) statements"
  sessions_st :: "('d, session_am, db_value, session, 'b) statements"
  count_views :: "int \<Rightarrow> ('d, 'b, unit) prog"
  delete_expired :: "int \<Rightarrow> ('d, 'b, nat) prog"
  plain_checkpoint :: "nat \<Rightarrow> ('d, 'b, unit) prog"

record 'd plain_company =
  pc_db :: 'd
  pc_day :: int
  pc_check_no :: nat
  pc_noted :: "(128 word \<times> order) list"

definition on_plain :: "('d, 'b, 'a) prog \<Rightarrow> ('d plain_company, 'b sim_error, 'a) prog" where
  "on_plain m = on_part pc_db (\<lambda>d pc. pc\<lparr>pc_db := d\<rparr>) (on_db m)"

text \<open>\<open>ActiveModel::new()\<close>\<close>

definition new_am :: "'c \<Rightarrow> 'x active_value" where
  "new_am = (\<lambda>_. AvNotSet)"

definition plain_update_inventory_record where
  "plain_update_inventory_record pp product_id quantity =
     bnd (on_plain (st_find (inventory_st pp) (ValInt (Some product_id)))) (\<lambda>found.
     case found of
       None \<Rightarrow> throw (SimMsg ''Can't update non-existing inventory record'')
     | Some inventory_record \<Rightarrow>
         bnd (i64_add (inv_stock inventory_record) quantity) (\<lambda>new_stock.
         if new_stock < 0 then throw (SimMsg ''Not enough stock'')
         else let A = fun_am inventory_field in
           on_plain (st_update (inventory_st pp) (am_set A InvStock (ValBigInt (Some new_stock))
             (am_set A InvProductId (ValInt (Some product_id)) (am_from A inventory_record))))))"

definition plain_update_inventory where
  "plain_update_inventory pp order = (if settled (ord_status order) then ret ()
     else
       bnd (gets pc_noted) (\<lambda>noted.
       if map_of noted (ord_id order) \<noteq> None then throw (SimMsg ''Inventory already updated from order'')
       else
         bnd (modify (\<lambda>pc. pc\<lparr>pc_noted := hm_insert (ord_id order) order (pc_noted pc)\<rparr>)) (\<lambda>_.
         plain_update_inventory_record pp (ord_product_id order) (- ord_quantity order))))"

definition plain_add_customer where
  "plain_add_customer pp customer = bnd (gets pc_day) (\<lambda>day.
     on_plain (st_insert (customers_st pp) (am_from (fun_am customer_field) (customer\<lparr>cust_registered_on := day\<rparr>))))"

definition plain_add_product where
  "plain_add_product pp product = on_plain (st_insert (products_st pp) (am_from (fun_am product_field) product))"

definition plain_add_inventory_record where
  "plain_add_inventory_record pp inventory_record =
     on_plain (st_insert (inventory_st pp) (am_from (fun_am inventory_field) inventory_record))"

definition plain_add_session where
  "plain_add_session pp session = on_plain (st_insert (sessions_st pp) (am_from (fun_am session_field) session))"

definition plain_add_order where
  "plain_add_order pp order =
     bnd (plain_update_inventory pp order) (\<lambda>_.
     bnd (gets pc_day) (\<lambda>day.
     on_plain (st_insert (orders_st pp) (am_from (fun_am order_field) (order\<lparr>ord_purchased_on := day\<rparr>)))))"

definition plain_update_order where
  "plain_update_order pp order = (let A = fun_am order_field in
     bnd (plain_update_inventory pp order) (\<lambda>_.
     on_plain (st_update (orders_st pp) (am_set A OrdStatus (ValString (Some (order_status_value (ord_status order))))
       (am_set A OrdId (ValUuid (Some (ord_id order))) new_am)))))"

definition plain_check_inventory where
  "plain_check_inventory pp product_id stock =
     bnd (on_plain (st_find (inventory_st pp) (ValInt (Some product_id)))) (\<lambda>inventory_record.
     bnd (inv_rec_compare inventory_record stock) (\<lambda>_.
     modify (\<lambda>pc. pc\<lparr>pc_check_no := pc_check_no pc + 1\<rparr>)))"

definition plain_update_product_view_count where
  "plain_update_product_view_count pp product_id = on_plain (count_views pp product_id)"

definition plain_update_session where
  "plain_update_session pp session = (let A = fun_am session_field in
     on_plain (st_update (sessions_st pp) (am_set A SessExpiresOn (ValInt (Some (sess_expires_on session)))
       (am_set A SessCustomerId (ValInt (sess_customer_id session))
       (am_set A SessId (ValBigInt (Some (sess_id session))) new_am)))))"

definition plain_collect_sessions where
  "plain_collect_sessions pp = bnd (gets pc_day) (\<lambda>day. bnd (on_plain (delete_expired pp day)) (\<lambda>_. ret ()))"

definition plain_set_current_day :: "int \<Rightarrow> ('d plain_company, 'e, unit) prog" where
  "plain_set_current_day day = modify (\<lambda>pc. pc\<lparr>pc_day := day\<rparr>)"

text \<open>\<open>curtain_call\<close> is the provided method: it does nothing.\<close>

definition plain_actor :: "('d, 'b) plain_platform \<Rightarrow> ('d plain_company, 'b sim_error) test_actor" where
  "plain_actor pp = \<lparr>
     ta_prelude = ret (),
     ta_checkpoint = (\<lambda>n. on_plain (plain_checkpoint pp n)),
     ta_set_title = (\<lambda>_. ret ()),
     ta_set_current_day = plain_set_current_day,
     ta_add_customer = plain_add_customer pp,
     ta_add_inventory_record = plain_add_inventory_record pp,
     ta_add_order = plain_add_order pp,
     ta_add_product = plain_add_product pp,
     ta_add_session = plain_add_session pp,
     ta_check_inventory = (\<lambda>product_id stock _. plain_check_inventory pp product_id stock),
     ta_update_inventory_record = plain_update_inventory_record pp,
     ta_collect_sessions = plain_collect_sessions pp,
     ta_update_order = plain_update_order pp,
     ta_update_product_view_count = plain_update_product_view_count pp,
     ta_update_session = plain_update_session pp,
     ta_step_complete = (\<lambda>_. ret ()),
     ta_curtain_call = ret ()\<rparr>"

section \<open>The ledger in the tables\<close>

definition plain_page :: "'d tables \<Rightarrow> 'd plain_company \<Rightarrow> ledger" where
  "plain_page T pc = \<lparr>lg_products = row_products T (pc_db pc), lg_inventory = row_inventory T (pc_db pc),
     lg_orders = row_orders T (pc_db pc), lg_sessions = row_sessions T (pc_db pc),
     lg_booked = map_of (pc_noted pc), lg_day = pc_day pc\<rparr>"

locale plain_tables =
  fixes pp :: "('d, 'b) plain_platform" and T :: "'d tables"
  assumes products_ok: "statements_ok (products_st pp) (fun_am product_field) product_field ProdId prod_id (row_products T)"
    and inventory_ok: "statements_ok (inventory_st pp) (fun_am inventory_field) inventory_field InvProductId inv_product_id (row_inventory T)"
    and orders_ok: "statements_ok (orders_st pp) (fun_am order_field) order_field OrdId ord_id (row_orders T)"
    and sessions_ok: "statements_ok (sessions_st pp) (fun_am session_field) session_field SessId sess_id (row_sessions T)"
    and customers_apart: "statements_apart (customers_st pp)
      (\<lambda>d. (row_products T d, row_inventory T d, row_orders T d, row_sessions T d))"
    and products_apart: "statements_apart (products_st pp) (\<lambda>d. (row_inventory T d, row_orders T d, row_sessions T d))"
    and inventory_apart: "statements_apart (inventory_st pp) (\<lambda>d. (row_products T d, row_orders T d, row_sessions T d))"
    and orders_apart: "statements_apart (orders_st pp) (\<lambda>d. (row_products T d, row_inventory T d, row_sessions T d))"
    and sessions_apart: "statements_apart (sessions_st pp) (\<lambda>d. (row_products T d, row_inventory T d, row_orders T d))"
    and views_apart: "keeps (\<lambda>d. (row_inventory T d, row_orders T d, row_sessions T d)) (count_views pp k)"
    and views_counted: "count_views pp k d = (Ok (), d') \<Longrightarrow> row_products T d k = Some v \<Longrightarrow> prod_views v + 1 < 2 ^ 63 \<Longrightarrow>
      row_products T d' = (row_products T d)(k \<mapsto> v\<lparr>prod_views := prod_views v + 1\<rparr>)"
    and checkpoint_apart: "keeps (\<lambda>d. (row_products T d, row_inventory T d, row_orders T d, row_sessions T d)) (plain_checkpoint pp n)"
begin

lemma on_plain_Ok: "on_plain m pc = (Ok a, pc') \<Longrightarrow> \<exists>d. m (pc_db pc) = (Ok a, d) \<and> pc' = pc\<lparr>pc_db := d\<rparr>"
  by (auto simp: on_plain_def on_part_eq on_db_def split: prod.splits res.splits)

lemma find_inventory:
  assumes "on_plain (st_find (inventory_st pp) (ValInt (Some k))) pc = (Ok x, pc')"
  shows "x = lg_inventory (plain_page T pc) k \<and> plain_page T pc' = plain_page T pc"
proof -
  obtain d where d: "st_find (inventory_st pp) (ValInt (Some k)) (pc_db pc) = (Ok x, d)" "pc' = pc\<lparr>pc_db := d\<rparr>"
    using on_plain_Ok[OF assms] by blast
  define w where "w = \<lparr>inv_product_id = k, inv_stock = 0, inv_handling_days = 0\<rparr>"
  have "ValInt (Some k) = inventory_field w InvProductId" "inv_product_id w = k" by (simp_all add: w_def inventory_field_def)
  with statements_okD(5)[OF inventory_ok, of w "pc_db pc" x d] d(1)
  have "row_inventory T d = row_inventory T (pc_db pc)" "x = row_inventory T (pc_db pc) k" by simp_all
  with inventory_apart d show ?thesis by (auto simp: plain_page_def statements_apart_def keeps_def)
qed

lemma stock_posted:
  assumes run: "plain_update_inventory_record pp k q pc = (Ok (), pc')"
  shows "post_stock k q (plain_page T pc) = Some (plain_page T pc')"
proof -
  obtain x pc1 where f: "on_plain (st_find (inventory_st pp) (ValInt (Some k))) pc = (Ok x, pc1)"
    using run unfolding plain_update_inventory_record_def bnd_Ok_iff by blast
  note found = find_inventory[OF f]
  obtain v where v: "x = Some v" using run f by (cases x) (auto simp: plain_update_inventory_record_def)
  define n where "n = inv_stock v + q"
  define am where "am = am_set (fun_am inventory_field) InvStock (ValBigInt (Some n))
      (am_set (fun_am inventory_field) InvProductId (ValInt (Some k)) (am_from (fun_am inventory_field) v))"
  have n: "0 \<le> n" "n < 2 ^ 63" and up: "on_plain (st_update (inventory_st pp) am) pc1 = (Ok (), pc')"
    using run f v by (auto simp: plain_update_inventory_record_def i64_add_def n_def am_def Let_def split: if_splits)
  obtain d where d: "st_update (inventory_st pp) am (pc_db pc1) = (Ok (), d)" "pc' = pc1\<lparr>pc_db := d\<rparr>"
    using on_plain_Ok[OF up] by blast
  have row: "row_inventory T (pc_db pc1) = lg_inventory (plain_page T pc)" "lg_inventory (plain_page T pc) k = Some v"
    using found v by (simp_all add: plain_page_def)
  have k: "inv_product_id v = k" using row statements_okD(1)[OF inventory_ok, of "pc_db pc1"] by simp
  have am: "patches (fun_am inventory_field) inventory_field am v (v\<lparr>inv_stock := n\<rparr>)"
    unfolding patches_def
  proof
    fix c show "inventory_field (v\<lparr>inv_stock := n\<rparr>) c = (case am_get (fun_am inventory_field) am c of AvSet x \<Rightarrow> x | _ \<Rightarrow> inventory_field v c)"
      using k by (cases c) (simp_all add: am_def fun_am_def inventory_field_def)
  qed
  have "av_into_value (am_get (fun_am inventory_field) am InvProductId) = Some (inventory_field v InvProductId)"
    using k by (simp add: am_def fun_am_def inventory_field_def)
  from statements_okD(4)[OF inventory_ok d(1) this _ am] k row
  have "row_inventory T d = (lg_inventory (plain_page T pc))(k \<mapsto> v\<lparr>inv_stock := n\<rparr>)" by simp
  moreover have "(row_products T d, row_orders T d, row_sessions T d) =
      (row_products T (pc_db pc1), row_orders T (pc_db pc1), row_sessions T (pc_db pc1))"
    using inventory_apart d(1) unfolding statements_apart_def keeps_def by blast
  ultimately show ?thesis
    using n row(2) found d(2) by (simp add: post_stock_def n_def plain_page_def)
qed

lemma order_posted:
  assumes run: "plain_update_inventory pp ord pc = (Ok (), pc')"
  shows "post_order ord (plain_page T pc) = Some (plain_page T pc')"
proof (cases "settled (ord_status ord)")
  case True
  then show ?thesis using run by (simp add: plain_update_inventory_def post_order_def)
next
  case False
  define pc1 where "pc1 = pc\<lparr>pc_noted := hm_insert (ord_id ord) ord (pc_noted pc)\<rparr>"
  have new: "map_of (pc_noted pc) (ord_id ord) = None"
    and up: "plain_update_inventory_record pp (ord_product_id ord) (- ord_quantity ord) pc1 = (Ok (), pc')"
    using run False by (auto simp: plain_update_inventory_def pc1_def split: if_splits)
  have "plain_page T pc1 = note_order ord (plain_page T pc)"
    by (simp add: plain_page_def pc1_def note_order_def)
  with stock_posted[OF up] new False show ?thesis by (simp add: post_order_def plain_page_def)
qed

lemma post_order_keeps:
  "post_order ord lg = Some lg' \<Longrightarrow> lg_orders lg' = lg_orders lg \<and> lg_sessions lg' = lg_sessions lg \<and>
     lg_products lg' = lg_products lg \<and> lg_day lg' = lg_day lg"
  by (auto simp: post_order_def post_stock_def note_order_def split: if_splits option.splits)

lemma order_row_updated:
  assumes run: "plain_update_order pp upd pc = (Ok (), pc')" and old: "row_orders T (pc_db pc) (ord_id upd) = Some old"
  shows "\<exists>lg. post_order upd (plain_page T pc) = Some lg \<and>
    plain_page T pc' = lg\<lparr>lg_orders := (lg_orders lg)(ord_id upd \<mapsto> old\<lparr>ord_status := ord_status upd\<rparr>)\<rparr>"
proof -
  define am where "am = am_set (fun_am order_field) OrdStatus (ValString (Some (order_status_value (ord_status upd))))
       (am_set (fun_am order_field) OrdId (ValUuid (Some (ord_id upd))) new_am)"
  obtain pc1 where up: "plain_update_inventory pp upd pc = (Ok (), pc1)" and st: "on_plain (st_update (orders_st pp) am) pc1 = (Ok (), pc')"
    using run by (auto simp: plain_update_order_def Let_def am_def)
  obtain d where d: "st_update (orders_st pp) am (pc_db pc1) = (Ok (), d)" "pc' = pc1\<lparr>pc_db := d\<rparr>"
    using on_plain_Ok[OF st] by blast
  note post = order_posted[OF up]
  have row: "row_orders T (pc_db pc1) (ord_id upd) = Some old"
    using post_order_keeps[OF post] old by (simp add: plain_page_def)
  have k: "ord_id old = ord_id upd" using row statements_okD(1)[OF orders_ok, of "pc_db pc1"] by simp
  have am: "patches (fun_am order_field) order_field am old (old\<lparr>ord_status := ord_status upd\<rparr>)"
    unfolding patches_def
  proof
    fix c show "order_field (old\<lparr>ord_status := ord_status upd\<rparr>) c = (case am_get (fun_am order_field) am c of AvSet x \<Rightarrow> x | _ \<Rightarrow> order_field old c)"
      using k by (cases c) (simp_all add: am_def fun_am_def order_field_def new_am_def)
  qed
  have "av_into_value (am_get (fun_am order_field) am OrdId) = Some (order_field old OrdId)"
    using k by (simp add: am_def fun_am_def order_field_def)
  from statements_okD(4)[OF orders_ok d(1) this _ am] k row
  have "row_orders T d = (row_orders T (pc_db pc1))(ord_id upd \<mapsto> old\<lparr>ord_status := ord_status upd\<rparr>)" by simp
  moreover have "(row_products T d, row_inventory T d, row_sessions T d) =
      (row_products T (pc_db pc1), row_inventory T (pc_db pc1), row_sessions T (pc_db pc1))"
    using orders_apart d(1) unfolding statements_apart_def keeps_def by blast
  ultimately show ?thesis using post d(2) by (intro exI[of _ "plain_page T pc1"]) (simp add: plain_page_def)
qed

lemma session_row_updated:
  assumes run: "plain_update_session pp upd pc = (Ok (), pc')" and old: "row_sessions T (pc_db pc) (sess_id upd) = Some old"
  shows "plain_page T pc' = (plain_page T pc)\<lparr>lg_sessions := (row_sessions T (pc_db pc))(sess_id upd \<mapsto>
    old\<lparr>sess_customer_id := sess_customer_id upd, sess_expires_on := sess_expires_on upd\<rparr>)\<rparr>"
proof -
  define w where "w = old\<lparr>sess_customer_id := sess_customer_id upd, sess_expires_on := sess_expires_on upd\<rparr>"
  define am where "am = am_set (fun_am session_field) SessExpiresOn (ValInt (Some (sess_expires_on upd)))
       (am_set (fun_am session_field) SessCustomerId (ValInt (sess_customer_id upd))
       (am_set (fun_am session_field) SessId (ValBigInt (Some (sess_id upd))) new_am))"
  have st: "on_plain (st_update (sessions_st pp) am) pc = (Ok (), pc')"
    using run by (simp add: plain_update_session_def Let_def am_def)
  obtain d where d: "st_update (sessions_st pp) am (pc_db pc) = (Ok (), d)" "pc' = pc\<lparr>pc_db := d\<rparr>"
    using on_plain_Ok[OF st] by blast
  have k: "sess_id old = sess_id upd" using old statements_okD(1)[OF sessions_ok, of "pc_db pc"] by simp
  have am: "patches (fun_am session_field) session_field am old w"
    unfolding patches_def
  proof
    fix c show "session_field w c = (case am_get (fun_am session_field) am c of AvSet x \<Rightarrow> x | _ \<Rightarrow> session_field old c)"
      using k by (cases c) (simp_all add: am_def fun_am_def session_field_def new_am_def w_def)
  qed
  have "av_into_value (am_get (fun_am session_field) am SessId) = Some (session_field old SessId)"
    using k by (simp add: am_def fun_am_def session_field_def)
  from statements_okD(4)[OF sessions_ok d(1) this _ am] k old
  have "row_sessions T d = (row_sessions T (pc_db pc))(sess_id upd \<mapsto> w)" by simp
  moreover have "(row_products T d, row_inventory T d, row_orders T d) =
      (row_products T (pc_db pc), row_inventory T (pc_db pc), row_orders T (pc_db pc))"
    using sessions_apart d(1) unfolding statements_apart_def keeps_def by blast
  ultimately show ?thesis using d(2) by (simp add: plain_page_def w_def)
qed

lemma insert_statement:
  assumes "statements_ok S (fun_am fld) fld kc pk R" "statements_apart S Q"
    and "on_plain (st_insert S (am_from (fun_am fld) v)) pc = (Ok (), pc')"
  shows "\<exists>d. pc' = pc\<lparr>pc_db := d\<rparr> \<and> R d = (R (pc_db pc))(pk v \<mapsto> v) \<and> Q d = Q (pc_db pc)"
proof -
  obtain d where d: "st_insert S (am_from (fun_am fld) v) (pc_db pc) = (Ok (), d)" "pc' = pc\<lparr>pc_db := d\<rparr>"
    using on_plain_Ok[OF assms(3)] by blast
  moreover have "Q d = Q (pc_db pc)" using assms(2) d(1) unfolding statements_apart_def keeps_def by blast
  ultimately show ?thesis using statements_okD(2)[OF assms(1) d(1) represents_from[OF am_ok_fun_am]] by blast
qed

lemma rows_inserted:
  "on_plain (st_insert (products_st pp) (am_from (fun_am product_field) vp)) pc = (Ok (), pc') \<Longrightarrow>
     plain_page T pc' = (plain_page T pc)\<lparr>lg_products := (row_products T (pc_db pc))(prod_id vp \<mapsto> vp)\<rparr>"
  "on_plain (st_insert (inventory_st pp) (am_from (fun_am inventory_field) vi)) pc = (Ok (), pc') \<Longrightarrow>
     plain_page T pc' = (plain_page T pc)\<lparr>lg_inventory := (row_inventory T (pc_db pc))(inv_product_id vi \<mapsto> vi)\<rparr>"
  "on_plain (st_insert (orders_st pp) (am_from (fun_am order_field) vo)) pc = (Ok (), pc') \<Longrightarrow>
     plain_page T pc' = (plain_page T pc)\<lparr>lg_orders := (row_orders T (pc_db pc))(ord_id vo \<mapsto> vo)\<rparr>"
  "on_plain (st_insert (sessions_st pp) (am_from (fun_am session_field) vs)) pc = (Ok (), pc') \<Longrightarrow>
     plain_page T pc' = (plain_page T pc)\<lparr>lg_sessions := (row_sessions T (pc_db pc))(sess_id vs \<mapsto> vs)\<rparr>"
  by (auto simp: plain_page_def dest!: insert_statement[OF products_ok products_apart] insert_statement[OF inventory_ok inventory_apart]
      insert_statement[OF orders_ok orders_apart] insert_statement[OF sessions_ok sessions_apart])

lemma rows_kept:
  assumes "keeps (\<lambda>d. (row_products T d, row_inventory T d, row_orders T d, row_sessions T d)) m" "on_plain m pc = (r, pc')"
  shows "plain_page T pc' = plain_page T pc"
proof -
  obtain d r1 where d: "m (pc_db pc) = (r1, d)" "pc' = pc\<lparr>pc_db := d\<rparr>"
    using assms(2) by (auto simp: on_plain_def on_part_eq on_db_def split: prod.splits res.splits)
  then have "(row_products T d, row_inventory T d, row_orders T d, row_sessions T d) =
      (row_products T (pc_db pc), row_inventory T (pc_db pc), row_orders T (pc_db pc), row_sessions T (pc_db pc))"
    using assms(1) unfolding keeps_def by blast
  then show ?thesis by (simp add: plain_page_def d(2))
qed

lemma views_posted:
  assumes "on_plain (count_views pp k) pc = (Ok (), pc')" "row_products T (pc_db pc) k = Some v" "prod_views v + 1 < 2 ^ 63"
  shows "plain_page T pc' = (plain_page T pc)\<lparr>lg_products := (row_products T (pc_db pc))(k \<mapsto> v\<lparr>prod_views := prod_views v + 1\<rparr>)\<rparr>"
proof -
  obtain d where d: "count_views pp k (pc_db pc) = (Ok (), d)" "pc' = pc\<lparr>pc_db := d\<rparr>" using on_plain_Ok[OF assms(1)] by blast
  have "(row_inventory T d, row_orders T d, row_sessions T d) =
      (row_inventory T (pc_db pc), row_orders T (pc_db pc), row_sessions T (pc_db pc))"
    using views_apart[of k] d(1) unfolding keeps_def by blast
  then show ?thesis using views_counted[OF d(1) assms(2,3)] by (simp add: plain_page_def d(2))
qed

text \<open>A step that succeeds writes its effect into the tables, where it has one.\<close>

lemma plain_perform:
  assumes run: "perform (plain_actor pp) st pc = (Ok (), pc')" and eff: "step_effect st (plain_page T pc) = Some lg"
  shows "plain_page T pc' = lg"
proof -
  note eq = run[unfolded perform_def plain_actor_def]
  show ?thesis
  proof (cases st)
    case (AddProduct v)
    then show ?thesis using eq eff rows_inserted(1) by (simp add: plain_add_product_def plain_page_def)
  next
    case (AddCustomer v)
    then show ?thesis
      using eq eff rows_kept[of "st_insert (customers_st pp) am" for am] customers_apart
      by (simp add: plain_add_customer_def statements_apart_def)
  next
    case (AddOrder v)
    then obtain pc1 where up: "plain_update_inventory pp v pc = (Ok (), pc1)"
      and ins: "on_plain (st_insert (orders_st pp) (am_from (fun_am order_field) (v\<lparr>ord_purchased_on := pc_day pc1\<rparr>))) pc1 = (Ok (), pc')"
      using eq by (auto simp: plain_add_order_def)
    note post = order_posted[OF up]
    have "pc_day pc1 = pc_day pc" "row_orders T (pc_db pc1) = row_orders T (pc_db pc)"
      using post_order_keeps[OF post] by (simp_all add: plain_page_def)
    then show ?thesis using rows_inserted(3)[OF ins] post eff AddOrder by (auto simp: plain_page_def)
  next
    case (UpdateOrder v)
    then have run: "plain_update_order pp v pc = (Ok (), pc')" using eq by simp
    obtain old where old: "row_orders T (pc_db pc) (ord_id v) = Some old"
      using eff UpdateOrder by (auto simp: plain_page_def split: option.splits)
    obtain lg1 where lg1: "post_order v (plain_page T pc) = Some lg1"
      "plain_page T pc' = lg1\<lparr>lg_orders := (lg_orders lg1)(ord_id v \<mapsto> old\<lparr>ord_status := ord_status v\<rparr>)\<rparr>"
      using order_row_updated[OF run old] by blast
    then show ?thesis using post_order_keeps[OF lg1(1)] eff UpdateOrder old by (auto simp: plain_page_def)
  next
    case (AddSession v)
    then show ?thesis using eq eff rows_inserted(4) by (simp add: plain_add_session_def plain_page_def)
  next
    case (UpdateSession v)
    then show ?thesis using eq eff session_row_updated[of v pc pc'] by (auto simp: plain_page_def)
  next
    case (AddInventoryRecord v)
    then show ?thesis using eq eff rows_inserted(2) by (simp add: plain_add_inventory_record_def plain_page_def)
  next
    case (AddStock v)
    then show ?thesis using eq eff stock_posted by simp
  next
    case (ViewProduct k)
    then show ?thesis
      using eq eff views_posted[of k pc pc'] by (auto simp: plain_update_product_view_count_def plain_page_def split: option.splits if_splits)
  next
    case (CheckInventory c)
    then obtain x pc1 where "on_plain (st_find (inventory_st pp) (ValInt (Some (check_product_id c)))) pc = (Ok x, pc1)"
      "plain_page T pc' = plain_page T pc1"
      using eq by (auto simp: plain_check_inventory_def inv_rec_compare_def plain_page_def split: option.splits if_splits)
    then show ?thesis
      using find_inventory[of "check_product_id c" pc x pc1] eff CheckInventory by (auto split: option.splits if_splits)
  qed (use eq eff in \<open>auto simp: plain_set_current_day_def plain_page_def\<close>)
qed

end

section \<open>Whole scripts\<close>

text \<open>The effects of steps that all succeed, one after the other.\<close>

fun post_all :: "step list \<Rightarrow> ledger \<Rightarrow> ledger option" where
  "post_all [] lg = Some lg"
| "post_all (st # sts) lg = Option.bind (step_effect st lg) (post_all sts)"

lemma post_all_append: "post_all (sts @ sts') lg = Option.bind (post_all sts lg) (post_all sts')"
proof (induction sts arbitrary: lg)
  case (Cons st sts)
  then show ?case by (cases "step_effect st lg") simp_all
qed simp

lemma ledger_run_posts:
  "ledger_run lg evs lg' \<Longrightarrow> \<forall>ev \<in> set evs. snd ev \<Longrightarrow> post_all (map fst evs) lg = Some lg'"
  by (induction rule: ledger_run.induct) (simp_all add: post_all_append)

context plain_tables
begin

lemma plain_steps:
  "steps_succeed (plain_actor pp) n sts pc pc' \<Longrightarrow> post_all sts (plain_page T pc) = Some lg \<Longrightarrow> plain_page T pc' = lg"
proof (induction sts arbitrary: n pc)
  case (Cons st sts)
  obtain pc1 pc2 where run: "ta_checkpoint (plain_actor pp) n pc = (Ok (), pc1)" "perform (plain_actor pp) st pc1 = (Ok (), pc2)"
    "steps_succeed (plain_actor pp) (n + 1) sts pc2 pc'"
    using Cons.prems(1) by (auto simp: plain_actor_def)
  have "plain_page T pc1 = plain_page T pc"
    by (rule rows_kept[OF checkpoint_apart]) (use run(1) in \<open>simp add: plain_actor_def\<close>)
  moreover obtain lg1 where "step_effect st (plain_page T pc) = Some lg1" "post_all sts lg1 = Some lg"
    using Cons.prems(2) by (auto simp: bind_eq_Some_conv)
  ultimately show ?case using Cons.IH[OF run(3)] plain_perform[OF run(2)] by simp
qed simp

end

text \<open>Both companies, a script that succeeds on both.\<close>

definition plain_opened :: "'d \<Rightarrow> 'd plain_company" where
  "plain_opened d = \<lparr>pc_db = d, pc_day = 0, pc_check_no = 0, pc_noted = []\<rparr>"

lemma plain_page_opened: "plain_page T (plain_opened d) = first_page T d"
  by (simp add: plain_page_def plain_opened_def first_page_def)

lemma both_books:
  fixes pf :: "('d, 't, 'm, 'b) platform" and pp :: "('p, 'b) plain_platform"
  assumes "company_platform pf T" "plain_tables pp P" "empty_mokas pf mo" "first_page T d = first_page P d'"
    and "company_run pf T (opened mo d now) evs co" "\<forall>ev \<in> set evs. snd ev"
    and "steps_succeed (plain_actor pp) n (map fst evs) (plain_opened d') pc"
  shows "books pf T (plain_page P pc) co"
proof -
  obtain lg where lg: "ledger_run (first_page T d) evs lg" "books pf T lg co"
    using company_platform.run_books[OF assms(1,5) company_platform.opened_books[OF assms(1,3)]] by blast
  have "post_all (map fst evs) (plain_page P (plain_opened d')) = Some lg"
    using ledger_run_posts[OF lg(1) assms(6)] assms(4) by (simp add: plain_page_opened)
  from plain_tables.plain_steps[OF assms(2,7) this] lg(2) show ?thesis by simp
qed

end
