(* ===== verification/Town.thy ===== *)
theory Town
  imports Performances
begin

text \<open>Whole performances on the small company, computed.\<close>

section \<open>Playing a script\<close>

fun play_script ::
  "('d, 't, 'm, 'b) platform \<Rightarrow> 'd tables \<Rightarrow> (step \<times> bool) list \<Rightarrow> step list \<Rightarrow> ('d, 'm, 'b) company \<Rightarrow>
     ((step \<times> bool) list \<times> ('d, 'm, 'b) company) option" where
  "play_script pf T evs [] co = Some (evs, co)"
| "play_script pf T evs (st # sts) co = (if admissible T st co then
     (case perform (company_actor pf) st co of (r, co1) \<Rightarrow>
       (case r of Wait \<Rightarrow> None | Ok _ \<Rightarrow> play_script pf T (evs @ [(st, True)]) sts co1
        | _ \<Rightarrow> play_script pf T (evs @ [(st, False)]) sts co1)) else None)"

lemma play_script_run:
  "play_script pf T evs sts co = Some (evs', co') \<Longrightarrow> company_run pf T co0 evs co \<Longrightarrow> company_run pf T co0 evs' co'"
proof (induction pf T evs sts co rule: play_script.induct)
  case (2 pf T evs st sts co)
  obtain r co1 where run: "perform (company_actor pf) st co = (r, co1)" by fastforce
  have ad: "admissible T st co" and r: "r \<noteq> Wait" using "2.prems"(1) run by (auto split: if_splits)
  from run_step[OF "2.prems"(2) ad run r] "2.IH"(1)[OF ad run[symmetric]] "2.IH"(2)[OF ad run[symmetric]]
    "2.IH"(3)[OF ad run[symmetric]] "2.prems"(1) run ad r
  show ?case by (cases r) auto
qed simp

lemmas company_eval = attach_def on_customers_def on_products_def on_inventory_def on_orders_def on_sessions_def
  customer_conf_def product_conf_def inv_rec_conf_def order_conf_def session_conf_def company_orm_def ctx_company_def
  order_on_flush_one_def order_observer_def session_observer_def i64_add_def compute_entry_def insert_record_def
  flush_cache_def add_customer_def add_product_def add_inventory_record_def add_session_def inv_rec_compare_def
  check_inventory_def change_stock_def update_inventory_record_def settled_def update_inventory_def add_order_def
  change_order_def update_order_def count_view_def update_product_view_count_def change_session_def update_session_def
  collect_session_stubs_def expire_session_def collect_sessions_def set_current_day_def curtain_call_def close_cache_def
  last_round_def perform_def company_actor_def

lemmas town_eval = town_def town_tables_def lift_orm_def on_part_def then_map_def void_moka_def empty_db_def opened_def
  inventory_manager_def inventory_common_def inventory_field_def inventory_of_def inventory_get_for_key_def
  order_manager_def order_common_def order_field_def order_of_def order_get_for_key_def
  session_manager_def session_common_def session_field_def session_of_def session_get_for_key_def product_eval customer_eval

section \<open>A town\<close>

definition beans :: inventory where
  "beans = \<lparr>inv_product_id = 1, inv_stock = 5, inv_handling_days = 2\<rparr>"

definition order7 :: order where
  "order7 = \<lparr>ord_id = 9, ord_customer_id = 3, ord_product_id = 1, ord_quantity = 7, ord_status = New, ord_purchased_on = 0\<rparr>"

definition order3 :: order where
  "order3 = \<lparr>ord_id = 8, ord_customer_id = 3, ord_product_id = 1, ord_quantity = 3, ord_status = Pending, ord_purchased_on = 0\<rparr>"

definition delivery :: incoming_shipment where
  "delivery = \<lparr>shipment_product_id = 1, batch_size = 4\<rparr>"

definition town0 :: "(database, unit, db_err) company" where
  "town0 = opened () (empty_db\<lparr>db_inventory := [beans]\<rparr>) 0"

lemmas town_steps = town0_def beans_def order7_def order3_def delivery_def

text \<open>An order is taken, a delivery comes in: the stock is 6.\<close>

lemma town_trade:
  "map_option (\<lambda>(evs, co). (evs, fst (on_inventory (cache_get (inv_rec_conf town) 1) co),
       fst (on_inventory (flush (inv_rec_conf town)) co)))
     (play_script town town_tables [] [AddOrder order3, AddStock delivery] town0) =
   Some ([(AddOrder order3, True), (AddStock delivery, True)], Ok (Some (beans\<lparr>inv_stock := 6\<rparr>)), Ok 0)"
  by (simp add: eval_simps company_eval town_eval town_steps cong: eval_cong del: eval_del)

text \<open>An order for more than there is fails; there is enough for it after the delivery.\<close>

lemma town_refusal:
  "map_option fst (play_script town town_tables [] [AddOrder order7, AddStock delivery] town0) =
   Some [(AddOrder order7, False), (AddStock delivery, True)]"
  by (simp add: eval_simps company_eval town_eval town_steps cong: eval_cong del: eval_del)

text \<open>A script whose last check fails.\<close>

definition wrong_check :: inventory_check where
  "wrong_check = \<lparr>check_product_id = 1, check_stock = 4, check_comment = ''stock''\<rparr>"

definition short_title :: script_title where
  "short_title = \<lparr>title_period = 1, title_products = 1, title_market_capacity = 1\<rparr>"

lemma town_check_fails:
  "fst (perform (company_actor town) (CheckInventory wrong_check) town0) = Fail (SimMsg ''Inventory check failed'')"
  by (simp add: eval_simps company_eval town_eval town_steps wrong_check_def cong: eval_cong del: eval_del)

lemma town_act: "fst (act (company_actor town) [Title short_title, CheckInventory wrong_check] town0) = Ok ()"
  by (simp add: act_def take_step_def attempt_def eval_simps company_eval town_eval town_steps wrong_check_def cong: eval_cong del: eval_del)

text \<open>A session without a customer that is about to expire, and the login that prolongs it.\<close>

definition stub :: session where
  "stub = \<lparr>sess_id = 1, sess_customer_id = None, sess_expires_on = 5\<rparr>"

definition login :: session where
  "login = \<lparr>sess_id = 1, sess_customer_id = Some 3, sess_expires_on = 20\<rparr>"

definition town_visited :: "(database, unit, db_err) company" where
  "town_visited = opened () (empty_db\<lparr>db_sessions := [stub]\<rparr>) 0"

lemma town_login:
  "map_option (\<lambda>(evs, co). (evs, case collect_sessions town co of
       (r, co') \<Rightarrow> (r, fst (on_sessions (flush_cache (session_conf town)) co'))))
     (play_script town town_tables [] [UpdateSession login, Day 10] town_visited) =
   Some ([(UpdateSession login, True), (Day 10, True)], Ok (), Fail (DbError RecordNotUpdated))"
  by (simp add: eval_simps company_eval town_eval stub_def login_def town_visited_def session_on_flush_def session_on_flush_one_def
      session_customer_def note_customer_def iter_fold.simps cong: eval_cong del: eval_del)

section \<open>The runs\<close>

lemma town_mokas: "empty_mokas town ()"
  by (simp add: empty_mokas_def town_def void_moka_def)

lemma town_books: "books town town_tables (first_page town_tables (co_db town0)) town0"
  using town_company.opened_books[OF town_mokas] by (simp add: town0_def opened_def)

lemma town_trade_run: "\<exists>co co' co''. company_run town town_tables town0 [(AddOrder order3, True), (AddStock delivery, True)] co \<and>
    on_inventory (cache_get (inv_rec_conf town) 1) co = (Ok (Some (beans\<lparr>inv_stock := 6\<rparr>)), co') \<and>
    on_inventory (flush (inv_rec_conf town)) co = (Ok 0, co'')"
proof -
  obtain co where co: "play_script town town_tables [] [AddOrder order3, AddStock delivery] town0 =
      Some ([(AddOrder order3, True), (AddStock delivery, True)], co)"
    "fst (on_inventory (cache_get (inv_rec_conf town) 1) co) = Ok (Some (beans\<lparr>inv_stock := 6\<rparr>))"
    "fst (on_inventory (flush (inv_rec_conf town)) co) = Ok 0"
    using town_trade by auto
  show ?thesis using play_script_run[OF co(1) run_none] co(2,3) by (metis prod.collapse)
qed

lemma town_refusal_run:
  "\<exists>co. company_run town town_tables town0 [(AddOrder order7, False), (AddStock delivery, True)] co"
proof -
  obtain co where "play_script town town_tables [] [AddOrder order7, AddStock delivery] town0 =
      Some ([(AddOrder order7, False), (AddStock delivery, True)], co)"
    using town_refusal by auto
  from play_script_run[OF this run_none] show ?thesis ..
qed

lemma town_login_run:
  "\<exists>co co' t. company_run town town_tables town_visited [(UpdateSession login, True), (Day 10, True)] co \<and>
     collect_sessions town co = (Ok (), co') \<and>
     on_sessions (flush_cache (session_conf town)) co' = (Fail (DbError RecordNotUpdated), t)"
proof -
  obtain co where play: "play_script town town_tables [] [UpdateSession login, Day 10] town_visited =
      Some ([(UpdateSession login, True), (Day 10, True)], co)"
    and col: "(case collect_sessions town co of (r, co') \<Rightarrow> (r, fst (on_sessions (flush_cache (session_conf town)) co'))) =
      (Ok (), Fail (DbError RecordNotUpdated))"
    using town_login by auto
  obtain r co' where c: "collect_sessions town co = (r, co')" by fastforce
  then have "r = Ok ()" "fst (on_sessions (flush_cache (session_conf town)) co') = Fail (DbError RecordNotUpdated)"
    using col by simp_all
  with c play_script_run[OF play run_none] show ?thesis by (metis prod.collapse)
qed

end
