(* ===== verification/TwoCompanies.thy ===== *)
theory TwoCompanies
  imports Plain Town
begin

text \<open>
  The two companies side by side: what a flush leaves in the tables, and a plain company on lists
  that plays the same script as the small company of \<open>Town\<close>.
\<close>

section \<open>After a flush\<close>

context background
begin

lemma flush_Ok_writes:
  assumes co: "coherent C R vok s m" and run: "flush C s = (Ok n, t)"
  shows "R (backend t) = m"
proof (cases "error s")
  case (Some e)
  with run show ?thesis by (simp add: error_first(5)[OF Some])
next
  case None
  from coherent_flush[OF co None orders run] show ?thesis by simp
qed

end

context company_platform
begin

lemma flushed_tables:
  assumes "books pf T lg co"
  shows "on_products (flush (product_conf pf)) co = (Ok n, co') \<Longrightarrow> row_products T (co_db co') = lg_products lg"
    and "on_inventory (flush (inv_rec_conf pf)) co = (Ok n, co') \<Longrightarrow> row_inventory T (co_db co') = lg_inventory lg"
    and "on_orders (flush (order_conf pf)) co = (Ok n, co') \<Longrightarrow> row_orders T (co_db co') = lg_orders lg"
    and "on_sessions (flush (session_conf pf)) co = (Ok n, co') \<Longrightarrow> row_sessions T (co_db co') = lg_sessions lg"
  using assms background.flush_Ok_writes[OF products_background] background.flush_Ok_writes[OF inventory_background]
    background.flush_Ok_writes[OF orders_background] background.flush_Ok_writes[OF sessions_background]
  unfolding books_def books_beside_def products_hold_def inventory_holds_def orders_hold_def sessions_hold_def on_cache_eq
  by fastforce+

end

section \<open>Statements on lists\<close>

definition list_statements ::
  "('v \<Rightarrow> 'c \<Rightarrow> 'x) \<Rightarrow> 'c \<Rightarrow> ('v \<Rightarrow> 'k) \<Rightarrow> (('c \<Rightarrow> 'x) \<Rightarrow> 'v) \<Rightarrow>
     ('v list, 'c \<Rightarrow> 'x active_value, 'x, 'v, db_err) statements" where
  "list_statements fld kc pk build = \<lparr>
     st_insert = (\<lambda>am d. let v = build (\<lambda>c. the (av_into_value (am c))) in
       if list_rows pk d (pk v) = None then (Ok (), v # d) else (Fail RecordNotInserted, d)),
     st_update = (\<lambda>am d. case List.find (\<lambda>v. av_into_value (am kc) = Some (fld v kc) \<and> list_rows pk d (pk v) = Some v) d of
         None \<Rightarrow> (Fail RecordNotUpdated, d)
       | Some r \<Rightarrow> (Ok (), build (\<lambda>c. case am c of AvSet x \<Rightarrow> x | _ \<Rightarrow> fld r c) # d)),
     st_find = (\<lambda>x d. (Ok (List.find (\<lambda>v. fld v kc = x \<and> list_rows pk d (pk v) = Some v) d), d))\<rparr>"

lemma find_row:
  assumes "\<And>v. P v \<longleftrightarrow> pk v = k"
  shows "List.find (\<lambda>v. P v \<and> list_rows pk d (pk v) = Some v) d = list_rows pk d k"
proof (cases "list_rows pk d k")
  case None
  then show ?thesis using assms by (auto simp: find_None_iff)
next
  case (Some v)
  have "v \<in> set d" "pk v = k" using list_rows_set[OF Some] list_rows_keyed[OF Some] by simp_all
  then obtain u where u: "List.find (\<lambda>v. P v \<and> list_rows pk d (pk v) = Some v) d = Some u"
    using assms Some by (cases "List.find (\<lambda>v. P v \<and> list_rows pk d (pk v) = Some v) d") (auto simp: find_None_iff)
  then have "pk u = k" "list_rows pk d (pk u) = Some u" using assms by (auto simp: find_Some_iff)
  with u Some show ?thesis by simp
qed

lemma statements_ok_list:
  assumes build: "\<And>v. build (fld v) = v" and key: "\<And>v w. fld v kc = fld w kc \<longleftrightarrow> pk v = pk w"
  shows "statements_ok (list_statements fld kc pk build) (fun_am fld) fld kc pk (list_rows pk)"
  unfolding statements_ok_def
proof (intro conjI allI impI)
  show "orm_keyed pk (list_rows pk)" by (auto simp: orm_keyed_def dest: list_rows_keyed)
next
  fix am v d d' assume run: "st_insert (list_statements fld kc pk build) am d = (Ok (), d')" "represents (fun_am fld) fld am v"
  have "build (\<lambda>c. the (av_into_value (am c))) = v" by (rule list_build[where fld = fld, OF build run(2)])
  then show "list_rows pk d' = (list_rows pk d)(pk v \<mapsto> v)"
    using run(1) by (auto simp: list_statements_def Let_def split: if_splits)
next
  fix am w d d' assume run: "st_update (list_statements fld kc pk build) am d = (Ok (), d')"
    and w: "av_into_value (am_get (fun_am fld) am kc) = Some (fld w kc)"
  have am: "av_into_value (am kc) = Some (fld w kc)" using w by (simp add: fun_am_def)
  have "List.find (\<lambda>v. av_into_value (am kc) = Some (fld v kc) \<and> list_rows pk d (pk v) = Some v) d = list_rows pk d (pk w)"
    by (rule find_row) (use am key in auto)
  then obtain r where r: "list_rows pk d (pk w) = Some r" "d' = build (\<lambda>c. case am c of AvSet x \<Rightarrow> x | _ \<Rightarrow> fld r c) # d"
    using run by (auto simp: list_statements_def split: option.splits)
  have "list_rows pk d' = (list_rows pk d)(pk w \<mapsto> v)" if "patches (fun_am fld) fld am r v" for v
  proof -
    have "build (\<lambda>c. case am c of AvSet x \<Rightarrow> x | _ \<Rightarrow> fld r c) = v" by (rule list_patch[where fld = fld, OF build that])
    moreover have "pk r = pk w" using list_rows_keyed[OF r(1)] .
    then have "fld v kc = fld w kc"
      using that am key by (cases "am kc") (auto simp: patches_def fun_am_def)
    ultimately show ?thesis using r(2) key by simp
  qed
  with r(1) show "\<exists>r. list_rows pk d (pk w) = Some r \<and> (\<forall>v. patches (fun_am fld) fld am r v \<longrightarrow> list_rows pk d' = (list_rows pk d)(pk w \<mapsto> v))"
    by blast
next
  fix w d x d' assume "st_find (list_statements fld kc pk build) (fld w kc) d = (Ok x, d')"
  then show "list_rows pk d' = list_rows pk d" "x = list_rows pk d (pk w)"
    using find_row[of "\<lambda>v. fld v kc = fld w kc" pk "pk w" d] key by (auto simp: list_statements_def)
qed

definition lift_statements ::
  "('s \<Rightarrow> 'd) \<Rightarrow> ('d \<Rightarrow> 's \<Rightarrow> 's) \<Rightarrow> ('d, 'am, 'x, 'v, 'b) statements \<Rightarrow> ('s, 'am, 'x, 'v, 'b) statements" where
  "lift_statements get put S = \<lparr>st_insert = (\<lambda>am. on_part get put (st_insert S am)),
     st_update = (\<lambda>am. on_part get put (st_update S am)), st_find = (\<lambda>x. on_part get put (st_find S x))\<rparr>"

lemma statements_ok_lift:
  assumes ok: "statements_ok S A fld kc pk R" and gp: "\<And>d s. get (put d s) = d"
  shows "statements_ok (lift_statements get put S) A fld kc pk (\<lambda>s. R (get s))"
  unfolding statements_ok_def lift_statements_def statements.simps
proof (intro conjI allI impI, goal_cases)
  case 1
  then show ?case using statements_okD(1)[OF ok] by (auto simp: orm_keyed_def)
next
  case (2 am v s s')
  then show ?case using statements_okD(2)[OF ok] by (auto simp: on_part_eq gp)
next
  case (3 am w s s')
  then obtain t where t: "st_update S am (get s) = (Ok (), t)" "s' = put t s" by (auto simp: on_part_eq)
  from statements_okD(3,4)[OF ok t(1) 3(2)] t(2) show ?case by (auto simp: gp)
next
  case (4 w s x s')
  then show ?case using statements_okD(5)[OF ok] by (auto simp: on_part_eq gp)
next
  case (5 w s x s')
  then show ?case using statements_okD(5)[OF ok] by (auto simp: on_part_eq)
qed

lemma statements_apart_part:
  "(\<And>d s. Q (put d s) = Q s) \<Longrightarrow> statements_apart (lift_statements get put S) Q"
  by (simp add: statements_apart_def lift_statements_def keeps_on_part_other)

definition village :: "(database, db_err) plain_platform" where
  "village = \<lparr>
     customers_st = lift_statements db_customers (\<lambda>t d. d\<lparr>db_customers := t\<rparr>) (list_statements customer_field CustId customer_key customer_of),
     products_st = lift_statements db_products (\<lambda>t d. d\<lparr>db_products := t\<rparr>) (list_statements product_field ProdId prod_id product_of),
     inventory_st = lift_statements db_inventory (\<lambda>t d. d\<lparr>db_inventory := t\<rparr>)
       (list_statements inventory_field InvProductId inv_product_id inventory_of),
     orders_st = lift_statements db_orders (\<lambda>t d. d\<lparr>db_orders := t\<rparr>) (list_statements order_field OrdId ord_id order_of),
     sessions_st = lift_statements db_sessions (\<lambda>t d. d\<lparr>db_sessions := t\<rparr>) (list_statements session_field SessId sess_id session_of),
     count_views = (\<lambda>k d. (Ok (), case list_rows prod_id (db_products d) k of None \<Rightarrow> d
       | Some v \<Rightarrow> d\<lparr>db_products := v\<lparr>prod_views := prod_views v + 1\<rparr> # db_products d\<rparr>)),
     delete_expired = (\<lambda>day d. (Ok (length (filter (\<lambda>v. sess_expires_on v \<le> day) (db_sessions d))),
       d\<lparr>db_sessions := filter (\<lambda>v. \<not> sess_expires_on v \<le> day) (db_sessions d)\<rparr>)),
     plain_checkpoint = (\<lambda>_. ret ())\<rparr>"

interpretation village_tables: plain_tables village town_tables
proof unfold_locales
  show "statements_ok (products_st village) (fun_am product_field) product_field ProdId prod_id (row_products town_tables)"
    unfolding village_def town_tables_def plain_platform.simps tables.simps
    by (rule statements_ok_lift[OF statements_ok_list]) (simp_all add: product_field_def)
  show "statements_ok (inventory_st village) (fun_am inventory_field) inventory_field InvProductId inv_product_id (row_inventory town_tables)"
    unfolding village_def town_tables_def plain_platform.simps tables.simps
    by (rule statements_ok_lift[OF statements_ok_list]) (simp_all add: inventory_field_def)
  show "statements_ok (orders_st village) (fun_am order_field) order_field OrdId ord_id (row_orders town_tables)"
    unfolding village_def town_tables_def plain_platform.simps tables.simps
    by (rule statements_ok_lift[OF statements_ok_list]) (simp_all add: order_field_def)
  show "statements_ok (sessions_st village) (fun_am session_field) session_field SessId sess_id (row_sessions town_tables)"
    unfolding village_def town_tables_def plain_platform.simps tables.simps
    by (rule statements_ok_lift[OF statements_ok_list]) (simp_all add: session_field_def)
  show "row_products town_tables d' = (row_products town_tables d)(k \<mapsto> v\<lparr>prod_views := prod_views v + 1\<rparr>)"
    if "count_views village k d = (Ok (), d')" "row_products town_tables d k = Some v" for k d d' v
    using that list_rows_keyed[of prod_id "db_products d" k v] by (auto simp: village_def town_tables_def)
  show "keeps (\<lambda>d. (row_inventory town_tables d, row_orders town_tables d, row_sessions town_tables d)) (count_views village k)" for k
    by (auto simp: keeps_def village_def town_tables_def split: option.splits)
qed (simp_all add: village_def town_tables_def statements_apart_part keeps_def)

lemmas village_eval = village_def lift_statements_def list_statements_def on_plain_def new_am_def plain_opened_def
  plain_update_inventory_record_def plain_update_inventory_def plain_add_order_def plain_update_order_def plain_actor_def

lemma village_trade:
  "\<exists>pc. steps_succeed (plain_actor village) 0 [AddOrder order3, AddStock delivery] (plain_opened (co_db town0)) pc"
  by (simp add: perform_def eval_simps town_eval village_eval town_steps settled_def i64_add_def cong: eval_cong del: eval_del)

end
