(* ===== verification/ScriptWriter.thy ===== *)
theory ScriptWriter
  imports Company Actor "HOL-Library.Multiset"
begin

text \<open>
  The script writer of \<open>src/test/simulation/scriptwriter.rs\<close>: it keeps the stock of a company of
  its own, with its backorders, pending orders, returns, shipments and sessions, and writes the
  steps down that another company has to perform. What its random numbers and its floating-point
  models yield is an argument. Progress reports are left out.
\<close>

section \<open>Data\<close>

text \<open>\<open>scriptwriter/entity/order.rs\<close> and \<open>shipment.rs\<close>. The writer's inventory records are those of the database.\<close>

record sw_order =
  swo_id :: "128 word"
  swo_customer_id :: int
  swo_product_id :: int
  swo_quantity :: int
  swo_status :: order_status

definition order_from :: "sw_order \<Rightarrow> order" where
  "order_from order = \<lparr>ord_id = swo_id order, ord_customer_id = swo_customer_id order, ord_product_id = swo_product_id order,
     ord_quantity = swo_quantity order, ord_status = swo_status order, ord_purchased_on = 0\<rparr>"

record shipment =
  sh_product_id :: int
  sh_batch_size :: int
  sh_arrives_on :: int

text \<open>
  \<open>ScriptWriter\<close>, with the customer counter of its \<open>RndPool\<close>. \<open>HashMap\<close>s and \<open>BTreeMap\<close>s by day
  or product are maps; the customers, a map by email, are the list of its values.
\<close>

record writer =
  w_period :: int
  w_current_day :: int
  w_market_capacity :: nat
  w_product_count :: int
  w_products :: "product list"
  w_steps :: "step list"
  w_returns :: "int \<rightharpoonup> sw_order list"
  w_backorders :: "nat list list"
  w_total_backordered :: "nat option"
  w_pending_orders :: "int \<rightharpoonup> nat list"
  w_inventory :: "inventory list"
  w_shipments :: "int \<rightharpoonup> shipment list"
  w_product_shipping :: "int \<rightharpoonup> int"
  w_customers :: "customer list"
  w_customer_counts :: "nat list"
  w_next_day_customers :: nat
  w_worker_count :: nat
  w_next_session_id :: int
  w_session_base :: "int option"
  w_customer_sessions :: "session option list"
  w_pool_customer_id :: int

type_synonym 'a writes = "(writer, string, 'a) prog"

section \<open>Machine integers\<close>

definition as_i32 :: "int \<Rightarrow> int" where
  "as_i32 n = signed_take_bit 31 n"

definition as_usize :: "int \<Rightarrow> nat" where
  "as_usize n = nat (n mod 2 ^ 64)"

definition i32_add :: "int \<Rightarrow> int \<Rightarrow> ('s, 'e, int) prog" where
  "i32_add a b = (if - (2 ^ 31) \<le> a + b \<and> a + b < 2 ^ 31 then ret (a + b)
     else panic ''attempt to add with overflow'')"

text \<open>\<open>v[i]\<close> with its check.\<close>

definition at_index :: "'x list \<Rightarrow> nat \<Rightarrow> ('s, 'e, 'x) prog" where
  "at_index xs i = (if i < length xs then ret (xs ! i) else panic ''index out of bounds'')"

text \<open>\<open>slice::chunks\<close>.\<close>

function chunks :: "nat \<Rightarrow> 'x list \<Rightarrow> 'x list list" where
  "chunks n xs = (if n = 0 \<or> xs = [] then [] else take n xs # chunks n (drop n xs))"
  by pat_completeness auto
termination
  by (relation "measure (\<lambda>(n, xs). length xs)") auto

declare chunks.simps [simp del]

definition chunked :: "nat \<Rightarrow> 'x list \<Rightarrow> ('s, 'e, 'x list list) prog" where
  "chunked n xs = (if n = 0 then panic ''chunk size must be non-zero'' else ret (chunks n xs))"

text \<open>\<open>map.entry(k).or_default().push(x)\<close> for a map into lists.\<close>

definition push_entry :: "'k \<Rightarrow> 'x \<Rightarrow> ('k \<rightharpoonup> 'x list) \<Rightarrow> ('k \<rightharpoonup> 'x list)" where
  "push_entry k x m = m(k \<mapsto> (case m k of None \<Rightarrow> [] | Some xs \<Rightarrow> xs) @ [x])"

section \<open>Writing steps\<close>

text \<open>A vector holds at most \<open>isize::MAX\<close> bytes.\<close>

definition push_step :: "step \<Rightarrow> nat writes" where
  "push_step st = bnd (gets w_steps) (\<lambda>steps.
     if 2 ^ 63 - 1 \<le> int (length steps) then panic ''capacity overflow''
     else bnd (modify (\<lambda>w. w\<lparr>w_steps := steps @ [st]\<rparr>)) (\<lambda>_. ret (length steps)))"

datatype add_post_proc = PostBackorderNew int | PostBackorderAgain int | PostPending int | PostShipping order | PostNone

text \<open>The stock is reduced as soon as it suffices for the order.\<close>

definition fill_order :: "order \<Rightarrow> inventory list \<Rightarrow> nat \<Rightarrow> (order \<times> add_post_proc) writes" where
  "fill_order order inventory i = (let inv_rec = inventory ! i in
     bnd (gets w_current_day) (\<lambda>day.
     bnd (if inv_handling_days inv_rec > 0
          then bnd (i32_add day (inv_handling_days inv_rec)) (\<lambda>on_day. ret (PostPending on_day))
          else ret (PostShipping (order\<lparr>ord_status := Shipped\<rparr>))) (\<lambda>post_proc.
     bnd (i64_add (inv_stock inv_rec) (- ord_quantity order)) (\<lambda>stock.
     bnd (modify (\<lambda>w. w\<lparr>w_inventory := inventory[i := inv_rec\<lparr>inv_stock := stock\<rparr>]\<rparr>)) (\<lambda>_.
     ret (order\<lparr>ord_status := Pending\<rparr>, post_proc))))))"

definition process_order_of :: "order \<Rightarrow> (order \<times> add_post_proc) writes" where
  "process_order_of order =
     (if ord_status order = New \<or> ord_status order = Recheck then
        bnd (gets w_inventory) (\<lambda>inventory.
        let i = as_usize (ord_product_id order) in
        if length inventory \<le> i then throw ''Product not found in inventory''
        else if inv_stock (inventory ! i) < ord_quantity order then
          ret (order\<lparr>ord_status := Backordered\<rparr>,
            if ord_status order = New then PostBackorderNew (ord_product_id order) else PostBackorderAgain (ord_product_id order))
        else fill_order order inventory i)
      else ret (order, PostNone))"

definition process_order :: "step \<Rightarrow> (step \<times> add_post_proc) writes" where
  "process_order st = (case st of
       AddOrder order \<Rightarrow> bnd (process_order_of order) (\<lambda>(order', post_proc). ret (AddOrder order', post_proc))
     | UpdateOrder order \<Rightarrow> bnd (process_order_of order) (\<lambda>(order', post_proc). ret (UpdateOrder order', post_proc))
     | _ \<Rightarrow> throw ''Non-order step submitted for order processing'')"

text \<open>The loop of \<open>add_steps\<close>, with its three lists: orders pending, backordered again, backordered anew.\<close>

type_synonym collected = "(int \<times> nat) list \<times> (int \<times> nat) list \<times> (int \<times> nat) list"

fun push_steps :: "step list \<Rightarrow> collected \<Rightarrow> collected writes" where
  "push_steps [] acc = ret acc"
| "push_steps (st # sts) (pend, again, new) =
     bnd (case st of
            AddOrder _ \<Rightarrow> process_order st
          | UpdateOrder _ \<Rightarrow> process_order st
          | _ \<Rightarrow> ret (st, PostNone)) (\<lambda>(st', post_proc).
     bnd (push_step st') (\<lambda>step_idx.
     case post_proc of
       PostPending day \<Rightarrow> push_steps sts (pend @ [(day, step_idx)], again, new)
     | PostBackorderNew product_id \<Rightarrow> push_steps sts (pend, again, new @ [(product_id, step_idx)])
     | PostBackorderAgain product_id \<Rightarrow> push_steps sts (pend, again @ [(product_id, step_idx)], new)
     | PostShipping order \<Rightarrow> bnd (push_step (UpdateOrder order)) (\<lambda>_. push_steps sts (pend, again, new))
     | PostNone \<Rightarrow> push_steps sts (pend, again, new)))"

definition queue_pending :: "int \<times> nat \<Rightarrow> unit writes" where
  "queue_pending = (\<lambda>(day, step_idx). modify (\<lambda>w. w\<lparr>w_pending_orders := push_entry day step_idx (w_pending_orders w)\<rparr>))"

definition queue_backorder :: "(nat \<Rightarrow> nat list \<Rightarrow> nat list) \<Rightarrow> int \<times> nat \<Rightarrow> unit writes" where
  "queue_backorder put = (\<lambda>(product_id, step_idx).
     bnd (gets w_backorders) (\<lambda>backorders.
     bnd (at_index backorders (as_usize product_id)) (\<lambda>q.
     modify (\<lambda>w. w\<lparr>w_backorders := backorders[as_usize product_id := put step_idx q]\<rparr>))))"

definition add_steps :: "step list \<Rightarrow> unit writes" where
  "add_steps new_steps =
     bnd (push_steps new_steps ([], [], [])) (\<lambda>(pend, again, new).
     bnd (for_each queue_pending pend) (\<lambda>_.
     bnd (for_each (queue_backorder (#)) again) (\<lambda>_.
     for_each (queue_backorder (\<lambda>i q. q @ [i])) new)))"

definition add_step :: "step \<Rightarrow> unit writes" where
  "add_step st = add_steps [st]"

definition order_at :: "step list \<Rightarrow> nat \<Rightarrow> order option" where
  "order_at steps i = (if i < length steps then (case steps ! i of
       AddOrder order \<Rightarrow> Some order
     | UpdateOrder order \<Rightarrow> Some order
     | _ \<Rightarrow> None) else None)"

definition order_by_idx :: "nat \<Rightarrow> order writes" where
  "order_by_idx i = bnd (gets w_steps) (\<lambda>steps.
     if length steps \<le> i then throw ''Step index not found''
     else case order_at steps i of
       Some order \<Rightarrow> ret order
     | None \<Rightarrow> throw ''Script step at index is not an order'')"

section \<open>Chance\<close>

text \<open>
  What random numbers and floating-point models yield for the main thread: the plan of a product
  with its handling days, the customers of the pool, the customers expected next day, the estimated
  sales of a product and the days until its supplies arrive, the number of visitors without a
  login, the order of the customers' map, and what each customer does today.
\<close>

record item =
  it_viewed :: bool
  it_quantity :: int
  it_order_id :: "128 word"
  it_return :: "int option"

text \<open>\<open>vi_purchases\<close> is \<open>None\<close> when the distribution cannot be built.\<close>

record visit =
  vi_purchases :: "nat option"
  vi_drops_in :: bool
  vi_items :: "item list"

record luck =
  lk_plan :: "int \<Rightarrow> product \<times> nat"
  lk_customer :: "nat \<Rightarrow> customer"
  lk_expected :: nat
  lk_supply :: "product \<Rightarrow> int \<times> int"
  lk_sessions :: nat
  lk_order :: "customer list \<Rightarrow> customer list"
  lk_visit :: "customer \<Rightarrow> visit"

section \<open>The work of the main thread\<close>

fun decimal :: "nat \<Rightarrow> string" where
  "decimal n = (if n < 10 then [char_of (48 + n)] else decimal (n div 10) @ [char_of (48 + n mod 10)])"

declare decimal.simps [simp del]

text \<open>\<open>InventoryRecord::new\<close>, \<open>InventoryCheck::new\<close>.\<close>

definition inventory_new :: "int \<Rightarrow> int \<Rightarrow> int \<Rightarrow> inventory" where
  "inventory_new product_id stock handling_days =
     \<lparr>inv_product_id = product_id, inv_stock = stock, inv_handling_days = handling_days\<rparr>"

definition inventory_check_new :: "int \<Rightarrow> int \<Rightarrow> string \<Rightarrow> inventory_check" where
  "inventory_check_new product_id stock comment =
     \<lparr>check_product_id = product_id, check_stock = stock, check_comment = comment\<rparr>"

definition init_product :: "luck \<Rightarrow> int \<Rightarrow> unit writes" where
  "init_product lk i = (case lk_plan lk i of (plan, days) \<Rightarrow>
     let product = plan\<lparr>prod_id := i, prod_name := ''Product '' @ decimal (nat i), prod_views := 0\<rparr>;
         inv_rec = inventory_new i 0 (int (min days 255)) in
     bnd (add_step (AddProduct product)) (\<lambda>_.
     bnd (modify (\<lambda>w. w\<lparr>w_products := w_products w @ [product], w_inventory := w_inventory w @ [inv_rec]\<rparr>)) (\<lambda>_.
     add_step (AddInventoryRecord inv_rec))))"

definition init_products :: "luck \<Rightarrow> unit writes" where
  "init_products lk = bnd (gets w_product_count) (\<lambda>n.
     bnd (modify (\<lambda>w. w\<lparr>w_backorders := replicate (as_usize n) []\<rparr>)) (\<lambda>_.
     for_each (init_product lk) [0..n - 1]))"

text \<open>\<open>RndPool::new_customer\<close>: the pool counts the customers; their queue keeps their order.\<close>

definition new_customer :: "customer \<Rightarrow> customer writes" where
  "new_customer fake = bnd (gets w_pool_customer_id) (\<lambda>last.
     bnd (i32_add last 1) (\<lambda>i.
     bnd (modify (\<lambda>w. w\<lparr>w_pool_customer_id := i\<rparr>)) (\<lambda>_.
     ret (fake\<lparr>cust_id := i, cust_registered_on := -1\<rparr>))))"

text \<open>\<open>register_customers\<close>: one customer, and what follows the loop.\<close>

definition register_customer :: "customer \<Rightarrow> unit writes" where
  "register_customer fake = bnd (new_customer fake) (\<lambda>customer.
     bnd (add_step (AddCustomer customer)) (\<lambda>_.
     bnd (gets w_customers) (\<lambda>customers.
     if cust_email customer \<in> set (map cust_email customers) then panic ''Customer already exists''
     else modify (\<lambda>w. w\<lparr>w_customers := customers @ [customer]\<rparr>))))"

definition customer_history_length :: nat where
  "customer_history_length = 7"

definition register_rest :: "luck \<Rightarrow> unit writes" where
  "register_rest lk = bnd (gets (\<lambda>w. w)) (\<lambda>w.
     if w_current_day w < w_period w then
       let n = length (w_customers w);
           keep = drop (length (w_customer_counts w) + 1 - customer_history_length) (w_customer_counts w) in
       if lk_expected lk < n then panic ''attempt to subtract with overflow''
       else modify (\<lambda>w. w\<lparr>w_next_day_customers := lk_expected lk - n, w_customer_counts := keep @ [nat (int n mod 2 ^ 32)]\<rparr>)
     else ret ())"

text \<open>\<open>total_backordered\<close> is computed when it is first asked for.\<close>

definition total_backordered :: "nat writes" where
  "total_backordered = bnd (gets (\<lambda>w. w)) (\<lambda>w. case w_total_backordered w of
       Some n \<Rightarrow> ret n
     | None \<Rightarrow> let n = sum_list (map length (w_backorders w)) in
         bnd (modify (\<lambda>w. w\<lparr>w_total_backordered := Some n\<rparr>)) (\<lambda>_. ret n))"

text \<open>One round of the loop of \<open>order_shipments\<close>: the size of the batch, when one is ordered.\<close>

definition shipment_size :: "bool \<Rightarrow> int \<Rightarrow> int \<Rightarrow> int \<Rightarrow> int option writes" where
  "shipment_size initial product_id estimate_sales being_shipped =
     (if being_shipped > estimate_sales \<or> estimate_sales = 0 then ret None
      else bnd (i32_add estimate_sales (- being_shipped)) (\<lambda>batch.
        if initial then ret (Some batch)
        else bnd (gets w_inventory) (\<lambda>inventory.
          let i = as_usize product_id in
          if length inventory \<le> i then ret (Some batch)
          else if inv_stock (inventory ! i) > batch then ret None
          else bnd (i32_add batch (- as_i32 (inv_stock (inventory ! i)))) (\<lambda>n. ret (Some n)))))"

definition order_shipment :: "luck \<Rightarrow> bool \<Rightarrow> product \<Rightarrow> unit writes" where
  "order_shipment lk initial product = (let product_id = prod_id product in
     bnd total_backordered (\<lambda>backordered.
     bnd (i32_add (as_i32 (int backordered)) (fst (lk_supply lk product))) (\<lambda>estimate_sales.
     bnd (gets (\<lambda>w. case w_product_shipping w product_id of None \<Rightarrow> 0 | Some n \<Rightarrow> n)) (\<lambda>being_shipped.
     bnd (modify (\<lambda>w. w\<lparr>w_product_shipping := (w_product_shipping w)(product_id \<mapsto> being_shipped)\<rparr>)) (\<lambda>_.
     bnd (shipment_size initial product_id estimate_sales being_shipped) (\<lambda>size. case size of
       None \<Rightarrow> ret ()
     | Some batch \<Rightarrow>
         bnd (if initial then ret 1 else bnd (gets w_current_day) (\<lambda>day. i32_add day (snd (lk_supply lk product)))) (\<lambda>arrives_on.
         if batch > 0 then
           bnd (i32_add being_shipped batch) (\<lambda>n.
           modify (\<lambda>w. w\<lparr>w_product_shipping := (w_product_shipping w)(product_id \<mapsto> n),
             w_shipments := push_entry arrives_on
               \<lparr>sh_product_id = product_id, sh_batch_size = batch, sh_arrives_on = arrives_on\<rparr> (w_shipments w)\<rparr>))
         else ret ())))))))"

definition order_shipments :: "luck \<Rightarrow> bool \<Rightarrow> unit writes" where
  "order_shipments lk initial =
     bnd (modify (\<lambda>w. w\<lparr>w_total_backordered := None\<rparr>)) (\<lambda>_.
     bnd (gets w_products) (\<lambda>products.
     for_each (order_shipment lk initial) products))"

text \<open>\<open>replenish_inventory\<close>: the shipments of today come in, then the backorders of their products are looked at.\<close>

definition receive_shipment :: "shipment \<Rightarrow> (nat \<times> step) writes" where
  "receive_shipment shipment = bnd (gets (\<lambda>w. w)) (\<lambda>w.
     let k = as_usize (sh_product_id shipment) in
     if length (w_products w) \<le> k then panic ''called Option::unwrap() on a None value''
     else let product_id = prod_id (w_products w ! k); i = as_usize product_id in
     if length (w_inventory w) \<le> i then panic ''called Option::unwrap() on a None value''
     else if as_usize (w_product_count w) \<le> i then panic ''index out of bounds''
     else bnd (i64_add (inv_stock (w_inventory w ! i)) (sh_batch_size shipment)) (\<lambda>new_stock.
       case w_product_shipping w product_id of
         None \<Rightarrow> panic ''called Option::unwrap() on a None value''
       | Some n \<Rightarrow>
           bnd (i32_add n (- sh_batch_size shipment)) (\<lambda>left.
           bnd (modify (\<lambda>w. w\<lparr>w_inventory := (w_inventory w)[i := (w_inventory w ! i)\<lparr>inv_stock := new_stock\<rparr>],
              w_product_shipping := (w_product_shipping w)(product_id \<mapsto> left)\<rparr>)) (\<lambda>_.
           ret (i, AddStock \<lparr>shipment_product_id = sh_product_id shipment, batch_size = sh_batch_size shipment\<rparr>)))))"

text \<open>The backorders of a product that fit into its stock, from the front of the queue.\<close>

fun recheck_backorders :: "nat \<Rightarrow> int \<Rightarrow> nat list \<Rightarrow> (step list \<times> nat list) writes" where
  "recheck_backorders product_id stock [] = ret ([], [])"
| "recheck_backorders product_id stock (i # orders) =
     bnd (order_by_idx i) (\<lambda>order.
     if ord_product_id order \<noteq> as_i32 (int product_id) then throw ''Backorder product ID does not match''
     else if ord_quantity order \<le> stock then
       bnd (recheck_backorders product_id stock orders) (\<lambda>(sts, rest).
       ret (UpdateOrder (order\<lparr>ord_status := Recheck\<rparr>) # sts, rest))
     else ret ([], i # orders))"

definition recheck_product :: "nat \<Rightarrow> step list writes" where
  "recheck_product product_id = bnd (gets (\<lambda>w. w)) (\<lambda>w.
     if length (w_backorders w) \<le> product_id then ret []
     else bnd (at_index (w_inventory w) product_id) (\<lambda>inv_rec.
       bnd (recheck_backorders product_id (inv_stock inv_rec) (w_backorders w ! product_id)) (\<lambda>(sts, rest).
       bnd (modify (\<lambda>w. w\<lparr>w_backorders := (w_backorders w)[product_id := rest]\<rparr>)) (\<lambda>_.
       ret sts))))"

definition replenish_inventory :: "unit writes" where
  "replenish_inventory = bnd (gets (\<lambda>w. w)) (\<lambda>w.
     case w_shipments w (w_current_day w) of
       None \<Rightarrow> add_steps []
     | Some shipments \<Rightarrow>
         bnd (modify (\<lambda>w. w\<lparr>w_shipments := (w_shipments w)(w_current_day w := None)\<rparr>)) (\<lambda>_.
         bnd (collect receive_shipment shipments) (\<lambda>arrived.
         bnd (collect recheck_product (filter (\<lambda>i. i \<in> set (map fst arrived)) [0..<as_usize (w_product_count w)])) (\<lambda>rechecks.
         add_steps (map snd arrived @ concat rechecks)))))"

text \<open>\<open>fulfill_pending\<close>: the chunks of the orders that go out today.\<close>

definition fulfill_pending :: "nat list list writes" where
  "fulfill_pending = bnd (gets (\<lambda>w. w)) (\<lambda>w.
     case w_pending_orders w (w_current_day w) of
       None \<Rightarrow> ret []
     | Some indicies \<Rightarrow>
         bnd (modify (\<lambda>w. w\<lparr>w_pending_orders := (w_pending_orders w)(w_current_day w := None)\<rparr>)) (\<lambda>_.
         let batch_count = min (length indicies div 1000 + 1) (w_worker_count w) in
         if batch_count = 0 then panic ''attempt to divide by zero''
         else chunked (length indicies div batch_count) indicies))"

text \<open>\<open>place_orders\<close>: the customers in equal parts, with what each does today.\<close>

definition place_orders :: "luck \<Rightarrow> (int \<times> visit) list list writes" where
  "place_orders lk = bnd (gets (\<lambda>w. w)) (\<lambda>w.
     let cust_count = length (w_customers w); task_count = w_worker_count w in
     if task_count = 0 then panic ''attempt to divide by zero''
     else chunked (cust_count div task_count + (if cust_count mod task_count > 0 then 1 else 0))
       (map (\<lambda>c. (cust_id c, lk_visit lk c)) (lk_order lk (w_customers w))))"

definition log_progress :: "unit writes" where
  "log_progress = bnd (gets w_inventory) (\<lambda>inventory.
     add_steps (map (\<lambda>inv_rec. CheckInventory (inventory_check_new (inv_product_id inv_rec) (inv_stock inv_rec) ''daily'')) inventory))"

section \<open>The work of the tasks\<close>

fun ilog10 :: "nat \<Rightarrow> nat" where
  "ilog10 n = (if n < 10 then 0 else Suc (ilog10 (n div 10)))"

declare ilog10.simps [simp del]

text \<open>\<open>build_session_base\<close>, and the base that is built when it is first asked for on a day.\<close>

definition build_session_base :: "int writes" where
  "build_session_base = bnd (gets (\<lambda>w. w)) (\<lambda>w.
     let m = w_market_capacity w * 10 in
     if m = 0 then panic ''argument of integer logarithm must be positive''
     else let base = w_current_day w * 10 ^ (ilog10 m + 1) in
       if base < 2 ^ 63 then ret base else panic ''attempt to multiply with overflow'')"

definition session_base :: "int writes" where
  "session_base = bnd (gets w_session_base) (\<lambda>base. case base of
       Some n \<Rightarrow> ret n
     | None \<Rightarrow> bnd build_session_base (\<lambda>n.
         bnd (modify (\<lambda>w. w\<lparr>w_session_base := Some n\<rparr>)) (\<lambda>_. ret n)))"

text \<open>The atomic counter wraps around.\<close>

definition next_session_id :: "int writes" where
  "next_session_id = bnd (gets w_next_session_id) (\<lambda>n.
     bnd (modify (\<lambda>w. w\<lparr>w_next_session_id := signed_take_bit 63 (n + 1)\<rparr>)) (\<lambda>_.
     bnd session_base (\<lambda>base.
     i64_add n base)))"

definition stub_session :: "session writes" where
  "stub_session = bnd (gets w_current_day) (\<lambda>day.
     bnd next_session_id (\<lambda>i.
     bnd (i32_add day 3) (\<lambda>expires_on.
     ret \<lparr>sess_id = i, sess_customer_id = None, sess_expires_on = expires_on\<rparr>)))"

definition login_expire_days :: int where
  "login_expire_days = 7"

definition new_session :: "nat \<Rightarrow> int \<Rightarrow> int \<Rightarrow> session option writes" where
  "new_session i customer_id expires_on = bnd next_session_id (\<lambda>n.
     let s = \<lparr>sess_id = n, sess_customer_id = Some customer_id, sess_expires_on = expires_on\<rparr> in
     bnd (modify (\<lambda>w. w\<lparr>w_customer_sessions := (w_customer_sessions w)[i := Some s]\<rparr>)) (\<lambda>_. ret (Some s)))"

text \<open>\<open>customer_login\<close>: the session is prolonged, or a new one is to be added.\<close>

definition customer_login :: "int \<Rightarrow> session option writes" where
  "customer_login customer_id =
     (if as_usize customer_id = 0 then panic ''attempt to subtract with overflow''
      else let i = as_usize customer_id - 1 in
        bnd (gets (\<lambda>w. w)) (\<lambda>w.
        bnd (at_index (w_customer_sessions w) i) (\<lambda>slot.
        bnd (i32_add (w_current_day w) login_expire_days) (\<lambda>expires_on.
        case slot of
          Some existing \<Rightarrow>
            if sess_expires_on existing \<ge> w_current_day w then
              let s = existing\<lparr>sess_expires_on := expires_on\<rparr> in
              bnd (modify (\<lambda>w. w\<lparr>w_customer_sessions := (w_customer_sessions w)[i := Some s]\<rparr>)) (\<lambda>_.
              bnd (add_step (UpdateSession s)) (\<lambda>_. ret None))
            else new_session i customer_id expires_on
        | None \<Rightarrow> new_session i customer_id expires_on))))"


text \<open>The purchases of a customer: the steps, and the returns that are planned.\<close>

fun buy_products :: "int \<Rightarrow> (int \<times> item) list \<Rightarrow> (step list \<times> (int \<times> sw_order) list) writes" where
  "buy_products customer_id [] = ret ([], [])"
| "buy_products customer_id ((product_id, it) # its) =
     (let views = (if it_viewed it then [ViewProduct product_id] else []);
          order = \<lparr>swo_id = it_order_id it, swo_customer_id = customer_id, swo_product_id = product_id,
            swo_quantity = it_quantity it, swo_status = New\<rparr> in
      if it_quantity it = 0 then bnd (buy_products customer_id its) (\<lambda>(sts, plan). ret (views @ sts, plan))
      else
        bnd (case it_return it of
               None \<Rightarrow> ret []
             | Some n \<Rightarrow> bnd (gets (\<lambda>w. w)) (\<lambda>w. bnd (i32_add n 1) (\<lambda>a. bnd (i32_add a (w_current_day w)) (\<lambda>on_day.
                 ret (if on_day < w_period w then [(on_day, order)] else []))))) (\<lambda>planned.
        bnd (buy_products customer_id its) (\<lambda>(sts, plan).
        ret (views @ AddOrder (order_from order) # sts, planned @ plan))))"

fun buy_all :: "(int \<times> visit) list \<Rightarrow> (step list \<times> (int \<times> sw_order) list) writes" where
  "buy_all [] = ret ([], [])"
| "buy_all ((customer_id, v) # vs) =
     (if vi_purchases v = Some 0 then buy_all vs
      else bnd (gets w_products) (\<lambda>products.
        bnd (buy_products customer_id (zip (map prod_id products) (vi_items v))) (\<lambda>(sts, plan).
        bnd (buy_all vs) (\<lambda>(sts', plan').
        ret (sts @ sts', plan @ plan')))))"

definition task_returns :: "unit writes" where
  "task_returns = bnd (gets (\<lambda>w. w)) (\<lambda>w.
     case w_returns w (w_current_day w) of
       None \<Rightarrow> add_steps []
     | Some todays \<Rightarrow>
         bnd (modify (\<lambda>w. w\<lparr>w_returns := (w_returns w)(w_current_day w := None)\<rparr>)) (\<lambda>_.
         add_steps (map (\<lambda>order. UpdateOrder (order_from (order\<lparr>swo_status := Refunded\<rparr>))) todays)))"

definition task_pending :: "nat list \<Rightarrow> unit writes" where
  "task_pending indicies =
     bnd (collect (\<lambda>i. bnd (order_by_idx i) (\<lambda>order. ret (UpdateOrder (order\<lparr>ord_status := Shipped\<rparr>)))) indicies) add_steps"

text \<open>
  What is left of a task: \<open>task_sessions\<close>, between two sessions or with the next one in hand;
  \<open>task_purchases\<close>, which first logs its customers in and then adds their purchases as one batch
  and its planned returns; \<open>task_returns\<close>; \<open>task_pending\<close>.
\<close>

datatype job =
    Sessions nat
  | StubInHand session nat
  | Visits "(int \<times> visit) list" "(int \<times> visit) list"
  | LoginInHand session "(int \<times> visit) list" "(int \<times> visit) list"
  | Buying "(int \<times> visit) list"
  | Planning "(int \<times> sw_order) list"
  | Returning
  | Shipping "nat list"

fun run_job :: "job \<Rightarrow> job list writes" where
  "run_job (Sessions 0) = ret []"
| "run_job (Sessions (Suc n)) = bnd stub_session (\<lambda>s. ret [StubInHand s n])"
| "run_job (StubInHand s n) = bnd (add_step (AddSession s)) (\<lambda>_. ret [Sessions n])"
| "run_job (Visits [] customers) = ret [Buying customers]"
| "run_job (Visits ((customer_id, v) # vs) customers) = (case vi_purchases v of
       None \<Rightarrow> throw ''Poisson''
     | Some n \<Rightarrow>
         if n > 0 \<or> vi_drops_in v then
           bnd (customer_login customer_id) (\<lambda>session. ret [case session of
               None \<Rightarrow> Visits vs customers
             | Some s \<Rightarrow> LoginInHand s vs customers])
         else ret [Visits vs customers])"
| "run_job (LoginInHand s vs customers) = bnd (add_step (AddSession s)) (\<lambda>_. ret [Visits vs customers])"
| "run_job (Buying customers) = bnd (buy_all customers) (\<lambda>(batch_steps, planned). bnd (add_steps batch_steps) (\<lambda>_. ret [Planning planned]))"
| "run_job (Planning planned) = bnd (modify (\<lambda>w. w\<lparr>w_returns := fold (\<lambda>(day, order). push_entry day order) planned (w_returns w)\<rparr>)) (\<lambda>_. ret [])"
| "run_job Returning = bnd task_returns (\<lambda>_. ret [])"
| "run_job (Shipping indicies) = bnd (task_pending indicies) (\<lambda>_. ret [])"

section \<open>The director\<close>

text \<open>The place of the main thread in the loop of \<open>direct\<close>, and what it does there; new tasks are returned.\<close>

datatype phase = AtDawn | AtReplenish | AtFulfill | AwaitPending | AtRegister nat | AwaitReturns | AwaitOrders
  | AwaitSessions | AtProgress | AtEnd

fun run_main :: "luck \<Rightarrow> phase \<Rightarrow> (phase \<times> job list) writes" where
  "run_main lk AtDawn = bnd (gets (\<lambda>w. w)) (\<lambda>w.
     if w_current_day w < w_period w then
       let day = w_current_day w + 1 in
       bnd (modify (\<lambda>w. w\<lparr>w_current_day := day, w_session_base := None\<rparr>)) (\<lambda>_.
       bnd (add_step (Day day)) (\<lambda>_. ret (AtReplenish, [Sessions (lk_sessions lk)])))
     else ret (AtEnd, []))"
| "run_main lk AtReplenish = bnd replenish_inventory (\<lambda>_. ret (AtFulfill, []))"
| "run_main lk AtFulfill = bnd fulfill_pending (\<lambda>parts. ret (AwaitPending, map Shipping parts))"
| "run_main lk AwaitPending = bnd (gets w_next_day_customers) (\<lambda>n. ret (AtRegister n, []))"
| "run_main lk (AtRegister (Suc n)) = bnd (register_customer (lk_customer lk n)) (\<lambda>_. ret (AtRegister n, []))"
| "run_main lk (AtRegister 0) = bnd (register_rest lk) (\<lambda>_. ret (AwaitReturns, [Returning]))"
| "run_main lk AwaitReturns = bnd (place_orders lk) (\<lambda>parts. ret (AwaitOrders, map (\<lambda>vs. Visits vs vs) parts))"
| "run_main lk AwaitOrders = bnd (order_shipments lk False) (\<lambda>_. ret (AwaitSessions, []))"
| "run_main lk AwaitSessions = bnd (add_step CollectSessions) (\<lambda>_. ret (AtProgress, []))"
| "run_main lk AtProgress = bnd log_progress (\<lambda>_. ret (AtDawn, []))"
| "run_main lk AtEnd = ret (AtEnd, [])"

text \<open>The main thread waits for its tasks; the task of the sessions runs along until the evening.\<close>

definition is_sessions :: "job \<Rightarrow> bool" where
  "is_sessions j = (case j of Sessions _ \<Rightarrow> True | StubInHand _ _ \<Rightarrow> True | _ \<Rightarrow> False)"

definition main_ready :: "phase \<Rightarrow> job list \<Rightarrow> bool" where
  "main_ready ph js = (case ph of
       AwaitPending \<Rightarrow> list_all is_sessions js
     | AwaitReturns \<Rightarrow> list_all is_sessions js
     | AwaitOrders \<Rightarrow> list_all is_sessions js
     | AwaitSessions \<Rightarrow> js = []
     | AtEnd \<Rightarrow> False
     | _ \<Rightarrow> True)"

text \<open>\<open>ScriptWriter::builder\<close>, and what \<open>direct\<close> does before the first day.\<close>

definition writer_new :: "int \<Rightarrow> nat \<Rightarrow> nat \<Rightarrow> int \<Rightarrow> nat \<Rightarrow> writer" where
  "writer_new period initial_customers capacity products workers = \<lparr>
     w_period = period, w_current_day = 0, w_market_capacity = capacity, w_product_count = products,
     w_products = [], w_steps = [], w_returns = (\<lambda>_. None), w_backorders = [], w_total_backordered = None,
     w_pending_orders = (\<lambda>_. None), w_inventory = [], w_shipments = (\<lambda>_. None), w_product_shipping = (\<lambda>_. None),
     w_customers = [], w_customer_counts = [], w_next_day_customers = initial_customers, w_worker_count = workers,
     w_next_session_id = 0, w_session_base = None, w_customer_sessions = replicate capacity None,
     w_pool_customer_id = 0\<rparr>"

definition prologue :: "luck \<Rightarrow> unit writes" where
  "prologue lk = bnd (gets (\<lambda>w. w)) (\<lambda>w.
     bnd (add_step (Title \<lparr>title_period = w_period w, title_products = w_product_count w, title_market_capacity = w_market_capacity w\<rparr>)) (\<lambda>_.
     bnd (init_products lk) (\<lambda>_.
     bnd (for_each register_customer (map (lk_customer lk) (rev [0..<w_next_day_customers w]))) (\<lambda>_.
     bnd (register_rest lk) (\<lambda>_.
     order_shipments lk True)))))"

text \<open>
  What is known of chance: \<open>Uuid::new_v4\<close> gives an order an id that none has, and a map is gone
  through without leaving anything out. A batch of orders is looked at when it is added.
\<close>

definition new_orders :: "step list \<Rightarrow> 128 word list" where
  "new_orders sts = concat (map (\<lambda>st. case st of AddOrder a \<Rightarrow> [ord_id a] | _ \<Rightarrow> []) sts)"

definition fresh_orders :: "writer \<Rightarrow> step list \<Rightarrow> bool" where
  "fresh_orders w sts \<longleftrightarrow> distinct (new_orders sts) \<and> set (new_orders sts) \<inter> set (new_orders (w_steps w)) = {}"

fun fair_job :: "job \<Rightarrow> writer \<Rightarrow> bool" where
  "fair_job (Buying customers) w \<longleftrightarrow> (case buy_all customers w of (Ok (sts, plan), _) \<Rightarrow> fresh_orders w sts | _ \<Rightarrow> True)"
| "fair_job _ w \<longleftrightarrow> True"

definition fair_luck :: "luck \<Rightarrow> writer \<Rightarrow> bool" where
  "fair_luck lk w \<longleftrightarrow> mset (lk_order lk (w_customers w)) = mset (w_customers w)"

inductive script_written :: "writer \<Rightarrow> phase \<Rightarrow> job list \<Rightarrow> writer \<Rightarrow> bool" for w0 where
  script_prologue: "prologue lk w0 = (Ok (), w) \<Longrightarrow> script_written w0 AtDawn [] w"
| script_main: "script_written w0 ph js w \<Longrightarrow> main_ready ph js \<Longrightarrow> fair_luck lk w \<Longrightarrow>
    run_main lk ph w = (Ok (ph', new), w') \<Longrightarrow> script_written w0 ph' (js @ new) w'"
| script_job: "script_written w0 ph (xs @ j # ys) w \<Longrightarrow> fair_job j w \<Longrightarrow>
    run_job j w = (Ok new, w') \<Longrightarrow> script_written w0 ph (xs @ new @ ys) w'"

end
