(* ===== verification/Tallies.thy ===== *)
theory Tallies
  imports ScriptWriter Simulation
begin

text \<open>
  Playing a script on a ledger, and what is known of the ledger while the script writer adds to its
  script: the tally. The batches of steps and the queues of orders that keep it.
\<close>

section \<open>Playing a script on a ledger\<close>

text \<open>
  The effect of a step where a primary key may only be added once. Expired sessions go when they
  are collected.
\<close>

fun script_effect :: "step \<Rightarrow> ledger \<Rightarrow> ledger option" where
  "script_effect (AddProduct v) lg = (if lg_products lg (prod_id v) = None then step_effect (AddProduct v) lg else None)"
| "script_effect (AddOrder v) lg = (if lg_orders lg (ord_id v) = None then step_effect (AddOrder v) lg else None)"
| "script_effect (AddSession v) lg = (if lg_sessions lg (sess_id v) = None then step_effect (AddSession v) lg else None)"
| "script_effect (AddInventoryRecord v) lg =
     (if lg_inventory lg (inv_product_id v) = None then step_effect (AddInventoryRecord v) lg else None)"
| "script_effect CollectSessions lg = Some (lg\<lparr>lg_sessions :=
     (\<lambda>k. case lg_sessions lg k of Some s \<Rightarrow> if sess_expires_on s \<le> lg_day lg then None else Some s | None \<Rightarrow> None)\<rparr>)"
| "script_effect st lg = step_effect st lg"

fun replay :: "step list \<Rightarrow> ledger \<Rightarrow> ledger option" where
  "replay [] lg = Some lg"
| "replay (st # sts) lg = (case script_effect st lg of None \<Rightarrow> None | Some lg' \<Rightarrow> replay sts lg')"

lemma replay_append: "replay (xs @ ys) lg = (case replay xs lg of None \<Rightarrow> None | Some lg' \<Rightarrow> replay ys lg')"
  by (induction xs arbitrary: lg) (auto split: option.splits)

definition blank_page :: ledger where
  "blank_page = \<lparr>lg_products = (\<lambda>_. None), lg_inventory = (\<lambda>_. None), lg_orders = (\<lambda>_. None), lg_sessions = (\<lambda>_. None),
     lg_booked = (\<lambda>_. None), lg_day = 0\<rparr>"

section \<open>The tally\<close>

text \<open>The writer's inventory as the table of a company.\<close>

definition stock_map :: "inventory list \<Rightarrow> int \<Rightarrow> inventory option" where
  "stock_map stk k = (if 0 \<le> k \<and> nat k < length stk then Some (stk ! nat k) else None)"

definition inv_wf :: "inventory list \<Rightarrow> bool" where
  "inv_wf stk \<longleftrightarrow> length stk < 2 ^ 31 \<and>
     (\<forall>i < length stk. inv_product_id (stk ! i) = int i \<and> 0 \<le> inv_stock (stk ! i) \<and> inv_stock (stk ! i) < 2 ^ 63)"

text \<open>
  The steps written so far play, and their ledger agrees with the writer: \<open>wait\<close> are the orders
  that wait for stock, with the index of their last step; \<open>P\<close> are the indices of the orders to be
  shipped and \<open>R\<close> the orders to be returned.
\<close>

definition waiting :: "step list \<Rightarrow> (int \<times> nat) list \<Rightarrow> 128 word set" where
  "waiting steps wait = {ord_id a |a p i. (p, i) \<in> set wait \<and> order_at steps i = Some a}"

definition tally ::
  "step list \<Rightarrow> inventory list \<Rightarrow> int \<Rightarrow> nat \<Rightarrow> (int \<times> nat) list \<Rightarrow> nat set \<Rightarrow> 128 word set \<Rightarrow> ledger \<Rightarrow> bool" where
  "tally steps stk day n wait P R lg \<longleftrightarrow>
     replay steps blank_page = Some lg \<and> lg_inventory lg = stock_map stk \<and> inv_wf stk \<and> lg_day lg = day \<and>
     dom (lg_products lg) = {0..<int n} \<and>
     (\<forall>k v. lg_products lg k = Some v \<longrightarrow> 0 \<le> prod_views v \<and> prod_views v \<le> int (length steps)) \<and>
     dom (lg_orders lg) = set (new_orders steps) \<and> dom (lg_booked lg) \<subseteq> dom (lg_orders lg) \<and>
     (\<forall>p i. (p, i) \<in> set wait \<longrightarrow> (\<exists>a. order_at steps i = Some a \<and> ord_product_id a = p \<and> 0 \<le> p \<and> p < int (length stk) \<and>
        ord_id a \<in> dom (lg_orders lg) - dom (lg_booked lg))) \<and>
     distinct (map (\<lambda>(p, i). map_option ord_id (order_at steps i)) wait) \<and>
     (\<forall>i \<in> P. \<exists>a. order_at steps i = Some a \<and> ord_id a \<in> dom (lg_orders lg)) \<and> R \<subseteq> dom (lg_orders lg)"

lemma tallyD:
  assumes "tally steps stk day n wait P R lg"
  shows "replay steps blank_page = Some lg" "lg_inventory lg = stock_map stk" "inv_wf stk" "lg_day lg = day"
    "dom (lg_products lg) = {0..<int n}"
    "\<And>k v. lg_products lg k = Some v \<Longrightarrow> 0 \<le> prod_views v \<and> prod_views v \<le> int (length steps)"
    "dom (lg_orders lg) = set (new_orders steps)" "dom (lg_booked lg) \<subseteq> dom (lg_orders lg)"
    "\<And>p i. (p, i) \<in> set wait \<Longrightarrow> \<exists>a. order_at steps i = Some a \<and> ord_product_id a = p \<and> 0 \<le> p \<and> p < int (length stk) \<and>
        ord_id a \<in> dom (lg_orders lg) - dom (lg_booked lg)"
    "distinct (map (\<lambda>(p, i). map_option ord_id (order_at steps i)) wait)"
    "\<And>i. i \<in> P \<Longrightarrow> \<exists>a. order_at steps i = Some a \<and> ord_id a \<in> dom (lg_orders lg)" "R \<subseteq> dom (lg_orders lg)"
  using assms unfolding tally_def by blast+

lemma order_at_snoc:
  "order_at (steps @ [st]) i = (if i = length steps then (case st of AddOrder a \<Rightarrow> Some a | UpdateOrder a \<Rightarrow> Some a | _ \<Rightarrow> None)
     else order_at steps i)"
  by (auto simp: order_at_def nth_append split: step.splits)

lemma order_at_old: "i < length steps \<Longrightarrow> order_at (steps @ [st]) i = order_at steps i"
  by (simp add: order_at_snoc)

lemma order_at_bound: "order_at steps i = Some a \<Longrightarrow> i < length steps"
  by (auto simp: order_at_def split: if_splits)

lemma new_orders_snoc [simp]:
  "new_orders (steps @ [st]) = new_orders steps @ (case st of AddOrder a \<Rightarrow> [ord_id a] | _ \<Rightarrow> [])"
  by (simp add: new_orders_def split: step.splits)

text \<open>
  One more step: its effect on the ledger, and what it may do to the orders. \<open>X\<close> is the order that
  is booked by it, if any.
\<close>

lemma tally_snoc:
  assumes t: "tally steps stk day n wait P R lg" and eff: "script_effect st lg = Some lg'"
    and inventory: "lg_inventory lg' = stock_map stk'" "inv_wf stk'" "length stk' \<ge> length stk"
    and prod: "dom (lg_products lg') = {0..<int n'}"
      "\<And>k v. lg_products lg' k = Some v \<Longrightarrow> 0 \<le> prod_views v \<and> prod_views v \<le> int (length steps) + 1"
    and ord: "dom (lg_orders lg') = set (new_orders (steps @ [st]))"
    and book: "dom (lg_booked lg') = dom (lg_booked lg) \<union> X" "X \<subseteq> dom (lg_orders lg')" "X \<inter> waiting steps wait = {}"
  shows "tally (steps @ [st]) stk' (lg_day lg') n' wait P R lg'"
proof -
  note D = tallyD[OF t]
  have grow: "dom (lg_orders lg) \<subseteq> dom (lg_orders lg')" using D(7) ord by auto
  have at: "order_at (steps @ [st]) i = Some a" if "order_at steps i = Some a" for i a
    using that order_at_bound[OF that] by (simp add: order_at_old)
  have old: "map (\<lambda>(p, i). map_option ord_id (order_at (steps @ [st]) i)) wait = map (\<lambda>(p, i). map_option ord_id (order_at steps i)) wait"
  proof (rule map_cong[OF refl], clarify)
    fix p i assume "(p, i) \<in> set wait"
    from D(9)[OF this] at show "map_option ord_id (order_at (steps @ [st]) i) = map_option ord_id (order_at steps i)" by force
  qed
  have wait: "\<exists>a. order_at (steps @ [st]) i = Some a \<and> ord_product_id a = p \<and> 0 \<le> p \<and> p < int (length stk') \<and>
      ord_id a \<in> dom (lg_orders lg') - dom (lg_booked lg')" if w: "(p, i) \<in> set wait" for p i
  proof -
    obtain a where a: "order_at steps i = Some a" "ord_product_id a = p" "0 \<le> p" "p < int (length stk)"
      "ord_id a \<in> dom (lg_orders lg) - dom (lg_booked lg)" using D(9)[OF w] by blast
    have "ord_id a \<in> waiting steps wait" using w a(1) by (auto simp: waiting_def)
    then have "ord_id a \<notin> X" using book(3) by blast
    then show ?thesis using a at[OF a(1)] grow book(1) inventory(3) by (intro exI[of _ a]) auto
  qed
  have pend: "\<exists>a. order_at (steps @ [st]) i = Some a \<and> ord_id a \<in> dom (lg_orders lg')" if "i \<in> P" for i
    using D(11)[OF that] at grow by blast
  show ?thesis
    unfolding tally_def old
  proof (intro conjI allI impI)
    show "replay (steps @ [st]) blank_page = Some lg'" using D(1) eff by (simp add: replay_append)
    show "dom (lg_booked lg') \<subseteq> dom (lg_orders lg')" using D(8) grow book(1,2) by blast
    show "0 \<le> prod_views v" "prod_views v \<le> int (length (steps @ [st]))" if "lg_products lg' k = Some v" for k v
      using prod(2)[OF that] by simp_all
    show "R \<subseteq> dom (lg_orders lg')" using D(12) grow by blast
  qed (use inventory prod(1) ord wait pend D(10) in blast)+
qed

lemma tally_wait:
  assumes t: "tally steps stk day n (ws1 @ ws2) P R lg" and a: "order_at steps i = Some a" "0 \<le> ord_product_id a"
      "ord_product_id a < int (length stk)" "ord_id a \<in> dom (lg_orders lg) - dom (lg_booked lg)" "ord_id a \<notin> waiting steps (ws1 @ ws2)"
  shows "tally steps stk day n (ws1 @ (ord_product_id a, i) # ws2) P R lg"
proof -
  have "map_option ord_id (order_at steps j) \<noteq> Some (ord_id a)" if "(p, j) \<in> set (ws1 @ ws2)" for p j
  proof
    assume "map_option ord_id (order_at steps j) = Some (ord_id a)"
    then obtain b where "order_at steps j = Some b" "ord_id b = ord_id a" by blast
    with that have "ord_id a \<in> waiting steps (ws1 @ ws2)" unfolding waiting_def by (metis (mono_tags, lifting) mem_Collect_eq)
    with a(5) show False ..
  qed
  then have "Some (ord_id a) \<notin> (\<lambda>(p, i). map_option ord_id (order_at steps i)) ` set (ws1 @ ws2)" by fastforce
  then have "distinct (map (\<lambda>(p, i). map_option ord_id (order_at steps i)) (ws1 @ (ord_product_id a, i) # ws2))"
    using tallyD(10)[OF t] a(1) by (simp add: image_Un)
  moreover have "\<exists>b. order_at steps j = Some b \<and> ord_product_id b = p \<and> 0 \<le> p \<and> p < int (length stk) \<and>
      ord_id b \<in> dom (lg_orders lg) - dom (lg_booked lg)" if "(p, j) \<in> set (ws1 @ (ord_product_id a, i) # ws2)" for p j
    using that a tallyD(9)[OF t, of p j] by auto
  ultimately show ?thesis using t unfolding tally_def by blast
qed

lemma tally_pend:
  assumes t: "tally steps stk day n wait P R lg" and a: "order_at steps i = Some a" "ord_id a \<in> dom (lg_orders lg)"
  shows "tally steps stk day n wait (insert i P) R lg"
  using t a unfolding tally_def by blast

lemma waiting_known: "tally steps stk day n wait P R lg \<Longrightarrow> waiting steps wait \<subseteq> dom (lg_orders lg) - dom (lg_booked lg)"
  using tallyD(9) unfolding waiting_def by fastforce

lemma waiting_snoc:
  assumes "tally steps stk day n wait P R lg"
  shows "waiting (steps @ [st]) wait = waiting steps wait"
proof -
  have "order_at (steps @ [st]) i = order_at steps i" if "(p, i) \<in> set wait" for p i
    using tallyD(9)[OF assms that] by (auto dest: order_at_bound simp: order_at_old)
  then show ?thesis unfolding waiting_def by metis
qed

lemma waiting_insert:
  "order_at steps i = Some a \<Longrightarrow> waiting steps (ws1 @ (p, i) # ws2) = insert (ord_id a) (waiting steps (ws1 @ ws2))"
  by (auto simp: waiting_def)

text \<open>A step for an order: it is added under a new id, or the order is known.\<close>

definition order_step :: "step \<Rightarrow> order \<Rightarrow> ledger \<Rightarrow> bool" where
  "order_step st a lg \<longleftrightarrow> st = AddOrder a \<and> lg_orders lg (ord_id a) = None \<or> st = UpdateOrder a \<and> lg_orders lg (ord_id a) \<noteq> None"

lemma order_step_at: "order_step st a lg \<Longrightarrow> order_at (steps @ [st]) (length steps) = Some a"
  by (auto simp: order_step_def order_at_snoc)

lemma order_step_effect:
  assumes "order_step st a lg" "post_order a lg = Some lg1"
  shows "\<exists>v. script_effect st lg = Some (lg1\<lparr>lg_orders := (lg_orders lg)(ord_id a \<mapsto> v)\<rparr>)"
  using assms by (auto simp: order_step_def)

lemma order_step_new:
  assumes "order_step st a lg" "dom (lg_orders lg) = set (new_orders steps)"
  shows "set (new_orders (steps @ [st])) = insert (ord_id a) (dom (lg_orders lg))"
  using assms by (auto simp: order_step_def)

lemma tally_settled:
  assumes t: "tally steps stk day n wait P R lg" and st: "order_step st a lg" "settled (ord_status a)"
  shows "\<exists>lg'. tally (steps @ [st]) stk day n wait P R lg' \<and> dom (lg_orders lg') = insert (ord_id a) (dom (lg_orders lg)) \<and>
    lg_booked lg' = lg_booked lg \<and> lg_sessions lg' = lg_sessions lg"
proof -
  have "post_order a lg = Some lg" using st(2) by (simp add: post_order_def)
  from order_step_effect[OF st(1) this] obtain v where
    eff: "script_effect st lg = Some (lg\<lparr>lg_orders := (lg_orders lg)(ord_id a \<mapsto> v)\<rparr>)" by blast
  note D = tallyD[OF t]
  have "tally (steps @ [st]) stk (lg_day (lg\<lparr>lg_orders := (lg_orders lg)(ord_id a \<mapsto> v)\<rparr>)) n wait P R
      (lg\<lparr>lg_orders := (lg_orders lg)(ord_id a \<mapsto> v)\<rparr>)"
    by (rule tally_snoc[OF t eff, where X = "{}"]) (use D(2,3,5) D(6) order_step_new[OF st(1) D(7)] in \<open>force simp del: new_orders_snoc\<close>)+
  then show ?thesis using D(4) by (intro exI[of _ "lg\<lparr>lg_orders := (lg_orders lg)(ord_id a \<mapsto> v)\<rparr>"]) simp
qed

lemma stock_map_update:
  assumes "inv_wf stk" "0 \<le> k" "nat k < length stk" "v = (stk ! nat k)\<lparr>inv_stock := m\<rparr>" "0 \<le> m" "m < 2 ^ 63"
  shows "stock_map (stk[nat k := v]) = (stock_map stk)(k \<mapsto> v)" "inv_wf (stk[nat k := v])"
proof -
  show "stock_map (stk[nat k := v]) = (stock_map stk)(k \<mapsto> v)"
    using assms(2,3) by (auto simp: stock_map_def fun_eq_iff nth_list_update)
  show "inv_wf (stk[nat k := v])" using assms by (auto simp: inv_wf_def nth_list_update)
qed

lemma tally_booked:
  assumes t: "tally steps stk day n wait P R lg" and st: "order_step st a lg" "ord_status a = Pending"
    and free: "ord_id a \<notin> dom (lg_booked lg)" "ord_id a \<notin> waiting steps wait"
    and k: "0 \<le> ord_product_id a" "nat (ord_product_id a) < length stk" and v: "v = stk ! nat (ord_product_id a)"
    and q: "ord_quantity a \<le> inv_stock v" "inv_stock v - ord_quantity a < 2 ^ 63"
  shows "\<exists>lg'. tally (steps @ [st]) (stk[nat (ord_product_id a) := v\<lparr>inv_stock := inv_stock v - ord_quantity a\<rparr>]) day n wait P R lg' \<and>
    dom (lg_orders lg') = insert (ord_id a) (dom (lg_orders lg)) \<and> dom (lg_booked lg') = insert (ord_id a) (dom (lg_booked lg)) \<and>
    lg_sessions lg' = lg_sessions lg"
proof -
  note D = tallyD[OF t]
  let ?w = "v\<lparr>inv_stock := inv_stock v - ord_quantity a\<rparr>"
  note up = stock_map_update[OF D(3) k, of ?w "inv_stock v - ord_quantity a"]
  have "lg_inventory lg (ord_product_id a) = Some v" using D(2) k by (simp add: stock_map_def v)
  then have "post_order a lg = Some (lg\<lparr>lg_booked := (lg_booked lg)(ord_id a \<mapsto> a), lg_inventory := (lg_inventory lg)(ord_product_id a \<mapsto> ?w)\<rparr>)"
    using st(2) free(1) q by (auto simp: post_order_def settled_def post_stock_def note_order_def domIff)
  from order_step_effect[OF st(1) this] obtain u where
    eff: "script_effect st lg = Some (lg\<lparr>lg_booked := (lg_booked lg)(ord_id a \<mapsto> a), lg_inventory := (lg_inventory lg)(ord_product_id a \<mapsto> ?w),
      lg_orders := (lg_orders lg)(ord_id a \<mapsto> u)\<rparr>)" (is "_ = Some ?lg") by blast
  have stock: "stock_map (stk[nat (ord_product_id a) := ?w]) = (stock_map stk)(ord_product_id a \<mapsto> ?w)"
    "inv_wf (stk[nat (ord_product_id a) := ?w])" using up q v by simp_all
  have "tally (steps @ [st]) (stk[nat (ord_product_id a) := ?w]) (lg_day ?lg) n wait P R ?lg"
    by (rule tally_snoc[OF t eff, where X = "{ord_id a}"])
      (use D(2,5) D(6) stock free order_step_new[OF st(1) D(7)] in \<open>force simp del: new_orders_snoc\<close>)+
  then show ?thesis using D(4) by (intro exI[of _ ?lg]) simp
qed

text \<open>A step that leaves orders and stock alone.\<close>

lemma tally_other:
  assumes t: "tally steps stk day n wait P R lg" and eff: "script_effect st lg = Some lg'"
    and no: "\<And>a. st \<noteq> AddOrder a"
    and same: "lg_inventory lg' = lg_inventory lg" "lg_orders lg' = lg_orders lg" "lg_booked lg' = lg_booked lg"
    and prod: "dom (lg_products lg') = {0..<int n'}"
      "\<And>k v. lg_products lg' k = Some v \<Longrightarrow> 0 \<le> prod_views v \<and> prod_views v \<le> int (length steps) + 1"
  shows "tally (steps @ [st]) stk (lg_day lg') n' wait P R lg'"
  by (rule tally_snoc[OF t eff, where X = "{}"])
    (use tallyD(2,3,7)[OF t] no same prod in \<open>auto split: step.splits\<close>)

lemma tally_view:
  assumes t: "tally steps stk day n wait P R lg" and k: "0 \<le> k" "k < int n" and l: "length steps < 2 ^ 63 - 1"
  shows "\<exists>lg'. tally (steps @ [ViewProduct k]) stk day n wait P R lg' \<and> lg_orders lg' = lg_orders lg \<and>
    lg_booked lg' = lg_booked lg \<and> lg_sessions lg' = lg_sessions lg"
proof -
  note D = tallyD[OF t]
  have "k \<in> dom (lg_products lg)" using D(5) k by simp
  then obtain v where v: "lg_products lg k = Some v" by blast
  let ?lg = "lg\<lparr>lg_products := (lg_products lg)(k \<mapsto> v\<lparr>prod_views := prod_views v + 1\<rparr>)\<rparr>"
  have "prod_views v + 1 < 2 ^ 63" "0 \<le> prod_views v" using D(6)[OF v] l by simp_all
  then have eff: "script_effect (ViewProduct k) lg = Some ?lg" using v by simp
  have "tally (steps @ [ViewProduct k]) stk (lg_day ?lg) n wait P R ?lg"
    by (rule tally_other[OF t eff]) (use D(5) D(6) v k in \<open>force split: if_splits\<close>)+
  then show ?thesis using D(4) by (intro exI[of _ ?lg]) simp
qed

section \<open>Batches of steps\<close>

abbreviation tally_of :: "writer \<Rightarrow> (int \<times> nat) list \<Rightarrow> nat set \<Rightarrow> 128 word set \<Rightarrow> ledger \<Rightarrow> bool" where
  "tally_of w \<equiv> tally (w_steps w) (w_inventory w) (w_current_day w) (length (w_products w))"

text \<open>
  The batches that add no product and no stock: \<open>K\<close> are the orders that are known, \<open>X\<close> those that
  are booked or wait.
\<close>

fun ready :: "nat \<Rightarrow> nat \<Rightarrow> step list \<Rightarrow> 128 word set \<Rightarrow> 128 word set \<Rightarrow> bool" where
  "ready n m [] K X \<longleftrightarrow> True"
| "ready n m (AddOrder a # sts) K X \<longleftrightarrow> ord_status a = New \<and> ord_id a \<notin> K \<and> 0 \<le> ord_product_id a \<and> ord_product_id a < int m \<and>
     ready n m sts (insert (ord_id a) K) (insert (ord_id a) X)"
| "ready n m (UpdateOrder a # sts) K X \<longleftrightarrow> ord_id a \<in> K \<and>
     ((ord_status a = Shipped \<or> ord_status a = Refunded) \<and> ready n m sts K X \<or>
      ord_status a = Recheck \<and> ord_id a \<notin> X \<and> 0 \<le> ord_product_id a \<and> ord_product_id a < int m \<and> ready n m sts K (insert (ord_id a) X))"
| "ready n m (ViewProduct k # sts) K X \<longleftrightarrow> 0 \<le> k \<and> k < int n \<and> ready n m sts K X"
| "ready n m (_ # sts) K X \<longleftrightarrow> False"

lemma push_step_Ok [simp]:
  "push_step st w = (Ok i, w') \<longleftrightarrow> i = length (w_steps w) \<and> length (w_steps w) < 2 ^ 63 - 1 \<and> w' = w\<lparr>w_steps := w_steps w @ [st]\<rparr>"
  by (auto simp: push_step_def)

lemma as_usize_index: "0 \<le> k \<Longrightarrow> k < 2 ^ 31 \<Longrightarrow> as_usize k = nat k"
  by (simp add: as_usize_def)

lemma process_order_of_Ok:
  assumes run: "process_order_of a w = (Ok (a', pp), w')" and st: "ord_status a = New \<or> ord_status a = Recheck"
    and k: "0 \<le> ord_product_id a" "ord_product_id a < int (length (w_inventory w))" and len: "length (w_inventory w) < 2 ^ 31"
    and v: "v = w_inventory w ! nat (ord_product_id a)"
  shows "inv_stock v < ord_quantity a \<and> a' = a\<lparr>ord_status := Backordered\<rparr> \<and> w' = w \<and>
      pp = (if ord_status a = New then PostBackorderNew (ord_product_id a) else PostBackorderAgain (ord_product_id a)) \<or>
    ord_quantity a \<le> inv_stock v \<and> inv_stock v - ord_quantity a < 2 ^ 63 \<and> a' = a\<lparr>ord_status := Pending\<rparr> \<and>
      w' = w\<lparr>w_inventory := (w_inventory w)[nat (ord_product_id a) := v\<lparr>inv_stock := inv_stock v - ord_quantity a\<rparr>]\<rparr> \<and>
      (\<exists>d. pp = PostPending d \<or> pp = PostShipping (a\<lparr>ord_status := Shipped\<rparr>))"
proof -
  have i: "as_usize (ord_product_id a) = nat (ord_product_id a)" using k len by (intro as_usize_index) auto
  show ?thesis
    using run st k by (auto simp: process_order_of_def fill_order_def i v[symmetric] Let_def i64_add_def i32_add_def
        split: if_splits)
qed

lemma process_order_of_settled:
  "ord_status a = Shipped \<or> ord_status a = Refunded \<Longrightarrow> process_order_of a = ret (a, PostNone)"
  by (auto simp: process_order_of_def)

text \<open>What a batch may change of the writer.\<close>

definition batch_frame :: "writer \<Rightarrow> writer \<Rightarrow> bool" where
  "batch_frame w w' \<longleftrightarrow> (\<exists>sts stk. w' = w\<lparr>w_steps := sts, w_inventory := stk\<rparr> \<and> length stk = length (w_inventory w))"

lemma batch_frame_step [simp]: "batch_frame w (w\<lparr>w_steps := sts\<rparr>)"
  unfolding batch_frame_def by (intro exI[of _ sts] exI[of _ "w_inventory w"]) simp

lemma batch_frame_refl [simp]: "batch_frame w w"
  using batch_frame_step[of w "w_steps w"] by simp

lemma batch_frame_stock [simp]:
  "length stk = length (w_inventory w) \<Longrightarrow> batch_frame w (w\<lparr>w_inventory := stk, w_steps := sts\<rparr>)"
  unfolding batch_frame_def by (intro exI[of _ sts] exI[of _ stk]) simp

lemma batch_frame_trans:
  assumes "batch_frame w w1" "batch_frame w1 w'"
  shows "batch_frame w w'"
proof -
  obtain sts stk where "w' = w\<lparr>w_steps := sts, w_inventory := stk\<rparr>" "length stk = length (w_inventory w)"
    using assms by (auto simp: batch_frame_def)
  then show ?thesis unfolding batch_frame_def by (intro exI[of _ sts] exI[of _ stk]) simp
qed

lemma batch_frameD:
  assumes "batch_frame w w'"
  shows "w_products w' = w_products w" "length (w_inventory w') = length (w_inventory w)" "w_current_day w' = w_current_day w"
    "w_backorders w' = w_backorders w" "w_pending_orders w' = w_pending_orders w"
  using assms by (auto simp: batch_frame_def)

text \<open>One order: where it goes, and what is known of the ledger afterwards.\<close>

definition after_order :: "ledger \<Rightarrow> 128 word \<Rightarrow> ledger \<Rightarrow> bool" where
  "after_order lg i lg' \<longleftrightarrow> dom (lg_orders lg') = insert i (dom (lg_orders lg)) \<and> lg_sessions lg' = lg_sessions lg"

lemma push_backorder:
  assumes t: "tally_of w (ws1 @ ws2) P R lg" and st: "order_step st a lg" "ord_status a = Backordered"
    and k: "0 \<le> ord_product_id a" "ord_product_id a < int (length (w_inventory w))"
    and free: "ord_id a \<notin> dom (lg_booked lg) \<union> waiting (w_steps w) (ws1 @ ws2)"
  shows "\<exists>lg'. tally_of (w\<lparr>w_steps := w_steps w @ [st]\<rparr>) (ws1 @ (ord_product_id a, length (w_steps w)) # ws2) P R lg' \<and>
    after_order lg (ord_id a) lg' \<and> dom (lg_booked lg') \<union> waiting (w_steps w @ [st]) (ws1 @ (ord_product_id a, length (w_steps w)) # ws2) =
      insert (ord_id a) (dom (lg_booked lg) \<union> waiting (w_steps w) (ws1 @ ws2))"
proof -
  obtain lg' where lg': "tally (w_steps w @ [st]) (w_inventory w) (w_current_day w) (length (w_products w)) (ws1 @ ws2) P R lg'"
    "dom (lg_orders lg') = insert (ord_id a) (dom (lg_orders lg))" "lg_booked lg' = lg_booked lg" "lg_sessions lg' = lg_sessions lg"
    using tally_settled[OF t st(1)] st(2) by (auto simp: settled_def)
  have "tally (w_steps w @ [st]) (w_inventory w) (w_current_day w) (length (w_products w))
      (ws1 @ (ord_product_id a, length (w_steps w)) # ws2) P R lg'"
    by (rule tally_wait[OF lg'(1) order_step_at[OF st(1)] k]) (use lg'(2,3) free waiting_snoc[OF t] in auto)
  then show ?thesis
    using lg' waiting_snoc[OF t] waiting_insert[OF order_step_at[OF st(1)]] by (intro exI[of _ lg']) (auto simp: after_order_def)
qed

lemma push_filled:
  assumes t: "tally_of w wait P R lg" and st: "order_step st a lg" "ord_status a = Pending"
    and k: "0 \<le> ord_product_id a" "ord_product_id a < int (length (w_inventory w))" and v: "v = w_inventory w ! nat (ord_product_id a)"
    and q: "ord_quantity a \<le> inv_stock v" "inv_stock v - ord_quantity a < 2 ^ 63"
    and free: "ord_id a \<notin> dom (lg_booked lg) \<union> waiting (w_steps w) wait"
  shows "\<exists>lg'. tally_of (w\<lparr>w_inventory := (w_inventory w)[nat (ord_product_id a) := v\<lparr>inv_stock := inv_stock v - ord_quantity a\<rparr>],
      w_steps := w_steps w @ [st]\<rparr>) wait P R lg' \<and> after_order lg (ord_id a) lg' \<and>
    dom (lg_booked lg') \<union> waiting (w_steps w @ [st]) wait = insert (ord_id a) (dom (lg_booked lg) \<union> waiting (w_steps w) wait)"
proof -
  have "nat (ord_product_id a) < length (w_inventory w)" using k by simp
  from tally_booked[OF t st _ _ k(1) this v q] free obtain lg' where
    "tally (w_steps w @ [st]) ((w_inventory w)[nat (ord_product_id a) := v\<lparr>inv_stock := inv_stock v - ord_quantity a\<rparr>])
       (w_current_day w) (length (w_products w)) wait P R lg'"
    "dom (lg_orders lg') = insert (ord_id a) (dom (lg_orders lg))"
    "dom (lg_booked lg') = insert (ord_id a) (dom (lg_booked lg))" "lg_sessions lg' = lg_sessions lg" by blast
  then show ?thesis
    using waiting_snoc[OF t] by (intro exI[of _ lg']) (simp add: after_order_def)
qed

text \<open>One step of a batch: the new state of the loop, and that the rest is still \<open>ready\<close>.\<close>

fun loop_tally :: "writer \<Rightarrow> collected \<Rightarrow> (int \<times> nat) list \<Rightarrow> nat set \<Rightarrow> 128 word set \<Rightarrow> ledger \<Rightarrow> bool" where
  "loop_tally w (pe, ag, ne) wait P R lg \<longleftrightarrow> tally_of w (wait @ ag @ ne) (P \<union> snd ` set pe) R lg"

fun loop_taken :: "writer \<Rightarrow> collected \<Rightarrow> (int \<times> nat) list \<Rightarrow> ledger \<Rightarrow> 128 word set" where
  "loop_taken w (pe, ag, ne) wait lg = dom (lg_booked lg) \<union> waiting (w_steps w) (wait @ ag @ ne)"

lemma push_unfilled_loop:
  assumes t: "tally_of w (wait @ ag @ ne) (P \<union> snd ` set pe) R lg" and st: "order_step st a lg" "ord_status a = Backordered"
    and k: "0 \<le> ord_product_id a" "ord_product_id a < int (length (w_inventory w))"
    and free: "ord_id a \<notin> dom (lg_booked lg) \<union> waiting (w_steps w) (wait @ ag @ ne)"
    and acc: "acc = (pe, ag, ne @ [(ord_product_id a, length (w_steps w))]) \<or> acc = (pe, ag @ [(ord_product_id a, length (w_steps w))], ne)"
  shows "\<exists>lg'. loop_tally (w\<lparr>w_steps := w_steps w @ [st]\<rparr>) acc wait P R lg' \<and> after_order lg (ord_id a) lg' \<and>
    loop_taken (w\<lparr>w_steps := w_steps w @ [st]\<rparr>) acc wait lg' = insert (ord_id a) (dom (lg_booked lg) \<union> waiting (w_steps w) (wait @ ag @ ne))"
proof -
  have t1: "tally_of w ((wait @ ag @ ne) @ []) (P \<union> snd ` set pe) R lg" and t2: "tally_of w ((wait @ ag) @ ne) (P \<union> snd ` set pe) R lg"
    using t by simp_all
  show ?thesis
    using acc push_backorder[OF t1 st k] push_backorder[OF t2 st k] free by (elim disjE) simp_all
qed

lemma push_filled_loop:
  assumes t: "tally_of w (wait @ ag @ ne) (P \<union> snd ` set pe) R lg" and st: "order_step st a lg" "ord_status a = Pending"
    and k: "0 \<le> ord_product_id a" "ord_product_id a < int (length (w_inventory w))" and v: "v = w_inventory w ! nat (ord_product_id a)"
    and q: "ord_quantity a \<le> inv_stock v" "inv_stock v - ord_quantity a < 2 ^ 63"
    and free: "ord_id a \<notin> dom (lg_booked lg) \<union> waiting (w_steps w) (wait @ ag @ ne)"
    and w1: "w1 = w\<lparr>w_inventory := (w_inventory w)[nat (ord_product_id a) := v\<lparr>inv_stock := inv_stock v - ord_quantity a\<rparr>],
      w_steps := w_steps w @ [st]\<rparr>"
  shows "\<exists>lg'. loop_tally w1 (pe @ [(d, length (w_steps w))], ag, ne) wait P R lg' \<and> after_order lg (ord_id a) lg' \<and>
      loop_taken w1 (pe @ [(d, length (w_steps w))], ag, ne) wait lg' =
        insert (ord_id a) (dom (lg_booked lg) \<union> waiting (w_steps w) (wait @ ag @ ne))"
    and "\<exists>lg'. loop_tally (w1\<lparr>w_steps := w_steps w1 @ [UpdateOrder (a\<lparr>ord_status := Shipped\<rparr>)]\<rparr>) (pe, ag, ne) wait P R lg' \<and>
      after_order lg (ord_id a) lg' \<and> loop_taken (w1\<lparr>w_steps := w_steps w1 @ [UpdateOrder (a\<lparr>ord_status := Shipped\<rparr>)]\<rparr>) (pe, ag, ne) wait lg' =
        insert (ord_id a) (dom (lg_booked lg) \<union> waiting (w_steps w) (wait @ ag @ ne))"
proof -
  obtain lg1 where lg1: "tally_of w1 (wait @ ag @ ne) (P \<union> snd ` set pe) R lg1" "after_order lg (ord_id a) lg1"
    "dom (lg_booked lg1) \<union> waiting (w_steps w @ [st]) (wait @ ag @ ne) =
       insert (ord_id a) (dom (lg_booked lg) \<union> waiting (w_steps w) (wait @ ag @ ne))"
    using push_filled[OF t st k v q free] unfolding w1 by blast
  have steps: "w_steps w1 = w_steps w @ [st]" by (simp add: w1)
  have "tally_of w1 (wait @ ag @ ne) (insert (length (w_steps w)) (P \<union> snd ` set pe)) R lg1"
    by (rule tally_pend[OF lg1(1), of _ a]) (use lg1(2) order_step_at[OF st(1)] in \<open>auto simp: steps after_order_def\<close>)
  then show "\<exists>lg'. loop_tally w1 (pe @ [(d, length (w_steps w))], ag, ne) wait P R lg' \<and> after_order lg (ord_id a) lg' \<and>
      loop_taken w1 (pe @ [(d, length (w_steps w))], ag, ne) wait lg' =
        insert (ord_id a) (dom (lg_booked lg) \<union> waiting (w_steps w) (wait @ ag @ ne))"
    using lg1 by (intro exI[of _ lg1]) (simp add: steps insert_commute Un_commute)
  have ship: "order_step (UpdateOrder (a\<lparr>ord_status := Shipped\<rparr>)) (a\<lparr>ord_status := Shipped\<rparr>) lg1"
    using lg1(2) by (auto simp: order_step_def after_order_def)
  obtain lg2 where "tally_of (w1\<lparr>w_steps := w_steps w1 @ [UpdateOrder (a\<lparr>ord_status := Shipped\<rparr>)]\<rparr>) (wait @ ag @ ne) (P \<union> snd ` set pe) R lg2"
    "dom (lg_orders lg2) = insert (ord_id a) (dom (lg_orders lg1))" "lg_booked lg2 = lg_booked lg1" "lg_sessions lg2 = lg_sessions lg1"
    using tally_settled[OF lg1(1) ship] by (auto simp: settled_def)
  then show "\<exists>lg'. loop_tally (w1\<lparr>w_steps := w_steps w1 @ [UpdateOrder (a\<lparr>ord_status := Shipped\<rparr>)]\<rparr>) (pe, ag, ne) wait P R lg' \<and>
      after_order lg (ord_id a) lg' \<and> loop_taken (w1\<lparr>w_steps := w_steps w1 @ [UpdateOrder (a\<lparr>ord_status := Shipped\<rparr>)]\<rparr>) (pe, ag, ne) wait lg' =
        insert (ord_id a) (dom (lg_booked lg) \<union> waiting (w_steps w) (wait @ ag @ ne))"
    using lg1(2,3) waiting_snoc[OF lg1(1)] by (intro exI[of _ lg2]) (simp add: steps after_order_def)
qed

lemma push_order:
  assumes run: "push_steps (wrap a # sts) (pe, ag, ne) w = (Ok acc', w')" and wrap: "wrap = AddOrder \<or> wrap = UpdateOrder"
    and t: "tally_of w (wait @ ag @ ne) (P \<union> snd ` set pe) R lg" and st: "order_step (wrap a) a lg" "ord_status a = New \<or> ord_status a = Recheck"
    and k: "0 \<le> ord_product_id a" "ord_product_id a < int (length (w_inventory w))"
    and free: "ord_id a \<notin> dom (lg_booked lg) \<union> waiting (w_steps w) (wait @ ag @ ne)"
  shows "\<exists>acc1 w1 lg1. push_steps sts acc1 w1 = (Ok acc', w') \<and> loop_tally w1 acc1 wait P R lg1 \<and> after_order lg (ord_id a) lg1 \<and>
    loop_taken w1 acc1 wait lg1 = insert (ord_id a) (dom (lg_booked lg) \<union> waiting (w_steps w) (wait @ ag @ ne)) \<and> batch_frame w w1"
proof -
  define v where "v = w_inventory w ! nat (ord_product_id a)"
  have len: "length (w_inventory w) < 2 ^ 31" using tallyD(3)[OF t] by (simp add: inv_wf_def)
  obtain a' pp w1 where pr: "process_order_of a w = (Ok (a', pp), w1)"
    and rest: "bnd (push_step (wrap a')) (\<lambda>step_idx. case pp of
         PostPending day \<Rightarrow> push_steps sts (pe @ [(day, step_idx)], ag, ne)
       | PostBackorderNew product_id \<Rightarrow> push_steps sts (pe, ag, ne @ [(product_id, step_idx)])
       | PostBackorderAgain product_id \<Rightarrow> push_steps sts (pe, ag @ [(product_id, step_idx)], ne)
       | PostShipping order \<Rightarrow> bnd (push_step (UpdateOrder order)) (\<lambda>_. push_steps sts (pe, ag, ne))
       | PostNone \<Rightarrow> push_steps sts (pe, ag, ne)) w1 = (Ok acc', w')"
    using run wrap by (auto simp: process_order_def)
  have st': "order_step (wrap (a\<lparr>ord_status := x\<rparr>)) (a\<lparr>ord_status := x\<rparr>) lg" for x
    using st(1) wrap by (auto simp: order_step_def)
  show ?thesis
    using process_order_of_Ok[OF pr st(2) k len v_def]
  proof (elim disjE conjE exE)
    assume bk: "a' = a\<lparr>ord_status := Backordered\<rparr>" "w1 = w"
      "pp = (if ord_status a = New then PostBackorderNew (ord_product_id a) else PostBackorderAgain (ord_product_id a))"
    define acc1 where "acc1 = (if ord_status a = New then (pe, ag, ne @ [(ord_product_id a, length (w_steps w))])
       else (pe, ag @ [(ord_product_id a, length (w_steps w))], ne))"
    define w2 where "w2 = w\<lparr>w_steps := w_steps w @ [wrap a']\<rparr>"
    have "push_steps sts acc1 w2 = (Ok acc', w')"
      using rest by (auto simp: bk acc1_def w2_def bnd_Ok_iff split: if_splits)
    moreover have "batch_frame w w2" by (simp add: w2_def)
    moreover have "acc1 = (pe, ag, ne @ [(ord_product_id a', length (w_steps w))]) \<or> acc1 = (pe, ag @ [(ord_product_id a', length (w_steps w))], ne)"
      by (simp add: acc1_def bk)
    from push_unfilled_loop[OF t st'[of Backordered, folded bk(1)] _ _ _ _ this] obtain lg1 where
      "loop_tally w2 acc1 wait P R lg1" "after_order lg (ord_id a) lg1"
      "loop_taken w2 acc1 wait lg1 = insert (ord_id a) (dom (lg_booked lg) \<union> waiting (w_steps w) (wait @ ag @ ne))"
      using k free unfolding w2_def by (auto simp: bk(1))
    ultimately show ?thesis by blast
  next
    fix d
    assume q: "ord_quantity a \<le> inv_stock v" "inv_stock v - ord_quantity a < 2 ^ 63" and a': "a' = a\<lparr>ord_status := Pending\<rparr>"
      and w1: "w1 = w\<lparr>w_inventory := (w_inventory w)[nat (ord_product_id a) := v\<lparr>inv_stock := inv_stock v - ord_quantity a\<rparr>]\<rparr>"
      and pp: "pp = PostPending d"
    define w2 where "w2 = w1\<lparr>w_steps := w_steps w @ [wrap a']\<rparr>"
    have "push_steps sts (pe @ [(d, length (w_steps w))], ag, ne) w2 = (Ok acc', w')"
      using rest by (auto simp: pp w1 w2_def bnd_Ok_iff)
    moreover have "batch_frame w w2" by (simp add: w2_def w1)
    moreover obtain lg1 where "loop_tally w2 (pe @ [(d, length (w_steps w))], ag, ne) wait P R lg1" "after_order lg (ord_id a) lg1"
      "loop_taken w2 (pe @ [(d, length (w_steps w))], ag, ne) wait lg1 = insert (ord_id a) (dom (lg_booked lg) \<union> waiting (w_steps w) (wait @ ag @ ne))"
      using push_filled_loop(1)[OF t st'[of Pending, folded a'], of v w2 d] k q free v_def w1 by (auto simp: a' w2_def)
    ultimately show ?thesis by blast
  next
    fix d
    assume q: "ord_quantity a \<le> inv_stock v" "inv_stock v - ord_quantity a < 2 ^ 63" and a': "a' = a\<lparr>ord_status := Pending\<rparr>"
      and w1: "w1 = w\<lparr>w_inventory := (w_inventory w)[nat (ord_product_id a) := v\<lparr>inv_stock := inv_stock v - ord_quantity a\<rparr>]\<rparr>"
      and pp: "pp = PostShipping (a\<lparr>ord_status := Shipped\<rparr>)"
    define w2 where "w2 = w1\<lparr>w_steps := w_steps w @ [wrap a']\<rparr>"
    define w3 where "w3 = w2\<lparr>w_steps := w_steps w2 @ [UpdateOrder (a'\<lparr>ord_status := Shipped\<rparr>)]\<rparr>"
    have "push_steps sts (pe, ag, ne) w3 = (Ok acc', w')"
      using rest by (auto simp: pp w1 w2_def w3_def a' bnd_Ok_iff)
    moreover have "batch_frame w w3" by (simp add: w3_def w2_def w1)
    moreover obtain lg1 where "loop_tally w3 (pe, ag, ne) wait P R lg1" "after_order lg (ord_id a) lg1"
      "loop_taken w3 (pe, ag, ne) wait lg1 = insert (ord_id a) (dom (lg_booked lg) \<union> waiting (w_steps w) (wait @ ag @ ne))"
      using push_filled_loop(2)[OF t st'[of Pending, folded a'], of v w2] k q free v_def w1 unfolding w3_def by (auto simp: a' w2_def)
    ultimately show ?thesis by blast
  qed
qed

text \<open>The orders for which a batch asks for stock.\<close>

definition asking :: "step list \<Rightarrow> 128 word set" where
  "asking sts = {ord_id a |a. AddOrder a \<in> set sts \<or> UpdateOrder a \<in> set sts \<and> ord_status a = Recheck}"

lemma asking_simps [simp]:
  "asking [] = {}"
  "asking (AddOrder a # sts) = insert (ord_id a) (asking sts)"
  "asking (UpdateOrder a # sts) = (if ord_status a = Recheck then insert (ord_id a) (asking sts) else asking sts)"
  "asking (ViewProduct k # sts) = asking sts"
  by (auto simp: asking_def)

lemma push_steps_tally:
  assumes "push_steps sts acc w = (Ok acc', w')" "loop_tally w acc wait P R lg"
    "ready (length (w_products w)) (length (w_inventory w)) sts (dom (lg_orders lg)) (loop_taken w acc wait lg)"
  shows "\<exists>lg'. loop_tally w' acc' wait P R lg' \<and> lg_sessions lg' = lg_sessions lg \<and> batch_frame w w' \<and>
    dom (lg_orders lg') = dom (lg_orders lg) \<union> set (new_orders sts) \<and> loop_taken w' acc' wait lg' = loop_taken w acc wait lg \<union> asking sts"
  using assms
proof (induction sts arbitrary: acc w lg)
  case Nil
  then show ?case by (cases acc) (auto simp: new_orders_def)
next
  case (Cons st sts)
  obtain pe ag ne where acc: "acc = (pe, ag, ne)" by (cases acc) auto
  have t: "tally_of w (wait @ ag @ ne) (P \<union> snd ` set pe) R lg" using Cons.prems(2) by (simp add: acc)
  note rd = Cons.prems(3)[unfolded acc loop_taken.simps]
  have IH: ?case if run: "push_steps sts acc1 w1 = (Ok acc', w')" and t1: "loop_tally w1 acc1 wait P R lg1"
      and rd1: "ready (length (w_products w)) (length (w_inventory w)) sts (dom (lg_orders lg1)) (loop_taken w1 acc1 wait lg1)"
      and fr: "batch_frame w w1" and k: "dom (lg_orders lg1) = dom (lg_orders lg) \<union> set (new_orders [st])" "lg_sessions lg1 = lg_sessions lg"
      and tk: "loop_taken w1 acc1 wait lg1 \<union> asking sts = loop_taken w acc wait lg \<union> asking (st # sts)"
    for acc1 w1 lg1
  proof -
    from Cons.IH[OF run t1] rd1 batch_frameD(1,2)[OF fr] obtain lg' where lg': "loop_tally w' acc' wait P R lg'" "lg_sessions lg' = lg_sessions lg1"
      "batch_frame w1 w'" "dom (lg_orders lg') = dom (lg_orders lg1) \<union> set (new_orders sts)"
      "loop_taken w' acc' wait lg' = loop_taken w1 acc1 wait lg1 \<union> asking sts" by auto
    have "batch_frame w w'" using fr lg'(3) by (rule batch_frame_trans)
    moreover have "set (new_orders (st # sts)) = set (new_orders [st]) \<union> set (new_orders sts)" by (auto simp: new_orders_def)
    moreover have "dom (lg_orders lg') = dom (lg_orders lg) \<union> set (new_orders (st # sts))"
      using lg'(4) k(1) calculation(2) by blast
    ultimately show ?thesis using lg'(1,2,5) k(2) tk by (intro exI[of _ lg']) simp
  qed
  have order: ?case if wrap: "wrap = AddOrder \<or> wrap = UpdateOrder" "st = wrap a" "order_step st a lg" "ord_status a = New \<or> ord_status a = Recheck"
      "0 \<le> ord_product_id a" "ord_product_id a < int (length (w_inventory w))" "ord_id a \<notin> dom (lg_booked lg) \<union> waiting (w_steps w) (wait @ ag @ ne)"
      "wrap = AddOrder \<or> ord_status a = Recheck" and rest: "ready (length (w_products w)) (length (w_inventory w)) sts (insert (ord_id a) (dom (lg_orders lg)))
        (insert (ord_id a) (dom (lg_booked lg) \<union> waiting (w_steps w) (wait @ ag @ ne)))" for wrap a
  proof -
    obtain acc1 w1 lg1 where st1: "push_steps sts acc1 w1 = (Ok acc', w')" "loop_tally w1 acc1 wait P R lg1" "after_order lg (ord_id a) lg1"
      "loop_taken w1 acc1 wait lg1 = insert (ord_id a) (dom (lg_booked lg) \<union> waiting (w_steps w) (wait @ ag @ ne))" "batch_frame w w1"
      using push_order[OF Cons.prems(1)[unfolded acc wrap(2)] wrap(1) t wrap(3)[unfolded wrap(2)] wrap(4-7)] by blast
    have tk: "loop_taken w1 acc1 wait lg1 \<union> asking sts = loop_taken w acc wait lg \<union> asking (st # sts)"
      using wrap(1,8) by (auto simp: st1(4) acc wrap(2))
    have "dom (lg_orders lg1) = dom (lg_orders lg) \<union> set (new_orders [st])"
      using st1(3) wrap(1,3) by (auto simp: after_order_def new_orders_def order_step_def wrap(2))
    from IH[OF st1(1,2) _ st1(5) this _ tk] show ?thesis using st1(3,4) rest by (simp add: after_order_def)
  qed
  show ?case
  proof (cases st)
    case (AddOrder a)
    have "dom (lg_booked lg) \<union> waiting (w_steps w) (wait @ ag @ ne) \<subseteq> dom (lg_orders lg)"
      using tallyD(8)[OF t] waiting_known[OF t] by blast
    then have "ord_id a \<notin> dom (lg_booked lg) \<union> waiting (w_steps w) (wait @ ag @ ne)" using rd AddOrder by auto
    then show ?thesis using rd AddOrder by (intro order[of AddOrder a]) (auto simp: order_step_def)
  next
    case (UpdateOrder a)
    show ?thesis
    proof (cases "ord_status a = Recheck")
      case True
      then show ?thesis using rd UpdateOrder by (intro order[of UpdateOrder a]) (auto simp: order_step_def insert_absorb)
    next
      case False
      then have sh: "ord_status a = Shipped \<or> ord_status a = Refunded" and k: "ord_id a \<in> dom (lg_orders lg)"
        and rest: "ready (length (w_products w)) (length (w_inventory w)) sts (dom (lg_orders lg)) (dom (lg_booked lg) \<union> waiting (w_steps w) (wait @ ag @ ne))"
        using rd UpdateOrder by auto
      have "order_step st a lg" using k by (auto simp: order_step_def UpdateOrder)
      from tally_settled[OF t this] sh obtain lg1 where lg1: "tally (w_steps w @ [st]) (w_inventory w) (w_current_day w) (length (w_products w))
          (wait @ ag @ ne) (P \<union> snd ` set pe) R lg1" "dom (lg_orders lg1) = insert (ord_id a) (dom (lg_orders lg))"
          "lg_booked lg1 = lg_booked lg" "lg_sessions lg1 = lg_sessions lg" by (auto simp: settled_def)
      have "push_steps sts (pe, ag, ne) (w\<lparr>w_steps := w_steps w @ [st]\<rparr>) = (Ok acc', w')"
        using Cons.prems(1) sh by (auto simp: acc UpdateOrder process_order_def process_order_of_settled bnd_Ok_iff)
      from IH[OF this] show ?thesis
        using lg1 rest waiting_snoc[OF t] k False by (simp add: insert_absorb UpdateOrder new_orders_def acc)
    qed
  next
    case (ViewProduct k)
    then have run: "push_steps sts (pe, ag, ne) (w\<lparr>w_steps := w_steps w @ [st]\<rparr>) = (Ok acc', w')" and l: "length (w_steps w) < 2 ^ 63 - 1"
      using Cons.prems(1) by (auto simp: acc bnd_Ok_iff)
    from tally_view[OF t _ _ l, of k] rd ViewProduct obtain lg1 where lg1: "tally (w_steps w @ [st]) (w_inventory w) (w_current_day w)
        (length (w_products w)) (wait @ ag @ ne) (P \<union> snd ` set pe) R lg1" "lg_orders lg1 = lg_orders lg"
        "lg_booked lg1 = lg_booked lg" "lg_sessions lg1 = lg_sessions lg" by auto
    from IH[OF run] show ?thesis
      using lg1 rd waiting_snoc[OF t] ViewProduct by (simp add: new_orders_def acc)
  qed (use rd in simp_all)
qed

section \<open>The queues\<close>

text \<open>All orders that wait for stock, with their product.\<close>

definition wait_of :: "nat list list \<Rightarrow> (int \<times> nat) list" where
  "wait_of bs = concat (map (\<lambda>p. map (Pair (int p)) (bs ! p)) [0..<length bs])"

lemma mset_wait_of: "mset (wait_of bs) = (\<Sum>p < length bs. image_mset (Pair (int p)) (mset (bs ! p)))"
proof -
  have "mset (concat (map f [0..<n])) = (\<Sum>p < n. mset (f p))" for f :: "nat \<Rightarrow> (int \<times> nat) list" and n
    by (induction n) simp_all
  then show ?thesis by (simp add: wait_of_def)
qed

lemma mset_wait_update:
  assumes q: "q < length bs"
  shows "mset (wait_of (bs[q := ys])) + mset (map (Pair (int q)) (bs ! q)) = mset (wait_of bs) + mset (map (Pair (int q)) ys)"
proof -
  let ?f = "\<lambda>bs p. image_mset (Pair (int p)) (mset (bs ! p))"
  have split: "(\<Sum>p < length bs. ?f cs p) = ?f cs q + (\<Sum>p \<in> {..<length bs} - {q}. ?f cs p)" for cs
    using q by (simp add: sum.remove)
  have "(\<Sum>p \<in> {..<length bs} - {q}. ?f (bs[q := ys]) p) = (\<Sum>p \<in> {..<length bs} - {q}. ?f bs p)"
    by (rule sum.cong) auto
  then show ?thesis using split[of bs] split[of "bs[q := ys]"] q by (simp add: mset_wait_of)
qed

lemma tally_perm:
  assumes "tally steps stk day n wait P R lg" "mset wait = mset wait'"
  shows "tally steps stk day n wait' P R lg"
proof -
  have set: "set wait' = set wait" using assms(2) by (metis set_mset_mset)
  have dist: "distinct (map f wait') = distinct (map f wait)" for f :: "int \<times> nat \<Rightarrow> 128 word option"
    using assms(2) by (metis mset_map mset_eq_imp_distinct_iff)
  show ?thesis using assms(1) unfolding tally_def set dist .
qed

lemma tally_fewer:
  assumes "tally steps stk day n (ws1 @ ws2) P R lg"
  shows "tally steps stk day n ws1 P R lg"
proof -
  have "set ws1 \<subseteq> set (ws1 @ ws2)" by simp
  moreover have "distinct (map f ws1)" if "distinct (map f (ws1 @ ws2))" for f :: "int \<times> nat \<Rightarrow> 128 word option"
    using that by simp
  ultimately show ?thesis using assms unfolding tally_def by blast
qed

lemma tally_mono: "tally steps stk day n wait P R lg \<Longrightarrow> P' \<subseteq> P \<Longrightarrow> R' \<subseteq> R \<Longrightarrow> tally steps stk day n wait P' R' lg"
  unfolding tally_def by blast

lemma waiting_perm: "mset wait = mset wait' \<Longrightarrow> waiting steps wait = waiting steps wait'"
  unfolding waiting_def by (metis set_mset_mset)

definition pending_idx :: "writer \<Rightarrow> nat set" where
  "pending_idx w = (\<Union>l \<in> ran (w_pending_orders w). set l)"

definition return_ids :: "writer \<Rightarrow> 128 word set" where
  "return_ids w = (\<Union>l \<in> ran (w_returns w). swo_id ` set l)"

lemma ran_push_entry: "(\<Union>l \<in> ran (push_entry k x m). set l) = insert x (\<Union>l \<in> ran m. set l)"
proof (cases "m k")
  case None
  then show ?thesis by (simp add: push_entry_def ran_map_upd)
next
  case (Some l)
  have "ran (push_entry k x m) = insert (l @ [x]) (ran (m(k := None)))"
    using Some by (auto simp: push_entry_def ran_def)
  moreover have "ran m = insert l (ran (m(k := None)))"
    using Some by (auto simp: ran_def) (metis option.inject)
  ultimately show ?thesis by auto
qed

lemma queue_pending_all:
  "for_each queue_pending pe w = (Ok (), w') \<Longrightarrow>
     \<exists>m. w' = w\<lparr>w_pending_orders := m\<rparr> \<and> (\<Union>l \<in> ran m. set l) = pending_idx w \<union> snd ` set pe"
proof (induction pe arbitrary: w)
  case Nil
  then show ?case by (intro exI[of _ "w_pending_orders w"]) (auto simp: pending_idx_def)
next
  case (Cons x pe)
  obtain d i where x: "x = (d, i)" by fastforce
  from Cons.prems have "for_each queue_pending pe (w\<lparr>w_pending_orders := push_entry d i (w_pending_orders w)\<rparr>) = (Ok (), w')"
    by (simp add: x queue_pending_def)
  from Cons.IH[OF this] show ?case by (auto simp: x pending_idx_def ran_push_entry)
qed

lemma queue_backorders_all:
  assumes put: "\<And>i q. mset (put i q) = add_mset i (mset q)"
  shows "for_each (queue_backorder put) xs w = (Ok (), w') \<Longrightarrow> (\<And>p i. (p, i) \<in> set xs \<Longrightarrow> 0 \<le> p \<and> p < 2 ^ 31) \<Longrightarrow>
     \<exists>bs. w' = w\<lparr>w_backorders := bs\<rparr> \<and> length bs = length (w_backorders w) \<and> mset (wait_of bs) = mset (wait_of (w_backorders w)) + mset xs"
proof (induction xs arbitrary: w)
  case Nil
  then show ?case by (intro exI[of _ "w_backorders w"]) simp
next
  case (Cons x xs)
  obtain p i where x: "x = (p, i)" by fastforce
  define q where "q = as_usize p"
  have p: "int q = p" using Cons.prems(2)[of p i] by (simp add: x q_def as_usize_def)
  define bs where "bs = (w_backorders w)[q := put i (w_backorders w ! q)]"
  have q: "q < length (w_backorders w)" and run: "for_each (queue_backorder put) xs (w\<lparr>w_backorders := bs\<rparr>) = (Ok (), w')"
    using Cons.prems(1) by (auto simp: x queue_backorder_def at_index_def q_def[symmetric] bs_def split: if_splits)
  have "mset (wait_of bs) = mset (wait_of (w_backorders w)) + {#(p, i)#}"
    using mset_wait_update[OF q, of "put i (w_backorders w ! q)"] by (simp add: bs_def put p)
  moreover obtain bs' where "w' = w\<lparr>w_backorders := bs\<rparr>\<lparr>w_backorders := bs'\<rparr>" "length bs' = length bs"
    "mset (wait_of bs') = mset (wait_of bs) + mset xs"
    using Cons.IH[OF run] Cons.prems(2) by auto
  ultimately show ?case by (intro exI[of _ bs']) (simp add: x bs_def)
qed

text \<open>What \<open>add_steps\<close> may change of the writer.\<close>

definition steps_frame :: "writer \<Rightarrow> writer \<Rightarrow> bool" where
  "steps_frame w w' \<longleftrightarrow> (\<exists>sts stk bs pe. w' = w\<lparr>w_steps := sts, w_inventory := stk, w_backorders := bs, w_pending_orders := pe\<rparr> \<and>
     length stk = length (w_inventory w) \<and> length bs = length (w_backorders w))"

lemma steps_frameD:
  assumes "steps_frame w w'"
  shows "w_products w' = w_products w" "length (w_inventory w') = length (w_inventory w)" "w_current_day w' = w_current_day w"
    "length (w_backorders w') = length (w_backorders w)" "w_returns w' = w_returns w" "w_customers w' = w_customers w"
    "w_next_session_id w' = w_next_session_id w" "w_session_base w' = w_session_base w" "w_customer_sessions w' = w_customer_sessions w"
    "w_market_capacity w' = w_market_capacity w" "w_pool_customer_id w' = w_pool_customer_id w" "w_shipments w' = w_shipments w"
    "w_product_shipping w' = w_product_shipping w" "w_product_count w' = w_product_count w"
  using assms by (auto simp: steps_frame_def)

text \<open>The middle of \<open>add_steps\<close>, for batches that are \<open>ready\<close>.\<close>

lemma add_steps_from:
  assumes run: "bnd (push_steps sts ([], [], [])) (\<lambda>(pend, again, new).
     bnd (for_each queue_pending pend) (\<lambda>_. bnd (for_each (queue_backorder (#)) again) (\<lambda>_.
     for_each (queue_backorder (\<lambda>i q. q @ [i])) new))) w = (Ok (), w')"
    and t: "tally_of w (wait_of (w_backorders w)) (pending_idx w \<union> P) R lg"
    and rd: "ready (length (w_products w)) (length (w_inventory w)) sts (dom (lg_orders lg))
      (dom (lg_booked lg) \<union> waiting (w_steps w) (wait_of (w_backorders w)))"
  shows "\<exists>lg'. tally_of w' (wait_of (w_backorders w')) (pending_idx w' \<union> P) R lg' \<and> lg_sessions lg' = lg_sessions lg \<and>
    steps_frame w w' \<and> dom (lg_orders lg') = dom (lg_orders lg) \<union> set (new_orders sts) \<and>
    dom (lg_booked lg') \<union> waiting (w_steps w') (wait_of (w_backorders w')) =
      dom (lg_booked lg) \<union> waiting (w_steps w) (wait_of (w_backorders w)) \<union> asking sts"
proof -
  define W where "W = wait_of (w_backorders w)"
  obtain pe ag ne w1 w2 w3 where push: "push_steps sts ([], [], []) w = (Ok (pe, ag, ne), w1)"
    and pend: "for_each queue_pending pe w1 = (Ok (), w2)" and again: "for_each (queue_backorder (#)) ag w2 = (Ok (), w3)"
    and new: "for_each (queue_backorder (\<lambda>i q. q @ [i])) ne w3 = (Ok (), w')"
    using run by (auto simp: bnd_Ok_iff)
  have start: "loop_tally w ([], [], []) W (pending_idx w \<union> P) R lg" using t by (simp add: W_def)
  have rd': "ready (length (w_products w)) (length (w_inventory w)) sts (dom (lg_orders lg)) (loop_taken w ([], [], []) W lg)"
    using rd by (simp add: W_def)
  obtain lg' where lg': "tally_of w1 (W @ ag @ ne) (pending_idx w \<union> P \<union> snd ` set pe) R lg'" "lg_sessions lg' = lg_sessions lg"
    "batch_frame w w1" "dom (lg_orders lg') = dom (lg_orders lg) \<union> set (new_orders sts)"
    "dom (lg_booked lg') \<union> waiting (w_steps w1) (W @ ag @ ne) = dom (lg_booked lg) \<union> waiting (w_steps w) W \<union> asking sts"
    using push_steps_tally[OF push start rd'] by auto
  note fr = batch_frameD[OF lg'(3)]
  have idx: "0 \<le> p \<and> p < 2 ^ 31" if "(p, i) \<in> set (ag @ ne)" for p i
    using tallyD(3)[OF lg'(1)] tallyD(9)[OF lg'(1), of p i] that by (auto simp: inv_wf_def)
  obtain m where m: "w2 = w1\<lparr>w_pending_orders := m\<rparr>" "(\<Union>l \<in> ran m. set l) = pending_idx w \<union> snd ` set pe"
    using queue_pending_all[OF pend] fr by (auto simp: pending_idx_def)
  obtain bs1 where bs1: "w3 = w2\<lparr>w_backorders := bs1\<rparr>" "length bs1 = length (w_backorders w2)"
    "mset (wait_of bs1) = mset (wait_of (w_backorders w2)) + mset ag"
    using queue_backorders_all[OF _ again] idx by auto
  obtain bs2 where bs2: "w' = w3\<lparr>w_backorders := bs2\<rparr>" "length bs2 = length (w_backorders w3)"
    "mset (wait_of bs2) = mset (wait_of (w_backorders w3)) + mset ne"
    using queue_backorders_all[OF _ new] idx by auto
  have bo: "w_backorders w2 = w_backorders w" using m fr by simp
  have ms: "mset (W @ ag @ ne) = mset (wait_of (w_backorders w'))" using bs1(3) bs2 bs1(1) by (simp add: W_def bo)
  have "tally_of w1 (wait_of (w_backorders w')) (pending_idx w \<union> P \<union> snd ` set pe) R lg'" by (rule tally_perm[OF lg'(1) ms])
  moreover have "w_steps w' = w_steps w1" "w_inventory w' = w_inventory w1" "w_current_day w' = w_current_day w1" "w_products w' = w_products w1"
    "pending_idx w' = pending_idx w \<union> snd ` set pe"
    using m bs1(1) bs2(1) by (simp_all add: pending_idx_def)
  moreover have "steps_frame w w'"
  proof -
    obtain s k where "w1 = w\<lparr>w_steps := s, w_inventory := k\<rparr>" "length k = length (w_inventory w)" using lg'(3) by (auto simp: batch_frame_def)
    then show ?thesis unfolding steps_frame_def
      using m(1) bs1(1,2) bs2(1,2) by (intro exI[of _ s] exI[of _ k] exI[of _ bs2] exI[of _ m]) simp
  qed
  moreover have "waiting (w_steps w1) (wait_of (w_backorders w')) = waiting (w_steps w1) (W @ ag @ ne)" using waiting_perm[OF ms] ..
  ultimately show ?thesis using lg'(2,4,5) unfolding W_def by (intro exI[of _ lg']) (simp add: Un_ac)
qed

lemmas add_steps_tally = add_steps_from[folded add_steps_def]

end
