(* ===== verification/OrderTurns.thy ===== *)
theory OrderTurns
  imports Tallies
begin

text \<open>
  Orders and stock along the turns of the script writer: what a turn of the main thread or of a task
  leaves of the tally.
\<close>

section \<open>Steps that are written as they are\<close>

definition plain_step :: "step \<Rightarrow> bool" where
  "plain_step st = (case st of AddOrder _ \<Rightarrow> False | UpdateOrder _ \<Rightarrow> False | _ \<Rightarrow> True)"

lemma push_plain:
  assumes "list_all plain_step sts" "push_steps (sts @ rest) acc w = (Ok acc', w')"
  shows "push_steps rest acc (w\<lparr>w_steps := w_steps w @ sts\<rparr>) = (Ok acc', w')"
  using assms
proof (induction sts arbitrary: w)
  case Nil
  then show ?case by simp
next
  case (Cons st sts)
  obtain pe ag ne where acc: "acc = (pe, ag, ne)" by (cases acc) auto
  have "push_steps (sts @ rest) acc (w\<lparr>w_steps := w_steps w @ [st]\<rparr>) = (Ok acc', w')" "length (w_steps w) < 2 ^ 63 - 1"
    using Cons.prems by (auto simp: acc plain_step_def bnd_Ok_iff split: step.splits)
  then show ?case using Cons.IH[of "w\<lparr>w_steps := w_steps w @ [st]\<rparr>"] Cons.prems(1) by auto
qed

lemma add_plain_first:
  assumes "list_all plain_step sts" "add_steps (sts @ rest) w = (Ok (), w')"
  shows "add_steps rest (w\<lparr>w_steps := w_steps w @ sts\<rparr>) = (Ok (), w')"
proof -
  obtain acc w1 where "push_steps (sts @ rest) ([], [], []) w = (Ok acc, w1)"
    and rest: "(case acc of (pend, again, new) \<Rightarrow> bnd (for_each queue_pending pend) (\<lambda>_.
       bnd (for_each (queue_backorder (#)) again) (\<lambda>_. for_each (queue_backorder (\<lambda>i q. q @ [i])) new))) w1 = (Ok (), w')"
    using assms(2) unfolding add_steps_def by (auto simp: bnd_Ok_iff)
  with push_plain[OF assms(1)] have "push_steps rest ([], [], []) (w\<lparr>w_steps := w_steps w @ sts\<rparr>) = (Ok acc, w1)" by auto
  then show ?thesis unfolding add_steps_def using rest by (simp add: split_def)
qed

lemma add_steps_Nil [simp]: "add_steps [] w = (Ok (), w') \<longleftrightarrow> w' = w"
  by (auto simp: add_steps_def)

lemma add_plain: "list_all plain_step sts \<Longrightarrow> add_steps sts w = (Ok (), w') \<Longrightarrow> w' = w\<lparr>w_steps := w_steps w @ sts\<rparr>"
  using add_plain_first[of sts "[]"] by simp

lemma add_plain_step: "plain_step st \<Longrightarrow> add_step st w = (Ok (), w') \<Longrightarrow> w' = w\<lparr>w_steps := w_steps w @ [st]\<rparr>"
  unfolding add_step_def using add_plain[of "[st]"] by simp

text \<open>The sessions of a script; only its own steps for sessions add them.\<close>

definition new_sessions :: "step list \<Rightarrow> int list" where
  "new_sessions sts = concat (map (\<lambda>st. case st of AddSession s \<Rightarrow> [sess_id s] | _ \<Rightarrow> []) sts)"

lemma new_sessions_simps [simp]:
  "new_sessions [] = []"
  "new_sessions (st # sts) = (case st of AddSession s \<Rightarrow> [sess_id s] | _ \<Rightarrow> []) @ new_sessions sts"
  "new_sessions (xs @ ys) = new_sessions xs @ new_sessions ys"
  by (simp_all add: new_sessions_def)

lemma process_order_of_steps: "process_order_of a w = (Ok (a', pp), w') \<Longrightarrow> w_steps w' = w_steps w"
  by (auto simp: process_order_of_def fill_order_def i32_add_def i64_add_def Let_def split: if_splits)

lemma process_order_steps:
  assumes "process_order st w = (Ok (st', pp), w')"
  shows "w_steps w' = w_steps w" "\<not> plain_step st'"
  using assms by (auto simp: process_order_def plain_step_def dest: process_order_of_steps split: step.splits)

lemma push_steps_sessions:
  "push_steps sts acc w = (Ok acc', w') \<Longrightarrow> new_sessions (w_steps w') = new_sessions (w_steps w) @ new_sessions sts"
proof (induction sts arbitrary: acc w)
  case Nil
  then show ?case by simp
next
  case (Cons st sts)
  obtain pe ag ne where acc: "acc = (pe, ag, ne)" by (cases acc) auto
  show ?case
  proof (cases "plain_step st")
    case True
    then have "push_steps sts acc (w\<lparr>w_steps := w_steps w @ [st]\<rparr>) = (Ok acc', w')"
      using Cons.prems by (auto simp: acc plain_step_def bnd_Ok_iff split: step.splits)
    from Cons.IH[OF this] show ?thesis by simp
  next
    case False
    then obtain st' pp w1 where pr: "process_order st w = (Ok (st', pp), w1)"
      and rest: "bnd (push_step st') (\<lambda>step_idx. case pp of
         PostPending day \<Rightarrow> push_steps sts (pe @ [(day, step_idx)], ag, ne)
       | PostBackorderNew product_id \<Rightarrow> push_steps sts (pe, ag, ne @ [(product_id, step_idx)])
       | PostBackorderAgain product_id \<Rightarrow> push_steps sts (pe, ag @ [(product_id, step_idx)], ne)
       | PostShipping order \<Rightarrow> bnd (push_step (UpdateOrder order)) (\<lambda>_. push_steps sts (pe, ag, ne))
       | PostNone \<Rightarrow> push_steps sts (pe, ag, ne)) w1 = (Ok acc', w')"
      using Cons.prems by (auto simp: acc plain_step_def bnd_Ok_iff split: step.splits)
    have none: "new_sessions [st'] = []" "w_steps w1 = w_steps w"
      using process_order_steps[OF pr] by (auto simp: plain_step_def split: step.splits)
    have st: "new_sessions (st # sts) = new_sessions sts" using False by (auto simp: plain_step_def split: step.splits)
    obtain acc1 u where step: "push_steps sts acc1 (w1\<lparr>w_steps := w_steps w1 @ st' # u\<rparr>) = (Ok acc', w')" "new_sessions u = []"
    proof (cases pp)
      case (PostShipping a)
      show ?thesis by (rule that[of _ "[UpdateOrder a]"]) (use rest PostShipping in \<open>auto simp: bnd_Ok_iff\<close>)
    qed (rule that[of _ "[]"]; use rest in \<open>auto simp: bnd_Ok_iff\<close>)+
    from Cons.IH[OF step(1)] show ?thesis using none step(2) st by (simp del: new_sessions_simps(2) add: new_sessions_simps(2)[of st'])
  qed
qed

lemma add_steps_sessions:
  assumes "add_steps sts w = (Ok (), w')"
  shows "new_sessions (w_steps w') = new_sessions (w_steps w) @ new_sessions sts"
proof -
  have pe: "for_each queue_pending pe w1 = (Ok (), w2) \<Longrightarrow> w_steps w2 = w_steps w1" for pe w1 w2
    by (induction pe arbitrary: w1) (auto simp: queue_pending_def split: prod.splits)
  have bo: "for_each (queue_backorder put) bs w1 = (Ok (), w2) \<Longrightarrow> w_steps w2 = w_steps w1" for put bs w1 w2
    by (induction bs arbitrary: w1) (auto simp: queue_backorder_def at_index_def split: prod.splits if_splits)
  show ?thesis
    using assms unfolding add_steps_def by (auto simp: bnd_Ok_iff dest!: push_steps_sessions pe bo)
qed

section \<open>Orders and stock along the turns\<close>

fun job_idx :: "job \<Rightarrow> nat set" where
  "job_idx (Shipping indicies) = set indicies"
| "job_idx _ = {}"

fun job_returns :: "job \<Rightarrow> 128 word set" where
  "job_returns (Planning planned) = (swo_id \<circ> snd) ` set planned"
| "job_returns _ = {}"

text \<open>
  The tally with what the queues and the tasks hold. \<open>order_ok\<close> says besides that no order is
  forgotten: each one is booked or waits for stock.
\<close>

abbreviation known_orders :: "ledger \<Rightarrow> 128 word set" where
  "known_orders lg \<equiv> dom (lg_orders lg)"

definition taken_orders :: "writer \<Rightarrow> ledger \<Rightarrow> 128 word set" where
  "taken_orders w lg = dom (lg_booked lg) \<union> waiting (w_steps w) (wait_of (w_backorders w))"

definition order_pre :: "job list \<Rightarrow> writer \<Rightarrow> ledger \<Rightarrow> bool" where
  "order_pre js w lg \<longleftrightarrow>
     tally_of w (wait_of (w_backorders w)) (pending_idx w \<union> \<Union> (job_idx ` set js)) (return_ids w \<union> \<Union> (job_returns ` set js)) lg \<and>
     length (w_inventory w) = length (w_products w) \<and> (\<forall>i < length (w_products w). prod_id (w_products w ! i) = int i)"

definition order_ok :: "job list \<Rightarrow> writer \<Rightarrow> ledger \<Rightarrow> bool" where
  "order_ok js w lg \<longleftrightarrow> order_pre js w lg \<and> known_orders lg \<subseteq> taken_orders w lg"

lemma order_preD:
  assumes "order_pre js w lg"
  shows "tally_of w (wait_of (w_backorders w)) (pending_idx w \<union> \<Union> (job_idx ` set js)) (return_ids w \<union> \<Union> (job_returns ` set js)) lg"
    "length (w_inventory w) = length (w_products w)" "\<And>i. i < length (w_products w) \<Longrightarrow> prod_id (w_products w ! i) = int i"
    "lg_day lg = w_current_day w" "length (w_products w) < 2 ^ 31"
  using assms tallyD(3,4) unfolding order_pre_def inv_wf_def by auto metis

lemma order_okD:
  assumes "order_ok js w lg"
  shows "tally_of w (wait_of (w_backorders w)) (pending_idx w \<union> \<Union> (job_idx ` set js)) (return_ids w \<union> \<Union> (job_returns ` set js)) lg"
    "length (w_inventory w) = length (w_products w)" "\<And>i. i < length (w_products w) \<Longrightarrow> prod_id (w_products w ! i) = int i"
    "lg_day lg = w_current_day w" "length (w_products w) < 2 ^ 31" "known_orders lg \<subseteq> taken_orders w lg"
proof -
  have pre: "order_pre js w lg" and served: "known_orders lg \<subseteq> taken_orders w lg" using assms unfolding order_ok_def by blast+
  note D = order_preD[OF pre]
  show "tally_of w (wait_of (w_backorders w)) (pending_idx w \<union> \<Union> (job_idx ` set js)) (return_ids w \<union> \<Union> (job_returns ` set js)) lg"
    "length (w_inventory w) = length (w_products w)" "\<And>i. i < length (w_products w) \<Longrightarrow> prod_id (w_products w ! i) = int i"
    "lg_day lg = w_current_day w" "length (w_products w) < 2 ^ 31" "known_orders lg \<subseteq> taken_orders w lg"
    using D served by blast+
qed

abbreviation ready_in :: "writer \<Rightarrow> step list \<Rightarrow> 128 word set \<Rightarrow> 128 word set \<Rightarrow> bool" where
  "ready_in w \<equiv> ready (length (w_products w)) (length (w_inventory w))"

lemma new_orders_asking: "set (new_orders sts) \<subseteq> asking sts"
  by (auto simp: new_orders_def asking_def split: step.splits)

lemma steps_frame_returns: "steps_frame w w' \<Longrightarrow> return_ids w' = return_ids w"
  by (auto simp: steps_frame_def return_ids_def)

lemma add_ready:
  assumes ok: "order_pre js w lg" and run: "add_steps sts w = (Ok (), w')"
    and rd: "ready_in w sts (known_orders lg) (taken_orders w lg)" and served: "known_orders lg \<subseteq> taken_orders w lg \<union> asking sts"
  shows "\<exists>lg'. order_ok js w' lg' \<and> lg_sessions lg' = lg_sessions lg \<and> steps_frame w w' \<and>
    known_orders lg' = known_orders lg \<union> set (new_orders sts) \<and> new_sessions (w_steps w') = new_sessions (w_steps w) @ new_sessions sts"
proof -
  note D = order_preD[OF ok]
  obtain lg' where lg': "tally_of w' (wait_of (w_backorders w')) (pending_idx w' \<union> \<Union> (job_idx ` set js)) (return_ids w \<union> \<Union> (job_returns ` set js)) lg'"
    "lg_sessions lg' = lg_sessions lg" "steps_frame w w'" "known_orders lg' = known_orders lg \<union> set (new_orders sts)"
    "taken_orders w' lg' = taken_orders w lg \<union> asking sts"
    using add_steps_tally[OF run D(1)] rd unfolding taken_orders_def by blast
  have "order_pre js w' lg'"
    using lg'(1) D(2,3) steps_frameD[OF lg'(3)] steps_frame_returns[OF lg'(3)] by (simp add: order_pre_def)
  then have "order_ok js w' lg'" using lg'(4,5) served new_orders_asking[of sts] unfolding order_ok_def by blast
  then show ?thesis using lg' add_steps_sessions[OF run] by blast
qed

lemma add_ready_ok:
  assumes ok: "order_ok js w lg" and run: "add_steps sts w = (Ok (), w')"
    and rd: "ready_in w sts (known_orders lg) (taken_orders w lg)"
  shows "\<exists>lg'. order_ok js w' lg' \<and> lg_sessions lg' = lg_sessions lg \<and> steps_frame w w' \<and>
    known_orders lg' = known_orders lg \<union> set (new_orders sts) \<and> new_sessions (w_steps w') = new_sessions (w_steps w) @ new_sessions sts"
  using ok order_okD(6)[OF ok] by (intro add_ready[OF _ run rd]) (auto simp: order_ok_def)

text \<open>A step that is written as it is, where it leaves orders, stock and products alone.\<close>

lemma order_plain:
  assumes ok: "order_ok js w lg" and eff: "script_effect st lg = Some lg'" and st: "plain_step st"
    and same: "lg_inventory lg' = lg_inventory lg" "lg_orders lg' = lg_orders lg" "lg_booked lg' = lg_booked lg" "lg_products lg' = lg_products lg"
  shows "order_ok js (w\<lparr>w_steps := w_steps w @ [st], w_current_day := lg_day lg'\<rparr>) lg'"
proof -
  note D = order_okD[OF ok]
  have "tally (w_steps w @ [st]) (w_inventory w) (lg_day lg') (length (w_products w)) (wait_of (w_backorders w))
      (pending_idx w \<union> \<Union> (job_idx ` set js)) (return_ids w \<union> \<Union> (job_returns ` set js)) lg'"
  proof (rule tally_other[OF D(1) eff _ same(1-3)])
    show "st \<noteq> AddOrder a" for a using st by (auto simp: plain_step_def)
    show "dom (lg_products lg') = {0..<int (length (w_products w))}" using tallyD(5)[OF D(1)] by (simp only: same(4))
    show "0 \<le> prod_views v \<and> prod_views v \<le> int (length (w_steps w)) + 1" if "lg_products lg' k = Some v" for k v
      using tallyD(6)[OF D(1), of k v] that by (simp add: same(4))
  qed
  then show ?thesis using D(2,3) D(6)[unfolded taken_orders_def] waiting_snoc[OF D(1)] same(2,3) by (simp add: order_ok_def order_pre_def taken_orders_def pending_idx_def return_ids_def)
qed

lemma order_plain_same_day:
  assumes "order_ok js w lg" "script_effect st lg = Some lg'" "plain_step st" "lg_day lg' = lg_day lg"
    "lg_inventory lg' = lg_inventory lg" "lg_orders lg' = lg_orders lg" "lg_booked lg' = lg_booked lg" "lg_products lg' = lg_products lg"
  shows "order_ok js (w\<lparr>w_steps := w_steps w @ [st]\<rparr>) lg'"
  using order_plain[OF assms(1-3,5-8)] assms(4) order_okD(4)[OF assms(1)] by simp

subsection \<open>The stock comes in\<close>

definition ship_ok :: "writer \<Rightarrow> bool" where
  "ship_ok w \<longleftrightarrow> (\<forall>l \<in> ran (w_shipments w). \<forall>s \<in> set l. 0 < sh_batch_size s \<and> 0 \<le> sh_product_id s \<and> sh_product_id s < int (length (w_products w)))"

lemma receive_one:
  assumes t: "tally steps (w_inventory w) day (length (w_products w)) wait P R lg"
    and ids: "length (w_inventory w) = length (w_products w)" "\<And>i. i < length (w_products w) \<Longrightarrow> prod_id (w_products w ! i) = int i"
    and s: "0 < sh_batch_size s" "0 \<le> sh_product_id s" "sh_product_id s < int (length (w_products w))"
    and run: "receive_shipment s w = (Ok (i, st), w')"
  shows "(\<exists>lg'. tally (steps @ [st]) (w_inventory w') day (length (w_products w)) wait P R lg' \<and> lg_sessions lg' = lg_sessions lg \<and>
      lg_orders lg' = lg_orders lg \<and> lg_booked lg' = lg_booked lg) \<and>
    plain_step st \<and> new_sessions [st] = [] \<and> new_orders [st] = [] \<and>
    (\<exists>stk sh. w' = w\<lparr>w_inventory := stk, w_product_shipping := sh\<rparr> \<and> length stk = length (w_inventory w))"
proof -
  note D = tallyD[OF t]
  define k where "k = nat (sh_product_id s)"
  have k: "sh_product_id s = int k" "k < length (w_products w)" using s by (simp_all add: k_def)
  define v where "v = w_inventory w ! k"
  have len: "length (w_products w) < 2 ^ 31" using D(3) ids(1) by (simp add: inv_wf_def)
  have u: "as_usize (int k) = k" using k(2) len by (simp add: as_usize_def)
  define m where "m = inv_stock v + sh_batch_size s"
  obtain sh where m: "m < 2 ^ 63" and st: "st = AddStock \<lparr>shipment_product_id = int k, batch_size = sh_batch_size s\<rparr>"
    and w': "w' = w\<lparr>w_inventory := (w_inventory w)[k := v\<lparr>inv_stock := m\<rparr>], w_product_shipping := sh\<rparr>"
    using run k(2) ids by (auto simp: receive_shipment_def Let_def k(1) u v_def m_def i64_add_def i32_add_def split: if_splits option.splits)
  have wf: "0 \<le> inv_stock v" using D(3) k(2) ids(1) by (simp add: inv_wf_def v_def)
  have at: "lg_inventory lg (int k) = Some v" using D(2) k(2) ids(1) by (simp add: stock_map_def v_def)
  have up: "stock_map ((w_inventory w)[k := v\<lparr>inv_stock := m\<rparr>]) = (stock_map (w_inventory w))(int k \<mapsto> v\<lparr>inv_stock := m\<rparr>)"
    "inv_wf ((w_inventory w)[k := v\<lparr>inv_stock := m\<rparr>])"
    using stock_map_update[OF D(3), of "int k" "v\<lparr>inv_stock := m\<rparr>" m] k(2) ids(1) wf s(1) m by (simp_all add: v_def m_def)
  define lg' where "lg' = lg\<lparr>lg_inventory := (lg_inventory lg)(int k \<mapsto> v\<lparr>inv_stock := m\<rparr>)\<rparr>"
  have eff: "script_effect st lg = Some lg'" using at wf s(1) m by (simp add: st post_stock_def lg'_def m_def)
  have "tally (steps @ [st]) ((w_inventory w)[k := v\<lparr>inv_stock := m\<rparr>]) (lg_day lg') (length (w_products w)) wait P R lg'"
  proof (rule tally_snoc[OF t eff _ up(2), where X = "{}"])
    show "lg_inventory lg' = stock_map ((w_inventory w)[k := v\<lparr>inv_stock := m\<rparr>])" using D(2) up(1) by (simp add: lg'_def)
    show "0 \<le> prod_views u \<and> prod_views u \<le> int (length steps) + 1" if "lg_products lg' j = Some u" for j u
      using D(6)[of j u] that by (simp add: lg'_def)
  qed (use D(5,7) in \<open>simp_all add: lg'_def st\<close>)
  then show ?thesis
    using D(4) by (auto simp: w' lg'_def st plain_step_def new_orders_def intro!: exI[of _ lg'])
qed

lemma receive_all:
  assumes "collect receive_shipment l w = (Ok arrived, w')"
    "tally steps (w_inventory w) day (length (w_products w)) wait P R lg"
    "length (w_inventory w) = length (w_products w)" "\<And>i. i < length (w_products w) \<Longrightarrow> prod_id (w_products w ! i) = int i"
    "\<forall>s \<in> set l. 0 < sh_batch_size s \<and> 0 \<le> sh_product_id s \<and> sh_product_id s < int (length (w_products w))"
  shows "(\<exists>lg'. tally (steps @ map snd arrived) (w_inventory w') day (length (w_products w)) wait P R lg' \<and> lg_sessions lg' = lg_sessions lg \<and>
      lg_orders lg' = lg_orders lg \<and> lg_booked lg' = lg_booked lg) \<and>
    list_all plain_step (map snd arrived) \<and> new_sessions (map snd arrived) = [] \<and> new_orders (map snd arrived) = [] \<and>
    (\<exists>stk sh. w' = w\<lparr>w_inventory := stk, w_product_shipping := sh\<rparr> \<and> length stk = length (w_inventory w))"
  using assms
proof (induction l arbitrary: w arrived steps lg)
  case Nil
  then have eq: "arrived = []" "w' = w" by auto
  show ?case
    using Nil.prems(2) unfolding eq
    by (intro conjI exI[of _ lg] exI[of _ "w_inventory w"] exI[of _ "w_product_shipping w"]) (simp_all add: new_orders_def)
next
  case (Cons s l)
  obtain i st w1 arr where one: "receive_shipment s w = (Ok (i, st), w1)" and rest: "collect receive_shipment l w1 = (Ok arr, w')"
    and arr: "arrived = (i, st) # arr" using Cons.prems(1) by (auto simp: bnd_Ok_iff)
  from receive_one[OF Cons.prems(2-4) _ _ _ one] Cons.prems(5) obtain lg1 stk sh where
    lg1: "tally (steps @ [st]) (w_inventory w1) day (length (w_products w)) wait P R lg1" "lg_sessions lg1 = lg_sessions lg"
      "lg_orders lg1 = lg_orders lg" "lg_booked lg1 = lg_booked lg"
    and st: "plain_step st" "new_sessions [st] = []" "new_orders [st] = []"
    and w1: "w1 = w\<lparr>w_inventory := stk, w_product_shipping := sh\<rparr>" "length stk = length (w_inventory w)" by auto
  have p: "w_products w1 = w_products w" by (simp add: w1)
  have "new_orders (map snd arrived) = new_orders [st] @ new_orders (map snd arr)" by (simp add: arr new_orders_def)
  moreover have "new_sessions (map snd arrived) = new_sessions [st] @ new_sessions (map snd arr)" by (simp add: arr)
  ultimately show ?case
    using Cons.IH[OF rest, of "steps @ [st]" lg1, unfolded p] lg1 st w1 Cons.prems(3-5) by (auto simp: arr)
qed

subsection \<open>Backorders are looked at again\<close>

definition recheck_step :: "step list \<Rightarrow> int \<times> nat \<Rightarrow> step" where
  "recheck_step steps = (\<lambda>(p, i). UpdateOrder ((the (order_at steps i))\<lparr>ord_status := Recheck\<rparr>))"

lemma order_by_idx_Ok [simp]: "order_by_idx i w = (Ok a, w') \<longleftrightarrow> order_at (w_steps w) i = Some a \<and> w' = w"
  by (auto simp: order_by_idx_def order_at_def split: option.splits if_splits)

lemma recheck_queue:
  "recheck_backorders p stock l w = (Ok (sts, rest), w') \<Longrightarrow>
     w' = w \<and> (\<exists>pre. l = pre @ rest \<and> sts = map (\<lambda>i. recheck_step (w_steps w) (int p, i)) pre)"
proof (induction l arbitrary: sts rest)
  case Nil
  then show ?case by simp
next
  case (Cons i l)
  obtain a where a: "order_at (w_steps w) i = Some a"
    and run: "(if ord_product_id a \<noteq> as_i32 (int p) then throw ''Backorder product ID does not match''
     else if ord_quantity a \<le> stock then
       bnd (recheck_backorders p stock l) (\<lambda>(sts, rest). ret (UpdateOrder (a\<lparr>ord_status := Recheck\<rparr>) # sts, rest))
     else ret ([], i # l)) w = (Ok (sts, rest), w')"
    using Cons.prems by (auto simp: bnd_Ok_iff)
  show ?case
  proof (cases "ord_quantity a \<le> stock")
    case True
    then obtain sts1 where "recheck_backorders p stock l w = (Ok (sts1, rest), w')" "sts = UpdateOrder (a\<lparr>ord_status := Recheck\<rparr>) # sts1"
      using run by (auto split: if_splits)
    with Cons.IH[OF this(1)] show ?thesis using a by (auto simp: recheck_step_def intro: exI[of _ "i # _"])
  next
    case False
    then show ?thesis using run by (auto split: if_splits)
  qed
qed

lemma recheck_one:
  assumes run: "recheck_product p w = (Ok sts, w')"
  shows "\<exists>bs popped. w' = w\<lparr>w_backorders := bs\<rparr> \<and> length bs = length (w_backorders w) \<and> sts = map (recheck_step (w_steps w)) popped \<and>
    mset (wait_of (w_backorders w)) = mset popped + mset (wait_of bs)"
proof (cases "length (w_backorders w) \<le> p")
  case True
  then have "sts = []" "w' = w" using run by (auto simp: recheck_product_def)
  then show ?thesis by (intro exI[of _ "w_backorders w"] exI[of _ "[]"]) simp
next
  case False
  then obtain rest w1 where "recheck_backorders p (inv_stock (w_inventory w ! p)) (w_backorders w ! p) w = (Ok (sts, rest), w1)"
    and w': "w' = w1\<lparr>w_backorders := (w_backorders w1)[p := rest]\<rparr>"
    using run by (auto simp: recheck_product_def at_index_def split: if_splits)
  from recheck_queue[OF this(1)] obtain pre where q: "w1 = w" "w_backorders w ! p = pre @ rest"
    "sts = map (\<lambda>i. recheck_step (w_steps w) (int p, i)) pre" by auto
  define bs where "bs = (w_backorders w)[p := rest]"
  have "mset (wait_of bs) + mset (map (Pair (int p)) (pre @ rest)) = mset (wait_of (w_backorders w)) + mset (map (Pair (int p)) rest)"
    using mset_wait_update[of p "w_backorders w" rest] False q(2) by (simp add: bs_def)
  then have "mset (wait_of (w_backorders w)) = mset (map (Pair (int p)) pre) + mset (wait_of bs)"
    by (simp add: add.commute)
  then show ?thesis
    using w' q by (intro exI[of _ bs] exI[of _ "map (Pair (int p)) pre"]) (simp add: bs_def comp_def)
qed

lemma recheck_all:
  "collect recheck_product ps w = (Ok stss, w') \<Longrightarrow>
     \<exists>bs popped. w' = w\<lparr>w_backorders := bs\<rparr> \<and> length bs = length (w_backorders w) \<and> concat stss = map (recheck_step (w_steps w)) popped \<and>
       mset (wait_of (w_backorders w)) = mset popped + mset (wait_of bs)"
proof (induction ps arbitrary: w stss)
  case Nil
  then show ?case by (intro exI[of _ "w_backorders w"] exI[of _ "[]"]) auto
next
  case (Cons p ps)
  obtain sts w1 rest where one: "recheck_product p w = (Ok sts, w1)" and run: "collect recheck_product ps w1 = (Ok rest, w')"
    and stss: "stss = sts # rest" using Cons.prems by (auto simp: bnd_Ok_iff)
  obtain bs1 pop1 where b1: "w1 = w\<lparr>w_backorders := bs1\<rparr>" "length bs1 = length (w_backorders w)" "sts = map (recheck_step (w_steps w)) pop1"
    "mset (wait_of (w_backorders w)) = mset pop1 + mset (wait_of bs1)" using recheck_one[OF one] by blast
  obtain bs pop where "w' = w1\<lparr>w_backorders := bs\<rparr>" "length bs = length bs1" "concat rest = map (recheck_step (w_steps w)) pop"
    "mset (wait_of bs1) = mset pop + mset (wait_of bs)" using Cons.IH[OF run] by (auto simp: b1(1))
  then show ?case using b1 by (intro exI[of _ bs] exI[of _ "pop1 @ pop"]) (simp add: stss)
qed

lemma ready_recheck:
  assumes "\<And>p i. (p, i) \<in> set popped \<Longrightarrow> \<exists>a. order_at steps i = Some a \<and> 0 \<le> ord_product_id a \<and> ord_product_id a < int m \<and> ord_id a \<in> K - X"
    and "distinct (map (\<lambda>(p, i). map_option ord_id (order_at steps i)) popped)"
  shows "ready n m (map (recheck_step steps) popped) K X"
  using assms
proof (induction popped arbitrary: X)
  case Nil
  then show ?case by simp
next
  case (Cons x popped)
  obtain p i where x: "x = (p, i)" by fastforce
  obtain a where a: "order_at steps i = Some a" "0 \<le> ord_product_id a" "ord_product_id a < int m" "ord_id a \<in> K - X"
    using Cons.prems(1)[of p i] by (auto simp: x)
  have "ready n m (map (recheck_step steps) popped) K (insert (ord_id a) X)"
  proof (rule Cons.IH)
    fix q j assume j: "(q, j) \<in> set popped"
    obtain b where b: "order_at steps j = Some b" "0 \<le> ord_product_id b" "ord_product_id b < int m" "ord_id b \<in> K - X"
      using Cons.prems(1)[of q j] j by auto
    have "map_option ord_id (order_at steps i) \<noteq> map_option ord_id (order_at steps j)"
      using Cons.prems(2) j by (force simp: x)
    then show "\<exists>a'. order_at steps j = Some a' \<and> 0 \<le> ord_product_id a' \<and> ord_product_id a' < int m \<and> ord_id a' \<in> K - insert (ord_id a) X"
      using b a(1) by auto
  qed (use Cons.prems(2) in simp)
  then show ?case using a by (simp add: x recheck_step_def)
qed

lemma order_at_append: "i < length steps \<Longrightarrow> order_at (steps @ later) i = order_at steps i"
  by (auto simp: order_at_def nth_append)

lemma waiting_append:
  assumes "tally steps stk day n wait P R lg" "set wait' \<subseteq> set wait"
  shows "waiting (steps @ later) wait' = waiting steps wait'"
proof -
  have "order_at (steps @ later) i = order_at steps i" if "(p, i) \<in> set wait'" for p i
  proof -
    have "(p, i) \<in> set wait" using that assms(2) by blast
    then obtain a where "order_at steps i = Some a" using tallyD(9)[OF assms(1)] by blast
    then show ?thesis using order_at_append order_at_bound by metis
  qed
  then show ?thesis unfolding waiting_def by metis
qed

text \<open>Orders that leave the front of the queues are known, and neither booked nor waiting any more.\<close>

lemma popped_ready:
  assumes t: "tally steps stk day n wait P R lg" and q: "mset wait = mset (popped @ rest)"
  shows "ready n (length stk) (map (recheck_step steps) popped) (known_orders lg) (dom (lg_booked lg) \<union> waiting steps rest)"
proof -
  have t': "tally steps stk day n (popped @ rest) P R lg" by (rule tally_perm[OF t q])
  note D = tallyD[OF t']
  let ?f = "\<lambda>(p, i). map_option ord_id (order_at steps i)"
  have dist: "distinct (map ?f popped)" "?f ` set popped \<inter> ?f ` set rest = {}" using D(10) by simp_all
  show ?thesis
  proof (rule ready_recheck[OF _ dist(1)])
    fix p i assume x: "(p, i) \<in> set popped"
    then obtain a where a: "order_at steps i = Some a" "ord_product_id a = p" "0 \<le> p" "p < int (length stk)"
      "ord_id a \<in> known_orders lg - dom (lg_booked lg)" using D(9)[of p i] by auto
    have "ord_id a \<notin> waiting steps rest"
    proof
      assume "ord_id a \<in> waiting steps rest"
      then obtain q j b where b: "(q, j) \<in> set rest" "order_at steps j = Some b" "ord_id b = ord_id a" by (auto simp: waiting_def)
      have "?f (p, i) = ?f (q, j)" using a(1) b(2,3) by simp
      then show False using dist(2) x b(1) by blast
    qed
    then show "\<exists>a. order_at steps i = Some a \<and> 0 \<le> ord_product_id a \<and> ord_product_id a < int (length stk) \<and>
        ord_id a \<in> known_orders lg - (dom (lg_booked lg) \<union> waiting steps rest)"
      using a by auto
  qed
qed

lemma new_orders_append [simp]: "new_orders (xs @ ys) = new_orders xs @ new_orders ys"
  by (simp add: new_orders_def)

lemma recheck_no_sessions: "new_sessions (map (recheck_step steps) popped) = []"
  by (induction popped) (auto simp: recheck_step_def)

text \<open>What \<open>replenish_inventory\<close> leaves alone.\<close>

definition replenish_frame :: "writer \<Rightarrow> writer \<Rightarrow> bool" where
  "replenish_frame w w' \<longleftrightarrow> (\<exists>sh ps. steps_frame (w\<lparr>w_shipments := sh, w_product_shipping := ps\<rparr>) w' \<and> ran sh \<subseteq> ran (w_shipments w))"

lemma replenish_order:
  assumes ok: "order_ok js w lg" and ship: "ship_ok w" and run: "replenish_inventory w = (Ok (), w')"
  shows "\<exists>lg'. order_ok js w' lg' \<and> lg_sessions lg' = lg_sessions lg \<and> replenish_frame w w' \<and>
    new_sessions (w_steps w') = new_sessions (w_steps w)"
proof (cases "w_shipments w (w_current_day w)")
  case None
  then have "w' = w" using run by (simp add: replenish_inventory_def)
  moreover have "replenish_frame w w" unfolding replenish_frame_def steps_frame_def
    by (intro exI[of _ "w_shipments w"] exI[of _ "w_product_shipping w"] conjI exI[of _ "w_steps w"] exI[of _ "w_inventory w"]
      exI[of _ "w_backorders w"] exI[of _ "w_pending_orders w"]) simp_all
  ultimately show ?thesis using ok by blast
next
  case (Some l)
  note D = order_okD[OF ok]
  let ?sh = "(w_shipments w)(w_current_day w := None)"
  let ?w = "w\<lparr>w_shipments := ?sh\<rparr>"
  obtain arrived w1 stss w2 where arr: "collect receive_shipment l ?w = (Ok arrived, w1)"
    and re: "collect recheck_product (filter (\<lambda>i. i \<in> set (map fst arrived)) [0..<as_usize (w_product_count w)]) w1 = (Ok stss, w2)"
    and add: "add_steps (map snd arrived @ concat stss) w2 = (Ok (), w')"
    using run Some by (auto simp: replenish_inventory_def bnd_Ok_iff)
  define adds where "adds = map snd arrived"
  have l: "\<forall>s \<in> set l. 0 < sh_batch_size s \<and> 0 \<le> sh_product_id s \<and> sh_product_id s < int (length (w_products ?w))"
    using ship Some by (auto simp: ship_ok_def ran_def)
  define W where "W = wait_of (w_backorders w)"
  define P where "P = pending_idx w \<union> \<Union> (job_idx ` set js)"
  define R where "R = return_ids w \<union> \<Union> (job_returns ` set js)"
  have t: "tally_of w W P R lg" using D(1) by (simp add: W_def P_def R_def)
  obtain lg1 stk ps where lg1: "tally (w_steps w @ adds) (w_inventory w1) (w_current_day w) (length (w_products w)) W P R lg1"
      "lg_sessions lg1 = lg_sessions lg" "lg_orders lg1 = lg_orders lg" "lg_booked lg1 = lg_booked lg"
    and adds: "list_all plain_step adds" "new_sessions adds = []" "new_orders adds = []"
    and w1: "w1 = ?w\<lparr>w_inventory := stk, w_product_shipping := ps\<rparr>" "length stk = length (w_inventory w)"
    using receive_all[OF arr, of "w_steps w" "w_current_day w" W P R lg] t l D(2,3) by (auto simp: adds_def)
  obtain bs popped where w2: "w2 = w1\<lparr>w_backorders := bs\<rparr>" "length bs = length (w_backorders w1)"
    "concat stss = map (recheck_step (w_steps w)) popped" "mset (wait_of (w_backorders w1)) = mset popped + mset (wait_of bs)"
    using recheck_all[OF re] by (auto simp: w1(1))
  define w3 where "w3 = w2\<lparr>w_steps := w_steps w2 @ adds\<rparr>"
  have run3: "add_steps (map (recheck_step (w_steps w)) popped) w3 = (Ok (), w')"
    using add_plain_first[OF adds(1), of "concat stss" w2] add by (simp add: adds_def[symmetric] w2(3) w3_def)
  have q: "mset W = mset (popped @ wait_of bs)" using w2(4) by (simp add: w1(1) W_def)
  have set: "set (wait_of bs) \<subseteq> set W" using arg_cong[OF q, of set_mset] by simp
  have "tally (w_steps w @ adds) stk (w_current_day w) (length (w_products w)) (popped @ wait_of bs) P R lg1"
    using tally_perm[OF lg1(1) q] by (simp add: w1(1))
  then have "tally (w_steps w @ adds) stk (w_current_day w) (length (w_products w)) (wait_of bs @ popped) P R lg1"
    by (rule tally_perm) simp
  from tally_fewer[OF this] have t3: "order_pre js w3 lg1"
    using D(2,3) w1(2) by (simp add: order_pre_def w3_def w2(1) w1(1) P_def R_def pending_idx_def return_ids_def)
  have "ready (length (w_products w)) (length (w_inventory w)) (map (recheck_step (w_steps w)) popped) (known_orders lg)
      (dom (lg_booked lg) \<union> waiting (w_steps w) (wait_of bs))" by (rule popped_ready[OF t q])
  then have rd: "ready_in w3 (map (recheck_step (w_steps w)) popped) (known_orders lg1) (taken_orders w3 lg1)"
    using waiting_append[OF t set, of adds] lg1(3,4) w1(2) by (simp add: w3_def w2(1) w1(1) taken_orders_def)
  have "ord_id a \<in> waiting (w_steps w) (wait_of bs) \<union> asking (map (recheck_step (w_steps w)) popped)"
    if "(p, i) \<in> set W" "order_at (w_steps w) i = Some a" for p i a
  proof -
    have "(p, i) \<in> set popped \<or> (p, i) \<in> set (wait_of bs)" using that(1) arg_cong[OF q, of set_mset] by simp
    then show ?thesis
    proof
      assume "(p, i) \<in> set popped"
      then have "UpdateOrder (a\<lparr>ord_status := Recheck\<rparr>) \<in> set (map (recheck_step (w_steps w)) popped)"
        using that(2) by (force simp: recheck_step_def)
      then show ?thesis unfolding asking_def by (intro UnI2 CollectI exI[of _ "a\<lparr>ord_status := Recheck\<rparr>"]) simp
    qed (use that(2) in \<open>auto simp: waiting_def\<close>)
  qed
  then have "waiting (w_steps w) W \<subseteq> waiting (w_steps w) (wait_of bs) \<union> asking (map (recheck_step (w_steps w)) popped)"
    unfolding waiting_def[of _ W] by blast
  then have served: "known_orders lg1 \<subseteq> taken_orders w3 lg1 \<union> asking (map (recheck_step (w_steps w)) popped)"
    using D(6) waiting_append[OF t set, of adds] lg1(3,4) by (auto simp: taken_orders_def W_def w3_def w2(1) w1(1))
  obtain lg' where lg': "order_ok js w' lg'" "lg_sessions lg' = lg_sessions lg1" "steps_frame w3 w'"
    "new_sessions (w_steps w') = new_sessions (w_steps w3)"
    using add_ready[OF t3 run3 rd served] by (auto simp: recheck_no_sessions)
  have "steps_frame (w\<lparr>w_shipments := ?sh, w_product_shipping := ps\<rparr>) w'"
    using lg'(3) w1(2) w2(2) unfolding steps_frame_def w3_def w2(1) w1(1) by (elim exE) (intro exI, auto)
  then have "replenish_frame w w'" unfolding replenish_frame_def by (intro exI[of _ ?sh] exI[of _ ps]) (auto simp: ran_def)
  moreover have "new_sessions (w_steps w') = new_sessions (w_steps w)" using lg'(4) adds(2) by (simp add: w3_def w2(1) w1(1))
  ultimately show ?thesis using lg'(1,2) lg1(2) by (intro exI[of _ lg']) simp
qed

subsection \<open>The tasks\<close>

lemma tally_returns: "tally steps stk day n wait P R lg \<Longrightarrow> P' \<subseteq> P \<Longrightarrow> R' \<subseteq> known_orders lg \<Longrightarrow> tally steps stk day n wait P' R' lg"
  unfolding tally_def by blast

lemma order_ok_jobs:
  assumes "order_ok js w lg" "\<Union> (job_idx ` set js') \<subseteq> \<Union> (job_idx ` set js)"
    "\<Union> (job_returns ` set js') \<subseteq> \<Union> (job_returns ` set js) \<union> known_orders lg"
  shows "order_ok js' w lg"
proof -
  note D = order_okD[OF assms(1)]
  have "return_ids w \<union> \<Union> (job_returns ` set js') \<subseteq> known_orders lg" using assms(3) tallyD(12)[OF D(1)] by blast
  moreover have "pending_idx w \<union> \<Union> (job_idx ` set js') \<subseteq> pending_idx w \<union> \<Union> (job_idx ` set js)" using assms(2) by blast
  ultimately have "tally_of w (wait_of (w_backorders w)) (pending_idx w \<union> \<Union> (job_idx ` set js')) (return_ids w \<union> \<Union> (job_returns ` set js')) lg"
    by (intro tally_returns[OF D(1)])
  then show ?thesis using D(2,3) D(6)[unfolded taken_orders_def] by (simp add: order_ok_def order_pre_def taken_orders_def)
qed

definition purchase_step :: "int set \<Rightarrow> step \<Rightarrow> bool" where
  "purchase_step ks st \<longleftrightarrow> (\<exists>k \<in> ks. st = ViewProduct k) \<or> (\<exists>a. st = AddOrder a \<and> ord_status a = New \<and> ord_product_id a \<in> ks)"

lemma purchase_step_mono: "purchase_step ks st \<Longrightarrow> ks \<subseteq> ks' \<Longrightarrow> purchase_step ks' st"
  unfolding purchase_step_def by blast

lemma buy_products_Ok:
  "buy_products c its w = (Ok (sts, plan), w') \<Longrightarrow>
     w' = w \<and> (\<forall>st \<in> set sts. purchase_step (fst ` set its) st) \<and> (swo_id \<circ> snd) ` set plan \<subseteq> set (new_orders sts) \<and> new_sessions sts = []"
proof (induction its arbitrary: sts plan)
  case Nil
  then show ?case by simp
next
  case (Cons x its)
  obtain k it where x: "x = (k, it)" by fastforce
  have mono: "purchase_step (fst ` set its) st \<Longrightarrow> purchase_step (fst ` set (x # its)) st" for st
    by (auto simp: purchase_step_def)
  define views where "views = (if it_viewed it then [ViewProduct k] else [])"
  have views: "\<forall>st \<in> set views. purchase_step (fst ` set (x # its)) st" "new_orders views = []" "new_sessions views = []"
    by (auto simp: views_def purchase_step_def x new_orders_def)
  define a where "a = \<lparr>swo_id = it_order_id it, swo_customer_id = c, swo_product_id = k, swo_quantity = it_quantity it, swo_status = New\<rparr>"
  have a: "purchase_step (fst ` set (x # its)) (AddOrder (order_from a))" "ord_id (order_from a) = swo_id a"
    by (auto simp: purchase_step_def a_def order_from_def x)
  show ?case
  proof (cases "it_quantity it = 0")
    case True
    then obtain sts1 where "buy_products c its w = (Ok (sts1, plan), w')" "sts = views @ sts1"
      using Cons.prems by (auto simp: x views_def)
    with Cons.IH[OF this(1)] views mono show ?thesis by auto
  next
    case False
    define plans :: "(int \<times> sw_order) list writes" where "plans = (case it_return it of
       None \<Rightarrow> ret []
     | Some n \<Rightarrow> bnd (gets (\<lambda>w. w)) (\<lambda>w. bnd (i32_add n 1) (\<lambda>m. bnd (i32_add m (w_current_day w)) (\<lambda>on_day.
         ret (if on_day < w_period w then [(on_day, a)] else [])))))"
    have plans: "plans w = (Ok p, u) \<Longrightarrow> u = w \<and> (swo_id \<circ> snd) ` set p \<subseteq> {swo_id a}" for p u
      by (auto simp: plans_def i32_add_def split: option.splits if_splits)
    have eqn: "buy_products c (x # its) w = bnd plans (\<lambda>planned. bnd (buy_products c its) (\<lambda>(sts, plan).
        ret (views @ AddOrder (order_from a) # sts, planned @ plan))) w"
      using False unfolding x buy_products.simps plans_def a_def views_def Let_def by simp
    obtain p1 w1 sts1 plan1 where one: "plans w = (Ok p1, w1)" and rest: "buy_products c its w1 = (Ok (sts1, plan1), w')"
      and eq: "sts = views @ AddOrder (order_from a) # sts1" "plan = p1 @ plan1"
      using Cons.prems unfolding eqn by (auto simp: bnd_Ok_iff)
    have "w1 = w" "(swo_id \<circ> snd) ` set p1 \<subseteq> {swo_id a}" using plans[OF one] by blast+
    then show ?thesis using Cons.IH[of sts1 plan1] rest views mono a by (auto simp: eq new_orders_def)
  qed
qed

lemma buy_all_Ok:
  "buy_all vs w = (Ok (sts, plan), w') \<Longrightarrow> (\<And>v. v \<in> set (w_products w) \<Longrightarrow> prod_id v \<in> ks) \<Longrightarrow>
     w' = w \<and> (\<forall>st \<in> set sts. purchase_step ks st) \<and> (swo_id \<circ> snd) ` set plan \<subseteq> set (new_orders sts) \<and> new_sessions sts = []"
proof (induction vs arbitrary: sts plan)
  case Nil
  then show ?case by simp
next
  case (Cons x vs)
  obtain c v where x: "x = (c, v)" by fastforce
  show ?case
  proof (cases "vi_purchases v = Some 0")
    case True
    then show ?thesis using Cons.prems(1) Cons.IH[OF _ Cons.prems(2)] by (simp add: x)
  next
    case False
    then obtain s1 p1 w1 s2 p2 where one: "buy_products c (zip (map prod_id (w_products w)) (vi_items v)) w = (Ok (s1, p1), w1)"
      and rest: "buy_all vs w1 = (Ok (s2, p2), w')" and eq: "sts = s1 @ s2" "plan = p1 @ p2"
      using Cons.prems(1) by (auto simp: x)
    have "fst ` set (zip (map prod_id (w_products w)) (vi_items v)) \<subseteq> ks"
      using Cons.prems(2) by (auto dest!: set_zip_leftD)
    with buy_products_Ok[OF one] have "w1 = w" "\<forall>st \<in> set s1. purchase_step ks st" "(swo_id \<circ> snd) ` set p1 \<subseteq> set (new_orders s1)" "new_sessions s1 = []"
      by (auto intro: purchase_step_mono)
    then show ?thesis using Cons.IH[of s2 p2, OF _ Cons.prems(2)] rest by (auto simp: eq)
  qed
qed

lemma ready_purchases:
  assumes "\<forall>st \<in> set sts. purchase_step {0..<int n} st" "distinct (new_orders sts)" "set (new_orders sts) \<inter> K = {}"
  shows "ready n n sts K X"
  using assms
proof (induction sts arbitrary: K X)
  case Nil
  then show ?case by simp
next
  case (Cons st sts K X)
  from Cons.prems(1) consider k where "st = ViewProduct k" "0 \<le> k" "k < int n"
    | a where "st = AddOrder a" "ord_status a = New" "0 \<le> ord_product_id a" "ord_product_id a < int n"
    by (auto simp: purchase_step_def)
  then show ?case
  proof cases
    case (1 k)
    then show ?thesis using Cons by (simp add: new_orders_def)
  next
    case (2 a)
    have no: "new_orders (st # sts) = ord_id a # new_orders sts" by (simp add: 2(1) new_orders_def)
    have "ready n n sts (insert (ord_id a) K) (insert (ord_id a) X)"
      by (rule Cons.IH) (use Cons.prems no in auto)
    then show ?thesis using 2(2-4) Cons.prems(3) no unfolding 2(1) by simp
  qed
qed

text \<open>What the jobs for orders leave alone.\<close>

definition job_frame :: "writer \<Rightarrow> writer \<Rightarrow> bool" where
  "job_frame w w' \<longleftrightarrow> (\<exists>rs. steps_frame (w\<lparr>w_returns := rs\<rparr>) w')"

lemma steps_frame_job: "steps_frame w w' \<Longrightarrow> job_frame w w'"
  unfolding job_frame_def by (intro exI[of _ "w_returns w"]) simp

lemma buying_order:
  assumes ok: "order_ok (xs @ Buying vs # ys) w lg" and fair: "fair_job (Buying vs) w" and run: "run_job (Buying vs) w = (Ok new, w')"
  shows "\<exists>lg'. order_ok (xs @ new @ ys) w' lg' \<and> lg_sessions lg' = lg_sessions lg \<and> job_frame w w' \<and>
    new_sessions (w_steps w') = new_sessions (w_steps w) \<and> (\<exists>plan. new = [Planning plan])"
proof -
  note D = order_okD[OF ok]
  obtain sts plan w1 where buy: "buy_all vs w = (Ok (sts, plan), w1)" and add: "add_steps sts w1 = (Ok (), w')" and new: "new = [Planning plan]"
    using run by (auto simp: bnd_Ok_iff)
  have ids: "prod_id v \<in> {0..<int (length (w_products w))}" if "v \<in> set (w_products w)" for v
    using that D(3) by (auto simp: in_set_conv_nth)
  from buy_all_Ok[OF buy ids] have b: "w1 = w" "\<forall>st \<in> set sts. purchase_step {0..<int (length (w_products w))} st"
    "(swo_id \<circ> snd) ` set plan \<subseteq> set (new_orders sts)" "new_sessions sts = []" by auto
  have fresh: "distinct (new_orders sts)" "set (new_orders sts) \<inter> known_orders lg = {}"
    using fair buy tallyD(7)[OF D(1)] by (auto simp: fresh_orders_def)
  have "ready_in w sts (known_orders lg) (taken_orders w lg)" using ready_purchases[OF b(2) fresh] D(2) by simp
  from add_ready_ok[OF ok add[unfolded b(1)] this] obtain lg' where lg': "order_ok (xs @ Buying vs # ys) w' lg'" "lg_sessions lg' = lg_sessions lg"
    "steps_frame w w'" "known_orders lg \<union> set (new_orders sts) \<subseteq> known_orders lg'" "new_sessions (w_steps w') = new_sessions (w_steps w)"
    using b(4) by auto
  have "order_ok (xs @ new @ ys) w' lg'" by (rule order_ok_jobs[OF lg'(1)]) (use lg'(4) b(3) in \<open>auto simp: new\<close>)
  then show ?thesis using lg'(2,3,5) new steps_frame_job by blast
qed

lemma fold_push_entry:
  "(\<Union>l \<in> ran (fold (\<lambda>(day, x). push_entry day x) plan m). set l) = (\<Union>l \<in> ran m. set l) \<union> snd ` set plan"
proof (induction plan arbitrary: m)
  case Nil
  then show ?case by simp
next
  case (Cons x plan)
  obtain d a where x: "x = (d, a)" by fastforce
  show ?case using Cons.IH[of "push_entry d a m"] ran_push_entry[of d a m] by (simp add: x Un_commute)
qed

lemma planning_order:
  assumes ok: "order_ok (xs @ Planning plan # ys) w lg" and run: "run_job (Planning plan) w = (Ok new, w')"
  shows "order_ok (xs @ new @ ys) w' lg \<and> new = [] \<and> (\<exists>rs. w' = w\<lparr>w_returns := rs\<rparr>)"
proof -
  note D = order_okD[OF ok]
  have eq: "new = []" "w' = w\<lparr>w_returns := fold (\<lambda>(day, order). push_entry day order) plan (w_returns w)\<rparr>" using run by auto
  have "return_ids w' = swo_id ` (\<Union>l \<in> ran (w_returns w'). set l)" by (auto simp: return_ids_def)
  also have "\<dots> = return_ids w \<union> (swo_id \<circ> snd) ` set plan" unfolding eq by (auto simp: fold_push_entry return_ids_def)
  finally have "return_ids w' \<union> \<Union> (job_returns ` set (xs @ new @ ys)) = return_ids w \<union> \<Union> (job_returns ` set (xs @ Planning plan # ys))"
    by (auto simp: eq(1))
  moreover have "\<Union> (job_idx ` set (xs @ new @ ys)) = \<Union> (job_idx ` set (xs @ Planning plan # ys))" by (simp add: eq(1))
  ultimately have "order_ok (xs @ new @ ys) w' lg" using ok unfolding order_ok_def order_pre_def taken_orders_def by (simp only:) (simp add: eq(2) pending_idx_def)
  then show ?thesis using eq by blast
qed

lemma ready_settled:
  "(\<And>st. st \<in> set sts \<Longrightarrow> \<exists>a. st = UpdateOrder a \<and> (ord_status a = Shipped \<or> ord_status a = Refunded) \<and> ord_id a \<in> K) \<Longrightarrow>
     ready n m sts K X \<and> new_sessions sts = [] \<and> new_orders sts = []"
proof (induction sts)
  case Nil
  then show ?case by (simp add: new_orders_def)
next
  case (Cons st sts)
  obtain a where "st = UpdateOrder a" "ord_status a = Shipped \<or> ord_status a = Refunded" "ord_id a \<in> K" using Cons.prems[of st] by auto
  moreover have "ready n m sts K X \<and> new_sessions sts = [] \<and> new_orders sts = []" by (rule Cons.IH) (use Cons.prems in auto)
  ultimately show ?case by (auto simp: new_orders_def)
qed

lemma settled_batch:
  assumes ok: "order_ok js w lg" and run: "add_steps sts w = (Ok (), w')"
    and st: "\<And>st. st \<in> set sts \<Longrightarrow> \<exists>a. st = UpdateOrder a \<and> (ord_status a = Shipped \<or> ord_status a = Refunded) \<and> ord_id a \<in> known_orders lg"
  shows "\<exists>lg'. order_ok js w' lg' \<and> lg_sessions lg' = lg_sessions lg \<and> steps_frame w w' \<and> new_sessions (w_steps w') = new_sessions (w_steps w)"
proof -
  have r: "ready_in w sts (known_orders lg) (taken_orders w lg) \<and> new_sessions sts = [] \<and> new_orders sts = []" by (rule ready_settled[OF st])
  with add_ready_ok[OF ok run] show ?thesis by auto
qed

lemma returning_order:
  assumes ok: "order_ok (xs @ Returning # ys) w lg" and run: "run_job Returning w = (Ok new, w')"
  shows "\<exists>lg'. order_ok (xs @ new @ ys) w' lg' \<and> lg_sessions lg' = lg_sessions lg \<and> job_frame w w' \<and>
    new_sessions (w_steps w') = new_sessions (w_steps w) \<and> new = []"
proof -
  note D = order_okD[OF ok]
  have new: "new = []" and run: "task_returns w = (Ok (), w')" using run by auto
  have ok: "order_ok (xs @ ys) w lg" by (rule order_ok_jobs[OF ok]) auto
  show ?thesis
  proof (cases "w_returns w (w_current_day w)")
    case None
    then have "w' = w" using run by (simp add: task_returns_def)
    moreover have "job_frame w w" unfolding job_frame_def steps_frame_def
      by (intro exI[of _ "w_returns w"] conjI exI[of _ "w_steps w"] exI[of _ "w_inventory w"] exI[of _ "w_backorders w"]
        exI[of _ "w_pending_orders w"]) simp_all
    ultimately show ?thesis using ok new by auto
  next
    case (Some todays)
    define w1 where "w1 = w\<lparr>w_returns := (w_returns w)(w_current_day w := None)\<rparr>"
    define sts where "sts = map (\<lambda>order. UpdateOrder (order_from (order\<lparr>swo_status := Refunded\<rparr>))) todays"
    have add: "add_steps sts w1 = (Ok (), w')" using run Some by (simp add: task_returns_def w1_def sts_def)
    have "return_ids w1 \<subseteq> return_ids w" by (auto simp: w1_def return_ids_def ran_def split: if_splits)
    then have "tally_of w1 (wait_of (w_backorders w1)) (pending_idx w1 \<union> \<Union> (job_idx ` set (xs @ ys))) (return_ids w1 \<union> \<Union> (job_returns ` set (xs @ ys))) lg"
      using tally_mono[OF order_okD(1)[OF ok] subset_refl, of "return_ids w1 \<union> \<Union> (job_returns ` set (xs @ ys))"]
      by (auto simp: w1_def pending_idx_def)
    then have ok1: "order_ok (xs @ ys) w1 lg" using D(2,3) D(6)[unfolded taken_orders_def] by (simp add: order_ok_def order_pre_def taken_orders_def w1_def)
    have "swo_id a \<in> known_orders lg" if "a \<in> set todays" for a
      using that Some tallyD(12)[OF D(1)] by (auto simp: return_ids_def ran_def)
    then have st: "\<exists>a. st = UpdateOrder a \<and> (ord_status a = Shipped \<or> ord_status a = Refunded) \<and> ord_id a \<in> known_orders lg" if "st \<in> set sts" for st
      using that by (auto simp: sts_def order_from_def)
    from settled_batch[OF ok1 add st] obtain lg' where "order_ok (xs @ ys) w' lg'" "lg_sessions lg' = lg_sessions lg" "steps_frame w1 w'"
      "new_sessions (w_steps w') = new_sessions (w_steps w)" by (auto simp: w1_def)
    then show ?thesis using new unfolding job_frame_def w1_def by auto
  qed
qed

lemma collect_shipped:
  "collect (\<lambda>i. bnd (order_by_idx i) (\<lambda>order. ret (UpdateOrder (order\<lparr>ord_status := Shipped\<rparr>)))) l w = (Ok sts, w') \<Longrightarrow>
     w' = w \<and> (\<forall>st \<in> set sts. \<exists>i \<in> set l. \<exists>a. order_at (w_steps w) i = Some a \<and> st = UpdateOrder (a\<lparr>ord_status := Shipped\<rparr>))"
  by (induction l arbitrary: sts) (fastforce simp: bnd_Ok_iff)+

lemma shipping_order:
  assumes ok: "order_ok (xs @ Shipping l # ys) w lg" and run: "run_job (Shipping l) w = (Ok new, w')"
  shows "\<exists>lg'. order_ok (xs @ new @ ys) w' lg' \<and> lg_sessions lg' = lg_sessions lg \<and> job_frame w w' \<and>
    new_sessions (w_steps w') = new_sessions (w_steps w) \<and> new = []"
proof -
  note D = order_okD[OF ok]
  obtain sts w1 where sts: "collect (\<lambda>i. bnd (order_by_idx i) (\<lambda>order. ret (UpdateOrder (order\<lparr>ord_status := Shipped\<rparr>)))) l w = (Ok sts, w1)"
    and add: "add_steps sts w1 = (Ok (), w')" and new: "new = []"
    using run by (auto simp: task_pending_def bnd_Ok_iff)
  note sh = collect_shipped[OF sts]
  have st: "\<exists>a. st = UpdateOrder a \<and> (ord_status a = Shipped \<or> ord_status a = Refunded) \<and> ord_id a \<in> known_orders lg" if mem: "st \<in> set sts" for st
  proof -
    obtain i a where i: "i \<in> set l" "order_at (w_steps w) i = Some a" "st = UpdateOrder (a\<lparr>ord_status := Shipped\<rparr>)" using bspec[OF conjunct2[OF sh] mem] by blast
    have "ord_id a \<in> known_orders lg" using tallyD(11)[OF D(1), of i] i(1,2) by auto
    then show ?thesis using i(3) by simp
  qed
  have ok': "order_ok (xs @ ys) w lg" by (rule order_ok_jobs[OF ok]) auto
  have w1: "w1 = w" using sh by blast
  from settled_batch[OF ok' add[unfolded w1] st] show ?thesis using new steps_frame_job by auto
qed

subsection \<open>The main thread\<close>

lemma concat_chunks: "n \<noteq> 0 \<Longrightarrow> concat (chunks n xs) = xs"
proof (induction n xs rule: chunks.induct)
  case (1 n xs)
  then show ?case by (subst chunks.simps) simp
qed

lemma fulfill_order:
  assumes ok: "order_ok js w lg" and run: "fulfill_pending w = (Ok parts, w')"
  shows "order_ok (js @ map Shipping parts) w' lg \<and> (\<exists>m. w' = w\<lparr>w_pending_orders := m\<rparr>)"
proof (cases "w_pending_orders w (w_current_day w)")
  case None
  then have "parts = []" "w' = w" using run by (auto simp: fulfill_pending_def)
  then show ?thesis using ok by (auto intro: exI[of _ "w_pending_orders w"])
next
  case (Some l)
  note D = order_okD[OF ok]
  obtain n where n: "n \<noteq> 0" "parts = chunks n l" and w': "w' = w\<lparr>w_pending_orders := (w_pending_orders w)(w_current_day w := None)\<rparr>"
    using run Some by (auto simp: fulfill_pending_def chunked_def Let_def split: if_splits)
  have "(\<Union>p \<in> set parts. set p) = set l" using concat_chunks[OF n(1), of l] n(2) by (metis set_concat)
  then have idx: "\<Union> (job_idx ` set (map Shipping parts)) = set l" by simp
  have ret: "\<Union> (job_returns ` set (map Shipping parts)) = {}" by simp
  have sub: "pending_idx w' \<union> \<Union> (job_idx ` set (js @ map Shipping parts)) \<subseteq> pending_idx w \<union> \<Union> (job_idx ` set js)"
    using Some idx by (auto simp: w' pending_idx_def ran_def split: if_splits)
  have "tally_of w' (wait_of (w_backorders w')) (pending_idx w' \<union> \<Union> (job_idx ` set (js @ map Shipping parts)))
      (return_ids w' \<union> \<Union> (job_returns ` set (js @ map Shipping parts))) lg"
    using tally_mono[OF D(1) sub subset_refl] ret by (simp add: w' return_ids_def)
  then show ?thesis using D(2,3) D(6)[unfolded taken_orders_def] w' by (auto simp: order_ok_def order_pre_def taken_orders_def)
qed

text \<open>What the orders for shipments leave alone.\<close>

definition ship_frame :: "writer \<Rightarrow> writer \<Rightarrow> bool" where
  "ship_frame w w' \<longleftrightarrow> (\<exists>n sh ps. w' = w\<lparr>w_total_backordered := n, w_shipments := sh, w_product_shipping := ps\<rparr>)"

lemma ship_frame_refl: "ship_frame w w"
  unfolding ship_frame_def by (intro exI[of _ "w_total_backordered w"] exI[of _ "w_shipments w"] exI[of _ "w_product_shipping w"]) simp

lemma ship_frame_shipping: "ship_frame w (w\<lparr>w_total_backordered := n, w_product_shipping := ps\<rparr>)"
  unfolding ship_frame_def by (intro exI[of _ n] exI[of _ "w_shipments w"] exI[of _ ps]) simp

lemma ship_frame_ordered: "ship_frame w (w\<lparr>w_total_backordered := n, w_product_shipping := ps, w_shipments := sh\<rparr>)"
  unfolding ship_frame_def by (intro exI[of _ n] exI[of _ sh] exI[of _ ps]) simp

lemma ship_frame_trans: "ship_frame w w1 \<Longrightarrow> ship_frame w1 w2 \<Longrightarrow> ship_frame w w2"
  unfolding ship_frame_def by (elim exE) (simp, blast)

lemma shipment_size_state: "shipment_size b k e s w = (r, w') \<Longrightarrow> w' = w"
  by (auto simp: shipment_size_def i32_add_def Let_def split: if_splits)

lemma i32_add_Ok: "i32_add a b w = (Ok n, w') \<longleftrightarrow> - (2 ^ 31) \<le> a + b \<and> a + b < 2 ^ 31 \<and> n = a + b \<and> w' = w"
  by (auto simp: i32_add_def split: if_splits)

lemma shipment_size_Ok: "shipment_size b k e s w = (Ok n, w') \<longleftrightarrow> fst (shipment_size b k e s w) = Ok n \<and> w' = w"
  using shipment_size_state[of b k e s w] by (metis eq_fst_iff prod.exhaust_sel)

lemma ship_ok_iff:
  "ship_ok w \<longleftrightarrow> (\<forall>s \<in> (\<Union>l \<in> ran (w_shipments w). set l). 0 < sh_batch_size s \<and> 0 \<le> sh_product_id s \<and> sh_product_id s < int (length (w_products w)))"
  by (auto simp: ship_ok_def)

lemma order_shipment_turn:
  assumes run: "order_shipment lk initial p w = (Ok (), w')" and ok: "ship_ok w" and p: "0 \<le> prod_id p" "prod_id p < int (length (w_products w))"
  shows "ship_frame w w' \<and> ship_ok w'"
proof -
  obtain b w1 where tb: "total_backordered w = (Ok b, w1)" using run by (auto simp: order_shipment_def Let_def bnd_Ok_iff)
  have w1: "\<exists>n. w1 = w\<lparr>w_total_backordered := n\<rparr>"
  proof (cases "w_total_backordered w")
    case None
    then show ?thesis using tb by (auto simp: total_backordered_def Let_def)
  next
    case (Some n)
    then show ?thesis using tb by (intro exI[of _ "Some n"]) (simp add: total_backordered_def)
  qed
  define place :: "int \<Rightarrow> int option \<Rightarrow> unit writes" where "place n0 size = (case size of
       None \<Rightarrow> ret ()
     | Some batch \<Rightarrow>
         bnd (if initial then ret 1 else bnd (gets w_current_day) (\<lambda>day. i32_add day (snd (lk_supply lk p)))) (\<lambda>arrives_on.
         if batch > 0 then
           bnd (i32_add n0 batch) (\<lambda>n.
           modify (\<lambda>w. w\<lparr>w_product_shipping := (w_product_shipping w)(prod_id p \<mapsto> n),
             w_shipments := push_entry arrives_on
               \<lparr>sh_product_id = prod_id p, sh_batch_size = batch, sh_arrives_on = arrives_on\<rparr> (w_shipments w)\<rparr>))
         else ret ()))" for n0 size
  have "order_shipment lk initial p = bnd total_backordered (\<lambda>b. bnd (i32_add (as_i32 (int b)) (fst (lk_supply lk p))) (\<lambda>e.
      bnd (gets (\<lambda>w. case w_product_shipping w (prod_id p) of None \<Rightarrow> 0 | Some n \<Rightarrow> n)) (\<lambda>n0.
      bnd (modify (\<lambda>w. w\<lparr>w_product_shipping := (w_product_shipping w)(prod_id p \<mapsto> n0)\<rparr>)) (\<lambda>_.
      bnd (shipment_size initial (prod_id p) e n0) (place n0)))))"
    unfolding order_shipment_def Let_def place_def[abs_def] by (rule refl)
  then obtain n0 w3 size where w3: "w3 = w1\<lparr>w_product_shipping := (w_product_shipping w1)(prod_id p \<mapsto> n0)\<rparr>"
    and rest: "place n0 size w3 = (Ok (), w')"
    using run tb by (auto simp: bnd_Ok_iff i32_add_Ok shipment_size_Ok)
  have "w' = w3 \<or> (\<exists>n d batch. 0 < batch \<and> w' = w3\<lparr>w_product_shipping := (w_product_shipping w3)(prod_id p \<mapsto> n),
      w_shipments := push_entry d \<lparr>sh_product_id = prod_id p, sh_batch_size = batch, sh_arrives_on = d\<rparr> (w_shipments w3)\<rparr>)"
    using rest by (auto simp: place_def bnd_Ok_iff i32_add_Ok split: option.splits if_splits)
  then show ?thesis
  proof (elim disjE exE conjE)
    assume "w' = w3"
    then show ?thesis using ok w1 by (auto simp: w3 ship_frame_shipping ship_ok_def)
  next
    fix n d batch
    assume b: "0 < (batch::int)" and w': "w' = w3\<lparr>w_product_shipping := (w_product_shipping w3)(prod_id p \<mapsto> n),
      w_shipments := push_entry d \<lparr>sh_product_id = prod_id p, sh_batch_size = batch, sh_arrives_on = d\<rparr> (w_shipments w3)\<rparr>"
    have "ship_frame w w'" using w1 by (auto simp: w' w3 ship_frame_ordered)
    moreover have "ship_ok w'" using ok w1 b p unfolding ship_ok_iff w' w3 by (auto simp: ran_push_entry simp del: UN_iff)
    ultimately show ?thesis ..
  qed
qed

lemma order_shipments_all:
  "for_each (order_shipment lk initial) ps w = (Ok (), w') \<Longrightarrow> ship_ok w \<Longrightarrow>
     (\<And>p. p \<in> set ps \<Longrightarrow> 0 \<le> prod_id p \<and> prod_id p < int (length (w_products w))) \<Longrightarrow> ship_frame w w' \<and> ship_ok w'"
proof (induction ps arbitrary: w)
  case Nil
  then show ?case by (simp add: ship_frame_refl)
next
  case (Cons p ps)
  obtain w1 where one: "order_shipment lk initial p w = (Ok (), w1)" and rest: "for_each (order_shipment lk initial) ps w1 = (Ok (), w')"
    using Cons.prems(1) by (auto simp: bnd_Ok_iff)
  have t: "ship_frame w w1 \<and> ship_ok w1" using order_shipment_turn[OF one Cons.prems(2)] Cons.prems(3)[of p] by simp
  then have "length (w_products w1) = length (w_products w)" by (auto simp: ship_frame_def)
  with Cons.IH[OF rest] t Cons.prems(3) have "ship_frame w1 w' \<and> ship_ok w'" by simp
  with t show ?case using ship_frame_trans by blast
qed

lemma order_shipments_turn:
  assumes run: "order_shipments lk initial w = (Ok (), w')" and ok: "order_ok js w lg" and ship: "ship_ok w"
  shows "order_ok js w' lg \<and> ship_ok w' \<and> ship_frame w w'"
proof -
  note D = order_okD[OF ok]
  let ?w = "w\<lparr>w_total_backordered := None\<rparr>"
  have "for_each (order_shipment lk initial) (w_products w) ?w = (Ok (), w')" using run by (simp add: order_shipments_def)
  moreover have "ship_ok ?w" using ship by (simp add: ship_ok_def)
  moreover have "0 \<le> prod_id p \<and> prod_id p < int (length (w_products ?w))" if "p \<in> set (w_products w)" for p
    using that D(3) by (auto simp: in_set_conv_nth)
  ultimately have "ship_frame ?w w' \<and> ship_ok w'" by (rule order_shipments_all) auto
  moreover have "ship_frame w ?w" unfolding ship_frame_def
    by (intro exI[of _ None] exI[of _ "w_shipments w"] exI[of _ "w_product_shipping w"]) simp
  ultimately have f: "ship_frame w w'" "ship_ok w'" using ship_frame_trans by blast+
  then show ?thesis using ok by (auto simp: ship_frame_def order_ok_def order_pre_def taken_orders_def pending_idx_def return_ids_def)
qed

lemma checks_plain:
  "order_ok js w lg \<Longrightarrow> (\<And>c. c \<in> set cs \<Longrightarrow> script_effect (CheckInventory c) lg = Some lg) \<Longrightarrow>
     order_ok js (w\<lparr>w_steps := w_steps w @ map CheckInventory cs\<rparr>) lg"
proof (induction cs arbitrary: w)
  case Nil
  then show ?case by simp
next
  case (Cons c cs)
  have "order_ok js (w\<lparr>w_steps := w_steps w @ [CheckInventory c]\<rparr>) lg"
    by (rule order_plain_same_day[OF Cons.prems(1)]) (use Cons.prems(2)[of c] in \<open>simp_all add: plain_step_def\<close>)
  from Cons.IH[OF this] Cons.prems(2) show ?case by simp
qed

lemma log_progress_order:
  assumes run: "log_progress w = (Ok (), w')" and ok: "order_ok js w lg"
  shows "order_ok js w' lg \<and> (\<exists>sts. w' = w\<lparr>w_steps := w_steps w @ sts\<rparr> \<and> new_sessions sts = [])"
proof -
  note D = order_okD[OF ok]
  define cs where "cs = map (\<lambda>v. inventory_check_new (inv_product_id v) (inv_stock v) ''daily'') (w_inventory w)"
  have add: "add_steps (map CheckInventory cs) w = (Ok (), w')" using run by (simp add: log_progress_def cs_def comp_def)
  have "list_all plain_step (map CheckInventory cs)" by (simp add: list_all_iff plain_step_def)
  from add_plain[OF this add] have w': "w' = w\<lparr>w_steps := w_steps w @ map CheckInventory cs\<rparr>" .
  have "script_effect (CheckInventory c) lg = Some lg" if mem: "c \<in> set cs" for c
  proof -
    obtain i where i: "i < length (w_inventory w)" "c = inventory_check_new (inv_product_id (w_inventory w ! i)) (inv_stock (w_inventory w ! i)) ''daily''"
      using mem by (auto simp: cs_def in_set_conv_nth)
    moreover have "inv_product_id (w_inventory w ! i) = int i" using tallyD(3)[OF D(1)] i(1) by (simp add: inv_wf_def)
    moreover have "lg_inventory lg (int i) = Some (w_inventory w ! i)" using tallyD(2)[OF D(1)] i(1) by (simp add: stock_map_def)
    ultimately show ?thesis by (simp add: inventory_check_new_def)
  qed
  from checks_plain[OF ok this] have "order_ok js w' lg" by (simp add: w')
  moreover have "new_sessions (map CheckInventory cs) = []" by (induction cs) simp_all
  ultimately show ?thesis using w' by blast
qed

end
