(* ===== verification/SessionTurns.thy ===== *)
theory SessionTurns
  imports OrderTurns
begin

text \<open>
  The sessions along the turns of the script writer: their ids are new, and a session that a customer
  still has is known to whoever plays the script.
\<close>

section \<open>Sessions along the turns\<close>

fun job_sessions :: "job \<Rightarrow> session list" where
  "job_sessions (StubInHand s n) = [s]"
| "job_sessions (LoginInHand s vs customers) = [s]"
| "job_sessions _ = []"

fun job_logins :: "job \<Rightarrow> session list" where
  "job_logins (LoginInHand s vs customers) = [s]"
| "job_logins _ = []"

fun job_visitors :: "job \<Rightarrow> int list" where
  "job_visitors (Visits vs customers) = map fst vs"
| "job_visitors (LoginInHand s vs customers) = the (sess_customer_id s) # map fst vs"
| "job_visitors _ = []"

definition in_hand :: "job list \<Rightarrow> int list" where
  "in_hand js = map sess_id (concat (map job_sessions js))"

definition logins :: "job list \<Rightarrow> session list" where
  "logins js = concat (map job_logins js)"

definition visitors :: "job list \<Rightarrow> int list" where
  "visitors js = concat (map job_visitors js)"

lemma job_list_simps [simp]:
  "in_hand [] = []" "in_hand (j # js) = map sess_id (job_sessions j) @ in_hand js" "in_hand (xs @ ys) = in_hand xs @ in_hand ys"
  "logins [] = []" "logins (j # js) = job_logins j @ logins js" "logins (xs @ ys) = logins xs @ logins ys"
  "visitors [] = []" "visitors (j # js) = job_visitors j @ visitors js" "visitors (xs @ ys) = visitors xs @ visitors ys"
  by (simp_all add: in_hand_def logins_def visitors_def)

lemma logins_in_hand: "s \<in> set (logins js) \<Longrightarrow> sess_id s \<in> set (in_hand js)"
proof (induction js)
  case Nil
  then show ?case by simp
next
  case (Cons j js)
  have "s \<in> set (job_logins j) \<Longrightarrow> s \<in> set (job_sessions j)" by (cases j) auto
  then show ?case using Cons by auto
qed

text \<open>The next session's id; sessions are given ids in growing order.\<close>

definition day_unit :: "writer \<Rightarrow> int" where
  "day_unit w = 10 ^ (ilog10 (w_market_capacity w * 10) + 1)"

definition next_free :: "writer \<Rightarrow> int" where
  "next_free w = w_next_session_id w + w_current_day w * day_unit w"

text \<open>The last day whose expired sessions have been collected.\<close>

definition evening :: "phase \<Rightarrow> bool" where
  "evening ph \<longleftrightarrow> ph = AtProgress \<or> ph = AtDawn \<or> ph = AtEnd"

definition swept :: "phase \<Rightarrow> int \<Rightarrow> int" where
  "swept ph day = (if evening ph then day else day - 1)"

definition ids_ok :: "int list \<Rightarrow> int list \<Rightarrow> int set \<Rightarrow> int \<Rightarrow> bool" where
  "ids_ok added hand known free \<longleftrightarrow> known \<subseteq> set added \<and> distinct (added @ hand) \<and> (\<forall>i \<in> set (added @ hand). i < free)"

definition slot_known :: "session list \<Rightarrow> (int \<rightharpoonup> session) \<Rightarrow> nat \<Rightarrow> session \<Rightarrow> bool" where
  "slot_known ls m i s \<longleftrightarrow> (\<exists>s' \<in> set ls. sess_id s' = sess_id s \<and> sess_customer_id s' = Some (int i + 1)) \<or>
     (\<exists>s'. m (sess_id s) = Some s' \<and> sess_expires_on s \<le> sess_expires_on s')"

definition slots_ok :: "session option list \<Rightarrow> session list \<Rightarrow> (int \<rightharpoonup> session) \<Rightarrow> int \<Rightarrow> int \<Rightarrow> int \<Rightarrow> bool" where
  "slots_ok slots ls m sw day free \<longleftrightarrow> (\<forall>s \<in> set ls. sess_expires_on s = day + 7) \<and>
     (\<forall>i < length slots. \<forall>s. slots ! i = Some s \<longrightarrow> sess_id s < free \<and> sess_expires_on s \<le> day + 7 \<and> (sw < sess_expires_on s \<longrightarrow> slot_known ls m i s))"

definition session_ok :: "phase \<Rightarrow> job list \<Rightarrow> writer \<Rightarrow> ledger \<Rightarrow> bool" where
  "session_ok ph js w lg \<longleftrightarrow>
     ids_ok (new_sessions (w_steps w)) (in_hand js) (dom (lg_sessions lg)) (next_free w) \<and>
     slots_ok (w_customer_sessions w) (logins js) (lg_sessions lg) (swept ph (w_current_day w)) (w_current_day w) (next_free w) \<and>
     w_session_base w \<in> {None, Some (w_current_day w * day_unit w)} \<and> 0 \<le> w_current_day w \<and> 0 \<le> w_next_session_id w \<and> (\<not> evening ph \<longrightarrow> 1 \<le> w_current_day w) \<and>
     (evening ph \<longrightarrow> js = []) \<and> distinct (visitors js) \<and> (\<forall>c \<in> set (visitors js). 1 \<le> c \<and> c < 2 ^ 31)"

text \<open>Turns that have nothing to do with sessions.\<close>

definition session_frame :: "writer \<Rightarrow> writer \<Rightarrow> bool" where
  "session_frame w w' \<longleftrightarrow> new_sessions (w_steps w') = new_sessions (w_steps w) \<and> w_current_day w' = w_current_day w \<and>
     w_market_capacity w' = w_market_capacity w \<and> w_next_session_id w' = w_next_session_id w \<and>
     w_session_base w' = w_session_base w \<and> w_customer_sessions w' = w_customer_sessions w"

lemma session_frame_ok:
  assumes "session_ok ph js w lg" "session_frame w w'" "lg_sessions lg' = lg_sessions lg"
    "in_hand js' = in_hand js" "logins js' = logins js" "visitors js' = visitors js" "evening ph \<longrightarrow> js' = []" "evening ph' = evening ph"
  shows "session_ok ph' js' w' lg'"
  using assms unfolding session_ok_def session_frame_def next_free_def day_unit_def swept_def by (simp only:) blast

lemma session_frame_refl: "session_frame w w"
  by (simp add: session_frame_def)

lemma steps_frame_session: "steps_frame w w' \<Longrightarrow> new_sessions (w_steps w') = new_sessions (w_steps w) \<Longrightarrow> session_frame w w'"
  by (auto simp: session_frame_def steps_frame_def)

lemma job_frame_session: "job_frame w w' \<Longrightarrow> new_sessions (w_steps w') = new_sessions (w_steps w) \<Longrightarrow> session_frame w w'"
  by (auto simp: session_frame_def steps_frame_def job_frame_def)

lemma replenish_frame_session: "replenish_frame w w' \<Longrightarrow> new_sessions (w_steps w') = new_sessions (w_steps w) \<Longrightarrow> session_frame w w'"
  by (auto simp: session_frame_def steps_frame_def replenish_frame_def)

lemma ship_frame_session: "ship_frame w w' \<Longrightarrow> session_frame w w'"
  by (auto simp: session_frame_def ship_frame_def)

text \<open>A new id is larger than all before.\<close>

lemma next_session_id_turn:
  assumes run: "next_session_id w = (Ok n, w')" and ok: "session_ok ph js w lg" and js: "js \<noteq> []"
  shows "n = next_free w \<and> w' = w\<lparr>w_next_session_id := w_next_session_id w + 1, w_session_base := Some (w_current_day w * day_unit w)\<rparr>"
proof -
  have day: "1 \<le> w_current_day w" "0 \<le> w_next_session_id w" and base: "w_session_base w \<in> {None, Some (w_current_day w * day_unit w)}"
    using ok js by (auto simp: session_ok_def)
  define k where "k = signed_take_bit 63 (w_next_session_id w + 1)"
  have "session_base (w\<lparr>w_next_session_id := k\<rparr>) = (Ok b, u) \<Longrightarrow>
      b = w_current_day w * day_unit w \<and> u = w\<lparr>w_next_session_id := k, w_session_base := Some (w_current_day w * day_unit w)\<rparr>" for b u
    using base by (auto simp: session_base_def build_session_base_def Let_def day_unit_def bnd_Ok_iff split: if_splits)
  then have n: "n = w_next_session_id w + w_current_day w * day_unit w" "n < 2 ^ 63"
    "w' = w\<lparr>w_next_session_id := k, w_session_base := Some (w_current_day w * day_unit w)\<rparr>"
    using run unfolding next_session_id_def k_def[symmetric] by (auto simp: bnd_Ok_iff i64_add_def k_def split: if_splits)
  have "1 \<le> w_current_day w * day_unit w" 
  proof -
    have "1 \<le> day_unit w" unfolding day_unit_def by (rule one_le_power) simp
    then show ?thesis using mult_mono[of 1 "w_current_day w" 1 "day_unit w"] day(1) by simp
  qed
  then have "w_next_session_id w + 1 < 2 ^ 63" using n(1,2) by linarith
  then have "k = w_next_session_id w + 1" unfolding k_def using day(2) by (intro signed_take_bit_int_eq_self) simp_all
  then show ?thesis using n(1,3) by (simp add: next_free_def)
qed

lemma next_free_step:
  "next_free (w\<lparr>w_next_session_id := w_next_session_id w + 1, w_session_base := b\<rparr>) = next_free w + 1"
  by (simp add: next_free_def day_unit_def)

lemma ids_ok_new:
  assumes "ids_ok added (h1 @ h2) known free"
  shows "ids_ok added (h1 @ free # h2) known (free + 1)"
proof -
  have b: "\<forall>i \<in> set (added @ h1 @ h2). i < free" using assms by (simp add: ids_ok_def)
  then have "free \<notin> set (added @ h1 @ h2)" by blast
  moreover have "i < free + 1" if "i \<in> set (added @ h1 @ free # h2)" for i
  proof (cases "i = free")
    case False
    then have "i \<in> set (added @ h1 @ h2)" using that by auto
    with b have "i < free" by blast
    then show ?thesis by simp
  qed simp
  ultimately show ?thesis using assms unfolding ids_ok_def by simp
qed

lemma ids_ok_added:
  assumes "ids_ok added (h1 @ i # h2) known free"
  shows "ids_ok (added @ [i]) (h1 @ h2) (insert i known) free" "i \<notin> known"
  using assms by (auto simp: ids_ok_def)

lemma slots_ok_free: "slots_ok slots ls m sw day free \<Longrightarrow> free \<le> free' \<Longrightarrow> slots_ok slots ls m sw day free'"
  unfolding slots_ok_def by (meson order.strict_trans2)

text \<open>A session that is added: the ledger knows it, and it is no longer in hand.\<close>

lemma slots_ok_stub:
  assumes ok: "slots_ok slots ls m sw day free" and s: "sess_id s \<notin> dom m" "\<And>s'. s' \<in> set ls \<Longrightarrow> sess_id s' \<noteq> sess_id s"
  shows "slots_ok slots ls (m(sess_id s \<mapsto> s)) sw day free"
proof -
  have "slot_known ls (m(sess_id s \<mapsto> s)) i u" if "slot_known ls m i u" for i u
  proof -
    have "sess_id u \<noteq> sess_id s" using that s by (auto simp: slot_known_def)
    then show ?thesis using that by (simp add: slot_known_def)
  qed
  then show ?thesis using ok unfolding slots_ok_def by blast
qed

lemma slots_ok_login:
  assumes ok: "slots_ok slots (l1 @ s # l2) m sw day free"
  shows "slots_ok slots (l1 @ l2) (m(sess_id s \<mapsto> s)) sw day free"
proof -
  have e: "sess_expires_on s = day + 7" using ok by (simp add: slots_ok_def)
  have "slot_known (l1 @ l2) (m(sess_id s \<mapsto> s)) i u" if "slot_known (l1 @ s # l2) m i u" "sess_expires_on u \<le> day + 7" for i u
    using that e by (auto simp: slot_known_def)
  then show ?thesis using ok unfolding slots_ok_def by auto
qed

lemma slots_ok_new:
  assumes ok: "slots_ok slots (l1 @ l2) m sw day free"
    and s: "sess_id s = free" "sess_customer_id s = Some (int i + 1)" "sess_expires_on s = day + 7"
  shows "slots_ok (slots[i := Some s]) (l1 @ s # l2) m sw day (free + 1)"
proof -
  have "slot_known (l1 @ s # l2) m j u" if "slot_known (l1 @ l2) m j u" for j u
    using that by (auto simp: slot_known_def)
  moreover have "slot_known (l1 @ s # l2) m i s" using s(2) by (auto simp: slot_known_def)
  ultimately have "sess_id u < free + 1 \<and> sess_expires_on u \<le> day + 7 \<and> (sw < sess_expires_on u \<longrightarrow> slot_known (l1 @ s # l2) m j u)"
    if "j < length slots" "slots[i := Some s] ! j = Some u" for j u
    using that s(1,3) ok unfolding slots_ok_def by (cases "j = i") (auto intro: order.strict_trans2)
  moreover have "\<forall>u \<in> set (l1 @ s # l2). sess_expires_on u = day + 7" using ok s(3) by (auto simp: slots_ok_def)
  ultimately show ?thesis by (simp add: slots_ok_def)
qed

lemma slots_ok_extended:
  assumes ok: "slots_ok slots ls m sw day free" and i: "i < length slots" "slots ! i = Some u" "m (sess_id u) = Some v"
  shows "slots_ok (slots[i := Some (u\<lparr>sess_expires_on := day + 7\<rparr>)]) ls
    (m(sess_id u \<mapsto> v\<lparr>sess_customer_id := c, sess_expires_on := day + 7\<rparr>)) sw day free"
proof -
  let ?m = "m(sess_id u \<mapsto> v\<lparr>sess_customer_id := c, sess_expires_on := day + 7\<rparr>)"
  have "slot_known ls ?m j x" if "slot_known ls m j x" "sess_expires_on x \<le> day + 7" for j x
    using that by (auto simp: slot_known_def)
  moreover have "slot_known ls ?m i (u\<lparr>sess_expires_on := day + 7\<rparr>)" by (simp add: slot_known_def)
  ultimately show ?thesis
    using ok i unfolding slots_ok_def by (auto simp: nth_list_update split: if_splits)
qed

lemma slots_ok_swept:
  assumes ok: "slots_ok slots [] m sw day free" and m: "\<And>k s. m k = Some s \<Longrightarrow> sw' < sess_expires_on s \<Longrightarrow> m' k = Some s" and sw: "sw \<le> sw'"
  shows "slots_ok slots [] m' sw' day free"
  using assms unfolding slots_ok_def slot_known_def by (simp, meson order.strict_trans1 order.strict_trans2)

section \<open>The turns of the tasks\<close>

definition customers_ok :: "writer \<Rightarrow> bool" where
  "customers_ok w \<longleftrightarrow> distinct (map cust_id (w_customers w)) \<and> 0 \<le> w_pool_customer_id w \<and> w_pool_customer_id w < 2 ^ 31 \<and>
     (\<forall>c \<in> set (w_customers w). 1 \<le> cust_id c \<and> cust_id c \<le> w_pool_customer_id w)"

definition in_step :: "phase \<Rightarrow> job list \<Rightarrow> writer \<Rightarrow> ledger \<Rightarrow> bool" where
  "in_step ph js w lg \<longleftrightarrow> order_ok js w lg \<and> session_ok ph js w lg \<and> ship_ok w \<and> customers_ok w"

text \<open>Sessions do not matter to orders, shipments and customers.\<close>

lemma order_ok_session_fields [simp]:
  "order_ok js (w\<lparr>w_next_session_id := n\<rparr>) lg = order_ok js w lg"
  "order_ok js (w\<lparr>w_session_base := b\<rparr>) lg = order_ok js w lg"
  "order_ok js (w\<lparr>w_customer_sessions := cs\<rparr>) lg = order_ok js w lg"
  by (simp_all add: order_ok_def order_pre_def taken_orders_def pending_idx_def return_ids_def)

lemma other_session_fields [simp]:
  "ship_ok (w\<lparr>w_next_session_id := n\<rparr>) = ship_ok w" "ship_ok (w\<lparr>w_session_base := b\<rparr>) = ship_ok w"
  "ship_ok (w\<lparr>w_customer_sessions := cs\<rparr>) = ship_ok w" "ship_ok (w\<lparr>w_steps := sts\<rparr>) = ship_ok w"
  "customers_ok (w\<lparr>w_next_session_id := n\<rparr>) = customers_ok w" "customers_ok (w\<lparr>w_session_base := b\<rparr>) = customers_ok w"
  "customers_ok (w\<lparr>w_customer_sessions := cs\<rparr>) = customers_ok w" "customers_ok (w\<lparr>w_steps := sts\<rparr>) = customers_ok w"
  by (simp_all add: ship_ok_def customers_ok_def)

lemma frames_keep:
  "steps_frame w w' \<Longrightarrow> ship_ok w \<and> customers_ok w \<Longrightarrow> ship_ok w' \<and> customers_ok w'"
  "job_frame w w' \<Longrightarrow> ship_ok w \<and> customers_ok w \<Longrightarrow> ship_ok w' \<and> customers_ok w'"
  by (auto simp: steps_frame_def job_frame_def ship_ok_def customers_ok_def)

lemma order_ok_swap:
  assumes "order_ok (xs @ j # ys) w lg" "\<Union> (job_idx ` set new) = {}" "\<Union> (job_returns ` set new) = {}"
  shows "order_ok (xs @ new @ ys) w lg"
  by (rule order_ok_jobs[OF assms(1)]) (use assms(2,3) in \<open>simp_all, blast+\<close>)

lemma job_by_day: "session_ok ph (xs @ j # ys) w lg \<Longrightarrow> \<not> evening ph"
  by (auto simp: session_ok_def)

text \<open>A job that goes on without a step.\<close>

lemma silent_turn:
  assumes ok: "in_step ph (xs @ j # ys) w lg" and j: "job_idx j = {}" "job_returns j = {}" and new: "new = [] \<or> new = [j']"
    and j': "job_idx j' = {}" "job_returns j' = {}" "job_sessions j' = job_sessions j" "job_logins j' = job_logins j" "job_visitors j' = job_visitors j"
    and gone: "new = [] \<Longrightarrow> job_sessions j = [] \<and> job_logins j = [] \<and> job_visitors j = []"
  shows "in_step ph (xs @ new @ ys) w lg"
proof -
  have o: "order_ok (xs @ new @ ys) w lg"
    by (rule order_ok_swap) (use ok new j' in \<open>auto simp: in_step_def\<close>)
  have "\<not> evening ph" using ok job_by_day unfolding in_step_def by blast
  moreover have "in_hand (xs @ new @ ys) = in_hand (xs @ j # ys)" "logins (xs @ new @ ys) = logins (xs @ j # ys)"
    "visitors (xs @ new @ ys) = visitors (xs @ j # ys)"
    using new j' gone by (elim disjE; simp)+
  ultimately have "session_ok ph (xs @ new @ ys) w lg"
    using ok unfolding in_step_def session_ok_def by (simp only:) simp
  then show ?thesis using ok o by (simp add: in_step_def)
qed

lemma stub_turn:
  assumes ok: "in_step ph (xs @ Sessions (Suc n) # ys) w lg" and run: "run_job (Sessions (Suc n)) w = (Ok new, w')"
  shows "in_step ph (xs @ new @ ys) w' lg"
proof -
  have s_ok: "session_ok ph (xs @ Sessions (Suc n) # ys) w lg" using ok by (simp add: in_step_def)
  obtain i where i: "next_session_id w = (Ok i, w')"
    and stub: "new = [StubInHand \<lparr>sess_id = i, sess_customer_id = None, sess_expires_on = w_current_day w + 3\<rparr> n]"
    using run by (auto simp: stub_session_def bnd_Ok_iff i32_add_Ok)
  define s where "s = \<lparr>sess_id = i, sess_customer_id = None, sess_expires_on = w_current_day w + 3\<rparr>"
  have s: "sess_id s = i" and new: "new = [StubInHand s n]" using stub by (simp_all add: s_def)
  note nx = next_session_id_turn[OF i s_ok, simplified]
  define w1 where "w1 = w\<lparr>w_next_session_id := w_next_session_id w + 1, w_session_base := Some (w_current_day w * day_unit w)\<rparr>"
  have w': "w' = w1" "i = next_free w" using nx by (simp_all add: w1_def)
  have f: "next_free w1 = next_free w + 1" "day_unit w1 = day_unit w" by (simp_all add: w1_def next_free_step day_unit_def)
  have ids: "ids_ok (new_sessions (w_steps w)) (in_hand xs @ next_free w # in_hand ys) (dom (lg_sessions lg)) (next_free w + 1)"
    using ids_ok_new[of "new_sessions (w_steps w)" "in_hand xs" "in_hand ys"] s_ok by (simp add: session_ok_def)
  have slots: "slots_ok (w_customer_sessions w) (logins xs @ logins ys) (lg_sessions lg) (swept ph (w_current_day w)) (w_current_day w) (next_free w + 1)"
    by (rule slots_ok_free[of _ _ _ _ _ "next_free w"]) (use s_ok in \<open>simp_all add: session_ok_def\<close>)
  have "session_ok ph (xs @ new @ ys) w' lg"
    using s_ok ids slots s w'(2) unfolding session_ok_def w'(1) f by (simp add: new w1_def)
  moreover have "order_ok (xs @ new @ ys) w lg" by (rule order_ok_swap[of _ "Sessions (Suc n)"]) (use ok in \<open>auto simp: in_step_def new\<close>)
  ultimately show ?thesis using ok by (simp add: in_step_def w' w1_def)
qed

text \<open>The step of a session that was in hand.\<close>

lemma add_session_order:
  assumes ok: "order_ok js w lg" and run: "add_step (AddSession s) w = (Ok (), w')" and no: "lg_sessions lg (sess_id s) = None"
  shows "order_ok js w' (lg\<lparr>lg_sessions := (lg_sessions lg)(sess_id s \<mapsto> s)\<rparr>) \<and> w' = w\<lparr>w_steps := w_steps w @ [AddSession s]\<rparr>"
proof -
  have w': "w' = w\<lparr>w_steps := w_steps w @ [AddSession s]\<rparr>" by (rule add_plain_step[OF _ run]) (simp add: plain_step_def)
  have "order_ok js (w\<lparr>w_steps := w_steps w @ [AddSession s]\<rparr>) (lg\<lparr>lg_sessions := (lg_sessions lg)(sess_id s \<mapsto> s)\<rparr>)"
    by (rule order_plain_same_day[OF ok]) (simp_all add: no plain_step_def)
  then show ?thesis using w' by blast
qed

lemma add_session_turn:
  assumes ok: "in_step ph (xs @ j # ys) w lg" and run: "add_step (AddSession s) w = (Ok (), w')"
    and j: "job_sessions j = [s]" "job_idx j = {}" "job_returns j = {}" "job_logins j = [] \<or> job_logins j = [s]"
    and j': "job_sessions j' = []" "job_logins j' = []" "job_idx j' = {}" "job_returns j' = {}"
    and v: "distinct (visitors (xs @ [j'] @ ys))" "set (visitors (xs @ [j'] @ ys)) \<subseteq> set (visitors (xs @ j # ys))"
  shows "\<exists>lg'. in_step ph (xs @ [j'] @ ys) w' lg'"
proof -
  have s_ok: "session_ok ph (xs @ j # ys) w lg" and o_ok: "order_ok (xs @ j # ys) w lg" using ok by (simp_all add: in_step_def)
  let ?lg = "lg\<lparr>lg_sessions := (lg_sessions lg)(sess_id s \<mapsto> s)\<rparr>"
  have ids: "ids_ok (new_sessions (w_steps w)) (in_hand xs @ sess_id s # in_hand ys) (dom (lg_sessions lg)) (next_free w)"
    using s_ok j by (simp add: session_ok_def)
  note ids' = ids_ok_added[OF ids]
  have "order_ok (xs @ [j'] @ ys) w lg" by (rule order_ok_swap[OF o_ok]) (use j' in simp_all)
  from add_session_order[OF this run] ids'(2) have o: "order_ok (xs @ [j'] @ ys) w' ?lg" and w': "w' = w\<lparr>w_steps := w_steps w @ [AddSession s]\<rparr>"
    by (auto simp: domIff)
  have slots0: "slots_ok (w_customer_sessions w) (logins xs @ job_logins j @ logins ys) (lg_sessions lg) (swept ph (w_current_day w)) (w_current_day w) (next_free w)"
    using s_ok by (simp add: session_ok_def)
  have slots: "slots_ok (w_customer_sessions w) (logins xs @ logins ys) ((lg_sessions lg)(sess_id s \<mapsto> s)) (swept ph (w_current_day w)) (w_current_day w) (next_free w)"
    using j(4)
  proof
    assume l: "job_logins j = []"
    have "sess_id s' \<noteq> sess_id s" if "s' \<in> set (logins xs @ logins ys)" for s'
    proof -
      have "sess_id s' \<in> set (in_hand xs) \<union> set (in_hand ys)" using that logins_in_hand by auto
      then show ?thesis using ids by (auto simp: ids_ok_def)
    qed
    then show ?thesis using slots_ok_stub[of _ "logins xs @ logins ys"] slots0 l ids'(2) by simp
  next
    assume l: "job_logins j = [s]"
    then show ?thesis using slots_ok_login[of _ "logins xs" s "logins ys"] slots0 by simp
  qed
  have "next_free w' = next_free w" "day_unit w' = day_unit w" by (simp_all add: w' next_free_def day_unit_def)
  moreover have "\<forall>c \<in> set (visitors (xs @ [j'] @ ys)). 1 \<le> c \<and> c < 2 ^ 31"
    using s_ok v(2) unfolding session_ok_def by blast
  moreover have "new_sessions (w_steps w') = new_sessions (w_steps w) @ [sess_id s]" by (simp add: w')
  moreover have "in_hand (xs @ [j'] @ ys) = in_hand xs @ in_hand ys" "logins (xs @ [j'] @ ys) = logins xs @ logins ys" using j' by simp_all
  moreover have "dom (lg_sessions ?lg) = insert (sess_id s) (dom (lg_sessions lg))" "lg_sessions ?lg = (lg_sessions lg)(sess_id s \<mapsto> s)" by simp_all
  moreover have "w_customer_sessions w' = w_customer_sessions w" "w_current_day w' = w_current_day w"
    "w_session_base w' = w_session_base w" "w_next_session_id w' = w_next_session_id w" by (simp_all add: w')
  ultimately have "session_ok ph (xs @ [j'] @ ys) w' ?lg"
    using s_ok ids'(1) slots v(1) unfolding session_ok_def by (simp only:) simp
  then show ?thesis using ok o by (intro exI[of _ ?lg]) (simp add: in_step_def w')
qed

text \<open>A customer logs in.\<close>

lemma slot_in_ledger:
  assumes s_ok: "session_ok ph (xs @ Visits ((c, v) # vs) customers # ys) w lg" and i: "int i + 1 = c"
    and slot: "i < length (w_customer_sessions w)" "w_customer_sessions w ! i = Some u" "w_current_day w \<le> sess_expires_on u"
  shows "\<exists>x. lg_sessions lg (sess_id u) = Some x"
proof -
  have ev: "\<not> evening ph" using s_ok by (auto simp: session_ok_def)
  then have "swept ph (w_current_day w) < sess_expires_on u" using slot(3) by (simp add: swept_def)
  then have "slot_known (logins (xs @ Visits ((c, v) # vs) customers # ys)) (lg_sessions lg) i u"
    using s_ok slot(1,2) unfolding session_ok_def slots_ok_def by blast
  moreover have "sess_customer_id s' \<noteq> Some c" if "s' \<in> set (logins xs @ logins ys)" for s'
  proof
    assume c: "sess_customer_id s' = Some c"
    have "the (sess_customer_id s') \<in> set (visitors js)" if mem: "s' \<in> set (logins js)" for js
    proof -
      obtain j where j: "j \<in> set js" "s' \<in> set (job_logins j)" using mem by (auto simp: logins_def)
      have "the (sess_customer_id s') \<in> set (job_visitors j)" using j(2) by (induction j) auto
      then show ?thesis using j(1) by (auto simp: visitors_def)
    qed
    then have "c \<in> set (visitors xs) \<union> set (visitors ys)" using that c by auto
    then show False using s_ok by (auto simp: session_ok_def)
  qed
  ultimately show ?thesis using i by (auto simp: slot_known_def)
qed

lemma login_turn:
  assumes ok: "in_step ph (xs @ Visits ((c, v) # vs) customers # ys) w lg" and run: "customer_login c w = (Ok se, w')"
    and new: "new = [case se of None \<Rightarrow> Visits vs customers | Some s \<Rightarrow> LoginInHand s vs customers]"
  shows "\<exists>lg'. in_step ph (xs @ new @ ys) w' lg'"
proof -
  let ?js = "xs @ Visits ((c, v) # vs) customers # ys"
  have s_ok: "session_ok ph ?js w lg" and o_ok: "order_ok ?js w lg" using ok by (simp_all add: in_step_def)
  have c: "1 \<le> c" "c < 2 ^ 31" using s_ok by (simp_all add: session_ok_def)
  define i where "i = nat c - 1"
  have i: "int i + 1 = c" "as_usize c \<noteq> 0" "as_usize c - 1 = i" using c by (simp_all add: i_def as_usize_def)
  let ?d = "w_current_day w + 7"
  have len: "i < length (w_customer_sessions w)"
    and run': "(case w_customer_sessions w ! i of
          Some existing \<Rightarrow>
            if sess_expires_on existing \<ge> w_current_day w then
              let s = existing\<lparr>sess_expires_on := ?d\<rparr> in
              bnd (modify (\<lambda>w. w\<lparr>w_customer_sessions := (w_customer_sessions w)[i := Some s]\<rparr>)) (\<lambda>_.
              bnd (add_step (UpdateSession s)) (\<lambda>_. ret None))
            else new_session i c ?d
        | None \<Rightarrow> new_session i c ?d) w = (Ok se, w')"
    using run i(2) unfolding customer_login_def i(3) Let_def by (auto simp: bnd_Ok_iff at_index_def i32_add_Ok login_expire_days_def split: if_splits)
  have slots: "slots_ok (w_customer_sessions w) (logins xs @ logins ys) (lg_sessions lg) (swept ph (w_current_day w)) (w_current_day w) (next_free w)"
    using s_ok by (simp add: session_ok_def)
  show ?thesis
  proof (cases "\<exists>u. w_customer_sessions w ! i = Some u \<and> w_current_day w \<le> sess_expires_on u")
    case True
    then obtain u where u: "w_customer_sessions w ! i = Some u" "w_current_day w \<le> sess_expires_on u" by blast
    define s where "s = u\<lparr>sess_expires_on := ?d\<rparr>"
    define w1 where "w1 = w\<lparr>w_customer_sessions := (w_customer_sessions w)[i := Some s]\<rparr>"
    have add: "add_step (UpdateSession s) w1 = (Ok (), w')" and se: "se = None"
      using run' u by (auto simp: s_def w1_def bnd_Ok_iff Let_def)
    have w': "w' = w1\<lparr>w_steps := w_steps w1 @ [UpdateSession s]\<rparr>" by (rule add_plain_step[OF _ add]) (simp add: plain_step_def)
    obtain x where x: "lg_sessions lg (sess_id u) = Some x" using slot_in_ledger[OF s_ok i(1) len u] by blast
    let ?m = "(lg_sessions lg)(sess_id u \<mapsto> x\<lparr>sess_customer_id := sess_customer_id s, sess_expires_on := ?d\<rparr>)"
    let ?lg = "lg\<lparr>lg_sessions := ?m\<rparr>"
    have "order_ok (xs @ new @ ys) w lg" by (rule order_ok_swap[OF o_ok]) (simp_all add: new se)
    then have o1: "order_ok (xs @ new @ ys) w1 lg" by (simp add: w1_def)
    have o: "order_ok (xs @ new @ ys) w' ?lg"
      unfolding w' by (rule order_plain_same_day[OF o1]) (use x in \<open>simp_all add: plain_step_def s_def\<close>)
    have sl: "slots_ok ((w_customer_sessions w)[i := Some s]) (logins xs @ logins ys) ?m (swept ph (w_current_day w)) (w_current_day w) (next_free w)"
      unfolding s_def by (rule slots_ok_extended[OF slots len u(1) x])
    have "dom ?m = dom (lg_sessions lg)" using x by auto
    moreover have "next_free w' = next_free w" "day_unit w' = day_unit w" by (simp_all add: w' w1_def next_free_def day_unit_def)
    ultimately have "session_ok ph (xs @ new @ ys) w' ?lg"
      using s_ok sl unfolding session_ok_def by (simp add: new se w' w1_def)
    then show ?thesis using ok o by (intro exI[of _ ?lg]) (simp add: in_step_def w' w1_def)
  next
    case False
    then have "new_session i c ?d w = (Ok se, w')" using run' by (auto split: option.splits if_splits)
    then obtain n w1 where n: "next_session_id w = (Ok n, w1)"
      and se: "se = Some \<lparr>sess_id = n, sess_customer_id = Some c, sess_expires_on = ?d\<rparr>"
      and w': "w' = w1\<lparr>w_customer_sessions := (w_customer_sessions w1)[i := Some \<lparr>sess_id = n, sess_customer_id = Some c, sess_expires_on = ?d\<rparr>]\<rparr>"
      by (auto simp: new_session_def Let_def bnd_Ok_iff)
    note nx = next_session_id_turn[OF n s_ok, simplified]
    define s where "s = \<lparr>sess_id = n, sess_customer_id = Some c, sess_expires_on = ?d\<rparr>"
    define w2 where "w2 = w\<lparr>w_next_session_id := w_next_session_id w + 1, w_session_base := Some (w_current_day w * day_unit w)\<rparr>"
    have w1: "w1 = w2" "sess_id s = next_free w" "new = [LoginInHand s vs customers]" "sess_customer_id s = Some c" "sess_expires_on s = ?d"
      using nx by (simp_all add: w2_def s_def new se)
    have w': "w' = w2\<lparr>w_customer_sessions := (w_customer_sessions w)[i := Some s]\<rparr>" using w' w1(1) by (simp add: s_def w2_def)
    have f: "next_free w' = next_free w + 1" "day_unit w' = day_unit w" by (simp_all add: w' w2_def next_free_def day_unit_def)
    have ids: "ids_ok (new_sessions (w_steps w)) (in_hand xs @ next_free w # in_hand ys) (dom (lg_sessions lg)) (next_free w + 1)"
      using ids_ok_new[of "new_sessions (w_steps w)" "in_hand xs" "in_hand ys"] s_ok by (simp add: session_ok_def)
    have sl: "slots_ok ((w_customer_sessions w)[i := Some s]) (logins xs @ s # logins ys) (lg_sessions lg) (swept ph (w_current_day w)) (w_current_day w) (next_free w + 1)"
      by (rule slots_ok_new[OF slots]) (simp_all add: w1 i(1))
    have "session_ok ph (xs @ new @ ys) w' lg"
      using s_ok ids sl w1(2,4) unfolding session_ok_def f w1(3) by (simp add: w' w2_def)
    moreover have "order_ok (xs @ new @ ys) w lg" by (rule order_ok_swap[OF o_ok]) (simp_all add: w1)
    ultimately show ?thesis using ok by (intro exI[of _ lg]) (simp add: in_step_def w' w2_def)
  qed
qed

text \<open>Every turn of a task.\<close>

lemma order_job_turn:
  assumes ok: "in_step ph (xs @ j # ys) w lg" and o: "order_ok (xs @ new @ ys) w' lg'" "lg_sessions lg' = lg_sessions lg"
    and f: "job_frame w w'" "new_sessions (w_steps w') = new_sessions (w_steps w)"
    and same: "in_hand new = []" "visitors new = []" "logins new = []" "job_sessions j = []" "job_visitors j = []" "job_logins j = []"
  shows "in_step ph (xs @ new @ ys) w' lg'"
proof -
  have "evening ph \<longrightarrow> False" using ok by (auto simp: in_step_def session_ok_def)
  then have "session_ok ph (xs @ new @ ys) w' lg'"
    by (intro session_frame_ok[OF _ job_frame_session[OF f] o(2)]) (use ok same in \<open>auto simp: in_step_def\<close>)
  then show ?thesis using ok o(1) frames_keep(2)[OF f(1)] by (simp add: in_step_def)
qed

lemma job_turn:
  assumes ok: "in_step ph (xs @ j # ys) w lg" and fair: "fair_job j w" and run: "run_job j w = (Ok new, w')"
  shows "\<exists>lg'. in_step ph (xs @ new @ ys) w' lg'"
proof (cases j)
  case (Sessions n)
  show ?thesis
  proof (cases n)
    case 0
    then have "new = []" "w' = w" using run Sessions by auto
    then show ?thesis using silent_turn[OF ok, of "[]" "Sessions 0"] Sessions 0 by auto
  next
    case (Suc m)
    then show ?thesis using stub_turn ok run Sessions by blast
  qed
next
  case (StubInHand s n)
  then have "add_step (AddSession s) w = (Ok (), w')" "new = [Sessions n]" using run by (auto simp: bnd_Ok_iff)
  then show ?thesis using add_session_turn[OF ok, of s w' "Sessions n"] ok StubInHand by (auto simp: in_step_def session_ok_def)
next
  case (Visits vs customers)
  show ?thesis
  proof (cases vs)
    case Nil
    then have "new = [Buying customers]" "w' = w" using run Visits by auto
    then show ?thesis using silent_turn[OF ok, of new "Buying customers"] Visits Nil by auto
  next
    case (Cons x rest)
    obtain c v where x: "x = (c, v)" by fastforce
    obtain n where n: "vi_purchases v = Some n" using run by (cases "vi_purchases v") (simp_all add: Visits Cons x)
    show ?thesis
    proof (cases "0 < n \<or> vi_drops_in v")
      case True
      then obtain se where "customer_login c w = (Ok se, w')" "new = [case se of None \<Rightarrow> Visits rest customers | Some s \<Rightarrow> LoginInHand s rest customers]"
        using run by (auto simp: Visits Cons x n bnd_Ok_iff)
      then show ?thesis using login_turn ok by (simp add: Visits Cons x)
    next
      case False
      then have eq: "new = [Visits rest customers]" "w' = w" using run by (auto simp: Visits Cons x n)
      have "order_ok (xs @ new @ ys) w lg" by (rule order_ok_swap) (use ok in \<open>auto simp: in_step_def eq Visits\<close>)
      moreover have "session_ok ph (xs @ new @ ys) w lg"
        using ok by (simp add: in_step_def session_ok_def eq Visits Cons x)
      ultimately show ?thesis using ok eq by (auto simp: in_step_def)
    qed
  qed
next
  case (LoginInHand s vs customers)
  then have "add_step (AddSession s) w = (Ok (), w')" "new = [Visits vs customers]" using run by (auto simp: bnd_Ok_iff)
  then show ?thesis using add_session_turn[OF ok, of s w' "Visits vs customers"] ok LoginInHand by (auto simp: in_step_def session_ok_def)
next
  case (Buying vs)
  have o: "order_ok (xs @ Buying vs # ys) w lg" using ok Buying by (simp add: in_step_def)
  from buying_order[OF o] fair run Buying obtain lg' plan where "order_ok (xs @ new @ ys) w' lg'" "lg_sessions lg' = lg_sessions lg"
    "job_frame w w'" "new_sessions (w_steps w') = new_sessions (w_steps w)" "new = [Planning plan]" by auto
  from order_job_turn[OF ok this(1-4)] this(5) Buying show ?thesis by auto
next
  case (Planning plan)
  have o: "order_ok (xs @ Planning plan # ys) w lg" using ok Planning by (simp add: in_step_def)
  from planning_order[OF o] run Planning obtain rs where o': "order_ok (xs @ new @ ys) w' lg" "new = []" "w' = w\<lparr>w_returns := rs\<rparr>" by auto
  have "steps_frame w' w'" unfolding steps_frame_def
    by (intro exI[of _ "w_steps w'"] exI[of _ "w_inventory w'"] exI[of _ "w_backorders w'"] exI[of _ "w_pending_orders w'"]) simp
  then have "job_frame w w'" unfolding job_frame_def o'(3) by blast
  from order_job_turn[OF ok o'(1) refl this] o'(2,3) Planning show ?thesis by auto
next
  case Returning
  have o: "order_ok (xs @ Returning # ys) w lg" using ok Returning by (simp add: in_step_def)
  from returning_order[OF o] run Returning obtain lg' where "order_ok (xs @ new @ ys) w' lg'" "lg_sessions lg' = lg_sessions lg"
    "job_frame w w'" "new_sessions (w_steps w') = new_sessions (w_steps w)" "new = []" by auto
  from order_job_turn[OF ok this(1-4)] this(5) Returning show ?thesis by auto
next
  case (Shipping l)
  have o: "order_ok (xs @ Shipping l # ys) w lg" using ok Shipping by (simp add: in_step_def)
  from shipping_order[OF o] run Shipping obtain lg' where "order_ok (xs @ new @ ys) w' lg'" "lg_sessions lg' = lg_sessions lg"
    "job_frame w w'" "new_sessions (w_steps w') = new_sessions (w_steps w)" "new = []" by auto
  from order_job_turn[OF ok this(1-4)] this(5) Shipping show ?thesis by auto
qed

end
