(* ===== verification/WrittenScripts.thy ===== *)
theory WrittenScripts
  imports SessionTurns
begin

text \<open>
  What the script writer promises about its script, along all of its turns: every step can be
  performed, on a ledger that begins empty, and the stock of that ledger is the writer's own.
\<close>

section \<open>The turns of the main thread\<close>

lemma slots_ok_next_day: "slots_ok slots [] m sw day free \<Longrightarrow> free \<le> free' \<Longrightarrow> slots_ok slots [] m sw (day + 1) free'"
  unfolding slots_ok_def by (fastforce intro: order.trans)

lemma ids_ok_later: "ids_ok added hand known free \<Longrightarrow> free \<le> free' \<Longrightarrow> known' \<subseteq> known \<Longrightarrow> ids_ok added hand known' free'"
  unfolding ids_ok_def by (meson order.strict_trans2 order.trans)

lemma dawn_turn:
  assumes ok: "in_step AtDawn js w lg" and run: "run_main lk AtDawn w = (Ok (ph', new), w')"
  shows "\<exists>lg'. in_step ph' (js @ new) w' lg'"
proof (cases "w_current_day w < w_period w")
  case False
  then have "ph' = AtEnd" "new = []" "w' = w" using run by auto
  moreover have "session_ok AtEnd js w lg"
    by (rule session_frame_ok[OF _ session_frame_refl refl refl refl refl]) (use ok in \<open>auto simp: in_step_def session_ok_def evening_def\<close>)
  ultimately show ?thesis using ok by (auto simp: in_step_def)
next
  case True
  define day where "day = w_current_day w + 1"
  define w1 where "w1 = w\<lparr>w_current_day := day, w_session_base := None\<rparr>"
  have add: "add_step (Day day) w1 = (Ok (), w')" and eq: "ph' = AtReplenish" "new = [Sessions (lk_sessions lk)]"
    using run True by (auto simp: day_def w1_def bnd_Ok_iff Let_def)
  have w': "w' = w1\<lparr>w_steps := w_steps w @ [Day day]\<rparr>" using add_plain_step[OF _ add] by (simp add: plain_step_def w1_def)
  have s_ok: "session_ok AtDawn js w lg" and o_ok: "order_ok js w lg" using ok by (simp_all add: in_step_def)
  have js: "js = []" using s_ok by (simp add: session_ok_def evening_def)
  let ?lg = "lg\<lparr>lg_day := day\<rparr>"
  have "order_ok js (w\<lparr>w_steps := w_steps w @ [Day day], w_current_day := lg_day ?lg\<rparr>) ?lg"
    by (rule order_plain[OF o_ok]) (simp_all add: plain_step_def)
  then have "order_ok js (w\<lparr>w_steps := w_steps w @ [Day day], w_current_day := day\<rparr>\<lparr>w_session_base := None\<rparr>) ?lg" by simp
  then have "order_ok js w' ?lg" by (simp add: w' w1_def order_ok_def order_pre_def taken_orders_def pending_idx_def return_ids_def)
  then have o: "order_ok (js @ new) w' ?lg" by (rule order_ok_jobs) (simp_all add: eq)
  have u: "day_unit w' = day_unit w" by (simp add: w' w1_def day_unit_def)
  have f: "next_free w' = w_next_session_id w + day * day_unit w" unfolding next_free_def u by (simp add: w' w1_def)
  have "0 \<le> day_unit w" by (simp add: day_unit_def)
  then have less: "next_free w \<le> next_free w'" unfolding f by (simp add: next_free_def day_def algebra_simps)
  have sw: "swept AtDawn (w_current_day w) = w_current_day w" "swept AtReplenish day = w_current_day w" by (simp_all add: swept_def evening_def day_def)
  have "slots_ok (w_customer_sessions w) [] (lg_sessions lg) (w_current_day w) (w_current_day w) (next_free w)"
    using s_ok js sw by (simp add: session_ok_def)
  from slots_ok_next_day[OF this less] have sl: "slots_ok (w_customer_sessions w) [] (lg_sessions lg) (w_current_day w) day (next_free w')" by (simp add: day_def)
  have "ids_ok (new_sessions (w_steps w)) [] (dom (lg_sessions lg)) (next_free w)" using s_ok js by (simp add: session_ok_def)
  note ids = ids_ok_later[OF this less subset_refl]
  have "1 \<le> day" "0 \<le> w_next_session_id w" using s_ok by (simp_all add: session_ok_def day_def)
  moreover have "w_current_day w' = day" "w_session_base w' = None" "w_next_session_id w' = w_next_session_id w"
    "new_sessions (w_steps w') = new_sessions (w_steps w)" "w_customer_sessions w' = w_customer_sessions w" by (simp_all add: w' w1_def)
  ultimately have "session_ok ph' (js @ new) w' ?lg"
    using ids sl unfolding session_ok_def eq js by (simp add: sw evening_def)
  then show ?thesis using ok o by (intro exI[of _ ?lg]) (simp add: in_step_def w' w1_def ship_ok_def customers_ok_def)
qed

text \<open>A turn of the main thread by day that has nothing to do with sessions.\<close>

lemma main_frame_turn:
  assumes ok: "in_step ph js w lg" and o: "order_ok (js @ new) w' lg'" "lg_sessions lg' = lg_sessions lg"
    and f: "session_frame w w'" and ev: "\<not> evening ph" "\<not> evening ph'" and new: "in_hand new = []" "logins new = []" "visitors new = []"
    and sc: "ship_ok w'" "customers_ok w'"
  shows "in_step ph' (js @ new) w' lg'"
proof -
  have "session_ok ph' (js @ new) w' lg'"
    by (rule session_frame_ok[OF _ f o(2)]) (use ok ev new in \<open>auto simp: in_step_def\<close>)
  then show ?thesis using o(1) sc by (simp add: in_step_def)
qed

lemma replenish_frame_keep: "replenish_frame w w' \<Longrightarrow> ship_ok w \<Longrightarrow> customers_ok w \<Longrightarrow> ship_ok w' \<and> customers_ok w'"
  by (auto simp: replenish_frame_def steps_frame_def ship_ok_def customers_ok_def)

lemma register_one:
  assumes o: "order_ok js w lg" and c: "customers_ok w" and run: "register_customer fake w = (Ok (), w')"
  shows "order_ok js w' lg \<and> customers_ok w' \<and> session_frame w w' \<and> w_shipments w' = w_shipments w \<and> w_products w' = w_products w"
proof -
  define cu where "cu = fake\<lparr>cust_id := w_pool_customer_id w + 1, cust_registered_on := -1\<rparr>"
  define w1 where "w1 = w\<lparr>w_pool_customer_id := w_pool_customer_id w + 1\<rparr>"
  obtain w2 where small: "w_pool_customer_id w + 1 < 2 ^ 31" and add: "add_step (AddCustomer cu) w1 = (Ok (), w2)"
    and w': "w' = w2\<lparr>w_customers := w_customers w2 @ [cu]\<rparr>"
    using run by (auto simp: register_customer_def new_customer_def bnd_Ok_iff i32_add_Ok cu_def w1_def split: if_splits)
  have w2: "w2 = w1\<lparr>w_steps := w_steps w1 @ [AddCustomer cu]\<rparr>" by (rule add_plain_step[OF _ add]) (simp add: plain_step_def)
  have "order_ok js (w\<lparr>w_steps := w_steps w @ [AddCustomer cu]\<rparr>) lg"
    by (rule order_plain_same_day[OF o]) (simp_all add: plain_step_def)
  then have "order_ok js w' lg" by (simp add: w' w2 w1_def order_ok_def order_pre_def taken_orders_def pending_idx_def return_ids_def)
  moreover have "customers_ok w'" using c small by (force simp: customers_ok_def w' w2 w1_def cu_def)
  moreover have "session_frame w w'" by (simp add: session_frame_def w' w2 w1_def)
  ultimately show ?thesis by (simp add: w' w2 w1_def)
qed

lemma register_rest_turn:
  assumes "register_rest lk w = (Ok (), w')"
  shows "\<exists>n cs. w' = w\<lparr>w_next_day_customers := n, w_customer_counts := cs\<rparr>"
proof (cases "w_current_day w < w_period w")
  case True
  then show ?thesis using assms by (auto simp: register_rest_def Let_def split: if_splits)
next
  case False
  then show ?thesis using assms by (intro exI[of _ "w_next_day_customers w"] exI[of _ "w_customer_counts w"]) (simp add: register_rest_def)
qed

lemma visitors_of_sessions: "list_all is_sessions js \<Longrightarrow> visitors js = [] \<and> logins js = []"
proof (induction js)
  case Nil
  then show ?case by simp
next
  case (Cons j js)
  have "is_sessions j \<Longrightarrow> job_visitors j = [] \<and> job_logins j = []" by (cases j) (auto simp: is_sessions_def)
  then show ?case using Cons by auto
qed

lemma chunked_Ok: "chunked n xs w = (Ok parts, w') \<longleftrightarrow> n \<noteq> 0 \<and> parts = chunks n xs \<and> w' = w"
  by (auto simp: chunked_def)

lemma place_orders_turn:
  assumes ok: "in_step AwaitReturns js w lg" and js: "list_all is_sessions js" and fair: "fair_luck lk w"
    and run: "place_orders lk w = (Ok parts, w')"
  shows "in_step AwaitOrders (js @ map (\<lambda>vs. Visits vs vs) parts) w' lg"
proof -
  let ?new = "map (\<lambda>vs. Visits vs vs) parts"
  obtain n where n: "n \<noteq> 0" "parts = chunks n (map (\<lambda>c. (cust_id c, lk_visit lk c)) (lk_order lk (w_customers w)))" and w': "w' = w"
  proof (cases "w_worker_count w = 0")
    case True
    then show ?thesis using run by (simp add: place_orders_def)
  next
    case False
    then show ?thesis using run that unfolding place_orders_def Let_def bnd_gets by (simp only: if_False chunked_Ok) blast
  qed
  have "visitors ?new = map fst (concat parts)" by (simp add: visitors_def comp_def map_concat)
  also have "\<dots> = map cust_id (lk_order lk (w_customers w))" unfolding n(2) by (simp add: concat_chunks[OF n(1)] comp_def)
  finally have v: "visitors ?new = map cust_id (lk_order lk (w_customers w))" .
  have m: "mset (lk_order lk (w_customers w)) = mset (w_customers w)" using fair by (simp add: fair_luck_def)
  have "distinct (map cust_id (lk_order lk (w_customers w))) = distinct (map cust_id (w_customers w))"
    by (rule mset_eq_imp_distinct_iff) (metis m mset_map)
  moreover have "set (lk_order lk (w_customers w)) = set (w_customers w)" using m by (metis set_mset_mset)
  ultimately have vis: "distinct (visitors ?new)" "\<forall>c \<in> set (visitors ?new). 1 \<le> c \<and> c < 2 ^ 31"
    using ok by (auto simp: v in_step_def customers_ok_def)
  have none: "in_hand ?new = []" "logins ?new = []" "\<Union> (job_idx ` set ?new) = {}" "\<Union> (job_returns ` set ?new) = {}"
    by (auto simp: in_hand_def logins_def comp_def)
  have "order_ok js w lg" using ok by (simp add: in_step_def)
  then have "order_ok (js @ ?new) w lg" by (rule order_ok_jobs) (use none in \<open>simp_all only: set_append image_Un Union_Un_distrib, simp_all\<close>)
  moreover have "session_ok AwaitOrders (js @ ?new) w lg"
    using ok vis none(1,2) visitors_of_sessions[OF js] unfolding in_step_def session_ok_def by (simp add: evening_def swept_def)
  ultimately show ?thesis using ok by (simp add: in_step_def w')
qed

lemma sweep_turn:
  assumes ok: "in_step AwaitSessions [] w lg" and run: "add_step CollectSessions w = (Ok (), w')"
  shows "\<exists>lg'. in_step AtProgress [] w' lg'"
proof -
  have o: "order_ok [] w lg" and s_ok: "session_ok AwaitSessions [] w lg" using ok by (simp_all add: in_step_def)
  have w': "w' = w\<lparr>w_steps := w_steps w @ [CollectSessions]\<rparr>" by (rule add_plain_step[OF _ run]) (simp add: plain_step_def)
  let ?m = "\<lambda>k. case lg_sessions lg k of Some s \<Rightarrow> if sess_expires_on s \<le> lg_day lg then None else Some s | None \<Rightarrow> None"
  let ?lg = "lg\<lparr>lg_sessions := ?m\<rparr>"
  have day: "lg_day lg = w_current_day w" by (rule order_okD(4)[OF o])
  have o': "order_ok [] w' ?lg" unfolding w' by (rule order_plain_same_day[OF o]) (simp_all add: plain_step_def)
  have less: "dom ?m \<subseteq> dom (lg_sessions lg)" by (auto split: option.splits if_splits)
  have sw: "swept AwaitSessions (w_current_day w) = w_current_day w - 1" "swept AtProgress (w_current_day w) = w_current_day w"
    by (simp_all add: swept_def evening_def)
  have "slots_ok (w_customer_sessions w) [] (lg_sessions lg) (w_current_day w - 1) (w_current_day w) (next_free w)"
    using s_ok sw by (simp add: session_ok_def)
  then have sl: "slots_ok (w_customer_sessions w) [] ?m (w_current_day w) (w_current_day w) (next_free w)"
    by (rule slots_ok_swept) (simp_all add: day)
  have "ids_ok (new_sessions (w_steps w)) [] (dom (lg_sessions lg)) (next_free w)" using s_ok by (simp add: session_ok_def)
  from ids_ok_later[OF this order_refl less] sl s_ok have "session_ok AtProgress [] w' ?lg"
    unfolding session_ok_def by (simp add: w' sw evening_def next_free_def day_unit_def)
  then show ?thesis using ok o' by (intro exI[of _ ?lg]) (simp add: in_step_def w')
qed

lemma main_turn:
  assumes ok: "in_step ph js w lg" and rd: "main_ready ph js" and fair: "fair_luck lk w" and run: "run_main lk ph w = (Ok (ph', new), w')"
  shows "\<exists>lg'. in_step ph' (js @ new) w' lg'"
proof -
  have o: "order_ok js w lg" and sc: "ship_ok w" "customers_ok w" using ok by (simp_all add: in_step_def)
  show ?thesis
  proof (cases ph)
    case AtDawn
    then show ?thesis using dawn_turn ok run by blast
  next
    case AtReplenish
    then have re: "replenish_inventory w = (Ok (), w')" and eq: "ph' = AtFulfill" "new = []" using run by (auto simp: bnd_Ok_iff)
    from replenish_order[OF o sc(1) re] obtain lg' where lg': "order_ok js w' lg'" "lg_sessions lg' = lg_sessions lg" "replenish_frame w w'"
      "new_sessions (w_steps w') = new_sessions (w_steps w)" by blast
    have "in_step ph' (js @ new) w' lg'"
      by (rule main_frame_turn[OF ok _ lg'(2) replenish_frame_session[OF lg'(3,4)]])
        (use lg' replenish_frame_keep[OF lg'(3) sc] in \<open>simp_all add: eq AtReplenish evening_def\<close>)
    then show ?thesis ..
  next
    case AtFulfill
    then obtain parts where fu: "fulfill_pending w = (Ok parts, w')" and eq: "ph' = AwaitPending" "new = map Shipping parts"
      using run by (auto simp: bnd_Ok_iff)
    from fulfill_order[OF o fu] obtain m where m: "order_ok (js @ new) w' lg" "w' = w\<lparr>w_pending_orders := m\<rparr>" by (auto simp: eq)
    have "in_step ph' (js @ new) w' lg"
      by (rule main_frame_turn[OF ok m(1) refl])
        (use sc in \<open>simp_all add: m(2) session_frame_def eq AtFulfill evening_def in_hand_def logins_def visitors_def comp_def ship_ok_def customers_ok_def\<close>)
    then show ?thesis ..
  next
    case AwaitPending
    then have eq: "ph' = AtRegister (w_next_day_customers w)" "new = []" "w' = w" using run by auto
    have "in_step ph' (js @ new) w' lg"
      by (rule main_frame_turn[OF ok _ refl]) (use o sc in \<open>simp_all add: eq AwaitPending session_frame_refl evening_def\<close>)
    then show ?thesis ..
  next
    case (AtRegister n)
    show ?thesis
    proof (cases n)
      case 0
      then have "register_rest lk w = (Ok (), w')" and eq: "ph' = AwaitReturns" "new = [Returning]" using run AtRegister by (auto simp: bnd_Ok_iff)
      from register_rest_turn[OF this(1)] obtain k cs where w': "w' = w\<lparr>w_next_day_customers := k, w_customer_counts := cs\<rparr>" by blast
      have "order_ok (js @ new) w lg" by (rule order_ok_jobs[OF o]) (auto simp: eq)
      then have "order_ok (js @ new) w' lg" by (simp add: w' order_ok_def order_pre_def taken_orders_def pending_idx_def return_ids_def)
      from main_frame_turn[OF ok this refl] have "in_step ph' (js @ new) w' lg"
        using sc by (simp add: w' eq AtRegister session_frame_def evening_def ship_ok_def customers_ok_def)
      then show ?thesis ..
    next
      case (Suc k)
      then have "register_customer (lk_customer lk k) w = (Ok (), w')" and eq: "ph' = AtRegister k" "new = []" using run AtRegister by (auto simp: bnd_Ok_iff)
      from register_one[OF o sc(2) this(1)] have r: "order_ok js w' lg" "customers_ok w'" "session_frame w w'" "w_shipments w' = w_shipments w" "w_products w' = w_products w"
        by simp_all
      have "in_step ph' (js @ new) w' lg"
        by (rule main_frame_turn[OF ok _ refl]) (use r sc in \<open>simp_all add: eq AtRegister evening_def ship_ok_def\<close>)
      then show ?thesis ..
    qed
  next
    case AwaitReturns
    then obtain parts where "place_orders lk w = (Ok parts, w')" "ph' = AwaitOrders" "new = map (\<lambda>vs. Visits vs vs) parts"
      using run by (auto simp: bnd_Ok_iff)
    then show ?thesis using place_orders_turn[of js w lg lk parts w'] ok rd fair AwaitReturns by (auto simp: main_ready_def)
  next
    case AwaitOrders
    then have os: "order_shipments lk False w = (Ok (), w')" and eq: "ph' = AwaitSessions" "new = []" using run by (auto simp: bnd_Ok_iff)
    from order_shipments_turn[OF os o sc(1)] have r: "order_ok js w' lg" "ship_ok w'" "ship_frame w w'" by simp_all
    have "customers_ok w'" using sc(2) r(3) by (auto simp: ship_frame_def customers_ok_def)
    then have "in_step ph' (js @ new) w' lg"
      by (intro main_frame_turn[OF ok _ refl]) (use r ship_frame_session in \<open>simp_all add: eq AwaitOrders evening_def\<close>)
    then show ?thesis ..
  next
    case AwaitSessions
    then have "add_step CollectSessions w = (Ok (), w')" "ph' = AtProgress" "new = []" "js = []" using run rd by (auto simp: bnd_Ok_iff main_ready_def)
    then show ?thesis using sweep_turn ok AwaitSessions by auto
  next
    case AtProgress
    then have lp: "log_progress w = (Ok (), w')" and eq: "ph' = AtDawn" "new = []" using run by (auto simp: bnd_Ok_iff)
    from log_progress_order[OF lp o] obtain sts where w': "order_ok js w' lg" "w' = w\<lparr>w_steps := w_steps w @ sts\<rparr>" "new_sessions sts = []" by blast
    have "session_ok ph' js w' lg"
      by (rule session_frame_ok[of ph js w lg]) (use ok w'(2,3) in \<open>auto simp: in_step_def session_frame_def eq AtProgress evening_def session_ok_def\<close>)
    then show ?thesis using w'(1,2) sc eq by (intro exI[of _ lg]) (simp add: in_step_def)
  next
    case AtEnd
    then show ?thesis using rd by (simp add: main_ready_def)
  qed
qed

section \<open>Before the first day\<close>

lemma stock_map_snoc:
  assumes "inv_wf stk" "inv_product_id v = int (length stk)" "0 \<le> inv_stock v" "inv_stock v < 2 ^ 63" "length stk + 1 < 2 ^ 31"
  shows "stock_map (stk @ [v]) = (stock_map stk)(int (length stk) \<mapsto> v)" "inv_wf (stk @ [v])"
  using assms by (auto simp: stock_map_def inv_wf_def fun_eq_iff nth_append)

lemma init_product_turn:
  assumes ok: "in_step AtDawn [] w lg" and run: "init_product lk (int (length (w_products w))) w = (Ok (), w')"
    and n: "length (w_products w) + 1 < 2 ^ 31"
  shows "\<exists>lg'. in_step AtDawn [] w' lg' \<and> length (w_products w') = length (w_products w) + 1"
proof -
  let ?n = "length (w_products w)"
  have o: "order_ok [] w lg" and s_ok: "session_ok AtDawn [] w lg" using ok by (simp_all add: in_step_def)
  note D = order_okD[OF o]
  define W where "W = wait_of (w_backorders w)"
  define P where "P = pending_idx w"
  define R where "R = return_ids w"
  have t: "tally_of w W P R lg" using D(1) by (simp add: W_def P_def R_def)
  obtain p v where p: "prod_id p = int ?n" "prod_views p = 0" and v: "inv_product_id v = int ?n" "inv_stock v = 0"
    and run: "bnd (add_step (AddProduct p)) (\<lambda>_. bnd (modify (\<lambda>w. w\<lparr>w_products := w_products w @ [p], w_inventory := w_inventory w @ [v]\<rparr>)) (\<lambda>_.
       add_step (AddInventoryRecord v))) w = (Ok (), w')"
  proof -
    obtain plan days where pl: "lk_plan lk (int ?n) = (plan, days)" by fastforce
    show ?thesis
      by (rule that[of "plan\<lparr>prod_id := int ?n, prod_name := ''Product '' @ decimal (nat (int ?n)), prod_views := 0\<rparr>"
            "inventory_new (int ?n) 0 (int (min days 255))"])
        (use run in \<open>simp_all add: init_product_def pl inventory_new_def Let_def\<close>)
  qed
  obtain w1 where a1: "add_step (AddProduct p) w = (Ok (), w1)"
    and a2: "add_step (AddInventoryRecord v) (w1\<lparr>w_products := w_products w1 @ [p], w_inventory := w_inventory w1 @ [v]\<rparr>) = (Ok (), w')"
    using run by (auto simp: bnd_Ok_iff)
  have w1: "w1 = w\<lparr>w_steps := w_steps w @ [AddProduct p]\<rparr>" by (rule add_plain_step[OF _ a1]) (simp add: plain_step_def)
  have w': "w' = w\<lparr>w_products := w_products w @ [p], w_inventory := w_inventory w @ [v], w_steps := w_steps w @ [AddProduct p] @ [AddInventoryRecord v]\<rparr>"
    using add_plain_step[OF _ a2] by (simp add: plain_step_def w1)
  note T = tallyD[OF t]
  have none: "lg_products lg (int ?n) = None" "lg_inventory lg (int ?n) = None"
    using T(5) T(2) D(2) by (auto simp: stock_map_def)
  define lg1 where "lg1 = lg\<lparr>lg_products := (lg_products lg)(int ?n \<mapsto> p)\<rparr>"
  define lg2 where "lg2 = lg1\<lparr>lg_inventory := (lg_inventory lg)(int ?n \<mapsto> v)\<rparr>"
  have e1: "script_effect (AddProduct p) lg = Some lg1" and e2: "script_effect (AddInventoryRecord v) lg1 = Some lg2"
    using none p v by (simp_all add: lg1_def lg2_def)
  have "dom (lg_products lg1) = {0..<int (?n + 1)}" using T(5) by (auto simp: lg1_def)
  moreover have "0 \<le> prod_views u \<and> prod_views u \<le> int (length (w_steps w)) + 1" if "lg_products lg1 k = Some u" for k u
    using that T(6)[of k u] p(2) by (auto simp: lg1_def split: if_splits)
  ultimately have t1: "tally (w_steps w @ [AddProduct p]) (w_inventory w) (w_current_day w) (?n + 1) W P R lg1"
    using tally_other[OF t e1, of "?n + 1"] T(4) by (simp add: lg1_def)
  note T1 = tallyD[OF t1]
  have sm: "stock_map (w_inventory w @ [v]) = (stock_map (w_inventory w))(int ?n \<mapsto> v)" "inv_wf (w_inventory w @ [v])"
    using stock_map_snoc[OF T(3), of v] v n D(2) by simp_all
  have "tally ((w_steps w @ [AddProduct p]) @ [AddInventoryRecord v]) (w_inventory w @ [v]) (lg_day lg2) (?n + 1) W P R lg2"
  proof (rule tally_snoc[OF t1 e2 _ sm(2), where X = "{}"])
    show "lg_inventory lg2 = stock_map (w_inventory w @ [v])" using T(2) by (simp add: lg2_def lg1_def sm(1))
    show "0 \<le> prod_views u \<and> prod_views u \<le> int (length (w_steps w @ [AddProduct p])) + 1" if "lg_products lg2 k = Some u" for k u
      using that T1(6)[of k u] by (simp add: lg2_def)
  qed (use T1(5,7) in \<open>simp_all add: lg2_def new_orders_def\<close>)
  then have "order_ok [] w' lg2"
    using D(2,3) D(6)[unfolded taken_orders_def] T(4) p(1) waiting_append[OF t subset_refl, of "[AddProduct p, AddInventoryRecord v]"]
    by (simp add: order_ok_def order_pre_def taken_orders_def w' W_def P_def R_def pending_idx_def return_ids_def lg2_def lg1_def nth_append less_Suc_eq)
  moreover have "session_ok AtDawn [] w' lg2"
    by (rule session_frame_ok[OF s_ok]) (simp_all add: session_frame_def w' lg2_def lg1_def)
  moreover have "ship_ok w'" "customers_ok w'" using ok by (fastforce simp: in_step_def ship_ok_def customers_ok_def w')+
  ultimately show ?thesis by (intro exI[of _ lg2]) (simp add: in_step_def w')
qed

lemma init_products_all:
  "for_each (init_product lk) [int (length (w_products w))..n - 1] w = (Ok (), w') \<Longrightarrow> in_step AtDawn [] w lg \<Longrightarrow>
     int (length (w_products w)) \<le> n \<Longrightarrow> n < 2 ^ 31 \<Longrightarrow> \<exists>lg'. in_step AtDawn [] w' lg'"
proof (induction "nat n - length (w_products w)" arbitrary: w lg)
  case 0
  then have "[int (length (w_products w))..n - 1] = []" by simp
  then show ?case using 0 by auto
next
  case (Suc k)
  let ?n = "int (length (w_products w))"
  have less: "?n < n" using Suc(2) by linarith
  then have "[?n..n - 1] = ?n # [?n + 1..n - 1]" by (simp add: upto.simps)
  then obtain w1 where one: "init_product lk ?n w = (Ok (), w1)" and rest: "for_each (init_product lk) [?n + 1..n - 1] w1 = (Ok (), w')"
    using Suc.prems(1) by (auto simp: bnd_Ok_iff)
  obtain lg1 where lg1: "in_step AtDawn [] w1 lg1" "length (w_products w1) = length (w_products w) + 1"
    using init_product_turn[OF Suc.prems(2) one] less Suc.prems(4) by auto
  show ?case
    by (rule Suc(1)[OF _ _ lg1(1)]) (use lg1(2) rest less Suc(2) Suc.prems(4) in \<open>simp_all add: add.commute\<close>)
qed

lemma register_all:
  "for_each register_customer fs w = (Ok (), w') \<Longrightarrow> in_step AtDawn [] w lg \<Longrightarrow> in_step AtDawn [] w' lg"
proof (induction fs arbitrary: w)
  case Nil
  then show ?case by simp
next
  case (Cons f fs)
  obtain w1 where one: "register_customer f w = (Ok (), w1)" and rest: "for_each register_customer fs w1 = (Ok (), w')"
    using Cons.prems(1) by (auto simp: bnd_Ok_iff)
  have "order_ok [] w lg" "customers_ok w" using Cons.prems(2) by (simp_all add: in_step_def)
  from register_one[OF this one] have r: "order_ok [] w1 lg" "customers_ok w1" "session_frame w w1" "w_shipments w1 = w_shipments w"
    "w_products w1 = w_products w" by simp_all
  have "session_ok AtDawn [] w1 lg" by (rule session_frame_ok[OF _ r(3) refl, of _ "[]"]) (use Cons.prems(2) in \<open>simp_all add: in_step_def\<close>)
  then have "in_step AtDawn [] w1 lg" using r Cons.prems(2) by (simp add: in_step_def ship_ok_def)
  from Cons.IH[OF rest this] show ?case .
qed

lemma blank_in_step: "in_step AtDawn [] (writer_new period customers capacity products workers) blank_page"
proof -
  let ?w = "writer_new period customers capacity products workers"
  have "order_ok [] ?w blank_page"
    by (simp add: order_ok_def order_pre_def taken_orders_def tally_def writer_new_def blank_page_def inv_wf_def stock_map_def new_orders_def wait_of_def pending_idx_def return_ids_def fun_eq_iff)
  moreover have "session_ok AtDawn [] ?w blank_page"
    by (simp add: session_ok_def ids_ok_def slots_ok_def writer_new_def blank_page_def evening_def)
  ultimately show ?thesis by (simp add: in_step_def ship_ok_def customers_ok_def writer_new_def)
qed

lemma prologue_turn:
  assumes n: "products < 2 ^ 31" and run: "prologue lk (writer_new period customers capacity products workers) = (Ok (), w')"
  shows "\<exists>lg. in_step AtDawn [] w' lg"
proof -
  define w0 where "w0 = writer_new period customers capacity products workers"
  obtain title w1 w2 w3 w4 where a: "add_step (Title title) w0 = (Ok (), w1)" and ip: "init_products lk w1 = (Ok (), w2)"
    and rc: "for_each register_customer (map (lk_customer lk) (rev [0..<w_next_day_customers w0])) w2 = (Ok (), w3)"
    and rr: "register_rest lk w3 = (Ok (), w4)" and os: "order_shipments lk True w4 = (Ok (), w')"
    using run unfolding prologue_def w0_def[symmetric] by (auto simp: bnd_Ok_iff)
  have w1: "w1 = w0\<lparr>w_steps := w_steps w0 @ [Title title]\<rparr>" by (rule add_plain_step[OF _ a]) (simp add: plain_step_def)
  have s0: "in_step AtDawn [] w0 blank_page" unfolding w0_def by (rule blank_in_step)
  define w1b where "w1b = w1\<lparr>w_backorders := replicate (as_usize products) []\<rparr>"
  have "order_ok [] w1 blank_page" unfolding w1 by (rule order_plain_same_day[of _ _ blank_page]) (use s0 in \<open>simp_all add: in_step_def plain_step_def\<close>)
  moreover have "wait_of (replicate k []) = []" "wait_of [] = []" "w_backorders w1 = []" for k by (auto simp: wait_of_def w1 w0_def writer_new_def)
  ultimately have "order_ok [] w1b blank_page" by (simp add: order_ok_def order_pre_def taken_orders_def w1b_def pending_idx_def return_ids_def)
  moreover have "session_ok AtDawn [] w1b blank_page"
    by (rule session_frame_ok[of AtDawn "[]" w0 blank_page]) (use s0 in \<open>simp_all add: in_step_def session_frame_def w1b_def w1\<close>)
  moreover have "ship_ok w1b" "customers_ok w1b" by (simp_all add: w1b_def w1 w0_def ship_ok_def customers_ok_def writer_new_def)
  ultimately have s1: "in_step AtDawn [] w1b blank_page" by (simp add: in_step_def)
  have p: "w_products w1b = []" by (simp add: w1b_def w1 w0_def writer_new_def)
  have pc: "w_product_count w1 = products" by (simp add: w1 w0_def writer_new_def)
  have fe: "for_each (init_product lk) [0..products - 1] w1b = (Ok (), w2)" using ip by (simp add: init_products_def pc w1b_def)
  obtain lg where s2: "in_step AtDawn [] w2 lg"
  proof (cases "0 \<le> products")
    case True
    then show ?thesis using init_products_all[of lk w1b products w2 blank_page] that fe s1 n by (auto simp: p)
  next
    case False
    then have "w2 = w1b" using fe by simp
    then show ?thesis using that s1 by blast
  qed
  have s3: "in_step AtDawn [] w3 lg" by (rule register_all[OF rc s2])
  obtain k cs where w4: "w4 = w3\<lparr>w_next_day_customers := k, w_customer_counts := cs\<rparr>" using register_rest_turn[OF rr] by blast
  have "session_ok AtDawn [] w4 lg"
    by (rule session_frame_ok[of AtDawn "[]" w3 lg]) (use s3 in \<open>simp_all add: in_step_def session_frame_def w4\<close>)
  then have s4: "in_step AtDawn [] w4 lg"
    using s3 by (simp add: in_step_def w4 order_ok_def order_pre_def taken_orders_def pending_idx_def return_ids_def ship_ok_def customers_ok_def)
  have r: "order_ok [] w' lg" "ship_ok w'" "ship_frame w4 w'" using order_shipments_turn[OF os, of "[]" lg] s4 by (simp_all add: in_step_def)
  have "session_ok AtDawn [] w' lg"
    by (rule session_frame_ok[OF _ ship_frame_session[OF r(3)] refl, of _ "[]"]) (use s4 in \<open>simp_all add: in_step_def\<close>)
  moreover have "customers_ok w'" using s4 r(3) by (auto simp: in_step_def customers_ok_def ship_frame_def)
  ultimately show ?thesis using r by (intro exI[of _ lg]) (simp add: in_step_def)
qed

section \<open>The whole script\<close>

lemma script_in_step:
  assumes "script_written (writer_new period customers capacity products workers) ph js w" "products < 2 ^ 31"
  shows "\<exists>lg. in_step ph js w lg"
  using assms(1)
proof (induction rule: script_written.induct)
  case (script_prologue lk w)
  then show ?case using prologue_turn[OF assms(2)] by blast
next
  case (script_main ph js w lk ph' new w')
  then show ?case using main_turn by blast
next
  case (script_job ph xs j ys w new w')
  then show ?case using job_turn by blast
qed

section \<open>The queues of backorders\<close>

text \<open>The orders in the queues of backorders, in the order of the products.\<close>

definition queued_orders :: "writer \<Rightarrow> 128 word option list" where
  "queued_orders w = map (\<lambda>i. map_option ord_id (order_at (w_steps w) i)) (concat (w_backorders w))"

lemma wait_of_indices: "map snd (wait_of bs) = concat bs"
proof -
  have "map snd (wait_of bs) = concat (map (\<lambda>p. bs ! p) [0..<length bs])"
    by (simp add: wait_of_def map_concat comp_def)
  then show ?thesis by (simp add: map_nth)
qed

lemma queues_exact:
  assumes "order_ok js w lg"
  shows "distinct (queued_orders w) \<and> set (queued_orders w) = Some ` (set (new_orders (w_steps w)) - dom (lg_booked lg))"
proof -
  note D = order_okD[OF assms]
  let ?W = "wait_of (w_backorders w)"
  have eq: "queued_orders w = map (\<lambda>(p, i). map_option ord_id (order_at (w_steps w) i)) ?W"
    unfolding queued_orders_def wait_of_indices[symmetric] by (simp add: comp_def split_def)
  have at: "\<exists>a. order_at (w_steps w) i = Some a" if "(p, i) \<in> set ?W" for p i
    using tallyD(9)[OF D(1) that] by blast
  have "set (queued_orders w) = Some ` waiting (w_steps w) ?W"
  proof (rule set_eqI)
    fix x
    show "x \<in> set (queued_orders w) \<longleftrightarrow> x \<in> Some ` waiting (w_steps w) ?W"
    proof
      assume "x \<in> set (queued_orders w)"
      then obtain p i where i: "(p, i) \<in> set ?W" "x = map_option ord_id (order_at (w_steps w) i)" unfolding eq by auto
      from at[OF i(1)] obtain a where "order_at (w_steps w) i = Some a" ..
      then show "x \<in> Some ` waiting (w_steps w) ?W" using i by (auto simp: waiting_def)
    next
      assume "x \<in> Some ` waiting (w_steps w) ?W"
      then obtain p i a where "(p, i) \<in> set ?W" "order_at (w_steps w) i = Some a" "x = Some (ord_id a)" by (auto simp: waiting_def)
      then show "x \<in> set (queued_orders w)" unfolding eq by force
    qed
  qed
  moreover have "waiting (w_steps w) ?W = known_orders lg - dom (lg_booked lg)"
    using D(6) waiting_known[OF D(1)] unfolding taken_orders_def by blast
  ultimately show ?thesis using tallyD(7,10)[OF D(1)] eq by simp
qed

text \<open>
  Two orders that are looked at again and still have to wait go to the front one after the other, so
  that the later one comes first.
\<close>

lemma rechecked_orders_change_places:
  assumes "add_steps [UpdateOrder a, UpdateOrder b] w = (Ok (), w')"
    and "ord_status a = Recheck" "ord_status b = Recheck" "ord_product_id a = int p" "ord_product_id b = int p"
    and p: "p < length (w_inventory w)" "p < length (w_backorders w)" "p < 2 ^ 31"
    and "inv_stock (w_inventory w ! p) < ord_quantity a" "inv_stock (w_inventory w ! p) < ord_quantity b"
  shows "w_backorders w' ! p = Suc (length (w_steps w)) # length (w_steps w) # w_backorders w ! p"
proof -
  have "as_usize (int p) = p" using p(3) by (simp add: as_usize_def)
  then show ?thesis
    using assms by (auto simp: add_steps_def process_order_def process_order_of_def queue_backorder_def at_index_def Let_def bnd_Ok_iff split: if_splits)
qed
end
