(* ===== verification/ScriptErrors.thy ===== *)
theory ScriptErrors
  imports WrittenScripts
begin

text \<open>
  The errors of the script writer's own: none of them can happen. Only the distribution of a
  customer's purchases may fail.
\<close>

section \<open>Programs without errors\<close>

definition errs_in :: "'e set \<Rightarrow> ('s, 'e, 'a) prog \<Rightarrow> 's \<Rightarrow> bool" where
  "errs_in E m s \<longleftrightarrow> (\<forall>e t. m s = (Fail e, t) \<longrightarrow> e \<in> E)"

lemma errs_in_bnd: "errs_in E m s \<Longrightarrow> (\<And>a t. m s = (Ok a, t) \<Longrightarrow> errs_in E (f a) t) \<Longrightarrow> errs_in E (bnd m f) s"
  unfolding errs_in_def by (auto simp: bnd_Fail_iff)

lemma errs_in_unit [simp]:
  "errs_in E (ret a) s" "errs_in E (panic msg) s" "errs_in E (gets g) s" "errs_in E (modify h) s" "errs_in E waits s"
  by (simp_all add: errs_in_def)

lemma errs_in_free: "(\<And>e t. m s \<noteq> (Fail e, t)) \<Longrightarrow> errs_in E m s"
  by (simp add: errs_in_def)

lemma errs_in_always:
  "errs_in E (i32_add a b) s" "errs_in E (i64_add a b) s" "errs_in E (at_index xs i) s" "errs_in E (chunked n ys) s" "errs_in E (push_step st) w"
  by (auto simp: errs_in_def i32_add_def i64_add_def at_index_def chunked_def push_step_def split: if_splits)

lemma errs_in_for_each: "(\<And>x s. errs_in E (f x) s) \<Longrightarrow> errs_in E (for_each f xs) s"
  by (induction xs arbitrary: s) (auto intro: errs_in_bnd)

lemma errs_in_collect: "(\<And>x s. errs_in E (f x) s) \<Longrightarrow> errs_in E (collect f xs) s"
  by (induction xs arbitrary: s) (auto intro!: errs_in_bnd)

section \<open>Adding steps\<close>

text \<open>The orders that ask for stock are for products of the inventory.\<close>

definition in_stock_list :: "nat \<Rightarrow> step \<Rightarrow> bool" where
  "in_stock_list m st \<longleftrightarrow> (\<forall>a. st = AddOrder a \<or> st = UpdateOrder a \<longrightarrow> ord_status a = New \<or> ord_status a = Recheck \<longrightarrow>
     0 \<le> ord_product_id a \<and> ord_product_id a < int m)"

lemma process_order_of_keeps: "process_order_of a w = (Ok (a', pp), w') \<Longrightarrow> length (w_inventory w') = length (w_inventory w)"
  by (auto simp: process_order_of_def fill_order_def i32_add_def i64_add_def Let_def split: if_splits)

lemma fill_order_errs: "errs_in E (fill_order a stk i) w"
  unfolding fill_order_def Let_def by (intro errs_in_bnd errs_in_always errs_in_unit) (auto intro!: errs_in_bnd simp: errs_in_always split: if_splits)

lemma process_order_of_errs:
  assumes "ord_status a = New \<or> ord_status a = Recheck \<Longrightarrow> 0 \<le> ord_product_id a \<and> ord_product_id a < int (length (w_inventory w))"
    and "length (w_inventory w) < 2 ^ 31"
  shows "errs_in E (process_order_of a) w"
proof (cases "ord_status a = New \<or> ord_status a = Recheck")
  case True
  then have "as_usize (ord_product_id a) = nat (ord_product_id a)" "nat (ord_product_id a) < length (w_inventory w)"
    using assms by (auto intro!: as_usize_index)
  then show ?thesis using True fill_order_errs[of E a "w_inventory w" "nat (ord_product_id a)" w]
    by (auto simp: errs_in_def process_order_of_def Let_def split: if_splits)
next
  case False
  then show ?thesis by (auto simp: errs_in_def process_order_of_def)
qed

lemma push_steps_errs:
  "list_all (in_stock_list (length (w_inventory w))) sts \<Longrightarrow> length (w_inventory w) < 2 ^ 31 \<Longrightarrow> errs_in E (push_steps sts acc) w"
proof (induction sts arbitrary: acc w)
  case Nil
  then show ?case by (simp add: errs_in_def)
next
  case (Cons st sts)
  obtain pe ag ne where acc: "acc = (pe, ag, ne)" by (cases acc) auto
  have st: "errs_in E (case st of AddOrder _ \<Rightarrow> process_order st | UpdateOrder _ \<Rightarrow> process_order st | _ \<Rightarrow> ret (st, PostNone)) w"
    using Cons.prems by (cases st) (auto simp: process_order_def in_stock_list_def intro!: errs_in_bnd process_order_of_errs)
  have len: "length (w_inventory w1) = length (w_inventory w)"
    if "(case st of AddOrder _ \<Rightarrow> process_order st | UpdateOrder _ \<Rightarrow> process_order st | _ \<Rightarrow> ret (st, PostNone)) w = (Ok x, w1)" for x w1
    using that by (cases st) (auto simp: process_order_def dest: process_order_of_keeps)
  have IH: "errs_in E (push_steps sts acc1) w1" if "length (w_inventory w1) = length (w_inventory w)" for acc1 w1
    using Cons.IH[of w1 acc1] Cons.prems that by simp
  show ?case
    unfolding acc push_steps.simps
  proof (rule errs_in_bnd[OF st], clarify)
    fix st' pp w1
    assume "(case st of AddOrder _ \<Rightarrow> process_order st | UpdateOrder _ \<Rightarrow> process_order st | _ \<Rightarrow> ret (st, PostNone)) w = (Ok (st', pp), w1)"
    note l = len[OF this]
    show "errs_in E (bnd (push_step st') (\<lambda>step_idx. case pp of
         PostPending day \<Rightarrow> push_steps sts (pe @ [(day, step_idx)], ag, ne)
       | PostBackorderNew product_id \<Rightarrow> push_steps sts (pe, ag, ne @ [(product_id, step_idx)])
       | PostBackorderAgain product_id \<Rightarrow> push_steps sts (pe, ag @ [(product_id, step_idx)], ne)
       | PostShipping order \<Rightarrow> bnd (push_step (UpdateOrder order)) (\<lambda>_. push_steps sts (pe, ag, ne))
       | PostNone \<Rightarrow> push_steps sts (pe, ag, ne))) w1"
      by (rule errs_in_bnd[OF errs_in_always(5)], cases pp) (auto simp: l intro!: IH errs_in_bnd errs_in_always)
  qed
qed

lemma queue_errs: "errs_in E (for_each queue_pending pe) w" "errs_in E (for_each (queue_backorder put) bs) w"
  by (intro errs_in_for_each, auto simp: queue_pending_def queue_backorder_def intro!: errs_in_bnd errs_in_always split: prod.splits)+

lemma add_steps_errs:
  assumes "list_all (in_stock_list (length (w_inventory w))) sts" "length (w_inventory w) < 2 ^ 31"
  shows "errs_in E (add_steps sts) w"
  unfolding add_steps_def using push_steps_errs[OF assms] queue_errs
  by (intro errs_in_bnd) (auto intro!: errs_in_bnd queue_errs)

lemma push_plain_errs: "list_all plain_step sts \<Longrightarrow> errs_in E (push_steps sts acc) w"
proof (induction sts arbitrary: acc w)
  case Nil
  then show ?case by (simp add: errs_in_def)
next
  case (Cons st sts)
  obtain pe ag ne where acc: "acc = (pe, ag, ne)" by (cases acc) auto
  have plain: "(case st of AddOrder _ \<Rightarrow> process_order st | UpdateOrder _ \<Rightarrow> process_order st | _ \<Rightarrow> ret (st, PostNone)) = ret (st, PostNone)"
    using Cons.prems by (cases st) (simp_all add: plain_step_def)
  show ?case unfolding acc push_steps.simps plain using Cons by (auto intro!: errs_in_bnd errs_in_always(5))
qed

lemma add_step_errs: "plain_step st \<Longrightarrow> errs_in E (add_step st) w"
  unfolding add_step_def add_steps_def by (intro errs_in_bnd push_plain_errs) (auto intro!: errs_in_bnd queue_errs)

section \<open>The turns\<close>

lemmas errs_intros = errs_in_bnd errs_in_always errs_in_unit

lemma next_session_id_errs: "errs_in E next_session_id w"
  unfolding next_session_id_def session_base_def build_session_base_def Let_def
  by (intro errs_intros; auto intro!: errs_intros split: option.splits)+

lemma login_errs: "errs_in E (customer_login c) w"
proof -
  have new: "errs_in E (new_session i c d) w" for i d w
    unfolding new_session_def Let_def by (intro errs_in_bnd next_session_id_errs errs_in_unit)
  have old: "errs_in E (bnd (modify (\<lambda>w. w\<lparr>w_customer_sessions := (w_customer_sessions w)[i := Some s]\<rparr>)) (\<lambda>_.
      bnd (add_step (UpdateSession s)) (\<lambda>_. ret None))) w" for i s
    by (rule errs_in_bnd[OF errs_in_unit(4)]) (auto intro!: errs_in_bnd add_step_errs simp: plain_step_def)
  show ?thesis
    unfolding customer_login_def Let_def
    by (auto intro!: errs_intros new old simp: at_index_def i32_add_def split: option.splits if_splits)
qed

lemma buy_products_errs: "errs_in E (buy_products c its) w"
proof (induction its arbitrary: w)
  case Nil
  then show ?case by (simp add: errs_in_def)
next
  case (Cons x its)
  obtain k it where x: "x = (k, it)" by fastforce
  show ?case
    unfolding x buy_products.simps Let_def
    by (auto intro!: errs_in_bnd Cons.IH errs_in_always(1) split: option.splits prod.splits)
qed

lemma buy_all_errs: "errs_in E (buy_all vs) w"
proof (induction vs arbitrary: w)
  case Nil
  then show ?case by (simp add: errs_in_def)
next
  case (Cons x vs)
  obtain c v where x: "x = (c, v)" by fastforce
  show ?case unfolding x buy_all.simps by (auto intro!: errs_in_bnd Cons.IH buy_products_errs split: prod.splits)
qed

lemma shipping_errs:
  assumes "\<And>i. i \<in> set l \<Longrightarrow> \<exists>a. order_at (w_steps w) i = Some a"
  shows "errs_in E (collect (\<lambda>i. bnd (order_by_idx i) (\<lambda>order. ret (UpdateOrder (order\<lparr>ord_status := Shipped\<rparr>)))) l) w"
  using assms
proof (induction l)
  case Nil
  then show ?case by (simp add: errs_in_def)
next
  case (Cons i l)
  obtain a where "order_by_idx i w = (Ok a, w)" using Cons.prems[of i] by auto
  then show ?case using Cons.IH Cons.prems by (auto intro!: errs_in_bnd simp: errs_in_def bnd_Fail_iff)
qed

lemma job_errs:
  assumes ok: "in_step ph (xs @ j # ys) w lg"
  shows "errs_in {''Poisson''} (run_job j) w"
proof -
  have o: "order_ok (xs @ j # ys) w lg" using ok by (simp add: in_step_def)
  note D = order_okD[OF o]
  have len: "length (w_inventory w) < 2 ^ 31" using D(2,5) by simp
  show ?thesis
  proof (cases j)
    case (Sessions n)
    then show ?thesis
      by (cases n) (auto simp: stub_session_def errs_in_def[of _ "ret _"] intro!: errs_in_bnd next_session_id_errs errs_in_always(1))
  next
    case (StubInHand s n)
    then show ?thesis using len by (auto intro!: errs_in_bnd add_step_errs simp: plain_step_def)
  next
    case (Visits vs customers)
    show ?thesis
    proof (cases vs)
      case Nil
      then show ?thesis using Visits by (simp add: errs_in_def)
    next
      case (Cons x rest)
      obtain c v where x: "x = (c, v)" by fastforce
      show ?thesis
        unfolding Visits Cons x run_job.simps
        using len by (cases "vi_purchases v") (auto intro!: errs_in_bnd login_errs simp: errs_in_def[of _ "throw _"])
    qed
  next
    case (LoginInHand s vs customers)
    then show ?thesis using len by (auto intro!: errs_in_bnd add_step_errs simp: plain_step_def)
  next
    case (Buying vs)
    have ids: "prod_id v \<in> {0..<int (length (w_products w))}" if "v \<in> set (w_products w)" for v
      using that D(3) by (auto simp: in_set_conv_nth)
    have "errs_in {''Poisson''} (add_steps sts) w1" if "buy_all vs w = (Ok (sts, plan), w1)" for sts plan w1
    proof -
      have b: "w1 = w" "\<forall>st \<in> set sts. purchase_step {0..<int (length (w_products w))} st" using buy_all_Ok[OF that ids] by auto
      show ?thesis unfolding b(1)
        by (rule add_steps_errs[OF _ len]) (use b(2) D(2) in \<open>auto simp: list_all_iff in_stock_list_def purchase_step_def\<close>)
    qed
    then show ?thesis unfolding Buying run_job.simps by (intro errs_in_bnd[OF buy_all_errs]) (auto intro!: errs_in_bnd)
  next
    case (Planning plan)
    then show ?thesis by (auto intro!: errs_in_bnd)
  next
    case Returning
    have "errs_in E task_returns w" for E
    proof (cases "w_returns w (w_current_day w)")
      case None
      then show ?thesis by (simp add: errs_in_def task_returns_def add_steps_def)
    next
      case (Some todays)
      have "errs_in E (add_steps (map (\<lambda>order. UpdateOrder (order_from (order\<lparr>swo_status := Refunded\<rparr>))) todays)) w1"
        if "w_inventory w1 = w_inventory w" for w1
        by (rule add_steps_errs) (use len that in \<open>auto simp: list_all_iff in_stock_list_def order_from_def\<close>)
      from this[of "w\<lparr>w_returns := (w_returns w)(w_current_day w := None)\<rparr>"] show ?thesis
        using Some unfolding errs_in_def task_returns_def by simp
    qed
    then show ?thesis using Returning by (auto intro!: errs_in_bnd)
  next
    case (Shipping l)
    have at: "\<exists>a. order_at (w_steps w) i = Some a" if "i \<in> set l" for i
      using tallyD(11)[OF D(1), of i] that Shipping by auto
    have "errs_in E (add_steps sts) w1"
      if "collect (\<lambda>i. bnd (order_by_idx i) (\<lambda>order. ret (UpdateOrder (order\<lparr>ord_status := Shipped\<rparr>)))) l w = (Ok sts, w1)" for E sts w1
    proof -
      have "w1 = w" "\<forall>st \<in> set sts. \<exists>a. st = UpdateOrder (a\<lparr>ord_status := Shipped\<rparr>)" using collect_shipped[OF that] by blast+
      then show ?thesis using len by (intro add_steps_errs) (auto simp: list_all_iff in_stock_list_def)
    qed
    then have "errs_in E (task_pending l) w" for E
      unfolding task_pending_def by (intro errs_in_bnd[OF shipping_errs[OF at]]) auto
    then show ?thesis using Shipping by (auto intro!: errs_in_bnd)
  qed
qed

lemma recheck_queue_errs:
  assumes "\<And>i. i \<in> set l \<Longrightarrow> \<exists>a. order_at (w_steps w) i = Some a \<and> ord_product_id a = int p" "p < 2 ^ 31"
  shows "errs_in E (recheck_backorders p stock l) w"
  using assms(1)
proof (induction l)
  case Nil
  then show ?case by (simp add: errs_in_def)
next
  case (Cons i l)
  obtain a where a: "order_by_idx i w = (Ok a, w)" "ord_product_id a = int p" using Cons.prems[of i] by auto
  have p: "as_i32 (int p) = int p" unfolding as_i32_def using assms(2) by (intro signed_take_bit_int_eq_self) simp_all
  have "errs_in E (recheck_backorders p stock l) w" using Cons by simp
  then have "errs_in E (bnd (recheck_backorders p stock l) (\<lambda>(sts, rest). ret (UpdateOrder (a\<lparr>ord_status := Recheck\<rparr>) # sts, rest))) w"
    by (auto intro!: errs_in_bnd)
  then show ?case using a p by (simp add: errs_in_def)
qed

lemma recheck_all_errs:
  assumes "\<And>p i. (p, i) \<in> set (wait_of (w_backorders w)) \<Longrightarrow> \<exists>a. order_at (w_steps w) i = Some a \<and> ord_product_id a = p"
    and "\<And>p. p \<in> set ps \<Longrightarrow> p < 2 ^ 31"
  shows "errs_in E (collect recheck_product ps) w"
  using assms
proof (induction ps arbitrary: w)
  case Nil
  then show ?case by (simp add: errs_in_def)
next
  case (Cons p ps)
  have q: "\<exists>a. order_at (w_steps w) i = Some a \<and> ord_product_id a = int p" if "p < length (w_backorders w)" "i \<in> set (w_backorders w ! p)" for i
    using Cons.prems(1)[of "int p" i] that by (force simp: wait_of_def)
  have one: "errs_in E (recheck_product p) w"
  proof (cases "length (w_backorders w) \<le> p")
    case True
    then show ?thesis by (simp add: errs_in_def recheck_product_def)
  next
    case False
    then have "errs_in E (recheck_backorders p stock (w_backorders w ! p)) w" for stock
      using q Cons.prems(2)[of p] by (intro recheck_queue_errs) auto
    then show ?thesis using False unfolding recheck_product_def
      by (auto intro!: errs_in_bnd[OF errs_in_unit(3)] errs_in_bnd[OF errs_in_always(3)] errs_in_bnd simp: at_index_def split: if_splits)
  qed
  have "errs_in E (collect recheck_product ps) w1" if run: "recheck_product p w = (Ok sts, w1)" for sts w1
  proof -
    obtain bs popped where b: "w1 = w\<lparr>w_backorders := bs\<rparr>" "length bs = length (w_backorders w)"
      "mset (wait_of (w_backorders w)) = mset popped + mset (wait_of bs)" using recheck_one[OF run] by blast
    have "set (wait_of bs) \<subseteq> set (wait_of (w_backorders w))" using arg_cong[OF b(3), of set_mset] by simp
    then show ?thesis by (intro Cons.IH) (use b(1,2) Cons.prems in auto)
  qed
  then show ?case by (auto intro!: errs_in_bnd one)
qed

lemma receive_one_keeps:
  "receive_shipment s w = (Ok x, w') \<Longrightarrow> plain_step (snd x) \<and> fst x < length (w_inventory w) \<and> length (w_inventory w') = length (w_inventory w) \<and>
     w_backorders w' = w_backorders w \<and> w_steps w' = w_steps w"
  by (auto simp: receive_shipment_def Let_def i32_add_def i64_add_def plain_step_def split: if_splits option.splits)

lemma receive_all_keeps:
  "collect receive_shipment l w = (Ok xs, w') \<Longrightarrow> list_all plain_step (map snd xs) \<and> (\<forall>i \<in> set (map fst xs). i < length (w_inventory w)) \<and>
     length (w_inventory w') = length (w_inventory w) \<and>
     w_backorders w' = w_backorders w \<and> w_steps w' = w_steps w"
proof (induction l arbitrary: w xs)
  case Nil
  then show ?case by simp
next
  case (Cons s l)
  then obtain x w1 ys where "receive_shipment s w = (Ok x, w1)" "collect receive_shipment l w1 = (Ok ys, w')" "xs = x # ys"
    by (auto simp: bnd_Ok_iff)
  then show ?case using receive_one_keeps[of s w x w1] Cons.IH[of w1 ys] by simp
qed

lemma receive_errs: "errs_in E (receive_shipment s) w"
  unfolding errs_in_def receive_shipment_def Let_def by (auto simp: bnd_Fail_iff i32_add_def i64_add_def split: if_splits option.splits)

lemma replenish_errs:
  assumes o: "order_ok js w lg"
  shows "errs_in E replenish_inventory w"
proof (cases "w_shipments w (w_current_day w)")
  case None
  then show ?thesis by (simp add: errs_in_def replenish_inventory_def add_steps_def)
next
  case (Some l)
  note D = order_okD[OF o]
  have len: "length (w_inventory w) < 2 ^ 31" using D(2,5) by simp
  let ?w = "w\<lparr>w_shipments := (w_shipments w)(w_current_day w := None)\<rparr>"
  have wait: "\<exists>a. order_at (w_steps w) i = Some a \<and> ord_product_id a = p \<and> 0 \<le> p \<and> p < int (length (w_inventory w))"
    if "(p, i) \<in> set (wait_of (w_backorders w))" for p i
    using tallyD(9)[OF D(1) that] by blast
  have "errs_in E (bnd (collect receive_shipment l) (\<lambda>arrived.
         bnd (collect recheck_product (filter (\<lambda>i. i \<in> set (map fst arrived)) [0..<as_usize (w_product_count w)])) (\<lambda>rechecks.
         add_steps (map snd arrived @ concat rechecks)))) ?w"
  proof (rule errs_in_bnd[OF errs_in_collect[OF receive_errs]], rule errs_in_bnd)
    fix arrived w1
    assume arr: "collect receive_shipment l ?w = (Ok arrived, w1)"
    note k = receive_all_keeps[OF arr]
    let ?ps = "filter (\<lambda>i. i \<in> set (map fst arrived)) [0..<as_usize (w_product_count w)]"
    show "errs_in E (collect recheck_product ?ps) w1"
      by (rule recheck_all_errs) (use k wait len in force)+
    fix rechecks w2
    assume re: "collect recheck_product ?ps w1 = (Ok rechecks, w2)"
    obtain bs popped where b: "w2 = w1\<lparr>w_backorders := bs\<rparr>" "concat rechecks = map (recheck_step (w_steps w1)) popped"
      "mset (wait_of (w_backorders w1)) = mset popped + mset (wait_of bs)" using recheck_all[OF re] by blast
    have sub: "set popped \<subseteq> set (wait_of (w_backorders w))" using arg_cong[OF b(3), of set_mset] k by simp
    have "in_stock_list (length (w_inventory w)) (recheck_step (w_steps w) x)" if "x \<in> set popped" for x
    proof -
      obtain p i where x: "x = (p, i)" by fastforce
      then have "(p, i) \<in> set (wait_of (w_backorders w))" using that sub by blast
      from wait[OF this] show ?thesis by (auto simp: x in_stock_list_def recheck_step_def)
    qed
    then have "list_all (in_stock_list (length (w_inventory w))) (map snd arrived @ concat rechecks)"
      using k b(2) by (auto simp: list_all_iff in_stock_list_def plain_step_def)
    then show "errs_in E (add_steps (map snd arrived @ concat rechecks)) w2"
      by (intro add_steps_errs) (use k len b(1) in auto)
  qed
  then show ?thesis using Some by (simp add: errs_in_def replenish_inventory_def)
qed


lemma total_backordered_errs: "errs_in E total_backordered w"
  by (auto simp: total_backordered_def Let_def intro!: errs_in_bnd split: option.splits)

lemma order_shipments_errs: "errs_in E (order_shipments lk b) w"
proof -
  have size: "errs_in E (shipment_size c k e n) w" for c k e n w
    by (auto simp: errs_in_def shipment_size_def Let_def bnd_Fail_iff i32_add_def split: if_splits)
  have "errs_in E (order_shipment lk b p) w" for p w
    unfolding order_shipment_def Let_def
    by (auto intro!: errs_in_bnd total_backordered_errs errs_in_always(1) size split: option.splits)
  then show ?thesis
    unfolding order_shipments_def by (intro errs_in_bnd errs_in_unit errs_in_for_each)
qed

lemma register_customer_errs: "errs_in E (register_customer fake) w"
  unfolding register_customer_def new_customer_def
  by (auto intro!: errs_in_bnd errs_in_always(1) add_step_errs simp: plain_step_def)

lemma register_rest_errs: "errs_in E (register_rest lk) w"
  unfolding register_rest_def Let_def by (auto intro!: errs_in_bnd)

lemma prologue_errs: "errs_in E (prologue lk) w"
proof -
  have "errs_in E (init_product lk i) w" for i w
    unfolding init_product_def Let_def by (auto intro!: errs_in_bnd add_step_errs simp: plain_step_def split: prod.splits)
  then have "errs_in E (init_products lk) w" for w
    unfolding init_products_def by (intro errs_in_bnd errs_in_unit errs_in_for_each)
  then show ?thesis
    unfolding prologue_def
    by (auto intro!: errs_in_bnd add_step_errs errs_in_for_each register_customer_errs register_rest_errs order_shipments_errs simp: plain_step_def)
qed

lemma main_errs:
  assumes ok: "in_step ph js w lg"
  shows "errs_in E (run_main lk ph) w"
proof -
  have o: "order_ok js w lg" using ok by (simp add: in_step_def)
  note D = order_okD[OF o]
  have len: "length (w_inventory w) < 2 ^ 31" using D(2,5) by simp
  show ?thesis
  proof (cases ph)
    case AtDawn
    then show ?thesis using len by (auto intro!: errs_in_bnd add_step_errs simp: plain_step_def Let_def errs_in_def[of _ "ret _"])
  next
    case AtReplenish
    then show ?thesis using replenish_errs[OF o] by (auto intro!: errs_in_bnd)
  next
    case AtFulfill
    have "errs_in E fulfill_pending w"
      unfolding fulfill_pending_def Let_def by (auto intro!: errs_in_bnd errs_in_always(4) split: option.splits)
    then show ?thesis using AtFulfill by (auto intro!: errs_in_bnd)
  next
    case AwaitPending
    then show ?thesis by (auto intro!: errs_in_bnd)
  next
    case (AtRegister n)
    show ?thesis
    proof (cases n)
      case 0
      then show ?thesis using AtRegister by (auto intro!: errs_in_bnd register_rest_errs)
    next
      case (Suc k)
      then show ?thesis using AtRegister by (auto intro!: errs_in_bnd register_customer_errs)
    qed
  next
    case AwaitReturns
    have "errs_in E (place_orders lk) w"
      unfolding place_orders_def Let_def by (auto intro!: errs_in_bnd errs_in_always(4))
    then show ?thesis using AwaitReturns by (auto intro!: errs_in_bnd)
  next
    case AwaitOrders
    then show ?thesis by (auto intro!: errs_in_bnd order_shipments_errs)
  next
    case AwaitSessions
    then show ?thesis using len by (auto intro!: errs_in_bnd add_step_errs simp: plain_step_def)
  next
    case AtProgress
    have "errs_in E (add_steps (map (\<lambda>v. CheckInventory (inventory_check_new (inv_product_id v) (inv_stock v) ''daily'')) (w_inventory w))) w"
      by (rule add_steps_errs[OF _ len]) (auto simp: list_all_iff in_stock_list_def)
    then have "errs_in E log_progress w" unfolding log_progress_def by (auto simp: errs_in_def)
    then show ?thesis using AtProgress by (auto intro!: errs_in_bnd)
  next
    case AtEnd
    then show ?thesis by (simp add: errs_in_def)
  qed
qed


text \<open>All turns of a script.\<close>

lemma written_errs:
  assumes "script_written (writer_new period customers capacity products workers) ph js w" "products < 2 ^ 31"
  shows "errs_in {} (run_main lk ph) w" "j \<in> set js \<Longrightarrow> errs_in {''Poisson''} (run_job j) w"
proof -
  obtain lg where lg: "in_step ph js w lg" using script_in_step[OF assms] by blast
  show "errs_in {} (run_main lk ph) w" by (rule main_errs[OF lg])
  assume "j \<in> set js"
  then obtain xs ys where "js = xs @ j # ys" by (auto dest: split_list)
  with lg show "errs_in {''Poisson''} (run_job j) w" using job_errs by blast
qed

end
