(* ===== verification/Schedules.thy ===== *)
theory Schedules
  imports WrittenScripts Evaluation
begin

text \<open>
  Schedules for the threads of the script writer, and one that writes a script, by evaluation.
\<close>

section \<open>Schedules\<close>

text \<open>The next turn is one of the main thread, with its luck, or one of the task at a place of the list.\<close>

datatype move = MainMove luck | TaskMove nat

fun moves :: "move list \<Rightarrow> phase \<times> job list \<times> writer \<Rightarrow> (phase \<times> job list \<times> writer) option" where
  "moves [] st = Some st"
| "moves (MainMove lk # ms) (ph, js, w) =
     (if main_ready ph js \<and> fair_luck lk w
      then (case run_main lk ph w of (Ok (ph', new), w') \<Rightarrow> moves ms (ph', js @ new, w') | _ \<Rightarrow> None)
      else None)"
| "moves (TaskMove i # ms) (ph, js, w) =
     (if i < length js \<and> fair_job (js ! i) w
      then (case run_job (js ! i) w of (Ok new, w') \<Rightarrow> moves ms (ph, take i js @ new @ drop (Suc i) js, w') | _ \<Rightarrow> None)
      else None)"

lemma moves_written:
  "moves ms (ph, js, w) = Some (ph', js', w') \<Longrightarrow> script_written w0 ph js w \<Longrightarrow> script_written w0 ph' js' w'"
proof (induction ms arbitrary: ph js w)
  case Nil
  then show ?case by simp
next
  case (Cons m ms)
  show ?case
  proof (cases m)
    case (MainMove lk)
    then obtain ph1 new w1 where "main_ready ph js" "fair_luck lk w" "run_main lk ph w = (Ok (ph1, new), w1)"
      "moves ms (ph1, js @ new, w1) = Some (ph', js', w')"
      using Cons.prems(1) by (auto split: if_splits prod.splits res.splits)
    then show ?thesis using Cons.IH Cons.prems(2) script_main by blast
  next
    case (TaskMove i)
    then obtain new w1 where i: "i < length js" "fair_job (js ! i) w" "run_job (js ! i) w = (Ok new, w1)"
      and rest: "moves ms (ph, take i js @ new @ drop (Suc i) js, w1) = Some (ph', js', w')"
      using Cons.prems(1) by (auto split: if_splits prod.splits res.splits)
    have "script_written w0 ph (take i js @ js ! i # drop (Suc i) js) w" using Cons.prems(2) i(1) by (simp add: id_take_nth_drop[symmetric])
    from script_job[OF this i(2,3)] Cons.IH[OF rest] show ?thesis by blast
  qed
qed

section \<open>A script of two days\<close>

text \<open>
  Two products, the second with a day of handling, two customers: on the first day one of them gets
  what he orders and the other has to wait; on the second day the backorders go out.
\<close>

definition sample_luck :: "int \<Rightarrow> luck" where
  "sample_luck d = \<lparr>
     lk_plan = (\<lambda>i. (\<lparr>prod_id = 0, prod_name = '''', prod_price = 0, prod_views = 0\<rparr>, if i = 0 then 0 else 1)),
     lk_customer = (\<lambda>n. \<lparr>cust_id = 0, cust_email = ''c'' @ decimal (nat d * 10 + n), cust_first_name = '''', cust_last_name = '''', cust_registered_on = 0\<rparr>),
     lk_expected = 2, lk_supply = (\<lambda>_. (4, 1)), lk_sessions = 1, lk_order = rev,
     lk_visit = (\<lambda>c. \<lparr>vi_purchases = Some 1, vi_drops_in = False, vi_items = map (\<lambda>k. \<lparr>it_viewed = k = 0, it_quantity = 3,
       it_order_id = word_of_int (d * 100 + cust_id c * 10 + k), it_return = Some 0\<rparr>) [0, 1]\<rparr>)\<rparr>"

definition main_moves :: "int \<Rightarrow> nat \<Rightarrow> move list" where
  "main_moves d n = replicate n (MainMove (sample_luck d))"

definition day_one :: "move list" where
  "day_one = main_moves 1 1 @ [TaskMove 0] @ main_moves 1 1 @ replicate 2 (TaskMove 0) @ main_moves 1 4 @ [TaskMove 0] @ main_moves 1 1 @
     replicate 7 (TaskMove 0) @ main_moves 1 3"
text \<open>Evaluation.\<close>

lemma replicate_eval: "replicate (numeral k) x = x # replicate (pred_numeral k) x"
  by (simp add: numeral_eq_Suc)

lemma upt_eval: "[0..<2] = [0, Suc 0]"
  by (simp add: upt_rec)

lemmas writer_eval = replicate_eval upt_eval add_step_def add_steps_def push_step_def fill_order_def process_order_of_def process_order_def queue_pending_def queue_backorder_def
  order_at_def order_by_idx_def at_index_def chunked_def chunks.simps push_entry_def as_i32_def as_usize_def i32_add_def i64_add_def
  prologue_def init_products_def init_product_def inventory_new_def inventory_check_new_def decimal.simps new_customer_def register_customer_def
  register_rest_def customer_history_length_def order_shipments_def order_shipment_def total_backordered_def shipment_size_def
  receive_shipment_def recheck_product_def replenish_inventory_def fulfill_pending_def place_orders_def log_progress_def
  build_session_base_def session_base_def next_session_id_def stub_session_def login_expire_days_def new_session_def customer_login_def
  task_returns_def task_pending_def ilog10.simps order_from_def upto.simps writer_new_def

definition noon :: "move list" where
  "noon = main_moves 2 1 @ replicate 3 (TaskMove 0) @ main_moves 2 2 @ [TaskMove 0]"

definition sample_run :: "(phase \<times> job list \<times> writer) option" where
  "sample_run = (case prologue (sample_luck 0) (writer_new 3 1 4 2 1) of (Ok _, w) \<Rightarrow> moves (day_one @ noon) (AtDawn, [], w) | _ \<Rightarrow> None)"

text \<open>The first day, with every task by itself, and the second up to the orders that were pending.\<close>

lemma sample_run_steps: "case sample_run of Some (ph, js, w) \<Rightarrow> length (w_steps w) = 31 \<and> new_sessions (w_steps w) = [100, 101, 102, 203] \<and> map inv_stock (w_inventory w) = [3, 3] | None \<Rightarrow> False"
  by (simp add: sample_run_def noon_def day_one_def main_moves_def bnd_eval Let_def writer_eval sample_luck_def main_ready_def is_sessions_def fair_luck_def fresh_orders_def new_orders_def cong: eval_cong del: eval_del)

lemma sample_written:
  "\<exists>ph js w. script_written (writer_new 3 1 4 2 1) ph js w \<and> length (w_steps w) = 31 \<and> new_sessions (w_steps w) = [100, 101, 102, 203] \<and>
     map inv_stock (w_inventory w) = [3, 3]"
proof -
  obtain ph js w where run: "sample_run = Some (ph, js, w)" and w: "length (w_steps w) = 31" "new_sessions (w_steps w) = [100, 101, 102, 203]"
    "map inv_stock (w_inventory w) = [3, 3]"
    using sample_run_steps by (auto split: option.splits)
  obtain u w1 where "prologue (sample_luck 0) (writer_new 3 1 4 2 1) = (Ok u, w1)" "moves (day_one @ noon) (AtDawn, [], w1) = Some (ph, js, w)"
    using run by (auto simp: sample_run_def split: prod.splits res.splits)
  then have "script_written (writer_new 3 1 4 2 1) ph js w" using moves_written script_prologue[of "sample_luck 0"] by simp
  with w show ?thesis by (intro exI[of _ ph] exI[of _ js] exI[of _ w]) simp
qed

end
