(* ===== verification/Spec2Isabelle.thy ===== *)
theory Spec2Isabelle
  imports Races Outcomes TwoCompanies ScriptErrors Schedules
begin

text \<open>
  A verification library for the crate \<open>wb-cache\<close>, a write-behind cache controller, and for its
  simulation: the data controllers (\<open>src/test/simulation/db\<close>), the two companies that play a
  script, one on five caches and one on the database alone, and the actor that drives them. File
  names below are those under \<open>src\<close>.

  \<^bold>\<open>The program.\<close> A \<open>Cache\<close> keeps values in a moka cache and, for every key with a
  change that the backend has not seen, an update record in a pool of \<open>UpdateState\<close> objects. A
  user's \<open>DataController\<close> turns changes into update records and answers what becomes of the
  cached value; when a flush is due, its \<open>write_back\<close> gets an \<open>UpdateIterator\<close> over the pool, and
  the updates it confirms leave the pool. A background task flushes on a timer, on
  \<open>soft_flush\<close> and on \<open>close\<close>. Keys are primary or secondary; a secondary key's entry in moka
  names the primary key.

  \<^bold>\<open>The theories\<close>, in the order of their imports.
  \<^item> \<open>WbPrelude\<close>: results of calls (value, error, panic, waiting for a held lock), programs that
    thread a state, their composition and a small Hoare calculus; association lists.
  \<^item> \<open>CacheTypes\<close> (\<open>types.rs\<close>, \<open>traits.rs\<close>, \<open>entry.rs\<close>, the structs of \<open>cache.rs\<close>): the data
    model, the traits as records of programs, moka as a parameter with documented laws
    (\<open>moka_ok\<close>) and two instances that satisfy them.
  \<^item> \<open>UpdateStates\<close> (\<open>update_state.rs\<close>): the pool as an explicit store of shared objects with
    locks and reference counts, its invariant, and the four methods of \<open>UpdateState\<close>.
  \<^item> \<open>UpdateIterators\<close> (\<open>update_iterator.rs\<close>, \<open>_purify_updates\<close>): the iterator, its items and
    their drop; what the calls of \<open>next\<close> yield. \<open>FlushInv\<close>: the invariant of a flush, kept by
    every operation a \<open>write_back\<close> can use, and the exact effect of the clean-up. \<open>Iteration\<close>: what a
    user of the iterator observes.
  \<^item> \<open>CacheCore\<close> (\<open>cache.rs\<close>): the error slot, the pool's part of a change, the flushes. The
    locale \<open>flush_client\<close> states what the cache needs of a \<open>write_back\<close> and of the observers.
  \<^item> \<open>CacheEntry\<close> (\<open>cache.rs\<close>, \<open>entry_selector.rs\<close>): the compute routines and the public
    operations. \<open>EntryLaws\<close>: hits, invalidation, secondary keys. \<open>Frames\<close>: the
    locale \<open>framing\<close>, in which every operation is shown to move the cache and its backend within two
    given relations if the data controller and the observers do; its first use is what no client
    call ever touches.
  \<^item> \<open>WriteBehind\<close>: the locale \<open>write_behind\<close>, the contract between the cache and a data
    controller, and the proof that under it every client call refines the same call on a map.
  \<^item> \<open>Monitor\<close> (\<open>cache.rs\<close>: \<open>initial_setup\<close>, \<open>monitor_updates\<close>, \<open>check_task\<close>, \<open>close\<close>): the
    background task as a step relation, the system of clients and task, and the locale
    \<open>background\<close> that extends \<open>write_behind\<close> to it.
  \<^item> \<open>SeaOrm\<close>, \<open>DCCommon\<close>, \<open>Tables\<close>, \<open>Entities\<close> (\<open>test/simulation/db/cache.rs\<close> and
    \<open>entity/*.rs\<close>): the ORM as a parameter with documented behaviour (\<open>orm_ok\<close>, \<open>am_ok\<close>), the
    common data controller, the proof that a table with a primary key keeps the contract, and the
    five managers. \<open>WriteBackRuns\<close>: write-backs return, in batches, and write all or nothing.
  \<^item> \<open>Interleaving\<close> (\<open>cache.rs\<close>, \<open>update_iterator.rs\<close>): calls and flushes that overlap, as turns on
    the pool, with the invariant that holds as long as no call drops a key. \<open>OneFlushes\<close>: the same
    with flushes of one key among them; what a \<open>write_back\<close> does to the pool rests on the locale
    \<open>item_use\<close> of \<open>DCCommon\<close>, the laws of what is kept by taking, dropping and confirming an item.
    \<open>Races\<close>: schedules of such turns that go wrong.
  \<^item> \<open>Outcomes\<close>: whole calls on cached records. \<open>Caches\<close>: the contract for four managers as whole
    systems, and the concrete caches of the witnesses, computed with the rules of \<open>Evaluation\<close>.
  \<^item> \<open>Stores\<close>: tables in one database, a database in a larger state; the locale \<open>store_framing\<close>, in
    which a cache keeps its backend within a relation. \<open>Company\<close>
    (\<open>test/simulation/company_cached.rs\<close>): five caches over one database, their observers and every
    operation. \<open>CompanyCaches\<close>: the locale \<open>company_platform\<close> with what the company relies on, and
    the proofs that its caches keep the contract with their observers and that no call of
    one disturbs what another holds.
  \<^item> \<open>Actor\<close> (\<open>test/simulation/actor.rs\<close>, \<open>scriptwriter/steps.rs\<close>): the steps of a script, an actor as a
    record of methods, \<open>act\<close>. \<open>Ledger\<close>: products, inventory, orders and sessions as plain maps, and what
    each operation of the company does to them (\<open>books\<close> says that the caches stand for a ledger).
    \<open>Simulation\<close>: the company as an actor; performances, with the turns of the background tasks.
    \<open>Performances\<close>: stock and booked orders along a performance, a company on lists. \<open>Town\<close>: scripts
    played on it, by evaluation.
  \<^item> \<open>Plain\<close> (\<open>test/simulation/company_plain.rs\<close>): the company without caches, on statements of the ORM,
    against the same ledger. \<open>TwoCompanies\<close>: both side by side.
  \<^item> \<open>ScriptWriter\<close> (\<open>test/simulation/scriptwriter.rs\<close>): the writer of the scripts, its main thread and
    the tasks of its workers as turns (\<open>script_written\<close>). \<open>Tallies\<close>: a script replayed on a ledger (\<open>replay\<close>),
    and the writer's tables compared with it (\<open>tally\<close>). \<open>OrderTurns\<close>, \<open>SessionTurns\<close>: what every turn
    keeps of the orders and their queues, and of the customers' sessions. \<open>WrittenScripts\<close>: both
    invariants along a run of the writer. \<open>ScriptErrors\<close>: the errors that a turn can return.
    \<open>Schedules\<close>: one schedule, evaluated.

  \<^bold>\<open>How the code is read.\<close> A method is a program over the record \<open>cache\<close> (or over the iterator's
  context in a \<open>write_back\<close>); \<open>?\<close> is \<open>bnd\<close>, a panic is a result, a guard dropped at the end
  of a scope is \<open>on_exit\<close> or \<open>on_err\<close>. Objects shared by reference are numbers into a store. Outside
  of \<open>Interleaving\<close> and \<open>OneFlushes\<close> a call runs to its end before the next one starts; a lock that an unfinished call
  holds makes a call answer \<open>Wait\<close>. They cut the changes of a key and the flushes
  where the code lets go of its locks. The background task takes turns with the calls: one turn is one round of its loop.
  The order in which a \<open>HashMap\<close> yields its keys is the parameter \<open>hash_order\<close>. All recursive
  definitions terminate and are total: the iterator by the indexes left, the loop of
  \<open>wbdc_write_back\<close> by the items left, so there is no fuel.

  \<^bold>\<open>Not modelled.\<close> Names, tracing, the \<open>Debug\<close> formatting and the capacity hints of the
  hash map have no effect on results. The methods \<open>on_error\<close>, \<open>on_warning\<close> and \<open>on_debug\<close> of
  the observers are never called by the crate. Moka's eviction is not an operation of the crate: the
  laws of \<open>moka_ok\<close> allow entries to vanish whenever moka is written to. The companies start from the title
  of their script: the two numbers that \<open>set_title\<close> stores, which size the caches, are parameters.
  The ledger has no customers, whose cache does not behave as a map (their table is not
  \<open>IMMUTABLE\<close> and has secondary keys); what is shown of it is that it disturbs no other cache. A
  step adds a record only where the table has none under its key, and the collection of sessions,
  which changes the database behind the cache, is not a step of a performance: what it
  can do is one of the properties. The random
  numbers and floating-point curves of the script writer are an argument of its definitions
  (\<open>luck\<close>). The rest of \<open>test/simulation\<close> (terminal reporting, the command line and database set-up)
  shows what happens and has no part in it.
\<close>

section \<open>A write-behind cache is a map\<close>



text \<open>C2: the product manager of the simulation keeps that contract over every database that behaves
  as SeaORM documents, with any moka, so a product cache refines its table: a pending insert, update
  or delete stands for the record that the flush will leave in the table.\<close>

theorem product_manager_keeps_contract:
  assumes "orm_ok B A product_field prod_id RD RT" "am_ok A product_field" "moka_ok M"
  shows "background (manager_conf (product_manager B A) M n i) RD (update_view A product_field prod_id (\<lambda>_. True))"
  by (intro background_manager_conf product_write_behind[OF assms(1,2)])
    (simp_all add: manager_conf_def assms(3))

theorem product_manager_keeps_contract_witness:
  "background (manager_conf (product_manager (list_orm product_field prod_id product_of) (fun_am product_field)) void_moka 100 10)
     shop_rows shop_view"
  by (rule product_manager_keeps_contract[where RT = shop_rows])
    (simp_all add: orm_ok_list am_ok_fun_am moka_ok_void_moka)

section \<open>Overlapping calls and flushes\<close>







section \<open>Flushes\<close>

text \<open>C8: a flush that succeeds leaves in the backend exactly the map that the clients see, and no
  update pending; the count it returns is always 0.\<close>

theorem flush_writes_everything:
  assumes "background C R vok" "coherent C R vok s m" "error s = None" "flush C s = (Ok n, t)"
  shows "R (backend t) = m \<and> (\<forall>k. pending (pool t) k = None) \<and> coherent C R vok t m \<and> moka t = moka s \<and> n = 0"
  using write_behind.coherent_flush[OF _ assms(2,3) background.orders[OF assms(1)] assms(4)] assms(1)
  by (simp add: background_def)

theorem flush_writes_everything_witness: "shop_rows (backend shop2) = [1 \<mapsto> tea]"
  using flush_writes_everything[OF shop_background shop1_coherent shop1_fields(1) shop2_run] by simp

text \<open>C9: a flush that fails loses nothing. Every update that the backend has not taken is still
  pending, so the clients go on seeing the same map.\<close>

theorem failed_flush_loses_nothing:
  assumes "background C R vok" "coherent C R vok s m" "error s = None" "flush C s = (Fail e, t)"
  shows "coherent C R vok t m \<and> moka t = moka s \<and> error t = None"
  using write_behind.coherent_flush[OF _ assms(2,3) background.orders[OF assms(1)] assms(4)] assms(1)
  by (simp add: background_def)

theorem failed_flush_loses_nothing_witness: "coherent down_conf shop_rows shop_view shop1 [1 \<mapsto> tea]"
  using failed_flush_loses_nothing[OF down_background down_coherent shop1_fields(1) down_flush] by simp

text \<open>C13: whatever the data controller and the observers do with the iterator, a flush that ends keeps
  the pool in order: no lock or reference stays behind, no update is invented, moka is not touched,
  and the time of the last flush is set on success only. An entry without an update is never
  taken out of the pool: reads fill the pool with such entries and no flush removes them.\<close>

theorem flush_discipline:
  assumes "flush_client C" "pool_quiet (pool s)" "error s = None" "flush C s = (r, t)" "r \<noteq> Wait"
  shows "pool_quiet (pool t) \<and> pending (pool t) \<subseteq>\<^sub>m pending (pool s) \<and> pool_get (pool t) \<subseteq>\<^sub>m pool_get (pool s) \<and>
    (\<forall>k. pending (pool s) k = None \<longrightarrow> pool_get (pool t) k = pool_get (pool s) k) \<and> moka t = moka s \<and> error t = None \<and>
    last_flush t = (if \<exists>n. r = Ok n then clock s else last_flush s)"
proof -
  note res = flush_client.flush_result[OF assms]
  have t: "t = s\<lparr>pool := pool t, backend := backend t, last_flush := last_flush t\<rparr>" using res by blast
  have fl: "pool_flushed (pool s) (pool t)" "pool_quiet (pool t)"
    "last_flush t = (if \<exists>n. r = Ok n then clock s else last_flush s)" using res by blast+
  have le: "pool_get (pool t) \<subseteq>\<^sub>m pool_get (pool s)" "pending (pool t) \<subseteq>\<^sub>m pending (pool s)"
    using fl(1) unfolding pool_flushed_def by blast+
  have keep: "\<forall>k. pending (pool s) k = None \<longrightarrow> pool_get (pool t) k = pool_get (pool s) k"
  proof (intro allI impI)
    fix k assume "pending (pool s) k = None"
    then show "pool_get (pool t) k = pool_get (pool s) k"
      using flush_client.flush_keeps_empty[OF assms, of k] le(1)
      by (cases "pool_get (pool s) k"; cases "pool_get (pool t) k") (auto simp: map_le_def dom_def)
  qed
  have "moka t = moka s" "error t = None"
    using arg_cong[OF t, of moka] arg_cong[OF t, of error] assms(3) by simp_all
  with fl(2,3) le keep show ?thesis by blast
qed

theorem flush_discipline_witness: "pool_quiet (pool shop2) \<and> last_flush shop2 = 0"
proof -
  have "flush_client shop_conf" using shop_background by (simp add: background_def write_behind_def)
  from flush_discipline[OF this shop1_quiet shop1_fields(1) shop2_run] show ?thesis
    by (simp add: shop1_def shop_def initial_setup_def)
qed



text \<open>C10: what a write-back of the common data controller does to a table with a primary key: when it
  succeeds, the table holds the logical record of every key of the flush and their updates are gone,
  inserts, updates and deletes in whatever order and batches they were sent; when it fails, the table
  and the pending updates are as before.\<close>

theorem write_back_all_or_nothing:
  assumes "table_controller B A T fld pk prim RD RT" "pool_quiet p" "distinct ks"
    and "\<And>k. update_view A fld pk prim k (pending p k) (RD d k) (m k)"
    and "wbdc_write_back T B (flush_start p ks d) = (r, c)"
  shows "if r = Ok () then RD (ctx_backend c) = (\<lambda>k. if k \<in> set ks then m k else RD d k) \<and>
      pending (ctx_pool c) = pending p |` (- set ks)
    else RD (ctx_backend c) = RD d \<and> pending (ctx_pool c) = pending p"
  by (rule table_controller.write_back_from_start[OF assms])

theorem write_back_all_or_nothing_witness:
  "\<exists>c. wbdc_write_back product_common (list_orm product_field prod_id product_of) (flush_start (pool shop1) [1] []) = (Ok (), c) \<and>
     shop_rows (ctx_backend c) 1 = Some tea"
proof -
  define c0 where "c0 = (flush_start (pool shop1) [1] [] :: (int, product_am cache_updates, product list) flush_ctx)"
  obtain r c where run: "wbdc_write_back product_common (list_orm product_field prod_id product_of) c0 = (r, c)" by fastforce
  have ok: "r = Ok ()"
    using run by (auto simp: c0_def flush_start_def eval_simps shop_eval shop1_def cong: eval_cong simp del: eval_del)
  have tc: "table_controller (list_orm product_field prod_id product_of) (fun_am product_field) product_common
      product_field prod_id (\<lambda>_. True) shop_rows shop_rows"
    by (rule product_table) (simp_all add: orm_ok_list am_ok_fun_am)
  show ?thesis
    using write_back_all_or_nothing[OF tc shop1_quiet _ shop1_view run[unfolded c0_def]] ok run by (auto simp: c0_def)
qed

text \<open>C26: a write-back sends the database only batches of one to a thousand inserts or deletes: with
  another ORM that differs only in what it makes of empty or longer batches it does the same. In
  particular the filter of a deletion is never made for no key.\<close>

theorem write_back_batches_bounded:
  fixes B B' :: "('d, 't, 'am, 'c, 'x, 'v, 'b) orm"
  assumes "orm_answers B" "or_connection B' = or_connection B" "or_begin B' = or_begin B"
    and "or_update B' = or_update B" "or_commit B' = or_commit B"
    and "\<And>ams. 0 < length ams \<Longrightarrow> length ams \<le> 1000 \<Longrightarrow> or_insert_many B' ams = or_insert_many B ams"
    and "\<And>ks. 0 < length ks \<Longrightarrow> length ks \<le> 1000 \<Longrightarrow>
      or_delete_many B' (dcc_delete_many_condition T ks) = or_delete_many B (dcc_delete_many_condition T ks)"
  shows "wbdc_write_back T B' (flush_start p ks d) = wbdc_write_back T B (flush_start p ks d)"
proof -
  have "same_batches T B B'" using assms(2-7) by (simp add: same_batches_def batch_limit_def)
  moreover have "wb_start p (flush_start p ks d)"
    using wb_start_keys[of "flush_start p ks d" ks] by (simp add: iter_keys_def)
  ultimately show ?thesis by (rule wbdc_write_back_same_batches[OF assms(1)])
qed

theorem write_back_batches_bounded_witness:
  "wbdc_write_back product_common ((list_orm product_field prod_id product_of)\<lparr>or_insert_many :=
       (\<lambda>ams. if ams = [] then \<lambda>t. (Panic ''no record'', t) else or_insert_many (list_orm product_field prod_id product_of) ams)\<rparr>)
     (flush_start (pool shop1) [1] []) =
   wbdc_write_back product_common (list_orm product_field prod_id product_of) (flush_start (pool shop1) [1] [])"
  using orm_okD(1)[OF orm_ok_list[of product_of product_field prod_id]]
  by (intro write_back_batches_bounded) auto

text \<open>C22: a pass over the iterator of a flush yields each key with an update once, in the order of the
  keys, with the update that is pending; it skips keys without one, changes no update, and holds the
  locks of exactly the items it has yielded.\<close>

theorem pass_yields_each_update_once:
  assumes "pool_quiet p" "distinct ks" "collect_updates (flush_start p ks d) = (l, c)"
  shows "l = map (\<lambda>k. (k, pending p k)) (filter (\<lambda>k. pending p k \<noteq> None) ks) \<and> pending (ctx_pool c) = pending p \<and>
    (\<forall>i. locked (states (ctx_pool c) i) \<longleftrightarrow> i \<in> snd ` set (worked (ctx_iter c))) \<and> ctx_backend c = d"
proof -
  have pq: "pool_own p" "pool_idle p" using assms(1) by (simp_all add: pool_quiet_def)
  show ?thesis using collect_updates_start[OF pq assms(2,3)] pq(2) by (auto simp: pool_idle_def)
qed

theorem pass_yields_each_update_once_witness:
  "fst (collect_updates (flush_start (pool shop1) [5, 1] [tea])) = [(1, pending (pool shop1) 1)]"
proof -
  obtain l c where run: "collect_updates (flush_start (pool shop1) [5, 1] [tea]) = (l, c)" by fastforce
  have "pending (pool shop1) 5 = None" "pending (pool shop1) 1 \<noteq> None" by (simp_all add: shop1_def pending_def pool_get_def)
  then show ?thesis using pass_yields_each_update_once[OF shop1_quiet _ run] run by simp
qed

text \<open>C23: a reset after a pass brings the iterator back to where it started: the locks are given back,
  the keys are all to be visited again, the pool is the same.\<close>

theorem reset_undoes_a_pass:
  assumes "pool_quiet p" "distinct ks" "collect_updates (flush_start p ks d) = (l, c)"
  shows "iter_reset c = flush_start p ks d"
  using reset_after_pass[OF _ _ assms(2,3)] assms(1) by (simp add: pool_quiet_def)

theorem reset_undoes_a_pass_witness:
  "iter_reset (snd (collect_updates (flush_start (pool shop1) [5, 1] [tea]))) = flush_start (pool shop1) [5, 1] [tea]"
proof -
  obtain l c where run: "collect_updates (flush_start (pool shop1) [5, 1] [tea]) = (l, c)" by fastforce
  show ?thesis using reset_undoes_a_pass[OF shop1_quiet _ run] run by simp
qed

text \<open>C14: the clean-up after a write-back takes out of the pool exactly the worked items whose update was
  confirmed and whose state nobody else holds; it changes no pending update, cannot panic while
  nothing else touches the pool, and always counts 0.\<close>

theorem clean_up_is_exact:
  fixes r :: "('e, nat) res"
  assumes "pool_quiet p0" "flush_inv p0 [] c" "purify_updates c = (r, c')"
  shows "r = Ok 0 \<and> pending (ctx_pool c') = pending (ctx_pool c) \<and> pool_quiet (ctx_pool c') \<and>
    (\<forall>k. pool_get (ctx_pool c') k = (if \<exists>i. (k, i) \<in> set (worked (ctx_iter c)) \<and> data (states (ctx_pool c) i) = None \<and>
       holders (states (ctx_pool c) i) = 0 then None else pool_get p0 k))"
  using purify_updates_spec[OF _ _ assms(2,3)] pool_flushed_quiet[OF _ assms(1)] assms(1)
  by (simp add: pool_quiet_def purified_def)

theorem clean_up_is_exact_witness:
  "\<exists>c c'. wbdc_write_back product_common (list_orm product_field prod_id product_of) (flush_start (pool shop1) [1] []) = (Ok (), c) \<and>
     purify_updates c = (Ok 0 :: (db_err sim_error, nat) res, c') \<and> pool_get (ctx_pool c') 1 = None"
proof -
  define c0 where "c0 = (flush_start (pool shop1) [1] [] :: (int, product_am cache_updates, product list) flush_ctx)"
  obtain r c where run: "wbdc_write_back product_common (list_orm product_field prod_id product_of) c0 = (r, c)" by fastforce
  obtain r' c' where pu: "purify_updates c = (r' :: (db_err sim_error, nat) res, c')" by fastforce
  have ok: "r = Ok ()" "worked (ctx_iter c) = [(1, 0)]" "data (states (ctx_pool c) 0) = None" "holders (states (ctx_pool c) 0) = 0"
    using run by (auto simp: c0_def flush_start_def eval_simps shop_eval shop1_def cong: eval_cong simp del: eval_del)
  have "flush_inv (pool shop1) [] c0" by (simp add: c0_def)
  from ctx_safeD[OF wbdc_write_back_safe this run] ok(1) have inv: "flush_inv (pool shop1) [] c" by simp
  from clean_up_is_exact[OF shop1_quiet inv pu] ok run pu show ?thesis by (auto simp: c0_def)
qed

section \<open>Changes and the pool\<close>

text \<open>C25: what a data controller answers to a new, changed or deleted record decides what is pending
  for its key, and only for it: the answer's update, or none when the answer is \<open>Drop\<close>. The call asks
  moka to put the record, to remove it, or to leave it, according to the answer.\<close>

theorem answers_decide_what_is_pending:
  assumes "pool_quiet (pool s)" "dc_primary_key_of (dc C) v = k"
    and "(dc_on_new (dc C) k v (backend s) = (Ok resp, d) \<and> call = on_new C k v) \<or>
      (dc_on_change (dc C) k v old (pending (pool s) k) (backend s) = (Ok resp, d) \<and> call = on_change C k v old) \<or>
      (dc_on_delete (dc C) k (pending (pool s) k) (backend s) = (Ok resp, d) \<and> call = on_delete C k (Some v))"
  shows "\<exists>t. call s = (Ok (case resp_op resp of DcNop \<Rightarrow> Nop | DcInsert \<Rightarrow> Put (Primary v) | _ \<Rightarrow> Remove), t) \<and>
    pending (pool t) = (pending (pool s))(k := if resp_op resp = DcDrop then None else resp_update resp) \<and>
    backend t = d \<and> moka t = moka s \<and> pool_quiet (pool t)"
proof -
  have op: "op_of_dc (resp_op resp) (Some v) = (case resp_op resp of DcNop \<Rightarrow> Nop | DcInsert \<Rightarrow> Put (Primary v) | _ \<Rightarrow> Remove)"
    by (simp add: op_of_dc_def split: dc_op.splits)
  obtain t where "call s = (Ok (op_of_dc (resp_op resp) (Some v)), t)" "dc_event_ok s k resp d t"
    using assms(3)
  proof (elim disjE conjE)
    assume "dc_on_new (dc C) k v (backend s) = (Ok resp, d)" "call = on_new C k v"
    then show thesis using on_new_Ok[OF assms(1,2)] that by blast
  next
    assume "dc_on_change (dc C) k v old (pending (pool s) k) (backend s) = (Ok resp, d)" "call = on_change C k v old"
    then show thesis using on_change_Ok[OF assms(1,2)] that by blast
  next
    assume "dc_on_delete (dc C) k (pending (pool s) k) (backend s) = (Ok resp, d)" "call = on_delete C k (Some v)"
    then show thesis using on_delete_Ok[OF assms(1), of C k "Some v" resp d] assms(2) that by auto
  qed
  then show ?thesis using dc_event_okD[of s k resp d t] op by (intro exI[of _ t]) simp
qed

theorem answers_decide_what_is_pending_witness:
  "\<exists>t. on_delete shop_conf 1 (Some tea) shop1 = (Ok Remove, t) \<and> pending (pool t) 1 = None"
proof -
  have "dc_primary_key_of (dc shop_conf) tea = 1"
    "dc_on_delete (dc shop_conf) 1 (pending (pool shop1) 1) (backend shop1) = (Ok (wbdc_response DcDrop (Some CuDelete)), [])"
    by (simp_all add: shop_eval manager_conf_eval wbdc_on_delete_def shop1_def pending_def pool_get_def initial_setup_def)
  from answers_decide_what_is_pending[OF shop1_quiet this(1), where call = "on_delete shop_conf 1 (Some tea)"] this(2)
  show ?thesis by (fastforce simp: wbdc_response_def)
qed

text \<open>C35: a data controller that fails on a change loses the update that was pending for the key: the
  update state was emptied to hand the update over, and the error path does not put it back.\<close>

theorem failed_change_loses_the_update:
  assumes "pool_quiet (pool s)" "dc_primary_key_of (dc C) v = k"
    and "dc_on_change (dc C) k v old (pending (pool s) k) (backend s) = (Fail e, d)"
  shows "\<exists>t. on_change C k v old s = (Fail e, t) \<and> pending (pool t) = (pending (pool s))(k := None) \<and>
    backend t = d \<and> pool_quiet (pool t)"
proof -
  obtain t where t: "on_change C k v old s = (Fail e, t)" "dc_event_failed s k None d t"
    using on_change_Fail[OF assms] by blast
  then have "t = s\<lparr>monitor_task := spawn (monitor_task s), backend := d, pool := pool t\<rparr>" by (simp add: dc_event_failed_def)
  from arg_cong[OF this, of backend] t show ?thesis by (auto simp: dc_event_failed_def)
qed

theorem failed_change_loses_the_update_witness:
  "\<exists>t. on_change shop_conf 1 dearer tea emptied = (Fail (SimMsg ''Attempt to modify a previously deleted key''), t) \<and>
     pending (pool emptied) 1 = Some CuDelete \<and> pending (pool t) 1 = None"
proof -
  have q: "pool_quiet (pool emptied)"
    by (simp add: emptied_def pool_quiet_def pool_wf_def pool_own_def pool_idle_def pool_get_def hm_wf_def)
  have p: "pending (pool emptied) 1 = Some CuDelete" by (simp add: emptied_def pending_def pool_get_def)
  have k: "dc_primary_key_of (dc shop_conf) dearer = 1" by (simp add: shop_eval manager_conf_eval dearer_def)
  have f: "dc_on_change (dc shop_conf) 1 dearer tea (pending (pool emptied) 1) (backend emptied) =
      (Fail (SimMsg ''Attempt to modify a previously deleted key''), [tea])"
    by (simp add: p shop_conf_def product_eval manager_conf_eval wbdc_on_change_def) (simp add: emptied_def stocked_def initial_setup_def)
  from failed_change_loses_the_update[OF q k f] p show ?thesis by auto
qed

text \<open>C24: a change of a record merges into what is pending for it: whatever update was pending, the
  one that replaces it turns the stored row into the new record; a pending insert stays an insert.\<close>

theorem change_merges_into_pending:
  assumes "table_controller B A T fld pk prim RD RT" "prim k" "pk v = k" "pk old = k"
    and "update_view A fld pk prim k prev ro (Some old)"
  shows "\<exists>resp. wbdc_on_change A T v old prev d = (Ok resp, d) \<and> update_view A fld pk prim k (resp_update resp) ro (Some v) \<and>
    (resp_op resp = DcNop \<or> dcc_immutable T \<and> resp_op resp = DcInsert) \<and>
    (dcc_immutable T \<longrightarrow> resp_op resp = DcInsert \<or> v = old)"
  by (rule table_controller.on_change_view[OF assms])

theorem change_merges_into_pending_witness:
  "\<exists>resp. wbdc_on_change (fun_am product_field) product_common dearer tea (pending (pool shop1) 1) () =
       (Ok resp :: (db_err sim_error, product_am cache_updates dc_response) res, ()) \<and>
     shop_view 1 (resp_update resp) None (Some dearer)"
proof -
  have tc: "table_controller (list_orm product_field prod_id product_of) (fun_am product_field) product_common
      product_field prod_id (\<lambda>_. True) shop_rows shop_rows"
    by (rule product_table) (simp_all add: orm_ok_list am_ok_fun_am)
  have view: "shop_view 1 (pending (pool shop1) 1) None (Some tea)" using shop1_view[of 1] by simp
  have keys: "prod_id dearer = 1" "prod_id tea = 1" by (simp_all add: dearer_def tea_def)
  obtain resp where "wbdc_on_change (fun_am product_field) product_common dearer tea (pending (pool shop1) 1) () =
      (Ok resp :: (db_err sim_error, product_am cache_updates dc_response) res, ())" "shop_view 1 (resp_update resp) None (Some dearer)"
    using change_merges_into_pending[OF tc TrueI keys view, of "()"] by auto
  then show ?thesis by auto
qed

text \<open>A record that is inserted and deleted before a flush leaves no trace: the delete drops the
  pending insert, and the backend never hears of either.\<close>

theorem insert_then_delete_cancels:
  fixes C :: "('k, 'v, 'am cache_updates, 'b sim_error, 'm, 'd) conf"
  assumes "dc_on_new (dc C) = (\<lambda>_ v. wbdbc_on_new T (am_from A v))"
    and "dc_on_delete (dc C) = (\<lambda>_ upd. wbdc_on_delete T upd)" "dcc_immutable T"
    and "pool_quiet (pool s)" "dc_primary_key_of (dc C) v = k"
  shows "\<exists>s1 s2. on_new C k v s = (Ok (Put (Primary v)), s1) \<and> pending (pool s1) k = Some (CuInsert (am_from A v)) \<and>
    on_delete C k (Some v) s1 = (Ok Remove, s2) \<and> pending (pool s2) = (pending (pool s))(k := None) \<and>
    backend s2 = backend s \<and> pool_quiet (pool s2)"
  by (rule insert_then_delete[OF assms])

theorem insert_then_delete_cancels_witness:
  "\<exists>s1 s2. on_new shop_conf 1 tea shop = (Ok (Put (Primary tea)), s1) \<and>
     on_delete shop_conf 1 (Some tea) s1 = (Ok Remove, s2) \<and> pending (pool s2) = Map.empty"
proof -
  have "dc_on_new (dc shop_conf) = (\<lambda>_ v. wbdbc_on_new product_common (am_from (fun_am product_field) v))"
    "dc_on_delete (dc shop_conf) = (\<lambda>_ upd. wbdc_on_delete product_common upd)" "dcc_immutable product_common"
    "dc_primary_key_of (dc shop_conf) tea = 1"
    by (simp_all add: shop_eval manager_conf_eval)
  moreover have "pool_quiet (pool shop)" "pending (pool shop) = Map.empty" by (simp_all add: shop_def initial_setup_def)
  ultimately show ?thesis using insert_then_delete_cancels[of shop_conf product_common "fun_am product_field" shop tea 1] by auto
qed


section \<open>Entries\<close>

text \<open>A delete of a cached record whose data controller revokes or drops it leaves the delete pending
  (or nothing, when it is dropped), and takes the record and all its secondary keys out of moka.\<close>

theorem delete_of_cached_record:
  assumes "moka_ok (mk C)" "error s = None" "pool_quiet (pool s)"
    and "mk_lookup (mk C) (moka s) k = Some (Primary v)" "dc_primary_key_of (dc C) v = k"
    and "dc_on_delete (dc C) k (pending (pool s) k) (backend s) = (Ok resp, d)"
    and "resp_op resp = DcRevoke \<or> resp_op resp = DcDrop"
  shows "\<exists>x t. cache_delete C k s = (Ok x, t) \<and> (x = Some v \<or> x = None) \<and> backend t = d \<and> pool_quiet (pool t) \<and>
    pending (pool t) = (pending (pool s))(k := if resp_op resp = DcDrop then None else resp_update resp) \<and>
    mk_lookup (mk C) (moka t) \<subseteq>\<^sub>m (mk_lookup (mk C) (moka s)) |` (- insert k (set (dc_secondary_keys_of (dc C) v)))"
  by (rule delete_cached[OF assms])

theorem delete_of_cached_record_witness:
  "\<exists>x t. cache_delete crm_conf (ById 7) (crm\<lparr>moka := [ById 7 \<mapsto> Primary ann, ByEmail ''ann'' \<mapsto> Secondary (ById 7)]\<rparr>) = (Ok x, t) \<and>
     moka t (ByEmail ''ann'') = None \<and> pending (pool t) (ById 7) = Some CuDelete"
proof -
  define s where "s = crm\<lparr>moka := [ById 7 \<mapsto> Primary ann, ByEmail ''ann'' \<mapsto> Secondary (ById 7)]\<rparr>"
  have c: "moka_ok (mk crm_conf)" "dc_primary_key_of (dc crm_conf) ann = ById 7"
      "dc_secondary_keys_of (dc crm_conf) ann = [ByEmail ''ann'']" "mk_lookup (mk crm_conf) = (\<lambda>m. m)"
      "dc_on_delete (dc crm_conf) (ById 7) None d = (Ok (wbdc_response DcRevoke (Some CuDelete)), d)" for d
    by (simp_all add: crm_eval manager_conf_eval moka_ok_map_moka wbdc_on_delete_def) (simp_all add: map_moka_def)
  have s: "error s = None" "pool_quiet (pool s)" "mk_lookup (mk crm_conf) (moka s) (ById 7) = Some (Primary ann)"
      "pending (pool s) (ById 7) = None"
    by (simp_all add: s_def crm_def initial_setup_def c)
  obtain x t where "cache_delete crm_conf (ById 7) s = (Ok x, t)" "pending (pool t) (ById 7) = Some CuDelete"
    and le: "moka t \<subseteq>\<^sub>m moka s |` (- {ById 7, ByEmail ''ann''})"
    using delete_of_cached_record[OF c(1) s(1-3) c(2)] s(4) c by (force simp: wbdc_response_def)
  moreover have "moka t (ByEmail ''ann'') = None" using le by (fastforce simp: map_le_def restrict_map_def dom_def)
  ultimately show ?thesis by (auto simp: s_def)
qed

text \<open>C40: \<open>or_try_insert_with\<close> under a secondary key never succeeds, for no data controller and no key:
  it reads a record from the entry of the secondary key, which it has just set to a reference.\<close>

theorem insert_under_secondary_key_never_succeeds:
  assumes "moka_ok (mk C)"
  shows "get_or_try_insert_with_secondary C key init s \<noteq> (Ok en, t)"
  by (rule insert_with_secondary_never_Ok[OF assms])

theorem insert_under_secondary_key_never_succeeds_witness:
  "\<forall>en t. get_or_try_insert_with_secondary crm_conf (ByEmail ''ann'') (ret ann) crm \<noteq> (Ok en, t)"
  by (intro allI, rule insert_under_secondary_key_never_succeeds) (simp add: crm_conf_def manager_conf_eval moka_ok_map_moka)


text \<open>C37: a change of a cached record of a table that is not \<open>IMMUTABLE\<close> is answered \<open>Nop\<close>: the
  update is pending, but moka keeps the old record, and so do the answers of the cache.\<close>

theorem change_of_mutable_record_leaves_moka_stale:
  fixes C :: "('k, 'v, 'am cache_updates, 'b sim_error, 'm, 'd) conf"
  assumes "dc_on_change (dc C) = (\<lambda>_ v old prev. wbdc_on_change A T v old prev)" "\<not> dcc_immutable T"
    and "moka_ok (mk C)" "pool_quiet (pool s)" "pending (pool s) k \<noteq> Some CuDelete"
    and "mk_lookup (mk C) (moka s) k = Some (Primary old)" "dc_primary_key_of (dc C) v = k"
  shows "\<exists>upd t. get_and_try_compute_with_primary C k (\<lambda>_. ret (Put v)) s = (Ok (Unchanged (entry_new k old)), t) \<and>
    wbdc_on_change A T v old (pending (pool s) k) (backend s) =
      (Ok \<lparr>resp_op = DcNop, resp_update = upd\<rparr> :: ('b sim_error, 'am cache_updates dc_response) res, backend s) \<and>
    pending (pool t) = (pending (pool s))(k := upd) \<and> mk_lookup (mk C) (moka t) \<subseteq>\<^sub>m mk_lookup (mk C) (moka s)"
  by (rule mutable_change_stale[OF assms])

theorem change_of_mutable_record_leaves_moka_stale_witness:
  "\<exists>t. get_and_try_compute_with_primary crm_conf (ById 7) (\<lambda>_. ret (Put ann2)) (crm\<lparr>moka := [ById 7 \<mapsto> Primary ann]\<rparr>) =
     (Ok (Unchanged (entry_new (ById 7) ann)), t) \<and> moka t \<subseteq>\<^sub>m [ById 7 \<mapsto> Primary ann]"
proof -
  define s where "s = crm\<lparr>moka := [ById 7 \<mapsto> Primary ann]\<rparr>"
  have c: "dc_on_change (dc crm_conf) = (\<lambda>_ v old prev. wbdc_on_change (fun_am customer_field) customer_common v old prev)"
      "\<not> dcc_immutable customer_common" "moka_ok (mk crm_conf)" "mk_lookup (mk crm_conf) = (\<lambda>m. m)"
      "dc_primary_key_of (dc crm_conf) ann2 = ById 7"
    by (simp_all add: crm_eval manager_conf_eval moka_ok_map_moka ann2_def) (simp_all add: map_moka_def)
  have s: "pool_quiet (pool s)" "pending (pool s) (ById 7) \<noteq> Some CuDelete" "moka s (ById 7) = Some (Primary ann)"
    by (simp_all add: s_def crm_def initial_setup_def)
  have "mk_lookup (mk crm_conf) (moka s) (ById 7) = Some (Primary ann)" using s(3) c(4) by simp
  from change_of_mutable_record_leaves_moka_stale[OF c(1-3) s(1,2) this c(5)] c(4) show ?thesis
    by (auto simp: s_def)
qed

section \<open>The background task\<close>

text \<open>C11: a \<open>close\<close> that finds the background task waiting wakes it, and the round that follows ends
  the task and closes the cache, so that the caller returns; unless the round left an error for the
  clients, everything is in the backend then.\<close>

theorem close_writes_everything:
  assumes "background C R vok" "coherent C R vok s m" "monitor_task s = Some Waiting"
    and "close_request s = (Ok True, s1)" "monitor_wakes C WokenCleanup s1 = (Ok (), t)"
  shows "woken WokenCleanup s1 \<and> close_wait t = (Ok (), t) \<and> closed t \<and> monitor_task t = Some Finished \<and>
    coherent C R vok t m \<and> (error t = None \<longrightarrow> written R t m)"
proof -
  have s1: "s1 = s\<lparr>shutdown := True, cleanup_notified := True\<rparr>"
    using assms(3,4) by (auto simp: close_request_eq split: option.splits if_splits)
  have co: "coherent C R vok s1 m" using assms(2) coherent_cong[of s1 s C R vok m] by (simp add: s1)
  have due: "flush_due C (WokenCleanup \<noteq> WokenTick) (s1\<lparr>closed := shutdown s1\<rparr>)" by (simp add: flush_due_def)
  show ?thesis
    using background.coherent_monitor_wakes[OF assms(1) co assms(5)] monitor_wakes_frame[OF assms(5)] due
    by (simp add: s1)
qed

theorem close_writes_everything_witness:
  "closed shop_closed \<and> coherent shop_conf shop_rows shop_view shop_closed [1 \<mapsto> tea]"
proof -
  have co: "coherent shop_conf shop_rows shop_view shop_waiting [1 \<mapsto> tea]"
    using shop1_coherent by (simp add: shop_waiting_def monitor_head_def coherent_def stored_ok_def)
  have w: "monitor_task shop_waiting = Some Waiting" by (simp add: shop_waiting_def monitor_head_def shop1_fields)
  have cr: "close_request shop_waiting = (Ok True, shop_closing)"
    by (simp add: close_request_eq shop_waiting_def shop_closing_def monitor_head_def shop1_fields)
  have mw: "monitor_wakes shop_conf WokenCleanup shop_closing = (Ok (), shop_closed)"
    by (simp add: eval_simps shop_eval shop_waiting_def shop_closing_def shop_closed_def shop1_def shop2_def
        cong: eval_cong del: eval_del)
  from close_writes_everything[OF shop_background co w cr mw] show ?thesis by simp
qed

text \<open>C21: a round of the background task that has a reason to flush (a soft flush, a close, more
  updates than \<open>max_updates\<close>, or \<open>flush_interval\<close> ticks since the last flush) and leaves no error
  for the clients has written everything.\<close>

theorem due_round_writes_everything:
  assumes "background C R vok" "coherent C R vok s m" "monitor_wakes C w s = (Ok (), t)" "error t = None"
    and "w \<noteq> WokenTick \<or> shutdown s \<or> length (updates (pool s)) > max_updates C \<or>
      clock s - last_flush s \<ge> flush_interval C"
  shows "R (backend t) = m \<and> (\<forall>k. pending (pool t) k = None) \<and> coherent C R vok t m"
  using background.coherent_monitor_wakes[OF assms(1-3)] assms(4,5)
  by (simp add: flush_due_def written_def)

theorem due_round_writes_everything_witness: "shop_rows (backend shop2) = [1 \<mapsto> tea]"
proof -
  have co: "coherent shop_conf shop_rows shop_view (shop1\<lparr>flush_notified := True\<rparr>) [1 \<mapsto> tea]"
    using shop1_coherent by (simp add: coherent_def stored_ok_def)
  have run: "monitor_wakes shop_conf WokenFlush (shop1\<lparr>flush_notified := True\<rparr>) =
      (Ok (), shop2\<lparr>monitor_task := Some Waiting\<rparr>)"
    by (simp add: eval_simps shop_eval shop1_def shop2_def cong: eval_cong del: eval_del)
  show ?thesis
    using due_round_writes_everything[OF shop_background co run] shop1_fields by (simp add: shop2_def)
qed



text \<open>C29: in every run of the system from a new cache, a closed cache was told to shut down, a
  waiting task has not closed it, and a wake-up is only kept while the task waits.\<close>

theorem background_invariant:
  assumes "sys_run C R (initial_setup mo d now, 0) as (s, n)"
  shows "(closed s \<longrightarrow> shutdown s) \<and> (monitor_task s = Some Waiting \<longrightarrow> \<not> closed s) \<and>
    (flush_notified s \<or> cleanup_notified s \<longrightarrow> monitor_task s = Some Waiting)"
  using monitor_ok_run[OF assms, unfolded fst_conv, OF monitor_ok_initial] by (simp add: monitor_ok_def)

theorem background_invariant_witness: "\<not> flush_notified shop1"
proof -
  have run: "sys_run shop_conf shop_rows (initial_setup (\<lambda>_. None) [] 0, 0) ([] @ [Client (EvInsert tea)]) (shop1, 0)"
    by (rule sys_more[OF sys_none sys_client]) (use shop1_step in \<open>simp add: shop_def\<close>)
  show ?thesis using background_invariant[OF run] shop1_fields by simp
qed

text \<open>C28: a cache that was closed is never flushed by the background task again: after any further
  calls, every turn of the task (one is spawned by the next update) ends it at once and leaves the
  pool and the backend alone.\<close>

theorem closed_for_good:
  assumes "monitor_ok s" "closed s" "sys_run C R (s, n) as (t, n')" "monitor_step C t u"
  shows "closed u \<and> pool u = pool t \<and> backend u = backend t \<and> monitor_task u = Some Finished"
proof -
  have "closed t" "monitor_ok t"
    using closed_run[OF assms(3)] monitor_ok_run[OF assms(3)] assms(1,2) by simp_all
  then show ?thesis using closed_turn[OF assms(4)] by simp
qed

theorem closed_for_good_witness:
  "monitor_task (monitor_head (shop\<lparr>shutdown := True, closed := True, monitor_task := Some Spawned\<rparr>)) = Some Finished"
proof -
  define s where "s = shop\<lparr>shutdown := True, closed := True, monitor_task := Some Spawned\<rparr>"
  have ok: "monitor_ok s" "closed s" by (simp_all add: s_def monitor_ok_def shop_def initial_setup_def)
  have st: "monitor_step shop_conf s (monitor_head s)" by (rule monitor_starts) (simp add: s_def)
  show ?thesis using closed_for_good[OF ok sys_none[of shop_conf shop_rows] st] by (simp add: s_def)
qed

text \<open>C34: \<open>close\<close> may return before anything is written. When the background task has been spawned
  but has not run yet, it does not hold the lock that \<open>close\<close> waits for.\<close>

theorem close_before_the_first_round:
  "\<exists>s. sys_run shop_conf shop_rows (shop, 0) [Client (EvInsert tea), CloseRequest, CloseReturn] (s, 0) \<and>
     pending (pool s) 1 \<noteq> None \<and> backend s = []"
proof -
  define s2 where "s2 = shop1\<lparr>shutdown := True\<rparr>"
  have cr: "close_request shop1 = (Ok True, s2)"
    using shop1_fields by (simp add: close_request_eq s2_def)
  have cw: "close_wait s2 = (Ok (), s2)" by (simp add: s2_def shop1_fields)
  have r1: "sys_run shop_conf shop_rows (shop, 0) ([] @ [Client (EvInsert tea)]) (shop1, 0)"
    by (rule sys_more[OF sys_none sys_client[OF shop1_step]])
  have r2: "sys_run shop_conf shop_rows (shop, 0) (([] @ [Client (EvInsert tea)]) @ [CloseRequest]) (s2, Suc 0)"
    by (rule sys_more[OF r1 sys_close_wait[OF cr]])
  have r3: "sys_run shop_conf shop_rows (shop, 0)
      ((([] @ [Client (EvInsert tea)]) @ [CloseRequest]) @ [CloseReturn]) (s2, 0)"
    by (rule sys_more[OF r2 sys_close_return[OF cw]])
  show ?thesis using r3 shop1_fields by (intro exI[of _ s2]) (simp add: s2_def)
qed

text \<open>C30: an error of the background task that no client has taken keeps the task from flushing; it
  stays in its slot, whatever wakes the task.\<close>

theorem unread_error_stops_flushing:
  assumes "error s = Some e" "monitor_wakes C w s = (Ok (), t)"
  shows "error t = Some e \<and> pool t = pool s \<and> moka t = moka s \<and> last_flush t = last_flush s"
  by (rule monitor_wakes_blocked[OF assms])

theorem unread_error_stops_flushing_witness:
  "pool (snd (monitor_wakes shop_conf WokenFlush (shop1\<lparr>error := Some (SimMsg ''down'')\<rparr>))) = pool shop1"
proof -
  define s where "s = shop1\<lparr>error := Some (SimMsg ''down'')\<rparr>"
  have r: "monitor_wakes shop_conf WokenFlush s = (Ok (), monitor_head s)"
    by (simp add: eval_simps shop_eval s_def shop1_def cong: eval_cong del: eval_del)
  have "error s = Some (SimMsg ''down'')" by (simp add: s_def)
  from unread_error_stops_flushing[OF this r] r show ?thesis by (simp add: s_def)
qed

section \<open>The simulated company\<close>











text \<open>An order that was tried once is never taken again, also when it failed for want of stock and a
  delivery has come in since: it is noted as booked before its stock is taken, and the note stays.\<close>

theorem tried_order_is_refused:
  fixes pf :: "('d, 't, 'm, 'b) platform"
  assumes "company_platform pf T" "books pf T lg co" "company_run pf T co evs co1"
    and "(AddOrder order, ok) \<in> set evs" "\<not> settled (ord_status order)"
  shows "add_order pf order co1 = (Fail (SimMsg ''Inventory already updated from order''), co1)"
proof -
  obtain lg' where "books pf T lg' co1" "lg_booked lg' (ord_id order) \<noteq> None"
    using company_platform.tried_orders_noted[OF assms(1,3,2)] assms(4,5) by blast
  then have "map_of (updated_from co1) (ord_id order) \<noteq> None" by (simp add: books_def books_beside_def)
  then show ?thesis by (rule company_platform.noted_order_refused[OF assms(1) _ assms(5)])
qed

theorem tried_order_is_refused_witness:
  "\<exists>co. company_run town town_tables town0 [(AddOrder order7, False), (AddStock delivery, True)] co \<and>
     add_order town order7 co = (Fail (SimMsg ''Inventory already updated from order''), co)"
proof -
  obtain co where run: "company_run town town_tables town0 [(AddOrder order7, False), (AddStock delivery, True)] co"
    using town_refusal_run by blast
  have "\<not> settled (ord_status order7)" by (simp add: order7_def settled_def)
  from tried_order_is_refused[OF town_company.company_platform_axioms town_books run _ this] run show ?thesis by auto
qed






section \<open>The script writer\<close>

text \<open>C6: every script can be performed. Whatever its random numbers and the order in which its threads
  take their turns, the steps that the script writer has written so far all have an effect on a ledger
  that begins empty (records are added once, what is changed exists, stock suffices, checks agree), the
  stock of that ledger is the writer's own inventory, the day is its day, every order of the script is in the
  ledger, and no two sessions of the script have the same id.\<close>

theorem written_script_plays:
  assumes "script_written (writer_new period customers capacity products workers) ph js w" "products < 2 ^ 31"
  shows "\<exists>lg. replay (w_steps w) blank_page = Some lg \<and> lg_inventory lg = stock_map (w_inventory w) \<and>
    lg_day lg = w_current_day w \<and> dom (lg_orders lg) = set (new_orders (w_steps w)) \<and> distinct (new_sessions (w_steps w))"
proof -
  obtain lg where lg: "in_step ph js w lg" using script_in_step[OF assms] by blast
  then have o: "order_ok js w lg" and s: "session_ok ph js w lg" by (simp_all add: in_step_def)
  note t = tallyD[OF order_okD(1)[OF o]]
  show ?thesis using t(1,2,4,7) s by (intro exI[of _ lg]) (simp add: session_ok_def ids_ok_def)
qed

theorem written_script_plays_witness:
  "\<exists>(w :: writer) lg. length (w_steps w) = 31 \<and> replay (w_steps w) blank_page = Some lg \<and> lg_inventory lg = stock_map (w_inventory w) \<and>
     map inv_stock (w_inventory w) = [3, 3]"
proof -
  obtain ph js w where w: "script_written (writer_new 3 1 4 2 1) ph js w" "length (w_steps w) = 31" "map inv_stock (w_inventory w) = [3, 3]"
    using sample_written by (elim exE conjE) (rule that)
  obtain lg where "replay (w_steps w) blank_page = Some lg" "lg_inventory lg = stock_map (w_inventory w)"
    using written_script_plays[OF w(1)] by auto
  with w(2,3) show ?thesis by (intro exI[of _ w] exI[of _ lg]) simp
qed

text \<open>C7: no order is forgotten, and none is served twice. At every moment the orders of the script are
  those that the ledger has booked, and those in the writer's queues of backorders; an order is in at most
  one place of the queues, and there only while it is not booked.\<close>

theorem no_order_is_forgotten:
  assumes "script_written (writer_new period customers capacity products workers) ph js w" "products < 2 ^ 31"
  shows "\<exists>lg. replay (w_steps w) blank_page = Some lg \<and> distinct (queued_orders w) \<and>
    set (queued_orders w) = Some ` (set (new_orders (w_steps w)) - dom (lg_booked lg))"
proof -
  obtain lg where lg: "in_step ph js w lg" using script_in_step[OF assms] by blast
  then have o: "order_ok js w lg" by (simp add: in_step_def)
  show ?thesis using tallyD(1)[OF order_okD(1)[OF o]] queues_exact[OF o] by blast
qed

theorem no_order_is_forgotten_witness:
  "\<exists>w lg. length (w_steps w) = 31 \<and> replay (w_steps w) blank_page = Some lg \<and> distinct (queued_orders w) \<and>
     set (queued_orders w) = Some ` (set (new_orders (w_steps w)) - dom (lg_booked lg))"
proof -
  obtain ph js w where w: "script_written (writer_new 3 1 4 2 1) ph js w" "length (w_steps w) = 31"
    using sample_written by (elim exE conjE) (rule that)
  have "(2::int) < 2 ^ 31" by simp
  from no_order_is_forgotten[OF w(1) this] w(2) show ?thesis by blast
qed



end
